(* ===== verification/Prelude.thy ===== *)
theory Prelude
  imports Main "HOL-Library.Word"
begin

text \<open>
  Shared material of the development: the C integer types the programs use, the error monad
  with which exits, failed assertions and memory faults are written, counting of threads by
  program counter, and the interleaving semantics of a fixed pool of threads with the rule that
  turns a one-step invariant into an invariant of every reachable state.
\<close>

unbundle bit_operations_syntax

named_theorems count_simps \<open>counting threads under an update of one program counter\<close>
named_theorems sem_defs \<open>definitions of the semaphore operations\<close>

section \<open>C integers\<close>

type_synonym uchar = "8 word"
type_synonym ushort = "16 word"
type_synonym uint = "32 word"
type_synonym tid = nat

text \<open>A 32-bit integer read as signed: non-negative exactly below \<open>2 ^ 31\<close>.\<close>

lemma sint_nonneg_iff: "0 \<le> sint (w :: uint) \<longleftrightarrow> unat w < 2 ^ 31"
proof
  assume "0 \<le> sint w"
  moreover have "sint w < 2 ^ 31" using sint_lt [of w] by simp
  ultimately have "uint w < 2 ^ 31" by (simp add: uint_sint take_bit_int_eq_self)
  then show "unat w < 2 ^ 31" by (simp add: nat_less_iff flip: nat_uint_eq)
next
  assume "unat w < 2 ^ 31"
  then have "uint w < 2 ^ 31" by (simp add: nat_less_iff flip: nat_uint_eq)
  moreover have "- (2 ^ 31) \<le> uint w" by (rule order.trans [OF _ uint_ge_0]) simp
  ultimately have "sint w = uint w" by (simp add: sint_uint signed_take_bit_int_eq_self)
  then show "0 \<le> sint w" by simp
qed

text \<open>The value an \<open>int\<close> has after an operation with the result \<open>x\<close>: the wrap-around of two's complement.\<close>

definition int32 :: "int \<Rightarrow> int" where
  "int32 x = (x + 2147483648) mod 4294967296 - 2147483648"

lemma int32_id: "- (2 ^ 31) \<le> x \<Longrightarrow> x < 2 ^ 31 \<Longrightarrow> int32 x = x"
  by (simp add: int32_def)

lemma int32_range: "- (2 ^ 31) \<le> int32 x" "int32 x < 2 ^ 31"
  by (simp_all add: int32_def)

lemma int32_add: "int32 (int32 x + y) = int32 (x + y)"
proof -
  have eq: "int32 x + y + 2147483648 = (x + 2147483648) mod 4294967296 + y" by (simp add: int32_def)
  have "(int32 x + y + 2147483648) mod 4294967296 = (x + 2147483648 + y) mod 4294967296"
    unfolding eq by (rule mod_add_left_eq)
  moreover have "x + 2147483648 + y = x + y + 2147483648" by simp
  ultimately have "(int32 x + y + 2147483648) mod 4294967296 = (x + y + 2147483648) mod 4294967296" by metis
  then show ?thesis unfolding int32_def [of "int32 x + y"] int32_def [of "x + y"] by simp
qed

lemma int32_add_right: "int32 (y + int32 x) = int32 (y + x)"
  using int32_add [of x y] by (simp add: add.commute)

lemma int32_idem [simp]: "int32 (int32 x) = int32 x"
  using int32_range [of x] by (simp add: int32_id)

text \<open>A count that has not become smaller by adding 1 has not wrapped around.\<close>

lemma int32_Suc: "x < 2 ^ 31 \<Longrightarrow> 0 \<le> x \<Longrightarrow> x \<le> int32 (x + 1) \<Longrightarrow> int32 (x + 1) = x + 1 \<and> x + 1 < 2 ^ 31"
  by (cases "x = 2147483647") (auto simp: int32_def)

section \<open>Computations that may stop with an error\<close>

definition ebind :: "'e + 'a \<Rightarrow> ('a \<Rightarrow> 'e + 'b) \<Rightarrow> 'e + 'b" where
  "ebind m f = (case m of Inl e \<Rightarrow> Inl e | Inr a \<Rightarrow> f a)"

lemma ebind_Inl [simp]: "ebind (Inl e) f = Inl e"
  by (simp add: ebind_def)

lemma ebind_Inr [simp]: "ebind (Inr a) f = f a"
  by (simp add: ebind_def)

lemma ebind_eq_Inr: "ebind m f = Inr b \<longleftrightarrow> (\<exists>a. m = Inr a \<and> f a = Inr b)"
  by (simp add: ebind_def split: sum.splits)

lemma ebind_eq_Inl: "ebind m f = Inl e \<longleftrightarrow> m = Inl e \<or> (\<exists>a. m = Inr a \<and> f a = Inl e)"
  by (simp add: ebind_def split: sum.splits)

lemma ebind_assoc: "ebind (ebind m f) g = ebind m (\<lambda>a. ebind (f a) g)"
  by (simp add: ebind_def split: sum.splits)

lemma ebind_cong [fundef_cong]:
  "m = m' \<Longrightarrow> (\<And>a. m' = Inr a \<Longrightarrow> f a = f' a) \<Longrightarrow> ebind m f = ebind m' f'"
  by (simp add: ebind_def split: sum.splits)

text \<open>A \<open>for\<close> loop over the elements of a list, threading a state and stopping at an error.\<close>

fun efold :: "('a \<Rightarrow> 's \<Rightarrow> 'e + 's) \<Rightarrow> 'a list \<Rightarrow> 's \<Rightarrow> 'e + 's" where
  "efold f [] s = Inr s"
| "efold f (x # xs) s = ebind (f x s) (efold f xs)"

lemma efold_append: "efold f (xs @ ys) s = ebind (efold f xs s) (efold f ys)"
proof (induction xs arbitrary: s)
  case (Cons x xs)
  then have "efold f (xs @ ys) = (\<lambda>s. ebind (efold f xs s) (efold f ys))" by blast
  then show ?case by (simp add: ebind_assoc)
qed simp

lemma efold_cong [fundef_cong]:
  assumes "xs = ys" "s = t" "\<And>x u. x \<in> set ys \<Longrightarrow> f x u = g x u"
  shows "efold f xs s = efold g ys t"
proof -
  have "efold f ys u = efold g ys u" for u
    using assms(3) by (induction ys arbitrary: u) (auto intro: ebind_cong)
  with assms(1,2) show ?thesis by simp
qed

lemma efold_invariant:
  assumes "efold f xs s = Inr t" and "P s"
    and "\<And>x s t. x \<in> set xs \<Longrightarrow> P s \<Longrightarrow> f x s = Inr t \<Longrightarrow> P t"
  shows "P t"
  using assms
proof (induction xs arbitrary: s)
  case Nil
  then show ?case by simp
next
  case (Cons x xs)
  then obtain u where "f x s = Inr u" and "efold f xs u = Inr t"
    by (auto simp: ebind_eq_Inr)
  with Cons show ?case by (metis list.set_intros)
qed

lemma efold_total:
  assumes "P s" "\<And>x s. x \<in> set xs \<Longrightarrow> P s \<Longrightarrow> \<exists>t. f x s = Inr t \<and> P t"
  shows "\<exists>t. efold f xs s = Inr t \<and> P t"
  using assms
proof (induction xs arbitrary: s)
  case (Cons x xs)
  then obtain u where "f x s = Inr u" "P u" by (meson list.set_intros(1))
  with Cons show ?case by simp
qed simp

section \<open>Lists\<close>

lemma upt_Suc_Cons: "i < n \<Longrightarrow> [i..<n] = i # [Suc i..<n]"
  by (rule upt_conv_Cons)

lemma nth_update: "j < length xs \<Longrightarrow> xs[k := x] ! j = (if k = j then x else xs ! j)"
  by (cases "k = j") auto

lemma take_Suc_update: "j < length xs \<Longrightarrow> take (Suc j) (xs[j := x]) = take j xs @ [x]"
  by (simp add: take_Suc_conv_app_nth)

section \<open>Files and C strings\<close>

text \<open>Files are byte lists in a map from path names; a C string ends at the first zero byte.\<close>

type_synonym files = "string \<rightharpoonup> uchar list"

definition content :: "files \<Rightarrow> string \<Rightarrow> uchar list" where
  "content fs p = (case fs p of None \<Rightarrow> [] | Some bs \<Rightarrow> bs)"

definition cstr :: "uchar list \<Rightarrow> uchar list" where
  "cstr bs = takeWhile (\<lambda>b. b \<noteq> 0) bs"

lemma cstr_id: "0 \<notin> set bs \<Longrightarrow> cstr bs = bs"
  unfolding cstr_def by (auto simp: takeWhile_eq_all_conv)

text \<open>The bytes of a string literal.\<close>

definition bytes :: "string \<Rightarrow> uchar list" where
  "bytes = map of_char"

section \<open>Counting threads by program counter\<close>

text \<open>
  Threads are numbered \<open>0 .. n - 1\<close>. \<open>cnt n pc P\<close> is the number of threads whose program
  counter satisfies \<open>P\<close>. The semaphore programs are verified with invariants that are linear
  equations between semaphore values and such counts, and \<open>cnt_upd\<close> is the one fact about
  moving a thread that they need.
\<close>

definition cnt :: "nat \<Rightarrow> (tid \<Rightarrow> 'p) \<Rightarrow> ('p \<Rightarrow> bool) \<Rightarrow> nat" where
  "cnt n pc P = length (filter (\<lambda>i. P (pc i)) [0..<n])"

lemma cnt_0 [simp]: "cnt 0 pc P = 0"
  by (simp add: cnt_def)

lemma cnt_Suc [simp]: "cnt (Suc n) pc P = cnt n pc P + (if P (pc n) then 1 else 0)"
  by (simp add: cnt_def)

lemma cnt_upd_ge [simp]: "n \<le> i \<Longrightarrow> cnt n (pc(i := q)) P = cnt n pc P"
  by (induction n) auto

lemma cnt_upd:
  "i < n \<Longrightarrow> cnt n (pc(i := q)) P + (if P (pc i) then 1 else 0)
     = cnt n pc P + (if P q then 1 else 0)"
proof (induction n)
  case 0
  then show ?case by simp
next
  case (Suc n)
  then show ?case
  proof (cases "i = n")
    case True
    then have "cnt n (pc(i := q)) P = cnt n pc P" by (intro cnt_upd_ge) simp
    with True show ?thesis by (simp del: fun_upd_apply) simp
  next
    case False
    with Suc show ?thesis by simp
  qed
qed

lemma cnt_upd_same [count_simps]:
  "i < n \<Longrightarrow> P (pc i) = P q \<Longrightarrow> cnt n (pc(i := q)) P = cnt n pc P"
  using cnt_upd [of i n pc q P] by (auto split: if_splits)

lemma cnt_upd_enter [count_simps]:
  "i < n \<Longrightarrow> \<not> P (pc i) \<Longrightarrow> P q \<Longrightarrow> cnt n (pc(i := q)) P = Suc (cnt n pc P)"
  using cnt_upd [of i n pc q P] by simp

lemma cnt_upd_leave [count_simps]:
  "i < n \<Longrightarrow> P (pc i) \<Longrightarrow> \<not> P q \<Longrightarrow> cnt n (pc(i := q)) P = cnt n pc P - 1"
  using cnt_upd [of i n pc q P] by simp

lemma cnt_pos: "i < n \<Longrightarrow> P (pc i) \<Longrightarrow> 0 < cnt n pc P"
proof (induction n)
  case (Suc n)
  then show ?case by (cases "i = n") auto
qed simp

lemma cnt_zero_iff: "cnt n pc P = 0 \<longleftrightarrow> (\<forall>i < n. \<not> P (pc i))"
  by (induction n) (auto simp: less_Suc_eq)

lemma cnt_ex: "0 < cnt n pc P \<Longrightarrow> \<exists>i < n. P (pc i)"
  by (metis cnt_zero_iff less_irrefl)

lemma cnt_le: "cnt n pc P \<le> n"
  by (induction n) auto

lemma cnt_full_iff: "cnt n pc P = n \<longleftrightarrow> (\<forall>i < n. P (pc i))"
proof (induction n)
  case (Suc n)
  have "cnt n pc P \<le> n" by (rule cnt_le)
  with Suc show ?case by (auto simp: less_Suc_eq)
qed simp

lemma cnt_mono: "(\<And>p. P p \<Longrightarrow> Q p) \<Longrightarrow> cnt n pc P \<le> cnt n pc Q"
  by (induction n) (auto simp: add_le_mono)

lemma cnt_disj:
  "(\<And>p. \<not> (P p \<and> Q p)) \<Longrightarrow> cnt n pc (\<lambda>p. P p \<or> Q p) = cnt n pc P + cnt n pc Q"
  by (induction n) auto

lemma cnt_two:
  assumes "i < n" "j < n" "i \<noteq> j" "P (pc i)" "P (pc j)"
  shows "2 \<le> cnt n pc P"
  using assms
proof (induction n)
  case (Suc n)
  then consider "i = n" | "j = n" | "i < n \<and> j < n" by linarith
  then show ?case
  proof cases
    case 1
    with Suc.prems have "0 < cnt n pc P" by (auto intro: cnt_pos [of j])
    with 1 Suc.prems show ?thesis by simp
  next
    case 2
    with Suc.prems have "0 < cnt n pc P" by (auto intro: cnt_pos [of i])
    with 2 Suc.prems show ?thesis by simp
  next
    case 3
    with Suc show ?thesis by simp
  qed
qed simp

lemma cnt_const [simp]: "cnt n (\<lambda>_. q) P = (if P q then n else 0)"
  by (induction n) auto

lemma cnt_cong: "(\<And>i. i < n \<Longrightarrow> P (pc i) = Q (pc' i)) \<Longrightarrow> cnt n pc P = cnt n pc' Q"
  by (induction n) auto

text \<open>Sums over the threads, for quantities that accumulate per thread.\<close>

lemma sum_change_one:
  fixes f g :: "nat \<Rightarrow> int"
  assumes "i \<in> A" "finite A" "\<And>t. t \<in> A \<Longrightarrow> t \<noteq> i \<Longrightarrow> g t = f t"
  shows "sum g A = sum f A + (g i - f i)"
proof -
  have "sum g A = g i + sum g (A - {i})" and "sum f A = f i + sum f (A - {i})"
    using assms(1,2) by (auto simp: sum.remove)
  moreover have "sum g (A - {i}) = sum f (A - {i})"
    using assms(3) by (intro sum.cong) auto
  ultimately show ?thesis by simp
qed

section \<open>Interleaved threads\<close>

text \<open>
  A program of \<open>n\<close> threads is a function \<open>step i s\<close>: the state after thread \<open>i\<close> has executed
  its next statement, or \<open>None\<close> when the thread is blocked in \<open>sem_wait\<close> or has finished. Any
  thread may move next, so a state is reachable when some schedule leads to it.
\<close>

inductive reach :: "(tid \<Rightarrow> 's \<Rightarrow> 's option) \<Rightarrow> nat \<Rightarrow> 's \<Rightarrow> 's \<Rightarrow> bool"
  for step :: "tid \<Rightarrow> 's \<Rightarrow> 's option" and n :: nat and s0 :: 's where
  reach_start: "reach step n s0 s0"
| reach_step: "reach step n s0 s \<Longrightarrow> i < n \<Longrightarrow> step i s = Some t \<Longrightarrow> reach step n s0 t"

text \<open>Running a given schedule; \<open>None\<close> when a scheduled thread cannot move.\<close>

fun run_sched :: "(tid \<Rightarrow> 's \<Rightarrow> 's option) \<Rightarrow> tid list \<Rightarrow> 's \<Rightarrow> 's option" where
  "run_sched step [] s = Some s"
| "run_sched step (i # is) s = (case step i s of None \<Rightarrow> None | Some t \<Rightarrow> run_sched step is t)"

lemma reach_run_sched:
  "run_sched step is s = Some t \<Longrightarrow> reach step n s0 s \<Longrightarrow> \<forall>i \<in> set is. i < n \<Longrightarrow> reach step n s0 t"
proof (induction "is" arbitrary: s)
  case Nil
  then show ?case by simp
next
  case (Cons i "is")
  then obtain u where "step i s = Some u" and "run_sched step is u = Some t"
    by (auto split: option.splits)
  moreover from this Cons.prems have "reach step n s0 u"
    by (auto intro: reach_step)
  ultimately show ?case using Cons by simp
qed

lemma run_sched_reach:
  "run_sched step is s0 = Some t \<Longrightarrow> \<forall>i \<in> set is. i < n \<Longrightarrow> reach step n s0 t"
  by (rule reach_run_sched [OF _ reach_start])

text \<open>Two step functions that agree where an invariant of the second holds have the same runs.\<close>

lemma run_sched_cong:
  assumes "\<And>s i. I s \<Longrightarrow> i < n \<Longrightarrow> step i s = step' i s" "\<And>s i t. I s \<Longrightarrow> i < n \<Longrightarrow> step' i s = Some t \<Longrightarrow> I t"
  shows "I s \<Longrightarrow> \<forall>i \<in> set is. i < n \<Longrightarrow> run_sched step is s = run_sched step' is s"
proof (induction "is" arbitrary: s)
  case (Cons i "is")
  have "step i s = step' i s" using Cons.prems assms(1) by simp
  then show ?case using Cons assms(2) [OF Cons.prems(1)] by (auto split: option.split)
qed simp

text \<open>The final state of a schedule, from the evaluation of a test on it.\<close>

lemma run_sched_test:
  "(case m of None \<Rightarrow> False | Some s \<Rightarrow> P s) \<Longrightarrow> (\<And>s. m = Some s \<Longrightarrow> P s \<Longrightarrow> thesis) \<Longrightarrow> thesis"
  by (cases m) auto

text \<open>
  The contract between a program and its verification: an invariant that holds initially and
  that every statement of every thread keeps.
\<close>

locale thread_system =
  fixes step :: "tid \<Rightarrow> 's \<Rightarrow> 's option"
    and n :: nat
    and init :: 's
    and inv :: "'s \<Rightarrow> bool"
  assumes inv_init: "inv init"
    and inv_step: "inv s \<Longrightarrow> i < n \<Longrightarrow> step i s = Some t \<Longrightarrow> inv t"
begin

lemma reach_inv: "reach step n init s \<Longrightarrow> inv s"
  by (induction rule: reach.induct) (auto intro: inv_init inv_step)

lemma run_inv: "run_sched step is init = Some s \<Longrightarrow> \<forall>i \<in> set is. i < n \<Longrightarrow> inv s"
  by (blast intro: reach_inv run_sched_reach)

end

text \<open>
  The liveness contract: every statement uses up some of a budget, and while the program has not
  finished some thread can move. Then no schedule runs for longer than the budget, a state in
  which no thread can move is a finished one, and every partial run can be completed.
\<close>

locale live_system = thread_system step n init inv
  for step :: "tid \<Rightarrow> 's \<Rightarrow> 's option" and n :: nat and init :: 's and inv :: "'s \<Rightarrow> bool" +
  fixes budget :: "'s \<Rightarrow> nat"
    and finished :: "'s \<Rightarrow> bool"
  assumes budget_step: "inv s \<Longrightarrow> i < n \<Longrightarrow> step i s = Some t \<Longrightarrow> budget t < budget s"
    and progress: "inv s \<Longrightarrow> \<not> finished s \<Longrightarrow> \<exists>i < n. step i s \<noteq> None"
begin

lemma sched_length:
  "inv s \<Longrightarrow> run_sched step is s = Some t \<Longrightarrow> \<forall>i \<in> set is. i < n \<Longrightarrow> length is + budget t \<le> budget s"
proof (induction "is" arbitrary: s)
  case Nil
  then show ?case by simp
next
  case (Cons i "is")
  then obtain u where u: "step i s = Some u" "run_sched step is u = Some t"
    by (auto split: option.splits)
  with Cons.prems have "inv u" and "budget u < budget s"
    by (auto intro: inv_step budget_step)
  moreover from this Cons u have "length is + budget t \<le> budget u" by simp
  ultimately show ?case by simp
qed

lemma stuck_finished: "inv s \<Longrightarrow> \<forall>i < n. step i s = None \<Longrightarrow> finished s"
  by (rule ccontr) (use progress [of s] in auto)

lemma completes:
  "inv s \<Longrightarrow> \<exists>is t. (\<forall>i \<in> set is. i < n) \<and> run_sched step is s = Some t \<and> finished t"
proof (induction "budget s" arbitrary: s rule: less_induct)
  case less
  show ?case
  proof (cases "finished s")
    case True
    then show ?thesis by (intro exI [of _ "[]"] exI [of _ s]) simp
  next
    case False
    with less.prems obtain i u where i: "i < n" "step i s = Some u"
      using progress [of s] by auto
    with less.prems have "inv u" and "budget u < budget s" by (auto intro: inv_step budget_step)
    with less.hyps [of u] obtain "is" t where
      "\<forall>i \<in> set is. i < n" "run_sched step is u = Some t" "finished t" by auto
    with i have "(\<forall>j \<in> set (i # is). j < n) \<and> run_sched step (i # is) s = Some t \<and> finished t"
      by simp
    then show ?thesis by (intro exI [of _ "i # is"] exI [of _ t])
  qed
qed

lemma run_bounded:
  assumes "run_sched step is init = Some s" and "\<forall>i \<in> set is. i < n"
  shows "length is \<le> budget init \<and> ((\<forall>i < n. step i s = None) \<longrightarrow> finished s) \<and>
    (\<exists>js t. (\<forall>j \<in> set js. j < n) \<and> run_sched step js s = Some t \<and> finished t)"
proof -
  have "inv s" using assms by (rule run_inv)
  then show ?thesis
    using sched_length [OF inv_init assms] stuck_finished completes by auto
qed

end

text \<open>A budget that is the sum of what each thread has left falls when one thread moves.\<close>

lemma sum_one_less:
  fixes f g :: "nat \<Rightarrow> nat"
  assumes "i < n" "g i < f i" "\<And>j. j < n \<Longrightarrow> j \<noteq> i \<Longrightarrow> g j = f j"
  shows "(\<Sum>j < n. g j) < (\<Sum>j < n. f j)"
  using assms by (intro sum_strict_mono_ex1) (auto simp: le_less)

end
