(* ===== verification/Semaphore.thy ===== *)
theory Semaphore
  imports Prelude
begin

text \<open>
  The semaphore layer of \<^verbatim>\<open>31/common_threads.h\<close>: \<open>Sem_wait\<close> and \<open>Sem_post\<close> on semaphore
  values, and \<open>Sem_open\<close>, which creates a named semaphore and replaces one that an earlier run
  left behind.
\<close>

section \<open>Operations on a semaphore\<close>

text \<open>A semaphore is its value. \<open>Sem_wait\<close> blocks (\<open>None\<close>) at 0.\<close>

definition Sem_wait :: "nat \<Rightarrow> nat option" where
  "Sem_wait v = (if v = 0 then None else Some (v - 1))"

definition Sem_post :: "nat \<Rightarrow> nat" where
  "Sem_post v = v + 1"

declare Sem_wait_def [sem_defs] Sem_post_def [sem_defs]

section \<open>Named semaphores\<close>

text \<open>The names under \<^verbatim>\<open>/dev/shm\<close>. \<open>sem_open\<close> with \<^verbatim>\<open>O_CREAT|O_EXCL\<close> fails with \<open>EEXIST\<close> when the
  name is taken; \<open>check_shm\<close> unlinks the name.\<close>

type_synonym sem_names = "string \<Rightarrow> bool"

definition sem_open_excl :: "string \<Rightarrow> nat \<Rightarrow> sem_names \<Rightarrow> (nat \<times> sem_names) option" where
  "sem_open_excl name v tbl = (if tbl name then None else Some (v, tbl(name := True)))"

definition check_shm :: "string \<Rightarrow> sem_names \<Rightarrow> sem_names" where
  "check_shm name tbl = tbl(name := False)"

text \<open>\<open>Sem_open\<close> calls itself after unlinking; the result is the value the semaphore starts
  with.\<close>

function Sem_open :: "string \<Rightarrow> nat \<Rightarrow> sem_names \<Rightarrow> nat \<times> sem_names" where
  "Sem_open name v tbl =
    (case sem_open_excl name v tbl of
       Some r \<Rightarrow> r
     | None \<Rightarrow> Sem_open name 1 (check_shm name tbl))"
  by pat_completeness auto
termination
  by (relation "measure (\<lambda>(name, v, tbl). if tbl name then 1 else 0)")
    (auto simp: sem_open_excl_def check_shm_def split: if_splits)

declare Sem_open.simps [simp del]

lemma Sem_open_eq: "Sem_open name v tbl = (if tbl name then 1 else v, tbl(name := True))"
proof (cases "tbl name")
  case True
  then have "Sem_open name v tbl = Sem_open name 1 (check_shm name tbl)"
    by (subst Sem_open.simps) (simp add: sem_open_excl_def)
  also have "\<dots> = (1, tbl(name := True))"
    by (subst Sem_open.simps) (simp add: sem_open_excl_def check_shm_def)
  finally show ?thesis using True by simp
next
  case False
  then show ?thesis by (subst Sem_open.simps) (simp add: sem_open_excl_def)
qed

text \<open>The start of a clean run: none of the program's names is taken.\<close>

abbreviation no_names :: sem_names where
  "no_names \<equiv> (\<lambda>_. False)"

end
