(* ===== verification/Rwlock.thy ===== *)
theory Rwlock
  imports Semaphore
begin

text \<open>
  The reader-writer lock of \<^verbatim>\<open>31/reader-writer.c\<close> and the threads that use it: any number of
  readers and writers, each running its loop, interleaved statement by statement. Semaphores
  are their values; \<open>sem_wait\<close> blocks at 0. The increment of \<open>value\<close> is a load and a store, and \<open>value\<close> is an
  \<open>int\<close> of 32 bits.
\<close>

section \<open>The lock and its clients\<close>

text \<open>\<^verbatim>\<open>struct __rwlock_t\<close>: the semaphores \<open>lock\<close> and \<open>writelock\<close> and the reader count.\<close>

record rwlock_t =
  rw_lock :: nat
  rw_writelock :: nat
  rw_readers :: int

definition rwlock_init :: "sem_names \<Rightarrow> rwlock_t \<times> sem_names" where
  "rwlock_init tbl =
    (let (l, tbl1) = Sem_open ''/lock'' 1 tbl; (w, tbl2) = Sem_open ''/writelock'' 1 tbl1
     in (\<lparr>rw_lock = l, rw_writelock = w, rw_readers = 0\<rparr>, tbl2))"

text \<open>
  The control points of \<open>reader\<close> (with \<open>rwlock_acquire_readlock\<close> and
  \<open>rwlock_release_readlock\<close> inlined) and of \<open>writer\<close>; each names the statement that is
  executed next.
\<close>

datatype rwpc =
  RLoop | RWaitLock | RIncReaders | RIfFirst | RWaitWrite | RPostLock | RPrint
| RelWaitLock | RDecReaders | RIfLast | RPostWrite | RelPostLock | RReturn
| WLoop | WWaitWrite | WIncValue | WStoreValue | WPrint | WPostWrite | WReturn

datatype rw_output = ReadLine int | WriteLine int

record rw_state =
  rw_rw :: rwlock_t
  rw_value :: int
  rw_tmp :: "tid \<Rightarrow> int"
  rw_i :: "tid \<Rightarrow> nat"
  rw_pc :: "tid \<Rightarrow> rwpc"
  rw_out :: "rw_output list"

definition rw_goto :: "tid \<Rightarrow> rwpc \<Rightarrow> rw_state \<Rightarrow> rw_state" where
  "rw_goto t p s = s\<lparr>rw_pc := (rw_pc s)(t := p)\<rparr>"

text \<open>\<open>main\<close>: threads \<open>0 .. num_readers - 1\<close> run \<open>reader\<close>, the next \<open>num_writers\<close> run \<open>writer\<close>.\<close>

definition rw_main :: "sem_names \<Rightarrow> nat \<Rightarrow> rw_state" where
  "rw_main tbl num_readers =
     \<lparr>rw_rw = fst (rwlock_init tbl), rw_value = 0, rw_tmp = (\<lambda>_. 0), rw_i = (\<lambda>_. 0),
      rw_pc = (\<lambda>t. if t < num_readers then RLoop else WLoop), rw_out = []\<rparr>"

text \<open>One statement of \<open>rwlock_acquire_readlock\<close>; \<open>None\<close> when the thread blocks.\<close>

definition acquire_readlock_step :: "tid \<Rightarrow> rw_state \<Rightarrow> rw_state option" where
  "acquire_readlock_step t s =
    (let rw = rw_rw s in
     case rw_pc s t of
       RWaitLock \<Rightarrow> map_option
          (\<lambda>v. rw_goto t RIncReaders (s\<lparr>rw_rw := rw\<lparr>rw_lock := v\<rparr>\<rparr>)) (Sem_wait (rw_lock rw))
     | RIncReaders \<Rightarrow>
          Some (rw_goto t RIfFirst (s\<lparr>rw_rw := rw\<lparr>rw_readers := rw_readers rw + 1\<rparr>\<rparr>))
     | RIfFirst \<Rightarrow> Some (rw_goto t (if rw_readers rw = 1 then RWaitWrite else RPostLock) s)
     | RWaitWrite \<Rightarrow> map_option
          (\<lambda>v. rw_goto t RPostLock (s\<lparr>rw_rw := rw\<lparr>rw_writelock := v\<rparr>\<rparr>)) (Sem_wait (rw_writelock rw))
     | RPostLock \<Rightarrow> Some (rw_goto t RPrint (s\<lparr>rw_rw := rw\<lparr>rw_lock := Sem_post (rw_lock rw)\<rparr>\<rparr>))
     | _ \<Rightarrow> None)"

definition release_readlock_step :: "tid \<Rightarrow> rw_state \<Rightarrow> rw_state option" where
  "release_readlock_step t s =
    (let rw = rw_rw s in
     case rw_pc s t of
       RelWaitLock \<Rightarrow> map_option
          (\<lambda>v. rw_goto t RDecReaders (s\<lparr>rw_rw := rw\<lparr>rw_lock := v\<rparr>\<rparr>)) (Sem_wait (rw_lock rw))
     | RDecReaders \<Rightarrow>
          Some (rw_goto t RIfLast (s\<lparr>rw_rw := rw\<lparr>rw_readers := rw_readers rw - 1\<rparr>\<rparr>))
     | RIfLast \<Rightarrow> Some (rw_goto t (if rw_readers rw = 0 then RPostWrite else RelPostLock) s)
     | RPostWrite \<Rightarrow> Some (rw_goto t RelPostLock
          (s\<lparr>rw_rw := rw\<lparr>rw_writelock := Sem_post (rw_writelock rw)\<rparr>\<rparr>))
     | RelPostLock \<Rightarrow> Some (rw_goto t RLoop
          (s\<lparr>rw_rw := rw\<lparr>rw_lock := Sem_post (rw_lock rw)\<rparr>, rw_i := (rw_i s)(t := rw_i s t + 1)\<rparr>))
     | _ \<Rightarrow> None)"

text \<open>\<open>rwlock_acquire_writelock\<close> and \<open>rwlock_release_writelock\<close>.\<close>

definition acquire_writelock_step :: "tid \<Rightarrow> rw_state \<Rightarrow> rw_state option" where
  "acquire_writelock_step t s =
    (let rw = rw_rw s in
     map_option (\<lambda>v. rw_goto t WIncValue (s\<lparr>rw_rw := rw\<lparr>rw_writelock := v\<rparr>\<rparr>))
       (Sem_wait (rw_writelock rw)))"

definition release_writelock_step :: "tid \<Rightarrow> rw_state \<Rightarrow> rw_state option" where
  "release_writelock_step t s =
    (let rw = rw_rw s in
     Some (rw_goto t WLoop (s\<lparr>rw_rw := rw\<lparr>rw_writelock := Sem_post (rw_writelock rw)\<rparr>,
                              rw_i := (rw_i s)(t := rw_i s t + 1)\<rparr>)))"

text \<open>One statement of \<open>reader\<close> and of \<open>writer\<close>; \<open>loops\<close> is the loop bound from the command line, \<open>rw_tmp\<close> the
  register of \<open>value++\<close>.\<close>

definition reader_step :: "nat \<Rightarrow> tid \<Rightarrow> rw_state \<Rightarrow> rw_state option" where
  "reader_step loops t s =
    (case rw_pc s t of
       RLoop \<Rightarrow> Some (rw_goto t (if rw_i s t < loops then RWaitLock else RReturn) s)
     | RPrint \<Rightarrow> Some (rw_goto t RelWaitLock (s\<lparr>rw_out := rw_out s @ [ReadLine (rw_value s)]\<rparr>))
     | RReturn \<Rightarrow> None
     | _ \<Rightarrow> (case acquire_readlock_step t s of Some s' \<Rightarrow> Some s'
             | None \<Rightarrow> release_readlock_step t s))"

definition writer_step :: "nat \<Rightarrow> tid \<Rightarrow> rw_state \<Rightarrow> rw_state option" where
  "writer_step loops t s =
    (case rw_pc s t of
       WLoop \<Rightarrow> Some (rw_goto t (if rw_i s t < loops then WWaitWrite else WReturn) s)
     | WWaitWrite \<Rightarrow> acquire_writelock_step t s
     | WIncValue \<Rightarrow> Some (rw_goto t WStoreValue (s\<lparr>rw_tmp := (rw_tmp s)(t := rw_value s)\<rparr>))
     | WStoreValue \<Rightarrow> Some (rw_goto t WPrint (s\<lparr>rw_value := int32 (rw_tmp s t + 1)\<rparr>))
     | WPrint \<Rightarrow> Some (rw_goto t WPostWrite (s\<lparr>rw_out := rw_out s @ [WriteLine (rw_value s)]\<rparr>))
     | WPostWrite \<Rightarrow> release_writelock_step t s
     | _ \<Rightarrow> None)"

definition rw_step :: "nat \<Rightarrow> nat \<Rightarrow> tid \<Rightarrow> rw_state \<Rightarrow> rw_state option" where
  "rw_step num_readers loops t s =
    (if t < num_readers then reader_step loops t s else writer_step loops t s)"

lemmas rw_step_defs = rw_step_def reader_step_def writer_step_def acquire_writelock_step_def
  release_writelock_step_def acquire_readlock_step_def release_readlock_step_def
  rw_goto_def Let_def sem_defs

section \<open>The invariant\<close>

text \<open>Control points inside the section guarded by \<open>lock\<close>, those of a reader that is counted in
  \<open>readers\<close>, and those of a writer that owns \<open>writelock\<close>.\<close>

definition in_lock :: "rwpc \<Rightarrow> bool" where
  "in_lock p \<longleftrightarrow> p \<in> {RIncReaders, RIfFirst, RWaitWrite, RPostLock, RDecReaders, RIfLast,
                      RPostWrite, RelPostLock}"

definition counted :: "rwpc \<Rightarrow> bool" where
  "counted p \<longleftrightarrow> p \<in> {RIfFirst, RWaitWrite, RPostLock, RPrint, RelWaitLock, RDecReaders}"

definition writing :: "rwpc \<Rightarrow> bool" where
  "writing p \<longleftrightarrow> p \<in> {WIncValue, WStoreValue, WPrint, WPostWrite}"

definition entering :: "rwpc \<Rightarrow> bool" where
  "entering p \<longleftrightarrow> p \<in> {RIfFirst, RWaitWrite}"

definition leaving :: "rwpc \<Rightarrow> bool" where
  "leaving p \<longleftrightarrow> p \<in> {RIfLast, RPostWrite}"

lemmas rw_classes = in_lock_def counted_def writing_def entering_def leaving_def

text \<open>The readers own \<open>writelock\<close> exactly when a counted reader is past the entry test or the
  last one has not handed it back yet.\<close>

definition readers_own :: "nat \<Rightarrow> rw_state \<Rightarrow> bool" where
  "readers_own n s \<longleftrightarrow>
     cnt n (rw_pc s) entering < cnt n (rw_pc s) counted + cnt n (rw_pc s) leaving"

definition rw_inv :: "nat \<Rightarrow> rw_state \<Rightarrow> bool" where
  "rw_inv n s \<longleftrightarrow>
     rw_lock (rw_rw s) + cnt n (rw_pc s) in_lock = 1 \<and>
     rw_readers (rw_rw s) = int (cnt n (rw_pc s) counted) \<and>
     rw_writelock (rw_rw s) + cnt n (rw_pc s) writing = (if readers_own n s then 0 else 1) \<and>
     (0 < cnt n (rw_pc s) ((=) RWaitWrite) \<longrightarrow> cnt n (rw_pc s) counted = 1) \<and>
     (0 < cnt n (rw_pc s) ((=) RPostWrite) \<longrightarrow> cnt n (rw_pc s) counted = 0)"

lemma rw_inv_init: "rw_inv n (rw_main tbl r)"
proof -
  have "\<not> P RLoop \<Longrightarrow> \<not> P WLoop \<Longrightarrow> cnt n (rw_pc (rw_main tbl r)) P = 0" for P
    by (auto simp: cnt_zero_iff rw_main_def)
  then show ?thesis
    by (auto simp: rw_inv_def rw_main_def rwlock_init_def Sem_open_eq readers_own_def rw_classes)
qed

lemma rw_class_bounds:
  "cnt n pc entering + cnt n pc leaving + cnt n pc ((=) RIncReaders) + cnt n pc ((=) RDecReaders)
     \<le> cnt n pc in_lock"
  "cnt n pc entering \<le> cnt n pc counted"
  "cnt n pc ((=) RWaitWrite) \<le> cnt n pc entering"
  "cnt n pc ((=) RPostWrite) \<le> cnt n pc leaving"
  by (induction n) (auto simp: rw_classes)

lemma rw_inv_step:
  assumes inv: "rw_inv n s" and t: "t < n" and st: "rw_step r l t s = Some s'"
  shows "rw_inv n s'"
proof -
  note pos = cnt_pos [where pc = "rw_pc s", OF t]
  show ?thesis
    using st
    apply (cases "rw_pc s t")
    apply (simp_all add: rw_step_defs split: if_splits)
    apply safe
    apply (insert inv rw_class_bounds [where n = n and pc = "rw_pc s"] t
      pos [of in_lock] pos [of counted] pos [of entering] pos [of leaving] pos [of writing]
      pos [of "(=) RWaitWrite"] pos [of "(=) RPostWrite"] pos [of "(=) RIncReaders"]
      pos [of "(=) RDecReaders"])
    apply (simp_all add: rw_inv_def readers_own_def rw_classes count_simps split: if_splits)
    done
qed

interpretation rw: thread_system "rw_step r l" n "rw_main tbl r" "rw_inv n" for r l n tbl
  by unfold_locales (auto intro: rw_inv_init rw_inv_step)

lemma rw_inv_excl:
  assumes inv: "rw_inv n s" and "w < n" and "writing (rw_pc s w)" and "u < n" and "u \<noteq> w"
  shows "\<not> writing (rw_pc s u) \<and> rw_pc s u \<notin> {RPostLock, RPrint, RelWaitLock, RDecReaders}"
proof -
  from assms(2,3) have w: "0 < cnt n (rw_pc s) writing" by (rule cnt_pos)
  have "\<not> writing (rw_pc s u)"
    using cnt_two [of w n u writing "rw_pc s"] inv assms by (auto simp: rw_inv_def split: if_splits)
  moreover have False if "rw_pc s u \<in> {RPostLock, RPrint, RelWaitLock, RDecReaders}"
  proof -
    have "cnt n (rw_pc s) entering + cnt n (rw_pc s) (\<lambda>p. counted p \<and> \<not> entering p)
        = cnt n (rw_pc s) counted"
      by (subst cnt_disj [symmetric]) (auto intro!: cnt_cong simp: rw_classes)
    moreover have "0 < cnt n (rw_pc s) (\<lambda>p. counted p \<and> \<not> entering p)"
      using that assms(4) by (intro cnt_pos [of u]) (auto simp: rw_classes)
    ultimately have "readers_own n s" by (simp add: readers_own_def)
    with inv w show False by (simp add: rw_inv_def)
  qed
  ultimately show ?thesis by blast
qed

text \<open>Each thread stays in the code of its own function and counts its iterations.\<close>

definition reader_pc :: "rwpc \<Rightarrow> bool" where
  "reader_pc p \<longleftrightarrow> p \<notin> {WLoop, WWaitWrite, WIncValue, WStoreValue, WPrint, WPostWrite, WReturn}"

definition writes_done :: "rw_state \<Rightarrow> tid \<Rightarrow> int" where
  "writes_done s t = int (rw_i s t) + (if rw_pc s t \<in> {WPrint, WPostWrite} then 1 else 0)"

definition rw_iter_ok :: "nat \<Rightarrow> rwpc \<Rightarrow> nat \<Rightarrow> bool" where
  "rw_iter_ok l p i \<longleftrightarrow> (if p \<in> {RLoop, WLoop} then i \<le> l
     else if p \<in> {RReturn, WReturn} then i = l else i < l)"

definition rw_count_inv :: "nat \<Rightarrow> nat \<Rightarrow> nat \<Rightarrow> rw_state \<Rightarrow> bool" where
  "rw_count_inv r l n s \<longleftrightarrow>
     (\<forall>t < n. reader_pc (rw_pc s t) = (t < r)) \<and>
     (\<forall>t < n. rw_iter_ok l (rw_pc s t) (rw_i s t)) \<and>
     (\<forall>t < n. rw_pc s t = WStoreValue \<longrightarrow> rw_tmp s t = rw_value s) \<and>
     rw_value s = int32 (\<Sum>t = r..<n. writes_done s t)"

lemma rw_count_inv_init: "rw_count_inv r l n (rw_main tbl r)"
  by (auto simp: rw_count_inv_def rw_main_def reader_pc_def writes_done_def rw_iter_ok_def int32_def)

lemma rw_step_frame:
  assumes "rw_step r l t s = Some s'" and "u \<noteq> t"
  shows "rw_pc s' u = rw_pc s u" and "rw_i s' u = rw_i s u" and "rw_tmp s' u = rw_tmp s u"
  using assms by (cases "rw_pc s t"; auto simp: rw_step_defs split: if_splits)+

lemma rw_step_value:
  assumes "rw_step r l t s = Some s'"
  shows "rw_value s' = (if rw_pc s t = WStoreValue then int32 (rw_tmp s t + 1) else rw_value s)"
    and "t < r \<Longrightarrow> reader_pc (rw_pc s t) \<Longrightarrow> reader_pc (rw_pc s' t) \<and> rw_pc s t \<noteq> WStoreValue"
    and "\<not> t < r \<Longrightarrow> \<not> reader_pc (rw_pc s t) \<Longrightarrow> \<not> reader_pc (rw_pc s' t) \<and>
           writes_done s' t = writes_done s t + (if rw_pc s t = WStoreValue then 1 else 0)"
    and "rw_iter_ok l (rw_pc s t) (rw_i s t) \<Longrightarrow> rw_iter_ok l (rw_pc s' t) (rw_i s' t)"
    and "rw_pc s' t = WStoreValue \<Longrightarrow> rw_tmp s' t = rw_value s'"
  using assms
  by (cases "rw_pc s t";
      auto simp: rw_step_defs reader_pc_def writes_done_def rw_iter_ok_def split: if_splits)+

lemma rw_count_inv_step:
  assumes ri: "rw_inv n s" and inv: "rw_count_inv r l n s" and t: "t < n" and st: "rw_step r l t s = Some s'"
  shows "rw_count_inv r l n s'"
proof -
  note fr = rw_step_frame [OF st] and val = rw_step_value [OF st]
  have roles: "reader_pc (rw_pc s' u) = (u < r)" if "u < n" for u
    using inv val(2,3) fr that by (cases "u = t") (auto simp: rw_count_inv_def)
  have iters: "rw_iter_ok l (rw_pc s' u) (rw_i s' u)" if "u < n" for u
    using inv val(4) fr that by (cases "u = t") (auto simp: rw_count_inv_def)
  have tmp: "rw_tmp s' u = rw_value s'" if u: "u < n" "rw_pc s' u = WStoreValue" for u
  proof (cases "u = t")
    case False
    have "rw_pc s t \<noteq> WStoreValue"
      using rw_inv_excl [OF ri u(1) _ t] fr(1) [OF False] False u(2) by (auto simp: writing_def)
    then show ?thesis using inv u fr [OF False] val(1) by (auto simp: rw_count_inv_def)
  qed (use val(5) u in simp)
  have others: "writes_done s' u = writes_done s u" if "u \<noteq> t" for u
    using fr that by (simp add: writes_done_def)
  have "rw_value s' = int32 (\<Sum>u = r..<n. writes_done s' u)"
  proof (cases "t < r")
    case True
    with val inv t have "rw_value s' = rw_value s" by (auto simp: rw_count_inv_def)
    moreover from True have "(\<Sum>u = r..<n. writes_done s' u) = (\<Sum>u = r..<n. writes_done s u)"
      by (intro sum.cong) (auto intro: others)
    ultimately show ?thesis using inv by (simp add: rw_count_inv_def)
  next
    case False
    with t have "(\<Sum>u = r..<n. writes_done s' u)
        = (\<Sum>u = r..<n. writes_done s u) + (writes_done s' t - writes_done s t)"
      by (intro sum_change_one) (auto intro: others)
    with False val inv t show ?thesis by (auto simp: rw_count_inv_def int32_add)
  qed
  with roles iters tmp show ?thesis by (simp add: rw_count_inv_def)
qed

section \<open>Progress\<close>

text \<open>What a thread has left to do: at most 12 statements for each iteration it has not
  completed, less those of the current one already done.\<close>

definition rw_done :: "rwpc \<Rightarrow> nat" where
  "rw_done p = (case p of RWaitLock \<Rightarrow> 1 | RIncReaders \<Rightarrow> 2 | RIfFirst \<Rightarrow> 3 | RWaitWrite \<Rightarrow> 4
     | RPostLock \<Rightarrow> 5 | RPrint \<Rightarrow> 6 | RelWaitLock \<Rightarrow> 7 | RDecReaders \<Rightarrow> 8 | RIfLast \<Rightarrow> 9
     | RPostWrite \<Rightarrow> 10 | RelPostLock \<Rightarrow> 11 | RReturn \<Rightarrow> 1 | WWaitWrite \<Rightarrow> 1 | WIncValue \<Rightarrow> 2
     | WStoreValue \<Rightarrow> 3 | WPrint \<Rightarrow> 4 | WPostWrite \<Rightarrow> 5 | WReturn \<Rightarrow> 1 | _ \<Rightarrow> 0)"

definition rw_budget :: "nat \<Rightarrow> nat \<Rightarrow> rw_state \<Rightarrow> nat" where
  "rw_budget l n s = (\<Sum>t < n. 12 * (l - rw_i s t) + 1 - rw_done (rw_pc s t))"

definition rw_finished :: "nat \<Rightarrow> rw_state \<Rightarrow> bool" where
  "rw_finished n s \<longleftrightarrow> (\<forall>t < n. rw_pc s t \<in> {RReturn, WReturn})"

lemma rw_budget_step:
  assumes "rw_count_inv r l n s" "t < n" "rw_step r l t s = Some s'"
  shows "rw_budget l n s' < rw_budget l n s"
  unfolding rw_budget_def
proof (rule sum_one_less [OF assms(2)])
  have "rw_iter_ok l (rw_pc s t) (rw_i s t)" using assms(1,2) by (simp add: rw_count_inv_def)
  with assms(3) show "12 * (l - rw_i s' t) + 1 - rw_done (rw_pc s' t)
      < 12 * (l - rw_i s t) + 1 - rw_done (rw_pc s t)"
    by (cases "rw_pc s t") (auto simp: rw_step_defs rw_iter_ok_def rw_done_def split: if_splits)
next
  show "12 * (l - rw_i s' u) + 1 - rw_done (rw_pc s' u)
      = 12 * (l - rw_i s u) + 1 - rw_done (rw_pc s u)" if "u \<noteq> t" for u
    using rw_step_frame [OF assms(3) that] by simp
qed

text \<open>Which threads are blocked.\<close>

lemma rw_blocked:
  assumes "rw_count_inv r l n s" "t < n" "rw_step r l t s = None"
  shows "rw_pc s t \<in> {RReturn, WReturn} \<or>
    rw_pc s t \<in> {RWaitLock, RelWaitLock} \<and> rw_lock (rw_rw s) = 0 \<or>
    rw_pc s t \<in> {RWaitWrite, WWaitWrite} \<and> rw_writelock (rw_rw s) = 0"
proof -
  have "reader_pc (rw_pc s t) = (t < r)" using assms(1,2) by (simp add: rw_count_inv_def)
  with assms(3) show ?thesis
    by (cases "rw_pc s t") (auto simp: rw_step_defs reader_pc_def split: if_splits)
qed

lemma rw_progress:
  assumes inv: "rw_inv n s" and ci: "rw_count_inv r l n s" and nf: "\<not> rw_finished n s"
  shows "\<exists>t < n. rw_step r l t s \<noteq> None"
proof (rule ccontr)
  assume "\<not> ?thesis"
  then have stuck: "rw_pc s t \<in> {RReturn, WReturn} \<or>
    rw_pc s t \<in> {RWaitLock, RelWaitLock} \<and> rw_lock (rw_rw s) = 0 \<or>
    rw_pc s t \<in> {RWaitWrite, WWaitWrite} \<and> rw_writelock (rw_rw s) = 0" if "t < n" for t
    using rw_blocked [OF ci that] that by blast
  have no_writer: "cnt n (rw_pc s) writing = 0" and no_leaver: "cnt n (rw_pc s) leaving = 0"
    by (auto simp: cnt_zero_iff rw_classes dest!: stuck)
  show False
  proof (cases "rw_lock (rw_rw s) = 0")
    case True
    with inv obtain t where t: "t < n" "in_lock (rw_pc s t)"
      using cnt_ex [of n "rw_pc s" in_lock] by (auto simp: rw_inv_def)
    then have w: "rw_pc s t = RWaitWrite" "rw_writelock (rw_rw s) = 0"
      using stuck [of t] by (auto simp: rw_classes)
    with t have "0 < cnt n (rw_pc s) ((=) RWaitWrite)" by (intro cnt_pos [of t]) auto
    then have "\<not> readers_own n s"
      using inv rw_class_bounds(3) [of n "rw_pc s"] no_leaver
      by (auto simp: rw_inv_def readers_own_def)
    with inv w no_writer show False by (simp add: rw_inv_def)
  next
    case False
    with inv have "cnt n (rw_pc s) in_lock = 0" by (auto simp: rw_inv_def)
    with False have none: "cnt n (rw_pc s) counted = 0"
      by (auto simp: cnt_zero_iff rw_classes dest!: stuck)
    with no_leaver inv no_writer have "rw_writelock (rw_rw s) = 1"
      by (simp add: rw_inv_def readers_own_def)
    with False nf show False by (auto simp: rw_finished_def dest!: stuck)
  qed
qed

definition rw_full_inv :: "nat \<Rightarrow> nat \<Rightarrow> nat \<Rightarrow> rw_state \<Rightarrow> bool" where
  "rw_full_inv r l n s \<longleftrightarrow> rw_inv n s \<and> rw_count_inv r l n s"

interpretation rwl: live_system "rw_step r l" n "rw_main tbl r" "rw_full_inv r l n" "rw_budget l n"
    "rw_finished n" for r l n tbl
  by unfold_locales (auto simp: rw_full_inv_def intro: rw_inv_init rw_count_inv_init rw_inv_step
      rw_count_inv_step rw_budget_step rw_progress [unfolded not_None_eq])

lemma rw_final_value:
  assumes "rw_count_inv r l (r + w) s" and "rw_finished (r + w) s"
  shows "rw_value s = int32 (int w * int l)"
proof -
  have "writes_done s t = int l" if "t \<in> {r..<r + w}" for t
    using assms that by (auto simp: rw_count_inv_def rw_finished_def rw_iter_ok_def writes_done_def)
  then have "(\<Sum>t = r..<r + w. writes_done s t) = (\<Sum>t = r..<r + w. int l)"
    by (intro sum.cong) auto
  with assms(1) show ?thesis by (simp add: rw_count_inv_def)
qed

section \<open>Properties\<close>

text \<open>
  C4: Mutual exclusion. In every state that any interleaving of readers and writers reaches,
  at most one writer is between acquiring and releasing the lock, and while there is one no
  reader is between \<open>rwlock_acquire_readlock\<close> and \<open>rwlock_release_readlock\<close>.
\<close>

theorem rw_mutual_exclusion:
  assumes "reach (rw_step r l) n (rw_main tbl r) s" and "w < n" and "writing (rw_pc s w)"
    and "u < n" and "u \<noteq> w"
  shows "\<not> writing (rw_pc s u) \<and> rw_pc s u \<notin> {RPostLock, RPrint, RelWaitLock, RDecReaders}"
  using rw_inv_excl [OF rw.reach_inv [OF assms(1)]] assms(2-) by blast

theorem rw_mutual_exclusion_witness:
  "\<exists>s. run_sched (rw_step 1 1) [0, 1, 1, 1] (rw_main no_names 1) = Some s \<and> writing (rw_pc s 1) \<and>
       \<not> writing (rw_pc s 0) \<and> rw_pc s 0 \<notin> {RPostLock, RPrint, RelWaitLock, RDecReaders}"
proof -
  have "case run_sched (rw_step 1 1) [0, 1, 1, 1] (rw_main no_names 1) of None \<Rightarrow> False
    | Some s \<Rightarrow> writing (rw_pc s 1)" by code_simp
  then obtain s where s: "run_sched (rw_step 1 1) [0, 1, 1, 1] (rw_main no_names 1) = Some s"
    and w: "writing (rw_pc s 1)" by (rule run_sched_test)
  have "reach (rw_step 1 1) 2 (rw_main no_names 1) s" by (rule run_sched_reach [OF s]) simp
  from rw_mutual_exclusion [OF this, of 1 0] s w show ?thesis by simp
qed

text \<open>
  C5: Total correctness of the program. With \<open>r\<close> readers and \<open>w\<close> writers no schedule is longer
  than \<open>12 * loops + 1\<close> statements per thread; a state in which no thread can move is one where
  all of them have returned (no deadlock) and \<open>value\<close> is \<open>w * loops\<close>, as a 32-bit integer, although each
  increment is a load and a store (no update is lost); and every partial run can be completed to such
  a state.
\<close>

theorem rw_terminates:
  assumes "run_sched (rw_step r l) is (rw_main tbl r) = Some s" and "\<forall>i \<in> set is. i < r + w"
  shows "length is \<le> (r + w) * (12 * l + 1) \<and>
    ((\<forall>i < r + w. rw_step r l i s = None) \<longrightarrow>
       rw_finished (r + w) s \<and> rw_value s = int32 (int w * int l)) \<and>
    (\<exists>js t. (\<forall>j \<in> set js. j < r + w) \<and> run_sched (rw_step r l) js s = Some t \<and>
       rw_finished (r + w) t \<and> rw_value t = int32 (int w * int l))"
proof -
  have reach: "reach (rw_step r l) (r + w) (rw_main tbl r) s"
    using assms by (rule run_sched_reach)
  have fin: "rw_value t = int32 (int w * int l)"
    if "reach (rw_step r l) (r + w) (rw_main tbl r) t" "rw_finished (r + w) t" for t
    using rwl.reach_inv [OF that(1)] that(2) by (auto simp: rw_full_inv_def intro: rw_final_value)
  have "rw_budget l (r + w) (rw_main tbl r) = (r + w) * (12 * l + 1)"
    by (simp add: rw_budget_def rw_main_def rw_done_def if_distrib cong: if_cong)
  moreover note rwl.run_bounded [OF assms]
  ultimately show ?thesis
    using fin [OF reach] fin [OF reach_run_sched [OF _ reach]] by (metis (no_types, lifting))
qed

theorem rw_terminates_witness:
  "\<exists>s. run_sched (rw_step 1 1) ([0, 0, 1] @ replicate 11 0 @ replicate 6 1) (rw_main no_names 1) = Some s \<and>
       (\<forall>i < 2. rw_step 1 1 i s = None) \<and> rw_finished 2 s \<and> rw_value s = 1"
proof -
  let ?is = "[0, 0, 1 :: tid] @ replicate 11 0 @ replicate 6 1"
  have "case run_sched (rw_step 1 1) ?is (rw_main no_names 1) of None \<Rightarrow> False
    | Some s \<Rightarrow> Option.is_none (rw_step 1 1 0 s) \<and> Option.is_none (rw_step 1 1 1 s)" by code_simp
  then obtain s where s: "run_sched (rw_step 1 1) ?is (rw_main no_names 1) = Some s"
    and stuck: "rw_step 1 1 0 s = None" "rw_step 1 1 1 s = None"
    by (rule run_sched_test) (simp add: Option.is_none_def)
  from stuck have none: "\<forall>i < 2. rw_step 1 1 i s = None" by (simp add: less_2_cases_iff)
  have "\<forall>i \<in> set ?is. i < 1 + 1" by auto
  from rw_terminates [OF s this] none have "rw_finished 2 s \<and> rw_value s = 1"
    by (simp add: numeral_2_eq_2 int32_def)
  with s none show ?thesis by blast
qed

end
