(* ===== verification/Rwlock_Nostarve.thy ===== *)
theory Rwlock_Nostarve
  imports Rwlock
begin

text \<open>
  The reader-writer lock of \<^verbatim>\<open>31/reader-writer-nostarve.c\<close>, in which a waiting writer holds back new
  readers with a third semaphore \<open>readlock\<close>. It refines the plain lock of \<open>Rwlock\<close>: forgetting
  \<open>readlock\<close> maps its steps to steps of the plain program or to nothing.
\<close>

section \<open>The lock and its clients\<close>

record rwn_lock_t =
  rwn_lock :: nat
  rwn_writelock :: nat
  rwn_readlock :: nat
  rwn_readers :: int

definition rwn_init :: "sem_names \<Rightarrow> rwn_lock_t \<times> sem_names" where
  "rwn_init tbl =
    (let (l, tbl1) = Sem_open ''/lock'' 1 tbl; (w, tbl2) = Sem_open ''/writelock'' 1 tbl1;
         (r, tbl3) = Sem_open ''/readlock'' 1 tbl2
     in (\<lparr>rwn_lock = l, rwn_writelock = w, rwn_readlock = r, rwn_readers = 0\<rparr>, tbl3))"

datatype rwnpc =
  NRLoop | NRWaitRead | NRPostRead | NRWaitLock | NRIncReaders | NRIfFirst | NRWaitWrite | NRPostLock | NRPrint
| NRelWaitLock | NRDecReaders | NRIfLast | NRPostWrite | NRelPostLock | NRReturn
| NWLoop | NWWaitRead | NWWaitWrite | NWIncValue | NWStoreValue | NWPrint | NWPostWrite | NWPostRead | NWReturn

record rwn_state =
  rwn_rw :: rwn_lock_t
  rwn_value :: int
  rwn_tmp :: "tid \<Rightarrow> int"
  rwn_i :: "tid \<Rightarrow> nat"
  rwn_pc :: "tid \<Rightarrow> rwnpc"
  rwn_out :: "rw_output list"

definition rwn_goto :: "tid \<Rightarrow> rwnpc \<Rightarrow> rwn_state \<Rightarrow> rwn_state" where
  "rwn_goto t p s = s\<lparr>rwn_pc := (rwn_pc s)(t := p)\<rparr>"

definition rwn_main :: "sem_names \<Rightarrow> nat \<Rightarrow> rwn_state" where
  "rwn_main tbl num_readers =
     \<lparr>rwn_rw = fst (rwn_init tbl), rwn_value = 0, rwn_tmp = (\<lambda>_. 0), rwn_i = (\<lambda>_. 0),
      rwn_pc = (\<lambda>t. if t < num_readers then NRLoop else NWLoop), rwn_out = []\<rparr>"

definition rwn_acquire_readlock_step :: "tid \<Rightarrow> rwn_state \<Rightarrow> rwn_state option" where
  "rwn_acquire_readlock_step t s =
    (let rw = rwn_rw s in
     case rwn_pc s t of
       NRWaitRead \<Rightarrow> map_option
          (\<lambda>v. rwn_goto t NRPostRead (s\<lparr>rwn_rw := rw\<lparr>rwn_readlock := v\<rparr>\<rparr>)) (Sem_wait (rwn_readlock rw))
     | NRPostRead \<Rightarrow> Some (rwn_goto t NRWaitLock (s\<lparr>rwn_rw := rw\<lparr>rwn_readlock := Sem_post (rwn_readlock rw)\<rparr>\<rparr>))
     | NRWaitLock \<Rightarrow> map_option
          (\<lambda>v. rwn_goto t NRIncReaders (s\<lparr>rwn_rw := rw\<lparr>rwn_lock := v\<rparr>\<rparr>)) (Sem_wait (rwn_lock rw))
     | NRIncReaders \<Rightarrow> Some (rwn_goto t NRIfFirst (s\<lparr>rwn_rw := rw\<lparr>rwn_readers := rwn_readers rw + 1\<rparr>\<rparr>))
     | NRIfFirst \<Rightarrow> Some (rwn_goto t (if rwn_readers rw = 1 then NRWaitWrite else NRPostLock) s)
     | NRWaitWrite \<Rightarrow> map_option
          (\<lambda>v. rwn_goto t NRPostLock (s\<lparr>rwn_rw := rw\<lparr>rwn_writelock := v\<rparr>\<rparr>)) (Sem_wait (rwn_writelock rw))
     | NRPostLock \<Rightarrow> Some (rwn_goto t NRPrint (s\<lparr>rwn_rw := rw\<lparr>rwn_lock := Sem_post (rwn_lock rw)\<rparr>\<rparr>))
     | _ \<Rightarrow> None)"

definition rwn_release_readlock_step :: "tid \<Rightarrow> rwn_state \<Rightarrow> rwn_state option" where
  "rwn_release_readlock_step t s =
    (let rw = rwn_rw s in
     case rwn_pc s t of
       NRelWaitLock \<Rightarrow> map_option
          (\<lambda>v. rwn_goto t NRDecReaders (s\<lparr>rwn_rw := rw\<lparr>rwn_lock := v\<rparr>\<rparr>)) (Sem_wait (rwn_lock rw))
     | NRDecReaders \<Rightarrow> Some (rwn_goto t NRIfLast (s\<lparr>rwn_rw := rw\<lparr>rwn_readers := rwn_readers rw - 1\<rparr>\<rparr>))
     | NRIfLast \<Rightarrow> Some (rwn_goto t (if rwn_readers rw = 0 then NRPostWrite else NRelPostLock) s)
     | NRPostWrite \<Rightarrow> Some (rwn_goto t NRelPostLock
          (s\<lparr>rwn_rw := rw\<lparr>rwn_writelock := Sem_post (rwn_writelock rw)\<rparr>\<rparr>))
     | NRelPostLock \<Rightarrow> Some (rwn_goto t NRLoop
          (s\<lparr>rwn_rw := rw\<lparr>rwn_lock := Sem_post (rwn_lock rw)\<rparr>, rwn_i := (rwn_i s)(t := rwn_i s t + 1)\<rparr>))
     | _ \<Rightarrow> None)"

definition rwn_acquire_writelock_step :: "tid \<Rightarrow> rwn_state \<Rightarrow> rwn_state option" where
  "rwn_acquire_writelock_step t s =
    (let rw = rwn_rw s in
     case rwn_pc s t of
       NWWaitRead \<Rightarrow> map_option
          (\<lambda>v. rwn_goto t NWWaitWrite (s\<lparr>rwn_rw := rw\<lparr>rwn_readlock := v\<rparr>\<rparr>)) (Sem_wait (rwn_readlock rw))
     | NWWaitWrite \<Rightarrow> map_option
          (\<lambda>v. rwn_goto t NWIncValue (s\<lparr>rwn_rw := rw\<lparr>rwn_writelock := v\<rparr>\<rparr>)) (Sem_wait (rwn_writelock rw))
     | _ \<Rightarrow> None)"

definition rwn_release_writelock_step :: "tid \<Rightarrow> rwn_state \<Rightarrow> rwn_state option" where
  "rwn_release_writelock_step t s =
    (let rw = rwn_rw s in
     case rwn_pc s t of
       NWPostWrite \<Rightarrow> Some (rwn_goto t NWPostRead (s\<lparr>rwn_rw := rw\<lparr>rwn_writelock := Sem_post (rwn_writelock rw)\<rparr>\<rparr>))
     | NWPostRead \<Rightarrow> Some (rwn_goto t NWLoop
          (s\<lparr>rwn_rw := rw\<lparr>rwn_readlock := Sem_post (rwn_readlock rw)\<rparr>, rwn_i := (rwn_i s)(t := rwn_i s t + 1)\<rparr>))
     | _ \<Rightarrow> None)"

definition rwn_reader_step :: "nat \<Rightarrow> tid \<Rightarrow> rwn_state \<Rightarrow> rwn_state option" where
  "rwn_reader_step loops t s =
    (case rwn_pc s t of
       NRLoop \<Rightarrow> Some (rwn_goto t (if rwn_i s t < loops then NRWaitRead else NRReturn) s)
     | NRPrint \<Rightarrow> Some (rwn_goto t NRelWaitLock (s\<lparr>rwn_out := rwn_out s @ [ReadLine (rwn_value s)]\<rparr>))
     | NRReturn \<Rightarrow> None
     | _ \<Rightarrow> (case rwn_acquire_readlock_step t s of Some s' \<Rightarrow> Some s' | None \<Rightarrow> rwn_release_readlock_step t s))"

definition rwn_writer_step :: "nat \<Rightarrow> tid \<Rightarrow> rwn_state \<Rightarrow> rwn_state option" where
  "rwn_writer_step loops t s =
    (case rwn_pc s t of
       NWLoop \<Rightarrow> Some (rwn_goto t (if rwn_i s t < loops then NWWaitRead else NWReturn) s)
     | NWIncValue \<Rightarrow> Some (rwn_goto t NWStoreValue (s\<lparr>rwn_tmp := (rwn_tmp s)(t := rwn_value s)\<rparr>))
     | NWStoreValue \<Rightarrow> Some (rwn_goto t NWPrint (s\<lparr>rwn_value := int32 (rwn_tmp s t + 1)\<rparr>))
     | NWPrint \<Rightarrow> Some (rwn_goto t NWPostWrite (s\<lparr>rwn_out := rwn_out s @ [WriteLine (rwn_value s)]\<rparr>))
     | NWReturn \<Rightarrow> None
     | _ \<Rightarrow> (case rwn_acquire_writelock_step t s of Some s' \<Rightarrow> Some s' | None \<Rightarrow> rwn_release_writelock_step t s))"

definition rwn_step :: "nat \<Rightarrow> nat \<Rightarrow> tid \<Rightarrow> rwn_state \<Rightarrow> rwn_state option" where
  "rwn_step num_readers loops t s =
    (if t < num_readers then rwn_reader_step loops t s else rwn_writer_step loops t s)"

lemmas rwn_step_defs = rwn_step_def rwn_reader_step_def rwn_writer_step_def rwn_acquire_writelock_step_def
  rwn_release_writelock_step_def rwn_acquire_readlock_step_def rwn_release_readlock_step_def
  rwn_goto_def Let_def sem_defs

section \<open>Refinement of the plain lock\<close>

fun old_pc :: "rwnpc \<Rightarrow> rwpc" where
  "old_pc NRLoop = RLoop" | "old_pc NRWaitRead = RWaitLock" | "old_pc NRPostRead = RWaitLock"
| "old_pc NRWaitLock = RWaitLock" | "old_pc NRIncReaders = RIncReaders" | "old_pc NRIfFirst = RIfFirst"
| "old_pc NRWaitWrite = RWaitWrite" | "old_pc NRPostLock = RPostLock" | "old_pc NRPrint = RPrint"
| "old_pc NRelWaitLock = RelWaitLock" | "old_pc NRDecReaders = RDecReaders" | "old_pc NRIfLast = RIfLast"
| "old_pc NRPostWrite = RPostWrite" | "old_pc NRelPostLock = RelPostLock" | "old_pc NRReturn = RReturn"
| "old_pc NWLoop = WLoop" | "old_pc NWWaitRead = WWaitWrite" | "old_pc NWWaitWrite = WWaitWrite"
| "old_pc NWIncValue = WIncValue" | "old_pc NWStoreValue = WStoreValue" | "old_pc NWPrint = WPrint" | "old_pc NWPostWrite = WPostWrite"
| "old_pc NWPostRead = WLoop" | "old_pc NWReturn = WReturn"

text \<open>In the plain program the loop counter has advanced when \<open>writelock\<close> has been posted.\<close>

definition old_pcs :: "(tid \<Rightarrow> rwnpc) \<Rightarrow> tid \<Rightarrow> rwpc" where
  "old_pcs pc = (\<lambda>t. old_pc (pc t))"

definition old_i :: "(tid \<Rightarrow> nat) \<Rightarrow> (tid \<Rightarrow> rwnpc) \<Rightarrow> tid \<Rightarrow> nat" where
  "old_i i pc = (\<lambda>t. i t + (if pc t = NWPostRead then 1 else 0))"

definition rw_of :: "rwn_state \<Rightarrow> rw_state" where
  "rw_of s =
    \<lparr>rw_rw = \<lparr>rw_lock = rwn_lock (rwn_rw s), rw_writelock = rwn_writelock (rwn_rw s), rw_readers = rwn_readers (rwn_rw s)\<rparr>,
     rw_value = rwn_value s, rw_tmp = rwn_tmp s, rw_i = old_i (rwn_i s) (rwn_pc s), rw_pc = old_pcs (rwn_pc s), rw_out = rwn_out s\<rparr>"

lemma old_upd:
  "old_pcs (pc(t := p)) = (old_pcs pc)(t := old_pc p)"
  "old_i i (pc(t := p)) = (old_i i pc)(t := i t + (if p = NWPostRead then 1 else 0))"
  "old_i (i(t := m)) pc = (old_i i pc)(t := m + (if pc t = NWPostRead then 1 else 0))"
  by (auto simp: old_pcs_def old_i_def)

lemma old_at: "old_pcs pc t = old_pc (pc t)" "old_i i pc t = i t + (if pc t = NWPostRead then 1 else 0)"
  by (simp_all add: old_pcs_def old_i_def)

lemma upd_at: "f t = x \<Longrightarrow> f(t := x) = f"
  by auto

lemma rw_of_main: "rw_of (rwn_main tbl r) = rw_main tbl' r"
  by (auto simp: rw_of_def rwn_main_def rw_main_def rwn_init_def rwlock_init_def Sem_open_eq old_pcs_def old_i_def)

lemma rwn_simulates:
  assumes "rwn_step r l t s = Some s'"
  shows "rw_of s' = rw_of s \<or> rw_step r l t (rw_of s) = Some (rw_of s')"
  using assms
  apply (cases "rwn_pc s t")
  apply (simp_all add: rwn_step_defs split: if_splits)
  apply safe
  apply (simp_all add: rw_of_def rw_step_defs old_upd old_at upd_at)
  done

lemma rwn_reach_refines:
  "reach (rwn_step r l) n (rwn_main tbl r) s \<Longrightarrow> reach (rw_step r l) n (rw_main tbl r) (rw_of s)"
proof (induction rule: reach.induct)
  case reach_start
  then show ?case using rw_of_main [of tbl r tbl] by (simp add: reach.reach_start)
next
  case (reach_step s i t)
  then show ?case using rwn_simulates [OF reach_step.hyps(3)] by (auto intro: reach.reach_step)
qed

section \<open>Holding back new readers\<close>

definition rwn_holds :: "rwnpc \<Rightarrow> bool" where
  "rwn_holds p \<longleftrightarrow> p \<in> {NRPostRead, NWWaitWrite, NWIncValue, NWStoreValue, NWPrint, NWPostWrite, NWPostRead}"

definition rwn_inv :: "nat \<Rightarrow> rwn_state \<Rightarrow> bool" where
  "rwn_inv n s \<longleftrightarrow> rwn_readlock (rwn_rw s) + cnt n (rwn_pc s) rwn_holds = 1"

lemma rwn_inv_init: "rwn_inv n (rwn_main tbl r)"
proof -
  have "cnt n (rwn_pc (rwn_main tbl r)) rwn_holds = 0" by (simp add: cnt_zero_iff rwn_main_def rwn_holds_def)
  then show ?thesis by (simp add: rwn_inv_def rwn_main_def rwn_init_def Sem_open_eq)
qed

lemma rwn_inv_step:
  assumes inv: "rwn_inv n s" and t: "t < n" and st: "rwn_step r l t s = Some s'"
  shows "rwn_inv n s'"
  using st
  apply (cases "rwn_pc s t")
  apply (simp_all add: rwn_step_defs split: if_splits)
  apply safe
  apply (insert inv t cnt_pos [where pc = "rwn_pc s" and P = rwn_holds, OF t])
  apply (simp_all add: rwn_inv_def rwn_holds_def count_simps)
  done

interpretation rwn: thread_system "rwn_step r l" n "rwn_main tbl r" "rwn_inv n" for r l n tbl
  by unfold_locales (auto intro: rwn_inv_init rwn_inv_step)

text \<open>
  The number of reads that reader \<open>j\<close> does during a schedule in which writer \<open>w\<close> waits for
  \<open>writelock\<close> all the time, \<open>None\<close> when it does not or the schedule is not possible; and an upper bound
  of it in the state at the beginning.
\<close>

fun rwn_reads :: "nat \<Rightarrow> nat \<Rightarrow> tid \<Rightarrow> tid \<Rightarrow> tid list \<Rightarrow> rwn_state \<Rightarrow> nat option" where
  "rwn_reads r l w j [] s = (if rwn_pc s w = NWWaitWrite then Some 0 else None)"
| "rwn_reads r l w j (t # ts) s =
    (if rwn_pc s w = NWWaitWrite then
       (case rwn_step r l t s of None \<Rightarrow> None
        | Some s' \<Rightarrow> map_option (\<lambda>k. k + (if t = j \<and> rwn_pc s t = NRPrint then 1 else 0)) (rwn_reads r l w j ts s'))
     else None)"

definition rwn_to_read :: "rwnpc \<Rightarrow> nat" where
  "rwn_to_read p = (if p \<in> {NRWaitLock, NRIncReaders, NRIfFirst, NRWaitWrite, NRPostLock, NRPrint} then 1 else 0)"

lemma rwn_to_read_step:
  assumes inv: "rwn_inv n s" and w: "w < n" "rwn_pc s w = NWWaitWrite" and t: "t < n" and st: "rwn_step r l t s = Some s'"
  shows "rwn_to_read (rwn_pc s' j) + (if t = j \<and> rwn_pc s t = NRPrint then 1 else 0) \<le> rwn_to_read (rwn_pc s j)"
proof -
  have one: "rwn_readlock (rwn_rw s) = 0" "rwn_holds (rwn_pc s u) \<Longrightarrow> u < n \<Longrightarrow> u = w" for u
    using inv w cnt_pos [of w n rwn_holds "rwn_pc s"] cnt_two [of w n u rwn_holds "rwn_pc s"]
    by (auto simp: rwn_inv_def rwn_holds_def)
  show ?thesis
  proof (cases "t = j")
    case True
    then show ?thesis
      using st one(1) one(2) [of t] t w
      by (cases "rwn_pc s t") (auto simp: rwn_step_defs rwn_to_read_def rwn_holds_def split: if_splits)
  next
    case False
    then have "rwn_pc s' j = rwn_pc s j"
      using st by (cases "rwn_pc s t") (auto simp: rwn_step_defs split: if_splits)
    then show ?thesis using False by simp
  qed
qed

lemma rwn_reads_bound:
  assumes "w < n"
  shows "rwn_inv n s \<Longrightarrow> rwn_reads r l w j ts s = Some k \<Longrightarrow> \<forall>t \<in> set ts. t < n \<Longrightarrow> k \<le> rwn_to_read (rwn_pc s j)"
proof (induction ts arbitrary: s k)
  case Nil
  then show ?case by (simp split: if_splits)
next
  case (Cons t ts)
  then obtain s' k' where s': "rwn_step r l t s = Some s'" "rwn_reads r l w j ts s' = Some k'"
    "k = k' + (if t = j \<and> rwn_pc s t = NRPrint then 1 else 0)" "rwn_pc s w = NWWaitWrite"
    by (auto split: if_splits option.splits)
  moreover have "k' \<le> rwn_to_read (rwn_pc s' j)"
    using Cons s' by (intro Cons.IH) (auto intro: rwn_inv_step)
  moreover have "rwn_to_read (rwn_pc s' j) + (if t = j \<and> rwn_pc s t = NRPrint then 1 else 0) \<le> rwn_to_read (rwn_pc s j)"
    using Cons.prems s' assms by (intro rwn_to_read_step) auto
  ultimately show ?case by linarith
qed

lemma old_pc_writing: "p \<in> {NWIncValue, NWStoreValue, NWPrint, NWPostWrite} \<Longrightarrow> writing (old_pc p)"
  by (elim insertE emptyE) (simp_all add: writing_def)

lemma old_pc_inside:
  "p \<in> {NWIncValue, NWStoreValue, NWPrint, NWPostWrite, NRPostLock, NRPrint, NRelWaitLock, NRDecReaders} \<Longrightarrow>
   writing (old_pc p) \<or> old_pc p \<in> {RPostLock, RPrint, RelWaitLock, RDecReaders}"
  by (elim insertE emptyE) (simp_all add: writing_def)

section \<open>Properties\<close>

text \<open>
  C38: The lock refines the plain reader-writer lock: forgetting \<open>readlock\<close> maps every reachable state
  to a reachable state of \<^verbatim>\<open>31/reader-writer.c\<close> with the same output and value, and so a writer
  excludes the other writers and all readers.
\<close>

theorem rwn_refines_rwlock:
  assumes "reach (rwn_step r l) n (rwn_main tbl r) s"
  shows "reach (rw_step r l) n (rw_main tbl r) (rw_of s) \<and> rw_out (rw_of s) = rwn_out s \<and> rw_value (rw_of s) = rwn_value s \<and>
    (\<forall>w < n. \<forall>u < n. u \<noteq> w \<longrightarrow> rwn_pc s w \<in> {NWIncValue, NWStoreValue, NWPrint, NWPostWrite} \<longrightarrow>
       rwn_pc s u \<notin> {NWIncValue, NWStoreValue, NWPrint, NWPostWrite, NRPostLock, NRPrint, NRelWaitLock, NRDecReaders})"
proof -
  have r: "reach (rw_step r l) n (rw_main tbl r) (rw_of s)" using assms by (rule rwn_reach_refines)
  have "rwn_pc s u \<notin> {NWIncValue, NWStoreValue, NWPrint, NWPostWrite, NRPostLock, NRPrint, NRelWaitLock, NRDecReaders}"
    if "w < n" "u < n" "u \<noteq> w" "rwn_pc s w \<in> {NWIncValue, NWStoreValue, NWPrint, NWPostWrite}" for w u
  proof -
    have pc: "rw_pc (rw_of s) v = old_pc (rwn_pc s v)" for v by (simp add: rw_of_def old_pcs_def)
    have "writing (rw_pc (rw_of s) w)" unfolding pc using that(4) by (rule old_pc_writing)
    from rw_inv_excl [OF rw.reach_inv [OF r] that(1) this that(2,3)]
    show ?thesis unfolding pc using old_pc_inside by metis
  qed
  moreover have "rw_out (rw_of s) = rwn_out s" "rw_value (rw_of s) = rwn_value s" by (simp_all add: rw_of_def)
  ultimately show ?thesis using r by blast
qed

theorem rwn_refines_rwlock_witness:
  "\<exists>s. run_sched (rwn_step 1 1) [0, 0, 1, 0, 1, 1] (rwn_main no_names 1) = Some s \<and> rwn_pc s 1 = NWIncValue \<and>
     reach (rw_step 1 1) 2 (rw_main no_names 1) (rw_of s) \<and> rwn_pc s 0 \<noteq> NRPrint"
proof -
  have "case run_sched (rwn_step 1 1) [0, 0, 1, 0, 1, 1] (rwn_main no_names 1) of None \<Rightarrow> False
    | Some s \<Rightarrow> rwn_pc s 1 = NWIncValue" by code_simp
  then obtain s where s: "run_sched (rwn_step 1 1) [0, 0, 1, 0, 1, 1] (rwn_main no_names 1) = Some s" "rwn_pc s 1 = NWIncValue"
    by (rule run_sched_test)
  have "reach (rwn_step 1 1) 2 (rwn_main no_names 1) s" by (rule run_sched_reach [OF s(1)]) auto
  note p = rwn_refines_rwlock [OF this]
  have "rwn_pc s 0 \<noteq> NRPrint"
    using p [THEN conjunct2, THEN conjunct2, THEN conjunct2, rule_format, of 1 0] s(2) by simp
  with p [THEN conjunct1] s show ?thesis by blast
qed

text \<open>
  C39: A waiting writer is not starved by the readers: from any reachable state, as long as a writer
  that has taken \<open>readlock\<close> waits for \<open>writelock\<close>, every reader reads at most once, whatever the
  schedule.
\<close>

theorem rwn_writer_not_overtaken:
  assumes "reach (rwn_step r l) n (rwn_main tbl r) s" and "w < n" and "\<forall>t \<in> set ts. t < n"
    and "rwn_reads r l w j ts s = Some k"
  shows "k \<le> 1"
proof -
  have "k \<le> rwn_to_read (rwn_pc s j)"
    using rwn_reads_bound [OF assms(2) rwn.reach_inv [OF assms(1)] assms(4,3)] .
  then show ?thesis by (simp add: rwn_to_read_def split: if_splits)
qed

theorem rwn_writer_not_overtaken_witness:
  "\<exists>s. run_sched (rwn_step 1 2) [0, 0, 0, 1, 1] (rwn_main no_names 1) = Some s \<and>
     rwn_reads 1 2 1 0 (replicate 12 0) s = Some 1 \<and> (1 :: nat) \<le> 1"
proof -
  have "case run_sched (rwn_step 1 2) [0, 0, 0, 1, 1] (rwn_main no_names 1) of None \<Rightarrow> False
    | Some s \<Rightarrow> rwn_reads 1 2 1 0 (replicate 12 0) s = Some 1" by code_simp
  then obtain s where s: "run_sched (rwn_step 1 2) [0, 0, 0, 1, 1] (rwn_main no_names 1) = Some s"
    "rwn_reads 1 2 1 0 (replicate 12 0) s = Some 1" by (rule run_sched_test)
  have r: "reach (rwn_step 1 2) 2 (rwn_main no_names 1) s" by (rule run_sched_reach [OF s(1)]) auto
  have "(1 :: nat) \<le> 1" using rwn_writer_not_overtaken [OF r _ _ s(2)] by auto
  with s show ?thesis by blast
qed

end
