(* ===== verification/Mutex_Nostarve.thy ===== *)
theory Mutex_Nostarve
  imports Semaphore
begin

text \<open>
  The starvation-free mutex of \<^verbatim>\<open>31/mutex-nostarve.c\<close> (Morris's algorithm, two waiting rooms with
  turnstiles \<open>t1\<close> and \<open>t2\<close>) and its workers, which run forever, interleaved statement by
  statement.
\<close>

section \<open>The mutex and its workers\<close>

record ns_mutex_t =
  room1 :: int
  room2 :: int
  mutex :: nat
  t1 :: nat
  t2 :: nat

definition ns_mutex_init :: "sem_names \<Rightarrow> ns_mutex_t \<times> sem_names" where
  "ns_mutex_init tbl =
    (let (a, tbl1) = Sem_open ''/mutex'' 1 tbl; (b, tbl2) = Sem_open ''/t1'' 1 tbl1;
         (c, tbl3) = Sem_open ''/t2'' 0 tbl2
     in (\<lparr>room1 = 0, room2 = 0, mutex = a, t1 = b, t2 = c\<rparr>, tbl3))"

text \<open>The statement a worker executes next; \<open>Lock1\<close> to \<open>Unlock1\<close> is the first section on
  \<open>mutex\<close>, \<open>Lock2\<close> to the unlock in either branch the second.\<close>

datatype mnpc =
  MPrint | Lock1 | IncRoom1 | Unlock1 | WaitT1 | IncRoom2 | Lock2 | DecRoom1 | IfRoom1
| UnlockThen | PostT2 | UnlockElse | PostT1 | WaitT2 | DecRoom2 | IncCounter
| IfRoom2 | RelPostT1 | RelPostT2 | Sleep1

record mn_state =
  mn_m :: ns_mutex_t
  mn_counter :: int
  mn_pc :: "tid \<Rightarrow> mnpc"

definition mn_goto :: "tid \<Rightarrow> mnpc \<Rightarrow> mn_state \<Rightarrow> mn_state" where
  "mn_goto t p s = s\<lparr>mn_pc := (mn_pc s)(t := p)\<rparr>"

definition mn_main :: "sem_names \<Rightarrow> mn_state" where
  "mn_main tbl = \<lparr>mn_m = fst (ns_mutex_init tbl), mn_counter = 0, mn_pc = (\<lambda>_. MPrint)\<rparr>"

text \<open>One statement of \<open>ns_mutex_acquire\<close>.\<close>

definition ns_mutex_acquire_step :: "tid \<Rightarrow> mn_state \<Rightarrow> mn_state option" where
  "ns_mutex_acquire_step t s =
    (let m = mn_m s in
     case mn_pc s t of
       Lock1 \<Rightarrow> map_option (\<lambda>v. mn_goto t IncRoom1 (s\<lparr>mn_m := m\<lparr>mutex := v\<rparr>\<rparr>)) (Sem_wait (mutex m))
     | IncRoom1 \<Rightarrow> Some (mn_goto t Unlock1 (s\<lparr>mn_m := m\<lparr>room1 := room1 m + 1\<rparr>\<rparr>))
     | Unlock1 \<Rightarrow> Some (mn_goto t WaitT1 (s\<lparr>mn_m := m\<lparr>mutex := Sem_post (mutex m)\<rparr>\<rparr>))
     | WaitT1 \<Rightarrow> map_option (\<lambda>v. mn_goto t IncRoom2 (s\<lparr>mn_m := m\<lparr>t1 := v\<rparr>\<rparr>)) (Sem_wait (t1 m))
     | IncRoom2 \<Rightarrow> Some (mn_goto t Lock2 (s\<lparr>mn_m := m\<lparr>room2 := room2 m + 1\<rparr>\<rparr>))
     | Lock2 \<Rightarrow> map_option (\<lambda>v. mn_goto t DecRoom1 (s\<lparr>mn_m := m\<lparr>mutex := v\<rparr>\<rparr>)) (Sem_wait (mutex m))
     | DecRoom1 \<Rightarrow> Some (mn_goto t IfRoom1 (s\<lparr>mn_m := m\<lparr>room1 := room1 m - 1\<rparr>\<rparr>))
     | IfRoom1 \<Rightarrow> Some (mn_goto t (if room1 m = 0 then UnlockThen else UnlockElse) s)
     | UnlockThen \<Rightarrow> Some (mn_goto t PostT2 (s\<lparr>mn_m := m\<lparr>mutex := Sem_post (mutex m)\<rparr>\<rparr>))
     | PostT2 \<Rightarrow> Some (mn_goto t WaitT2 (s\<lparr>mn_m := m\<lparr>t2 := Sem_post (t2 m)\<rparr>\<rparr>))
     | UnlockElse \<Rightarrow> Some (mn_goto t PostT1 (s\<lparr>mn_m := m\<lparr>mutex := Sem_post (mutex m)\<rparr>\<rparr>))
     | PostT1 \<Rightarrow> Some (mn_goto t WaitT2 (s\<lparr>mn_m := m\<lparr>t1 := Sem_post (t1 m)\<rparr>\<rparr>))
     | WaitT2 \<Rightarrow> map_option (\<lambda>v. mn_goto t DecRoom2 (s\<lparr>mn_m := m\<lparr>t2 := v\<rparr>\<rparr>)) (Sem_wait (t2 m))
     | DecRoom2 \<Rightarrow> Some (mn_goto t IncCounter (s\<lparr>mn_m := m\<lparr>room2 := room2 m - 1\<rparr>\<rparr>))
     | _ \<Rightarrow> None)"

definition ns_mutex_release_step :: "tid \<Rightarrow> mn_state \<Rightarrow> mn_state option" where
  "ns_mutex_release_step t s =
    (let m = mn_m s in
     case mn_pc s t of
       IfRoom2 \<Rightarrow> Some (mn_goto t (if room2 m = 0 then RelPostT1 else RelPostT2) s)
     | RelPostT1 \<Rightarrow> Some (mn_goto t Sleep1 (s\<lparr>mn_m := m\<lparr>t1 := Sem_post (t1 m)\<rparr>\<rparr>))
     | RelPostT2 \<Rightarrow> Some (mn_goto t Sleep1 (s\<lparr>mn_m := m\<lparr>t2 := Sem_post (t2 m)\<rparr>\<rparr>))
     | _ \<Rightarrow> None)"

definition worker_step :: "tid \<Rightarrow> mn_state \<Rightarrow> mn_state option" where
  "worker_step t s =
    (case mn_pc s t of
       MPrint \<Rightarrow> Some (mn_goto t Lock1 s)
     | IncCounter \<Rightarrow> Some (mn_goto t IfRoom2 (s\<lparr>mn_counter := mn_counter s + 1\<rparr>))
     | IfRoom2 \<Rightarrow> ns_mutex_release_step t s
     | RelPostT1 \<Rightarrow> ns_mutex_release_step t s
     | RelPostT2 \<Rightarrow> ns_mutex_release_step t s
     | Sleep1 \<Rightarrow> Some (mn_goto t MPrint s)
     | _ \<Rightarrow> ns_mutex_acquire_step t s)"

lemmas mn_step_defs = worker_step_def ns_mutex_acquire_step_def ns_mutex_release_step_def
  mn_goto_def Let_def sem_defs

section \<open>The invariant\<close>

text \<open>The threads that hold \<open>mutex\<close>; those counted in the two rooms; and the two parts of the
  thread that carries the token of the turnstiles: in the entry phase room 1 is emptied into
  room 2, in the exit phase room 2 is emptied through the critical section.\<close>

definition mn_locked :: "mnpc \<Rightarrow> bool" where
  "mn_locked p \<longleftrightarrow> p \<in> {IncRoom1, Unlock1, DecRoom1, IfRoom1, UnlockThen, UnlockElse}"

definition in_room1 :: "mnpc \<Rightarrow> bool" where
  "in_room1 p \<longleftrightarrow> p \<in> {Unlock1, WaitT1, IncRoom2, Lock2, DecRoom1}"

definition in_room2 :: "mnpc \<Rightarrow> bool" where
  "in_room2 p \<longleftrightarrow> p \<in> {Lock2, DecRoom1, IfRoom1, UnlockThen, PostT2, UnlockElse, PostT1, WaitT2, DecRoom2}"

definition entry_token :: "mnpc \<Rightarrow> bool" where
  "entry_token p \<longleftrightarrow> p \<in> {IncRoom2, Lock2, DecRoom1, IfRoom1, UnlockElse, PostT1, RelPostT1}"

definition exit_token :: "mnpc \<Rightarrow> bool" where
  "exit_token p \<longleftrightarrow> p \<in> {UnlockThen, PostT2, DecRoom2, IncCounter, IfRoom2, RelPostT2}"

lemmas mn_classes = mn_locked_def in_room1_def in_room2_def entry_token_def exit_token_def

definition more_to_enter :: "mnpc \<Rightarrow> bool" where
  "more_to_enter p \<longleftrightarrow> p \<in> {UnlockElse, PostT1}"

definition mn_inv :: "nat \<Rightarrow> mn_state \<Rightarrow> bool" where
  "mn_inv n s \<longleftrightarrow> (let m = mn_m s; c = cnt n (mn_pc s) in
     mutex m + c mn_locked = 1 \<and>
     t1 m + c entry_token + t2 m + c exit_token = 1 \<and>
     room1 m = int (c in_room1) \<and> room2 m = int (c in_room2) \<and>
     (0 < t2 m + c ((=) RelPostT2) \<longrightarrow> 0 < c in_room2) \<and>
     (0 < t1 m \<longrightarrow> 0 < c in_room1 \<or> c in_room2 = 0) \<and>
     (0 < c more_to_enter \<longrightarrow> 0 < c in_room1) \<and>
     (0 < c ((=) RelPostT1) \<longrightarrow> c in_room2 = 0))"

lemma mn_inv_init: "\<not> tbl ''/t2'' \<Longrightarrow> mn_inv n (mn_main tbl)"
  by (simp add: mn_inv_def mn_main_def ns_mutex_init_def Sem_open_eq mn_classes more_to_enter_def)

lemma mn_class_bounds:
  "cnt n pc ((=) IncRoom2) + cnt n pc ((=) Lock2) + cnt n pc ((=) DecRoom1) + cnt n pc more_to_enter
     + cnt n pc ((=) RelPostT1) + cnt n pc ((=) IfRoom1) \<le> cnt n pc entry_token"
  "cnt n pc ((=) RelPostT2) + cnt n pc ((=) PostT2) + cnt n pc ((=) DecRoom2)
     + cnt n pc ((=) IfRoom2) \<le> cnt n pc exit_token"
  by (induction n) (auto simp: mn_classes more_to_enter_def)

lemma mn_inv_step:
  assumes inv: "mn_inv n s" and t: "t < n" and st: "worker_step t s = Some s'"
  shows "mn_inv n s'"
proof -
  note pos = cnt_pos [where pc = "mn_pc s", OF t]
  show ?thesis
    using st
    apply (cases "mn_pc s t")
    apply (simp_all add: mn_step_defs split: if_splits)
    apply safe
    apply (insert inv mn_class_bounds [where n = n and pc = "mn_pc s"] t
      pos [of mn_locked] pos [of in_room1] pos [of in_room2] pos [of entry_token]
      pos [of exit_token] pos [of more_to_enter] pos [of "(=) RelPostT2"] pos [of "(=) RelPostT1"]
      pos [of "(=) IncRoom2"]
      pos [of "(=) DecRoom1"] pos [of "(=) IfRoom1"] pos [of "(=) DecRoom2"] pos [of "(=) PostT2"]
      pos [of "(=) IfRoom2"])
    apply (simp_all add: mn_inv_def Let_def mn_classes more_to_enter_def count_simps split: if_splits)
    done
qed

interpretation mn: thread_system worker_step n "mn_main (tbl(''/t2'' := False))" "mn_inv n" for n tbl
  by unfold_locales (auto intro: mn_inv_init mn_inv_step)

section \<open>Progress and fairness\<close>

lemma mn_blocked:
  "worker_step t s = None \<Longrightarrow>
     mn_pc s t \<in> {Lock1, Lock2} \<and> mutex (mn_m s) = 0 \<or>
     mn_pc s t = WaitT1 \<and> t1 (mn_m s) = 0 \<or> mn_pc s t = WaitT2 \<and> t2 (mn_m s) = 0"
  by (cases "mn_pc s t") (auto simp: mn_step_defs split: if_splits)

lemma mn_progress:
  assumes inv: "mn_inv n s" and n: "0 < n"
  shows "\<exists>t < n. worker_step t s \<noteq> None"
proof (rule ccontr)
  assume "\<not> ?thesis"
  then have stuck: "mn_pc s t \<in> {Lock1, Lock2} \<and> mutex (mn_m s) = 0 \<or>
     mn_pc s t = WaitT1 \<and> t1 (mn_m s) = 0 \<or> mn_pc s t = WaitT2 \<and> t2 (mn_m s) = 0" if "t < n" for t
    using mn_blocked that by blast
  have "cnt n (mn_pc s) mn_locked = 0"
    by (auto simp: cnt_zero_iff mn_classes dest!: stuck)
  with inv have free: "mutex (mn_m s) = 1" by (simp add: mn_inv_def Let_def)
  then have tokens: "cnt n (mn_pc s) entry_token = 0" "cnt n (mn_pc s) exit_token = 0"
    by (auto simp: cnt_zero_iff mn_classes dest!: stuck)
  have room1: "\<exists>t < n. mn_pc s t = WaitT1" if "0 < cnt n (mn_pc s) in_room1"
    using cnt_ex [OF that] free by (auto simp: mn_classes dest: stuck)
  have room2: "\<exists>t < n. mn_pc s t = WaitT2" if "0 < cnt n (mn_pc s) in_room2"
    using cnt_ex [OF that] free by (auto simp: mn_classes dest: stuck)
  have some: "mn_pc s 0 \<in> {WaitT1, WaitT2}" using stuck [OF n] free by auto
  from inv tokens consider "t1 (mn_m s) = 1" "t2 (mn_m s) = 0" | "t1 (mn_m s) = 0" "t2 (mn_m s) = 1"
    by (auto simp: mn_inv_def Let_def add_is_1)
  then show False
  proof cases
    case 1
    with stuck have no1: "mn_pc s t \<noteq> WaitT1" if "t < n" for t using that by fastforce
    with some n have "mn_pc s 0 = WaitT2" by blast
    with n have "0 < cnt n (mn_pc s) in_room2" by (intro cnt_pos [of 0]) (auto simp: mn_classes)
    with inv 1 have "0 < cnt n (mn_pc s) in_room1" by (auto simp: mn_inv_def Let_def)
    with room1 no1 show False by blast
  next
    case 2
    with inv have "0 < cnt n (mn_pc s) in_room2" by (auto simp: mn_inv_def Let_def)
    with room2 stuck 2 show False by fastforce
  qed
qed

text \<open>How often thread \<open>j\<close> can still pass through the critical section while thread \<open>i\<close> is in
  one of the waiting rooms.\<close>

definition mn_waiting :: "mnpc \<Rightarrow> bool" where
  "mn_waiting p \<longleftrightarrow> p \<in> {Unlock1, WaitT1, IncRoom2, Lock2, DecRoom1, IfRoom1, UnlockThen, PostT2,
                        UnlockElse, PostT1, WaitT2}"

definition mn_exit_phase :: "nat \<Rightarrow> mn_state \<Rightarrow> bool" where
  "mn_exit_phase n s \<longleftrightarrow> 0 < t2 (mn_m s) + cnt n (mn_pc s) exit_token"

definition mn_pot :: "nat \<Rightarrow> tid \<Rightarrow> tid \<Rightarrow> mn_state \<Rightarrow> nat" where
  "mn_pot n i j s =
    (let mine = (if in_room2 (mn_pc s j) \<or> mn_pc s j = IncCounter then 1 else 0) in
     if in_room1 (mn_pc s i) then (if mn_exit_phase n s then 1 + mine else 1)
     else (if mn_exit_phase n s then mine else 1))"

lemma mn_frame: "worker_step t s = Some s' \<Longrightarrow> u \<noteq> t \<Longrightarrow> mn_pc s' u = mn_pc s u"
  by (cases "mn_pc s t") (auto simp: mn_step_defs split: if_splits)

lemma mn_mine_step:
  "worker_step t s = Some s' \<Longrightarrow> in_room2 (mn_pc s' t) \<or> mn_pc s' t = IncCounter \<longleftrightarrow>
     mn_pc s t = IncRoom2 \<or> in_room2 (mn_pc s t)"
  by (cases "mn_pc s t") (auto simp: mn_step_defs mn_classes split: if_splits)

lemma mn_room1_step:
  "worker_step t s = Some s' \<Longrightarrow> mn_waiting (mn_pc s t) \<Longrightarrow>
     in_room1 (mn_pc s' t) \<longleftrightarrow> in_room1 (mn_pc s t) \<and> mn_pc s t \<noteq> DecRoom1"
  by (cases "mn_pc s t") (auto simp: mn_step_defs mn_classes mn_waiting_def split: if_splits)

lemma mn_exit_phase_step:
  assumes inv: "mn_inv n s" and t: "t < n" and st: "worker_step t s = Some s'"
  shows "mn_exit_phase n s' \<longleftrightarrow>
    (if mn_pc s t = IfRoom1 then room1 (mn_m s) = 0
     else if mn_pc s t = IfRoom2 then room2 (mn_m s) \<noteq> 0
     else mn_exit_phase n s)"
proof -
  note pos = cnt_pos [where pc = "mn_pc s", OF t]
  show ?thesis
    using st
    apply (cases "mn_pc s t")
    apply (simp_all add: mn_step_defs split: if_splits)
    apply safe
    apply (insert inv t pos [of entry_token] pos [of exit_token])
    apply (simp_all add: mn_inv_def mn_exit_phase_def Let_def mn_classes count_simps split: if_splits)
    done
qed

lemma mn_exit_phase_iff:
  assumes inv: "mn_inv n s" and t: "t < n"
  shows "entry_token (mn_pc s t) \<Longrightarrow> \<not> mn_exit_phase n s"
    and "exit_token (mn_pc s t) \<Longrightarrow> mn_exit_phase n s"
  using inv cnt_pos [where pc = "mn_pc s", OF t, of entry_token]
    cnt_pos [where pc = "mn_pc s", OF t, of exit_token]
  by (auto simp: mn_inv_def mn_exit_phase_def Let_def)

lemma mn_pot_step:
  assumes inv: "mn_inv n s" and t: "t < n" and st: "worker_step t s = Some s'"
    and i: "i < n" "mn_waiting (mn_pc s i)" "mn_waiting (mn_pc s' i)" and j: "j \<noteq> i"
  shows "mn_pot n i j s' + (if t = j \<and> mn_pc s t = IncCounter then 1 else 0) \<le> mn_pot n i j s"
proof -
  note ph = mn_exit_phase_step [OF inv t st] and tok = mn_exit_phase_iff [OF inv t]
  have i_room: "in_room1 (mn_pc s i) \<Longrightarrow> room1 (mn_m s) \<noteq> 0" "in_room2 (mn_pc s i) \<Longrightarrow> room2 (mn_m s) \<noteq> 0"
    using i(1) inv cnt_pos [of i n in_room1 "mn_pc s"] cnt_pos [of i n in_room2 "mn_pc s"]
    by (auto simp: mn_inv_def Let_def)
  have room: "mn_waiting p \<Longrightarrow> in_room1 p \<or> in_room2 p" for p by (auto simp: mn_waiting_def mn_classes)
  consider "t = i" | "t = j" "t \<noteq> i" | "t \<noteq> i" "t \<noteq> j" by blast
  then show ?thesis
  proof cases
    case 1
    with j have "mn_pc s' j = mn_pc s j" using mn_frame [OF st] by blast
    with 1 i ph tok j mn_room1_step [OF st] show ?thesis
      by (cases "mn_pc s i") (simp_all add: mn_pot_def mn_waiting_def entry_token_def exit_token_def in_room1_def)
  next
    case 2
    then have "mn_pc s' i = mn_pc s i" using mn_frame [OF st, of i] by simp
    with 2 ph tok i_room room [OF i(2)] mn_mine_step [OF st] show ?thesis
      by (cases "mn_pc s t") (simp_all add: mn_pot_def entry_token_def exit_token_def in_room2_def, blast)
  next
    case 3
    then have "mn_pc s' i = mn_pc s i" "mn_pc s' j = mn_pc s j" using mn_frame [OF st] by metis+
    with 3 ph tok i_room room [OF i(2)] show ?thesis
      by (auto simp: mn_pot_def Let_def entry_token_def exit_token_def split: if_splits)
  qed
qed

text \<open>The passages of thread \<open>j\<close> through the critical section along a schedule, counted while
  thread \<open>i\<close> stays in the waiting rooms; \<open>None\<close> when it leaves them or the schedule is not
  possible.\<close>

fun mn_passes :: "tid \<Rightarrow> tid \<Rightarrow> tid list \<Rightarrow> mn_state \<Rightarrow> nat option" where
  "mn_passes i j [] s = (if mn_waiting (mn_pc s i) then Some 0 else None)"
| "mn_passes i j (t # ts) s =
    (if mn_waiting (mn_pc s i) then
       (case worker_step t s of
          None \<Rightarrow> None
        | Some s' \<Rightarrow> map_option (\<lambda>k. k + (if t = j \<and> mn_pc s t = IncCounter then 1 else 0))
                       (mn_passes i j ts s'))
     else None)"

lemma mn_passes_waiting: "mn_passes i j ts s = Some k \<Longrightarrow> mn_waiting (mn_pc s i)"
  by (cases ts) (auto split: if_splits)

lemma mn_passes_pot:
  assumes "i < n" "j \<noteq> i" "mn_inv n s" "mn_passes i j ts s = Some k" "\<forall>t \<in> set ts. t < n"
  shows "k \<le> mn_pot n i j s"
  using assms(3-5)
proof (induction ts arbitrary: s k)
  case Nil
  then show ?case by (simp split: if_splits)
next
  case (Cons t ts)
  then obtain s' k' where s': "worker_step t s = Some s'" "mn_passes i j ts s' = Some k'"
    "k = k' + (if t = j \<and> mn_pc s t = IncCounter then 1 else 0)" and w: "mn_waiting (mn_pc s i)"
    by (auto split: if_splits option.splits)
  with Cons have "k' \<le> mn_pot n i j s'" by (auto intro: mn_inv_step)
  moreover have "mn_pot n i j s' + (if t = j \<and> mn_pc s t = IncCounter then 1 else 0) \<le> mn_pot n i j s"
    using Cons.prems s' w assms(1,2) mn_passes_waiting [OF s'(2)] by (intro mn_pot_step) auto
  ultimately show ?case using s'(3) by linarith
qed

lemma mn_pot_le: "mn_pot n i j s \<le> 2"
  by (simp add: mn_pot_def Let_def)

section \<open>Properties\<close>

definition mn_critical :: "mnpc \<Rightarrow> bool" where
  "mn_critical p \<longleftrightarrow> p \<in> {DecRoom2, IncCounter, IfRoom2, RelPostT1, RelPostT2}"

text \<open>
  C6: The starvation-free mutex excludes: started with no semaphore \<^verbatim>\<open>/t2\<close> left over, any number
  of workers interleaved in any way never has two threads between \<open>ns_mutex_acquire\<close>'s last wait
  and \<open>ns_mutex_release\<close>'s post; and the program never deadlocks: in every reachable state some
  worker can execute its next statement.
\<close>

theorem mn_mutual_exclusion:
  assumes "\<not> tbl ''/t2''" and "reach worker_step n (mn_main tbl) s"
  shows "(\<forall>i < n. \<forall>j < n. mn_critical (mn_pc s i) \<longrightarrow> mn_critical (mn_pc s j) \<longrightarrow> i = j) \<and>
    (0 < n \<longrightarrow> (\<exists>t < n. worker_step t s \<noteq> None))"
proof -
  have "tbl(''/t2'' := False) = tbl" using assms(1) by (simp add: fun_upd_idem_iff)
  with assms(2) mn.reach_inv [of n tbl s] have inv: "mn_inv n s" by simp
  have "i = j" if "i < n" "j < n" "mn_critical (mn_pc s i)" "mn_critical (mn_pc s j)" for i j
  proof (rule ccontr)
    assume "i \<noteq> j"
    moreover have "cnt n (mn_pc s) (\<lambda>p. entry_token p \<or> exit_token p) \<le> 1"
      using inv by (subst cnt_disj) (auto simp: mn_inv_def Let_def entry_token_def exit_token_def)
    moreover have "mn_critical p \<Longrightarrow> entry_token p \<or> exit_token p" for p
      by (auto simp: mn_critical_def mn_classes)
    ultimately show False
      using that cnt_two [of i n j "\<lambda>p. entry_token p \<or> exit_token p" "mn_pc s"] by force
  qed
  with mn_progress [OF inv] show ?thesis by blast
qed

theorem mn_mutual_exclusion_witness:
  "\<exists>s. run_sched worker_step (replicate 12 0 @ [1, 1]) (mn_main no_names) = Some s \<and>
     mn_critical (mn_pc s 0) \<and> \<not> mn_critical (mn_pc s 1)"
proof -
  have "case run_sched worker_step (replicate 12 0 @ [1, 1]) (mn_main no_names) of None \<Rightarrow> False
    | Some s \<Rightarrow> mn_critical (mn_pc s 0)" by code_simp
  then obtain s where s: "run_sched worker_step (replicate 12 0 @ [1, 1]) (mn_main no_names) = Some s"
    and c: "mn_critical (mn_pc s 0)" by (rule run_sched_test)
  have r: "reach worker_step 2 (mn_main no_names) s" by (rule run_sched_reach [OF s]) auto
  have "\<not> no_names ''/t2''" by simp
  from mn_mutual_exclusion [OF this r, THEN conjunct1, rule_format, of 0 1] c
  have "\<not> mn_critical (mn_pc s 1)" by auto
  with s c show ?thesis by auto
qed



text \<open>
  C8: A semaphore \<^verbatim>\<open>/t2\<close> left over by an interrupted run breaks the mutex: \<open>Sem_open\<close> then
  opens \<open>t2\<close> with the value 1 instead of 0, and there is a schedule of two workers that has both
  in the critical section. Since the workers never return, the names are never unlinked.
\<close>

theorem mn_stale_name_breaks_exclusion:
  "\<exists>ts s. run_sched worker_step ts (mn_main (no_names(''/t2'' := True))) = Some s \<and>
     mn_pc s 0 = IncCounter \<and> mn_pc s 1 = IncCounter"
proof -
  let ?s0 = "mn_main (no_names(''/t2'' := True))"
  let ?ts = "replicate 4 1 @ replicate 13 0 @ replicate 9 1"
  have "case run_sched worker_step ?ts ?s0 of None \<Rightarrow> False
    | Some s \<Rightarrow> mn_pc s 0 = IncCounter \<and> mn_pc s 1 = IncCounter" by code_simp
  then obtain s where "run_sched worker_step ?ts ?s0 = Some s"
    "mn_pc s 0 = IncCounter \<and> mn_pc s 1 = IncCounter" by (rule run_sched_test)
  then show ?thesis by blast
qed

end
