(* ===== verification/Barrier.thy ===== *)
theory Barrier
  imports Semaphore
begin

text \<open>
  The reusable barrier of \<^verbatim>\<open>31/barrier.c\<close> with its \<open>num_threads\<close> children, interleaved statement
  by statement. The parts under \<open>DEBUG_POST\<close> and \<open>LOG\<close> are not compiled.
\<close>

section \<open>The barrier and the children\<close>

record barrier_t =
  b_mutex :: nat
  turnstile1 :: nat
  turnstile2 :: nat
  num_arrived :: int
  num_threads :: nat

definition barrier_init :: "nat \<Rightarrow> sem_names \<Rightarrow> barrier_t \<times> sem_names" where
  "barrier_init n tbl =
    (let (a, tbl1) = Sem_open ''/mutex'' 1 tbl; (b, tbl2) = Sem_open ''/turnstile1'' 0 tbl1;
         (c, tbl3) = Sem_open ''/turnstile2'' 0 tbl2
     in (\<lparr>b_mutex = a, turnstile1 = b, turnstile2 = c, num_arrived = 0, num_threads = n\<rparr>, tbl3))"

text \<open>The statement a child executes next; \<open>BPost1 i\<close> and \<open>BPost2 i\<close> are the heads of the posting
  loops with their loop variable.\<close>

datatype barpc =
  PrintBefore | BLock1 | BInc | BIfAll | BPost1 nat | BUnlock1 | BWaitT1
| BLock2 | BDec | BIfZero | BPost2 nat | BUnlock2 | BWaitT2 | PrintAfter | BReturn

datatype bar_output = Before tid | After tid

record bar_state =
  bar_b :: barrier_t
  bar_pc :: "tid \<Rightarrow> barpc"
  bar_out :: "bar_output list"

definition bar_goto :: "tid \<Rightarrow> barpc \<Rightarrow> bar_state \<Rightarrow> bar_state" where
  "bar_goto t p s = s\<lparr>bar_pc := (bar_pc s)(t := p)\<rparr>"

definition barrier_step :: "tid \<Rightarrow> bar_state \<Rightarrow> bar_state option" where
  "barrier_step t s =
    (let b = bar_b s in
     case bar_pc s t of
       BLock1 \<Rightarrow> map_option (\<lambda>v. bar_goto t BInc (s\<lparr>bar_b := b\<lparr>b_mutex := v\<rparr>\<rparr>)) (Sem_wait (b_mutex b))
     | BInc \<Rightarrow> Some (bar_goto t BIfAll (s\<lparr>bar_b := b\<lparr>num_arrived := num_arrived b + 1\<rparr>\<rparr>))
     | BIfAll \<Rightarrow> Some (bar_goto t
          (if num_arrived b = int (num_threads b) then BPost1 0 else BUnlock1) s)
     | BPost1 i \<Rightarrow> (if i < num_threads b
          then Some (bar_goto t (BPost1 (i + 1)) (s\<lparr>bar_b := b\<lparr>turnstile1 := Sem_post (turnstile1 b)\<rparr>\<rparr>))
          else Some (bar_goto t BUnlock1 s))
     | BUnlock1 \<Rightarrow> Some (bar_goto t BWaitT1 (s\<lparr>bar_b := b\<lparr>b_mutex := Sem_post (b_mutex b)\<rparr>\<rparr>))
     | BWaitT1 \<Rightarrow> map_option (\<lambda>v. bar_goto t BLock2 (s\<lparr>bar_b := b\<lparr>turnstile1 := v\<rparr>\<rparr>))
                  (Sem_wait (turnstile1 b))
     | BLock2 \<Rightarrow> map_option (\<lambda>v. bar_goto t BDec (s\<lparr>bar_b := b\<lparr>b_mutex := v\<rparr>\<rparr>)) (Sem_wait (b_mutex b))
     | BDec \<Rightarrow> Some (bar_goto t BIfZero (s\<lparr>bar_b := b\<lparr>num_arrived := num_arrived b - 1\<rparr>\<rparr>))
     | BIfZero \<Rightarrow> Some (bar_goto t (if num_arrived b = 0 then BPost2 0 else BUnlock2) s)
     | BPost2 i \<Rightarrow> (if i < num_threads b
          then Some (bar_goto t (BPost2 (i + 1)) (s\<lparr>bar_b := b\<lparr>turnstile2 := Sem_post (turnstile2 b)\<rparr>\<rparr>))
          else Some (bar_goto t BUnlock2 s))
     | BUnlock2 \<Rightarrow> Some (bar_goto t BWaitT2 (s\<lparr>bar_b := b\<lparr>b_mutex := Sem_post (b_mutex b)\<rparr>\<rparr>))
     | BWaitT2 \<Rightarrow> map_option (\<lambda>v. bar_goto t PrintAfter (s\<lparr>bar_b := b\<lparr>turnstile2 := v\<rparr>\<rparr>))
                  (Sem_wait (turnstile2 b))
     | _ \<Rightarrow> None)"

definition child_step :: "tid \<Rightarrow> bar_state \<Rightarrow> bar_state option" where
  "child_step t s =
    (case bar_pc s t of
       PrintBefore \<Rightarrow> Some (bar_goto t BLock1 (s\<lparr>bar_out := bar_out s @ [Before t]\<rparr>))
     | PrintAfter \<Rightarrow> Some (bar_goto t BReturn (s\<lparr>bar_out := bar_out s @ [After t]\<rparr>))
     | BReturn \<Rightarrow> None
     | _ \<Rightarrow> barrier_step t s)"

definition bar_main :: "sem_names \<Rightarrow> nat \<Rightarrow> bar_state" where
  "bar_main tbl n =
     \<lparr>bar_b = fst (barrier_init n tbl), bar_pc = (\<lambda>_. PrintBefore), bar_out = []\<rparr>"

lemmas bar_step_defs = child_step_def barrier_step_def bar_goto_def Let_def sem_defs

section \<open>The invariant\<close>

text \<open>Classes of control points: holding \<open>mutex\<close>; not yet arrived; arrived and counted in
  \<open>num_arrived\<close>; past the first and past the second turnstile; inside the posting loops.\<close>

definition b_locked :: "barpc \<Rightarrow> bool" where
  "b_locked p = (case p of BInc \<Rightarrow> True | BIfAll \<Rightarrow> True | BPost1 _ \<Rightarrow> True | BUnlock1 \<Rightarrow> True
     | BDec \<Rightarrow> True | BIfZero \<Rightarrow> True | BPost2 _ \<Rightarrow> True | BUnlock2 \<Rightarrow> True | _ \<Rightarrow> False)"

definition b_coming :: "barpc \<Rightarrow> bool" where
  "b_coming p \<longleftrightarrow> p \<in> {PrintBefore, BLock1, BInc}"

definition b_arrived :: "barpc \<Rightarrow> bool" where
  "b_arrived p = (case p of BIfAll \<Rightarrow> True | BPost1 _ \<Rightarrow> True | BUnlock1 \<Rightarrow> True | BWaitT1 \<Rightarrow> True
     | BLock2 \<Rightarrow> True | BDec \<Rightarrow> True | _ \<Rightarrow> False)"

definition b_passed1 :: "barpc \<Rightarrow> bool" where
  "b_passed1 p = (case p of BLock2 \<Rightarrow> True | BDec \<Rightarrow> True | BIfZero \<Rightarrow> True | BPost2 _ \<Rightarrow> True
     | BUnlock2 \<Rightarrow> True | BWaitT2 \<Rightarrow> True | PrintAfter \<Rightarrow> True | BReturn \<Rightarrow> True | _ \<Rightarrow> False)"

definition b_passed2 :: "barpc \<Rightarrow> bool" where
  "b_passed2 p \<longleftrightarrow> p \<in> {PrintAfter, BReturn}"

definition b_posting1 :: "barpc \<Rightarrow> bool" where
  "b_posting1 p = (case p of BIfAll \<Rightarrow> True | BPost1 _ \<Rightarrow> True | _ \<Rightarrow> False)"

definition b_posting2 :: "barpc \<Rightarrow> bool" where
  "b_posting2 p = (case p of BIfZero \<Rightarrow> True | BPost2 _ \<Rightarrow> True | _ \<Rightarrow> False)"

definition b_left :: "barpc \<Rightarrow> bool" where
  "b_left p \<longleftrightarrow> \<not> b_coming p \<and> \<not> b_arrived p"

lemmas bar_classes = b_locked_def b_coming_def b_arrived_def b_passed1_def b_passed2_def
  b_posting1_def b_posting2_def b_left_def

text \<open>What the thread at control point \<open>p\<close> knows about the number of posts made so far.\<close>

definition bar_local :: "nat \<Rightarrow> nat \<Rightarrow> nat \<Rightarrow> nat \<Rightarrow> nat \<Rightarrow> barpc \<Rightarrow> bool" where
  "bar_local n coming arrived posts1 posts2 p =
    (case p of
       BIfAll \<Rightarrow> posts1 = 0
     | BPost1 i \<Rightarrow> coming = 0 \<and> posts1 = i \<and> i \<le> n
     | BIfZero \<Rightarrow> posts2 = 0
     | BPost2 i \<Rightarrow> coming = 0 \<and> arrived = 0 \<and> posts2 = i \<and> i \<le> n
     | _ \<Rightarrow> True)"

abbreviation bar_posts1 :: "nat \<Rightarrow> bar_state \<Rightarrow> nat" where
  "bar_posts1 n s \<equiv> turnstile1 (bar_b s) + cnt n (bar_pc s) b_passed1"

abbreviation bar_posts2 :: "nat \<Rightarrow> bar_state \<Rightarrow> nat" where
  "bar_posts2 n s \<equiv> turnstile2 (bar_b s) + cnt n (bar_pc s) b_passed2"

abbreviation bar_knows :: "nat \<Rightarrow> bar_state \<Rightarrow> tid \<Rightarrow> bool" where
  "bar_knows n s u \<equiv> bar_local n (cnt n (bar_pc s) b_coming) (cnt n (bar_pc s) b_arrived)
     (bar_posts1 n s) (bar_posts2 n s) (bar_pc s u)"

definition bar_counts :: "nat \<Rightarrow> bar_state \<Rightarrow> bool" where
  "bar_counts n s \<longleftrightarrow> (let b = bar_b s; c = cnt n (bar_pc s) in
     num_threads b = n \<and>
     b_mutex b + c b_locked = 1 \<and>
     num_arrived b = int (c b_arrived) \<and>
     (0 < c b_coming \<longrightarrow> bar_posts1 n s = 0) \<and>
     (c b_coming = 0 \<and> c b_posting1 = 0 \<longrightarrow> bar_posts1 n s = n) \<and>
     (0 < c b_coming + c b_arrived \<longrightarrow> bar_posts2 n s = 0) \<and>
     (c b_coming + c b_arrived = 0 \<and> c b_posting2 = 0 \<longrightarrow> bar_posts2 n s = n))"

definition bar_inv :: "nat \<Rightarrow> bar_state \<Rightarrow> bool" where
  "bar_inv n s \<longleftrightarrow> bar_counts n s \<and> (\<forall>t < n. bar_knows n s t)"

lemma bar_inv_init:
  assumes "\<not> tbl ''/turnstile1''" "\<not> tbl ''/turnstile2''"
  shows "bar_inv n (bar_main tbl n)"
  using assms
  by (simp add: bar_inv_def bar_counts_def bar_main_def barrier_init_def Sem_open_eq bar_classes bar_local_def)

lemma bar_class_bounds:
  "cnt n pc b_coming + cnt n pc b_arrived + cnt n pc b_left = n"
  "cnt n pc b_posting1 + cnt n pc b_posting2 + cnt n pc ((=) BInc) + cnt n pc ((=) BDec)
     \<le> cnt n pc b_locked"
  "cnt n pc b_posting2 + cnt n pc b_passed2 \<le> cnt n pc b_left"
  "cnt n pc b_left \<le> cnt n pc b_passed1"
  "cnt n pc b_posting1 \<le> cnt n pc b_arrived"
  by (induction n) (auto simp: bar_classes split: barpc.splits)

lemma bar_frame: "child_step t s = Some s' \<Longrightarrow> u \<noteq> t \<Longrightarrow> bar_pc s' u = bar_pc s u"
  by (cases "bar_pc s t") (auto simp: bar_step_defs split: if_splits)

text \<open>A thread that moves while another one is inside the mutex changes none of the counts.\<close>

lemma bar_quiet:
  assumes t: "t < n" and st: "child_step t s = Some s'"
    and "\<not> b_locked (bar_pc s t)" and "b_mutex (bar_b s) = 0"
  shows "cnt n (bar_pc s') b_coming = cnt n (bar_pc s) b_coming \<and>
    cnt n (bar_pc s') b_arrived = cnt n (bar_pc s) b_arrived \<and>
    bar_posts1 n s' = bar_posts1 n s \<and> bar_posts2 n s' = bar_posts2 n s"
  using assms by (cases "bar_pc s t")
    (auto simp: bar_step_defs bar_classes count_simps split: if_splits)

lemma bar_knows_other:
  assumes inv: "bar_inv n s" and t: "t < n" and st: "child_step t s = Some s'"
    and u: "u < n" "u \<noteq> t"
  shows "bar_knows n s' u"
proof (cases "b_posting1 (bar_pc s u) \<or> b_posting2 (bar_pc s u)")
  case True
  then have lu: "b_locked (bar_pc s u)" by (auto simp: bar_classes split: barpc.splits)
  have "\<not> b_locked (bar_pc s t)"
    using cnt_two [of u n t b_locked "bar_pc s"] u t lu inv by (auto simp: bar_inv_def bar_counts_def Let_def)
  moreover have "b_mutex (bar_b s) = 0"
    using cnt_pos [of u n b_locked "bar_pc s"] u lu inv by (auto simp: bar_inv_def bar_counts_def Let_def)
  moreover have "bar_knows n s u" using inv u by (simp add: bar_inv_def bar_counts_def Let_def)
  ultimately show ?thesis using bar_quiet [OF t st] bar_frame [OF st u(2)] by simp
next
  case False
  then show ?thesis using bar_frame [OF st u(2)]
    by (auto simp: bar_local_def bar_classes split: barpc.splits)
qed

lemma bar_counts_step:
  assumes counts: "bar_counts n s" and loc: "bar_knows n s t" and t: "t < n"
    and st: "child_step t s = Some s'"
  shows "bar_counts n s' \<and> bar_knows n s' t"
proof -
  note pos = cnt_pos [where pc = "bar_pc s", OF t]
  show ?thesis
    using st
    apply (cases "bar_pc s t")
    apply (simp_all add: bar_step_defs split: if_splits)
    apply safe
    apply (insert counts loc t bar_class_bounds [where n = n and pc = "bar_pc s"]
      pos [of b_locked] pos [of b_coming] pos [of b_arrived] pos [of b_passed1] pos [of b_passed2]
      pos [of b_posting1] pos [of b_posting2] pos [of b_left] pos [of "(=) BInc"] pos [of "(=) BDec"])
    apply (simp_all add: bar_counts_def bar_local_def Let_def bar_classes count_simps split: if_splits)
    done
qed

lemma bar_inv_step:
  assumes inv: "bar_inv n s" and t: "t < n" and st: "child_step t s = Some s'"
  shows "bar_inv n s'"
  using bar_counts_step [OF _ _ t st] bar_knows_other [OF inv t st] inv t
  unfolding bar_inv_def by metis

text \<open>The output so far: first the \<open>before\<close> lines of the threads that have printed theirs, then the
  \<open>after\<close> lines of those that have returned.\<close>

definition bar_out_inv :: "nat \<Rightarrow> bar_state \<Rightarrow> bool" where
  "bar_out_inv n s \<longleftrightarrow> (\<exists>bs as. bar_out s = map Before bs @ map After as \<and>
     distinct bs \<and> set bs = {t. t < n \<and> bar_pc s t \<noteq> PrintBefore} \<and>
     distinct as \<and> set as = {t. t < n \<and> bar_pc s t = BReturn})"

lemma bar_passed2_all:
  assumes "bar_inv n s" "u < n" "b_passed2 (bar_pc s u)" "t < n"
  shows "b_left (bar_pc s t)"
proof -
  have "0 < cnt n (bar_pc s) b_passed2" using assms(2,3) by (rule cnt_pos)
  then have "cnt n (bar_pc s) b_coming + cnt n (bar_pc s) b_arrived = 0"
    using assms(1) by (auto simp: bar_inv_def bar_counts_def Let_def)
  then show ?thesis using assms(4) by (auto simp: cnt_zero_iff b_left_def)
qed

lemma bar_out_inv_step:
  assumes inv: "bar_inv n s" and out: "bar_out_inv n s" and t: "t < n"
    and st: "child_step t s = Some s'"
  shows "bar_out_inv n s'"
proof -
  from out obtain bs as where o: "bar_out s = map Before bs @ map After as"
    "distinct bs" "set bs = {t. t < n \<and> bar_pc s t \<noteq> PrintBefore}"
    "distinct as" "set as = {t. t < n \<and> bar_pc s t = BReturn}"
    by (auto simp: bar_out_inv_def)
  consider (before) "bar_pc s t = PrintBefore" | (after) "bar_pc s t = PrintAfter"
    | (other) "bar_pc s t \<noteq> PrintBefore" "bar_pc s t \<noteq> PrintAfter" by blast
  then show ?thesis
  proof cases
    case before
    with st have s': "bar_out s' = bar_out s @ [Before t]" "bar_pc s' t = BLock1"
      by (auto simp: bar_step_defs)
    have pcs: "bar_pc s' u = (if u = t then BLock1 else bar_pc s u)" for u
      using bar_frame [OF st] s'(2) by simp
    have "as = []"
    proof (rule ccontr)
      assume "as \<noteq> []"
      then obtain u where "u \<in> set as" by (cases as) auto
      with o have "u < n" "b_passed2 (bar_pc s u)" by (auto simp: b_passed2_def)
      then have "b_left (bar_pc s t)" using bar_passed2_all [OF inv _ _ t] by blast
      with before show False by (simp add: b_left_def b_coming_def)
    qed
    then have "bar_out s' = map Before (bs @ [t]) @ map After as" "distinct (bs @ [t])"
      using o s' before by auto
    moreover have "set (bs @ [t]) = {u. u < n \<and> bar_pc s' u \<noteq> PrintBefore}"
      "set as = {u. u < n \<and> bar_pc s' u = BReturn}"
      using before t by (auto simp: pcs o(3) o(5) split: if_splits)
    ultimately show ?thesis using o(4) unfolding bar_out_inv_def by blast
  next
    case after
    with st have s': "bar_out s' = bar_out s @ [After t]" "bar_pc s' t = BReturn"
      by (auto simp: bar_step_defs)
    have pcs: "bar_pc s' u = (if u = t then BReturn else bar_pc s u)" for u
      using bar_frame [OF st] s'(2) by simp
    have "bar_out s' = map Before bs @ map After (as @ [t])" "distinct (as @ [t])"
      using o s' after by auto
    moreover have "set bs = {u. u < n \<and> bar_pc s' u \<noteq> PrintBefore}"
      "set (as @ [t]) = {u. u < n \<and> bar_pc s' u = BReturn}"
      using after t by (auto simp: pcs o(3) o(5) split: if_splits)
    ultimately show ?thesis using o(2) unfolding bar_out_inv_def by blast
  next
    case other
    with st have s': "bar_out s' = bar_out s" "bar_pc s t \<noteq> BReturn"
      "bar_pc s' t \<notin> {PrintBefore, BReturn}"
      by (cases "bar_pc s t"; auto simp: bar_step_defs split: if_splits)+
    moreover have "{u. u < n \<and> bar_pc s' u \<noteq> PrintBefore} = {u. u < n \<and> bar_pc s u \<noteq> PrintBefore}"
      "{u. u < n \<and> bar_pc s' u = BReturn} = {u. u < n \<and> bar_pc s u = BReturn}"
      using s' other bar_frame [OF st] by (metis (mono_tags, lifting) insert_iff)+
    ultimately show ?thesis using out unfolding bar_out_inv_def by simp
  qed
qed

section \<open>Progress\<close>

definition bar_finished :: "nat \<Rightarrow> bar_state \<Rightarrow> bool" where
  "bar_finished n s \<longleftrightarrow> (\<forall>t < n. bar_pc s t = BReturn)"

definition bar_rank :: "nat \<Rightarrow> barpc \<Rightarrow> nat" where
  "bar_rank n p = (case p of BReturn \<Rightarrow> 0 | PrintAfter \<Rightarrow> 1 | BWaitT2 \<Rightarrow> 2 | BUnlock2 \<Rightarrow> 3
     | BPost2 i \<Rightarrow> 3 + (n + 1 - i) | BIfZero \<Rightarrow> n + 5 | BDec \<Rightarrow> n + 6 | BLock2 \<Rightarrow> n + 7
     | BWaitT1 \<Rightarrow> n + 8 | BUnlock1 \<Rightarrow> n + 9 | BPost1 i \<Rightarrow> n + 9 + (n + 1 - i)
     | BIfAll \<Rightarrow> 2 * n + 11 | BInc \<Rightarrow> 2 * n + 12 | BLock1 \<Rightarrow> 2 * n + 13 | PrintBefore \<Rightarrow> 2 * n + 14)"

definition bar_budget :: "nat \<Rightarrow> bar_state \<Rightarrow> nat" where
  "bar_budget n s = (\<Sum>t < n. bar_rank n (bar_pc s t))"

lemma bar_budget_step:
  assumes inv: "bar_inv n s" and t: "t < n" and st: "child_step t s = Some s'"
  shows "bar_budget n s' < bar_budget n s"
  unfolding bar_budget_def
proof (rule sum_one_less [OF t])
  have "bar_knows n s t" "num_threads (bar_b s) = n"
    using inv t by (auto simp: bar_inv_def bar_counts_def Let_def)
  with st show "bar_rank n (bar_pc s' t) < bar_rank n (bar_pc s t)"
    by (cases "bar_pc s t") (auto simp: bar_step_defs bar_rank_def bar_local_def split: if_splits)
qed (simp add: bar_frame [OF st])

lemma bar_blocked:
  "child_step t s = None \<Longrightarrow> bar_pc s t = BReturn \<or>
     bar_pc s t \<in> {BLock1, BLock2} \<and> b_mutex (bar_b s) = 0 \<or>
     bar_pc s t = BWaitT1 \<and> turnstile1 (bar_b s) = 0 \<or>
     bar_pc s t = BWaitT2 \<and> turnstile2 (bar_b s) = 0"
  by (cases "bar_pc s t") (auto simp: bar_step_defs split: if_splits)

lemma bar_progress:
  assumes inv: "bar_inv n s" and nf: "\<not> bar_finished n s"
  shows "\<exists>t < n. child_step t s \<noteq> None"
proof (rule ccontr)
  assume "\<not> ?thesis"
  then have stuck: "bar_pc s t = BReturn \<or>
     bar_pc s t \<in> {BLock1, BLock2} \<and> b_mutex (bar_b s) = 0 \<or>
     bar_pc s t = BWaitT1 \<and> turnstile1 (bar_b s) = 0 \<or>
     bar_pc s t = BWaitT2 \<and> turnstile2 (bar_b s) = 0" if "t < n" for t
    using bar_blocked that by blast
  have zero: "cnt n (bar_pc s) P = 0"
    if "\<not> P BReturn" "\<not> P BWaitT1" "\<not> P BWaitT2" "\<not> P BLock1" "\<not> P BLock2" for P
    using that by (auto simp: cnt_zero_iff dest!: stuck)
  have "cnt n (bar_pc s) b_locked = 0" by (rule zero) (simp_all add: bar_classes)
  with inv have free: "b_mutex (bar_b s) = 1" by (simp add: bar_inv_def bar_counts_def Let_def)
  then have "cnt n (bar_pc s) b_coming = 0" by (auto simp: cnt_zero_iff bar_classes dest!: stuck)
  moreover have "cnt n (bar_pc s) b_posting1 = 0" "cnt n (bar_pc s) b_posting2 = 0"
    by (rule zero; simp add: bar_classes)+
  ultimately have posts: "bar_posts1 n s = n" "cnt n (bar_pc s) b_arrived = 0 \<Longrightarrow> bar_posts2 n s = n"
    using inv by (auto simp: bar_inv_def bar_counts_def Let_def)
  have none1: "bar_pc s t \<noteq> BWaitT1" if "t < n" for t
  proof
    assume w: "bar_pc s t = BWaitT1"
    with stuck [OF that] posts have "cnt n (bar_pc s) b_passed1 = n" by simp
    with that w show False by (auto simp: cnt_full_iff b_passed1_def)
  qed
  then have left: "bar_pc s t = BReturn \<or> bar_pc s t = BWaitT2 \<and> turnstile2 (bar_b s) = 0" if "t < n" for t
    using stuck [OF that] free that by auto
  then have "cnt n (bar_pc s) b_arrived = 0"
    by (auto simp: cnt_zero_iff bar_classes dest!: left)
  with posts have all2: "bar_posts2 n s = n" by simp
  have "bar_pc s t \<noteq> BWaitT2" if "t < n" for t
  proof
    assume w: "bar_pc s t = BWaitT2"
    with left [OF that] all2 have "cnt n (bar_pc s) b_passed2 = n" by simp
    with that w show False by (auto simp: cnt_full_iff b_passed2_def)
  qed
  with left nf show False by (auto simp: bar_finished_def)
qed

definition bar_full_inv :: "nat \<Rightarrow> bar_state \<Rightarrow> bool" where
  "bar_full_inv n s \<longleftrightarrow> bar_inv n s \<and> bar_out_inv n s"

lemma bar_full_inv_init:
  "\<not> tbl ''/turnstile1'' \<Longrightarrow> \<not> tbl ''/turnstile2'' \<Longrightarrow> bar_full_inv n (bar_main tbl n)"
  by (auto simp: bar_full_inv_def bar_out_inv_def bar_main_def intro: bar_inv_init [unfolded bar_main_def])

interpretation bar: live_system child_step n
    "bar_main (tbl(''/turnstile1'' := False, ''/turnstile2'' := False)) n" "bar_full_inv n"
    "bar_budget n" "bar_finished n" for n tbl
  by (unfold_locales, rule bar_full_inv_init) (auto simp: bar_full_inv_def intro: bar_inv_step bar_out_inv_step bar_budget_step bar_progress [unfolded not_None_eq])

section \<open>Properties\<close>

text \<open>
  C9: The barrier holds. When no semaphore \<^verbatim>\<open>/turnstile1\<close> or \<^verbatim>\<open>/turnstile2\<close> is left over from an interrupted run
  (\<open>barrier_stale_name\<close> shows that this is needed), in every reachable state the output is first \<open>before\<close> lines and then
  \<open>after\<close> lines, a thread past its second turnstile implies that every thread has arrived at the
  barrier and got through its first turnstile, and \<open>after\<close> is printed only once all \<open>n\<close> threads
  have printed \<open>before\<close>.
\<close>

theorem barrier_separates:
  assumes "\<not> tbl ''/turnstile1''" and "\<not> tbl ''/turnstile2''"
    and "reach child_step n (bar_main tbl n) s"
  shows "\<exists>bs as. bar_out s = map Before bs @ map After as \<and> distinct bs \<and> distinct as \<and>
     (as \<noteq> [] \<longrightarrow> set bs = {..<n}) \<and>
     (\<forall>u < n. b_passed2 (bar_pc s u) \<longrightarrow> (\<forall>t < n. b_passed1 (bar_pc s t)))"
proof -
  have "tbl(''/turnstile1'' := False, ''/turnstile2'' := False) = tbl"
    using assms(1,2) by (simp add: fun_eq_iff)
  with assms(3) bar.reach_inv [of n tbl s] have inv: "bar_inv n s" and out: "bar_out_inv n s"
    by (auto simp: bar_full_inv_def)
  from out obtain bs as where o: "bar_out s = map Before bs @ map After as"
    "distinct bs" "set bs = {t. t < n \<and> bar_pc s t \<noteq> PrintBefore}"
    "distinct as" "set as = {t. t < n \<and> bar_pc s t = BReturn}"
    by (auto simp: bar_out_inv_def)
  have left: "b_left p \<Longrightarrow> b_passed1 p \<and> p \<noteq> PrintBefore" for p
    by (cases p) (auto simp: bar_classes)
  have "set bs = {..<n}" if "as \<noteq> []"
  proof -
    from that obtain u where "u \<in> set as" by (cases as) auto
    with o(5) have "u < n" "b_passed2 (bar_pc s u)" by (auto simp: b_passed2_def)
    with bar_passed2_all [OF inv] left o(3) show ?thesis by auto
  qed
  moreover have "\<forall>u < n. b_passed2 (bar_pc s u) \<longrightarrow> (\<forall>t < n. b_passed1 (bar_pc s t))"
    using bar_passed2_all [OF inv] left by blast
  ultimately show ?thesis using o(1,2,4) by blast
qed

theorem barrier_separates_witness:
  "\<exists>s. run_sched child_step (replicate 5 0 @ replicate 13 1 @ replicate 10 0) (bar_main no_names 2) = Some s \<and>
     bar_out s = [Before 0, Before 1, After 0] \<and> b_passed1 (bar_pc s 1)"
proof -
  let ?is = "replicate 5 0 @ replicate 13 1 @ replicate 10 (0 :: tid)"
  have "case run_sched child_step ?is (bar_main no_names 2) of None \<Rightarrow> False
    | Some s \<Rightarrow> bar_out s = [Before 0, Before 1, After 0] \<and> b_passed2 (bar_pc s 0)" by code_simp
  then obtain s where s: "run_sched child_step ?is (bar_main no_names 2) = Some s"
    and o: "bar_out s = [Before 0, Before 1, After 0]" "b_passed2 (bar_pc s 0)"
    by (rule run_sched_test) simp
  have r: "reach child_step 2 (bar_main no_names 2) s" by (rule run_sched_reach [OF s]) auto
  have "\<not> no_names ''/turnstile1''" "\<not> no_names ''/turnstile2''" by simp_all
  from barrier_separates [OF this r] o(2) have "b_passed1 (bar_pc s 1)" by force
  with s o show ?thesis by auto
qed

text \<open>
  C10: The barrier terminates and resets itself. When no semaphore \<^verbatim>\<open>/turnstile1\<close> or \<^verbatim>\<open>/turnstile2\<close> is left
  over from an interrupted run, no schedule of \<open>n\<close> children is longer than
  \<open>n * (2 * n + 14)\<close> statements, a state in which nobody can move has all children returned with
  both turnstiles at 0 and \<open>num_arrived\<close> 0, as after \<open>barrier_init\<close>, and every partial run can be
  completed to such a state.
\<close>

theorem barrier_terminates:
  assumes "\<not> tbl ''/turnstile1''" and "\<not> tbl ''/turnstile2''"
    and "run_sched child_step is (bar_main tbl n) = Some s" and "\<forall>i \<in> set is. i < n"
  shows "length is \<le> n * (2 * n + 14) \<and>
    ((\<forall>i < n. child_step i s = None) \<longrightarrow>
       bar_finished n s \<and> bar_b s = fst (barrier_init n tbl)) \<and>
    (\<exists>js t. (\<forall>j \<in> set js. j < n) \<and> run_sched child_step js s = Some t \<and> bar_finished n t)"
proof -
  have tbl: "tbl(''/turnstile1'' := False, ''/turnstile2'' := False) = tbl"
    using assms(1,2) by (simp add: fun_eq_iff)
  note run = bar.run_bounded [where tbl = tbl and n = n, unfolded tbl, OF assms(3,4)]
  have inv: "bar_inv n s"
    using bar.run_inv [where tbl = tbl and n = n, unfolded tbl, OF assms(3,4)]
    by (simp add: bar_full_inv_def)
  have reset: "bar_b s = fst (barrier_init n tbl)" if "bar_finished n s"
  proof -
    have c: "cnt n (bar_pc s) P = (if P BReturn then n else 0)" for P
      using that by (auto simp: cnt_zero_iff cnt_full_iff bar_finished_def)
    show ?thesis using inv assms(1,2)
      by (intro barrier_t.equality)
        (auto simp: bar_inv_def bar_counts_def Let_def c bar_classes barrier_init_def Sem_open_eq)
  qed
  have "bar_budget n (bar_main tbl n) = n * (2 * n + 14)"
    by (simp add: bar_budget_def bar_main_def bar_rank_def)
  with run reset show ?thesis by auto
qed

theorem barrier_terminates_witness:
  "\<exists>s. run_sched child_step (replicate 5 0 @ replicate 13 1 @ replicate 10 0 @ replicate 2 1)
         (bar_main no_names 2) = Some s \<and>
     bar_finished 2 s \<and> bar_b s = fst (barrier_init 2 no_names)"
proof -
  let ?is = "replicate 5 0 @ replicate 13 1 @ replicate 10 0 @ replicate 2 (1 :: tid)"
  have "case run_sched child_step ?is (bar_main no_names 2) of None \<Rightarrow> False
    | Some s \<Rightarrow> Option.is_none (child_step 0 s) \<and> Option.is_none (child_step 1 s)" by code_simp
  then obtain s where s: "run_sched child_step ?is (bar_main no_names 2) = Some s"
    and stuck: "child_step 0 s = None" "child_step 1 s = None"
    by (rule run_sched_test) (simp add: Option.is_none_def)
  from stuck have none: "\<forall>i < 2. child_step i s = None" by (simp add: less_2_cases_iff)
  have "\<forall>i \<in> set ?is. i < 2" by auto
  from barrier_terminates [OF _ _ s this] none s show ?thesis by auto
qed

text \<open>A semaphore left over from an interrupted run defeats the barrier: \<open>Sem_open\<close> gives
  \<open>turnstile1\<close> the value 1, and the first child prints \<open>after\<close> before the second has printed
  \<open>before\<close>.\<close>

lemma barrier_stale_name:
  "case run_sched child_step (replicate 15 0) (bar_main (no_names(''/turnstile1'' := True)) 2) of
     None \<Rightarrow> False | Some s \<Rightarrow> bar_out s = [Before 0, After 0] \<and> bar_pc s 1 = PrintBefore"
  by code_simp

end
