(* ===== verification/Xv6_Image.thy ===== *)
theory Xv6_Image
  imports Prelude
begin

text \<open>
  The xv6 file system image as the checkers of \<^verbatim>\<open>projects/filesystems-check\<close> read it: the on-disk
  structures of \<^verbatim>\<open>fs.h\<close> and the access to the mapped image. An access outside the mapping is a
  \<open>Fault\<close>; a failed \<open>assert\<close> is an \<open>Abort\<close>; \<open>exit(EXIT_FAILURE)\<close> carries its message; a recursion
  deeper than the stack allows is a \<open>Stack_Overflow\<close>.
\<close>

section \<open>Constants and errors\<close>

datatype xerr = Exit string | Abort | Fault | Stack_Overflow

definition ROOTINO :: nat where "ROOTINO = 1"
definition BSIZE :: nat where "BSIZE = 512"
definition FSSIZE :: nat where "FSSIZE = 1000"
definition NDIRECT :: nat where "NDIRECT = 12"
definition NINDIRECT :: nat where "NINDIRECT = 128"
definition IMG_SIZE :: nat where "IMG_SIZE = FSSIZE * BSIZE"
definition NBMAP :: nat where "NBMAP = FSSIZE div 8 + BSIZE"

lemmas fs_consts = ROOTINO_def BSIZE_def FSSIZE_def NDIRECT_def NINDIRECT_def IMG_SIZE_def NBMAP_def

definition T_DIR :: ushort where "T_DIR = 1"
definition T_FILE :: ushort where "T_FILE = 2"
definition T_DEV :: ushort where "T_DEV = 3"

section \<open>Reading the image\<close>

type_synonym image = "nat \<Rightarrow> uchar"

text \<open>\<open>memmove\<close> out of the mapped image.\<close>

definition img_read :: "image \<Rightarrow> nat \<Rightarrow> nat \<Rightarrow> xerr + uchar list" where
  "img_read img a n = (if a + n \<le> IMG_SIZE then Inr (map img [a..<a + n]) else Inl Fault)"

text \<open>The byte address \<open>block * BSIZE\<close>, computed in 32 bits.\<close>

definition blk_addr :: "uint \<Rightarrow> nat" where
  "blk_addr b = unat (b * 512)"

definition le16 :: "uchar list \<Rightarrow> nat \<Rightarrow> ushort" where
  "le16 bs k = ucast (bs ! k) + 256 * ucast (bs ! (k + 1))"

definition le32 :: "uchar list \<Rightarrow> nat \<Rightarrow> uint" where
  "le32 bs k = ucast (bs ! k) + 256 * ucast (bs ! (k + 1)) + 65536 * ucast (bs ! (k + 2))
     + 16777216 * ucast (bs ! (k + 3))"

section \<open>On-disk structures\<close>

record superblock =
  sb_size :: uint
  sb_nblocks :: uint
  sb_ninodes :: uint
  sb_nlog :: uint
  sb_logstart :: uint
  sb_inodestart :: uint
  sb_bmapstart :: uint

definition superblock_of :: "uchar list \<Rightarrow> superblock" where
  "superblock_of bs =
     \<lparr>sb_size = le32 bs 0, sb_nblocks = le32 bs 4, sb_ninodes = le32 bs 8, sb_nlog = le32 bs 12,
      sb_logstart = le32 bs 16, sb_inodestart = le32 bs 20, sb_bmapstart = le32 bs 24\<rparr>"

record dinode =
  di_type :: ushort
  di_major :: ushort
  di_minor :: ushort
  di_nlink :: ushort
  di_size :: uint
  di_addrs :: "uint list"

text \<open>The structure of 64 bytes at offset \<open>k\<close>.\<close>

definition dinode_of :: "uchar list \<Rightarrow> nat \<Rightarrow> dinode" where
  "dinode_of bs k =
     \<lparr>di_type = le16 bs k, di_major = le16 bs (k + 2), di_minor = le16 bs (k + 4),
      di_nlink = le16 bs (k + 6), di_size = le32 bs (k + 8),
      di_addrs = map (\<lambda>j. le32 bs (k + 12 + 4 * j)) [0..<NDIRECT + 1]\<rparr>"

record dirent =
  de_inum :: ushort
  de_name :: "uchar list"

definition dirent_of :: "uchar list \<Rightarrow> dirent" where
  "dirent_of bs = \<lparr>de_inum = le16 bs 0, de_name = drop 2 bs\<rparr>"

text \<open>\<open>strcmp(de.name, ".") == 0\<close> and \<open>strcmp(de.name, "..") == 0\<close>: the comparison stops at the
  first difference, so it never reads past the third character.\<close>

definition is_dot :: "dirent \<Rightarrow> bool" where
  "is_dot de \<longleftrightarrow> de_name de ! 0 = 46 \<and> de_name de ! 1 = 0"

definition is_dotdot :: "dirent \<Rightarrow> bool" where
  "is_dotdot de \<longleftrightarrow> de_name de ! 0 = 46 \<and> de_name de ! 1 = 46 \<and> de_name de ! 2 = 0"

lemma not_dot_dotdot: "is_dot de \<Longrightarrow> \<not> is_dotdot de"
  by (simp add: is_dot_def is_dotdot_def)

section \<open>Bitmaps\<close>

definition marked :: "uchar list \<Rightarrow> nat \<Rightarrow> bool" where
  "marked bm b \<longleftrightarrow> bit (bm ! (b div 8)) (b mod 8)"

lemma bit_test:
  "(ucast (x :: uchar) :: uint) AND push_bit k 1 \<noteq> 0 \<longleftrightarrow> k < 8 \<and> bit x k" if "k < 8"
proof -
  have "(ucast x :: uint) AND push_bit k 1 = (if bit x k then push_bit k 1 else 0)"
    using that by (intro bit_word_eqI) (auto simp: bit_simps)
  then show ?thesis using that by (simp add: push_bit_eq_mult)
qed

end
