(* ===== verification/Xcheck.thy ===== *)
theory Xcheck
  imports Xv6_Image
begin

text \<open>
  The file system checker \<^verbatim>\<open>projects/filesystems-check/xcheck.c\<close> as a function from the image to its
  outcome: \<open>Inr ()\<close> when it ends without a complaint, otherwise the error message it exits with, a
  failed assertion, or an access outside an array or the mapping. The lines printed to \<open>stdout\<close>
  for information are not part of the outcome.
\<close>

section \<open>The checks\<close>

definition read_inode_data :: "dinode \<Rightarrow> image \<Rightarrow> nat \<Rightarrow> nat \<Rightarrow> xerr + uchar list" where
  "read_inode_data inode img off len =
    (let block_num = off div BSIZE in
     if block_num \<noteq> 0 then Inl Abort
     else ebind
       (if block_num < NDIRECT then Inr (di_addrs inode ! block_num)
        else if block_num - NDIRECT < NINDIRECT then
          ebind (img_read img (blk_addr (di_addrs inode ! NDIRECT)) BSIZE)
            (\<lambda>indirect. Inr (le32 indirect (4 * (block_num - NDIRECT))))
        else Inr 0)
       (\<lambda>addr. img_read img (blk_addr addr + off mod BSIZE) len))"

definition check_inode_type :: "ushort \<Rightarrow> xerr + unit" where
  "check_inode_type ty =
    (if ty \<noteq> 0 \<and> ty \<noteq> T_DIR \<and> ty \<noteq> T_FILE \<and> ty \<noteq> T_DEV then Inl (Exit ''ERROR: bad inode.'')
     else Inr ())"

definition bit_of :: "uint \<Rightarrow> uint" where
  "bit_of index = push_bit (unat (index mod 8)) 1"

text \<open>\<open>check_address\<close> returns the updated \<open>bmap_mark\<close>.\<close>

definition check_address :: "uint \<Rightarrow> bool \<Rightarrow> uint \<Rightarrow> uchar list \<Rightarrow> uchar list \<Rightarrow> xerr + uchar list" where
  "check_address addr direct data_start bmap bmap_mark =
    (if (addr < data_start \<and> addr \<noteq> 0) \<or> addr \<ge> of_nat FSSIZE then
       Inl (Exit (if direct then ''ERROR: bad direct address in inode.''
                  else ''ERROR: bad indirect address in inode.''))
     else if addr = 0 then Inr bmap_mark
     else let index = addr; b = bit_of index; k = unat (index div 8) in
       if (ucast (bmap ! k) :: uint) AND b = 0 then
         Inl (Exit ''ERROR: address used by inode but marked free in bitmap.'')
       else if (ucast (bmap_mark ! k) :: uint) AND b \<noteq> 0 then
         Inl (Exit (if direct then ''ERROR: direct address used more than once.''
                    else ''ERROR: indirect address used more than once.''))
       else Inr (bmap_mark[k := ucast ((ucast (bmap_mark ! k) :: uint) OR b)]))"

text \<open>The arrays of \<open>main\<close> that the loop over the inodes updates.\<close>

record xstate =
  inodes :: "dinode list"
  bmap_mark :: "uchar list"
  inode_dir :: "uchar list"
  dir_links :: "uint list"

text \<open>The addresses of one inode: the direct ones, then the indirect block and its entries.\<close>

definition check_addrs ::
  "image \<Rightarrow> uint \<Rightarrow> uchar list \<Rightarrow> dinode \<Rightarrow> uchar list \<Rightarrow> xerr + uchar list" where
  "check_addrs img data_start bmap inode mark0 =
    efold (\<lambda>j mark.
        if j < NDIRECT then check_address (di_addrs inode ! j) True data_start bmap mark
        else ebind (check_address (di_addrs inode ! NDIRECT) False data_start bmap mark)
          (\<lambda>mark. ebind (img_read img (blk_addr (di_addrs inode ! NDIRECT)) (4 * NINDIRECT))
            (\<lambda>indirect. efold (\<lambda>k mark. check_address (le32 indirect (4 * k)) False data_start bmap mark)
                [0..<NINDIRECT] mark)))
      [0..<NDIRECT + 1] mark0"

text \<open>The bookkeeping for one directory entry found in directory \<open>i\<close>; the entry's inode number
  indexes the arrays unchecked.\<close>

definition note_entry :: "nat \<Rightarrow> dirent \<Rightarrow> xstate \<Rightarrow> xerr + xstate" where
  "note_entry i de st =
    (let k = unat (de_inum de) in
     if length (inodes st) \<le> k then Inl Fault
     else let st1 = st\<lparr>inode_dir := (inode_dir st)[k := 1]\<rparr>; ino = inodes st ! k in
       if di_type ino = T_FILE then
         Inr (st1\<lparr>inodes := (inodes st)[k := ino\<lparr>di_nlink := di_nlink ino - 1\<rparr>]\<rparr>)
       else if di_type ino = T_DIR \<and> i \<noteq> k then
         Inr (st1\<lparr>dir_links := (dir_links st)[k := dir_links st ! k + 1]\<rparr>)
       else Inr st1)"

record dir_acc =
  count_dots :: nat
  root_exist :: bool
  dir_error :: bool

text \<open>The loop over the entries of directory \<open>i\<close>, from byte offset \<open>off\<close>. What is done with an entry
  besides looking for the dots is the argument \<open>act\<close>, since the versions of the checker differ in it.\<close>

function dir_loop ::
  "(dirent \<Rightarrow> 's \<Rightarrow> xerr + 's) \<Rightarrow> image \<Rightarrow> nat \<Rightarrow> dinode \<Rightarrow> nat \<Rightarrow> dir_acc \<Rightarrow> 's \<Rightarrow> xerr + dir_acc \<times> 's" where
  "dir_loop act img i inode off acc st =
    (if off < unat (di_size inode) then
       ebind (read_inode_data inode img off 16) (\<lambda>bytes.
         let de = dirent_of bytes in
         if is_dot de \<and> unat (de_inum de) \<noteq> i then
           Inr (acc\<lparr>count_dots := count_dots acc + 1, dir_error := True\<rparr>, st)
         else let acc' =
             (if is_dot de then acc\<lparr>count_dots := count_dots acc + 1\<rparr>
              else if is_dotdot de then
                acc\<lparr>count_dots := count_dots acc + 1,
                    root_exist := root_exist acc \<or> (i = ROOTINO \<and> unat (de_inum de) = ROOTINO)\<rparr>
              else acc) in
           ebind (act de st) (dir_loop act img i inode (off + 16) acc'))
     else Inr (acc, st))"
  by pat_completeness auto
termination
  by (relation "measure (\<lambda>(act, img, i, inode, off, acc, st). 1024 - off)")
    (auto simp: read_inode_data_def fs_consts Let_def split: if_splits)

declare dir_loop.simps [simp del]

text \<open>The loop and the two tests after it.\<close>

definition scan_dir ::
  "(dirent \<Rightarrow> 's \<Rightarrow> xerr + 's) \<Rightarrow> image \<Rightarrow> nat \<Rightarrow> dinode \<Rightarrow> 's \<Rightarrow> xerr + 's" where
  "scan_dir act img i inode st =
    ebind (dir_loop act img i inode 0 \<lparr>count_dots = 0, root_exist = False, dir_error = False\<rparr> st)
      (\<lambda>(acc, st).
        if i = ROOTINO \<and> \<not> root_exist acc then Inl (Exit ''ERROR: root directory does not exist.'')
        else if dir_error acc \<or> count_dots acc \<noteq> 2 then
          Inl (Exit ''ERROR: directory not properly formatted.'')
        else Inr st)"

definition check_dir :: "image \<Rightarrow> nat \<Rightarrow> dinode \<Rightarrow> xstate \<Rightarrow> xerr + xstate" where
  "check_dir img i inode st = scan_dir (note_entry i) img i inode st"

definition check_inode ::
  "image \<Rightarrow> uint \<Rightarrow> uchar list \<Rightarrow> nat \<Rightarrow> xstate \<Rightarrow> xerr + xstate" where
  "check_inode img data_start bmap i st =
    (let inode = inodes st ! i in
     ebind (check_inode_type (di_type inode)) (\<lambda>_.
     ebind (if di_type inode \<noteq> 0 then check_addrs img data_start bmap inode (bmap_mark st)
            else Inr (bmap_mark st)) (\<lambda>mark.
     let st = st\<lparr>bmap_mark := mark\<rparr> in
     if di_type inode = T_DIR then check_dir img i inode st else Inr st)))"

text \<open>C's division of a signed integer by 8 rounds towards 0.\<close>

definition cdiv8 :: "int \<Rightarrow> int" where
  "cdiv8 a = (if a < 0 then - ((- a) div 8) else a div 8)"

function bitmap_loop :: "uchar list \<Rightarrow> uchar list \<Rightarrow> int \<Rightarrow> xerr + unit" where
  "bitmap_loop bmap mark j =
    (if j < int NBMAP then
       if j < 0 then Inl Fault
       else if bmap ! nat (j div 8) \<noteq> mark ! nat (j div 8) then
         Inl (Exit ''ERROR: bitmap marks block in use but it is not in use.'')
       else bitmap_loop bmap mark (j + 8)
     else Inr ())"
  by pat_completeness auto
termination
  by (relation "measure (\<lambda>(bmap, mark, j). nat (int NBMAP - j))") auto

declare bitmap_loop.simps [simp del]

definition check_refs :: "xstate \<Rightarrow> nat \<Rightarrow> unit \<Rightarrow> xerr + unit" where
  "check_refs st j u =
    (let ino = inodes st ! j in
     if di_type ino \<noteq> 0 \<and> inode_dir st ! j = 0 then
       Inl (Exit ''ERROR: inode marked use but not found in a directory.'')
     else if inode_dir st ! j = 1 \<and> di_type ino = 0 then
       Inl (Exit ''ERROR: inode referred to in directory but marked free.'')
     else if di_type ino = T_FILE \<and> 0 < sint (di_nlink ino) then
       Inl (Exit ''ERROR: bad reference count for file.'')
     else if di_type ino = T_DIR \<and> 1 < dir_links st ! j then
       Inl (Exit ''ERROR: directory appears more than once in file system.'')
     else Inr ())"

section \<open>\<open>main\<close>\<close>

definition read_inodes :: "image \<Rightarrow> superblock \<Rightarrow> xerr + dinode list" where
  "read_inodes img sb =
    ebind (img_read img (blk_addr (sb_inodestart sb)) (64 * unat (sb_ninodes sb)))
      (\<lambda>bytes. Inr (map (\<lambda>i. dinode_of bytes (64 * i)) [0..<unat (sb_ninodes sb)]))"

definition xcheck :: "image \<Rightarrow> xerr + unit" where
  "xcheck img =
    ebind (img_read img BSIZE 28) (\<lambda>sbytes.
    let sb = superblock_of sbytes; n = unat (sb_ninodes sb);
        data_start = of_nat FSSIZE - sb_nblocks sb in
    ebind (read_inodes img sb) (\<lambda>inos.
    ebind (img_read img (blk_addr (sb_bmapstart sb)) NBMAP) (\<lambda>bmap.
    let st0 = \<lparr>inodes = inos, bmap_mark = replicate NBMAP 0, inode_dir = replicate n 0,
               dir_links = replicate n 0\<rparr> in
    ebind (efold (check_inode img data_start bmap) [ROOTINO..<n] st0) (\<lambda>st.
    ebind (bitmap_loop bmap (bmap_mark st) ((cdiv8 (sint data_start) + 1) * 8)) (\<lambda>_.
    efold (check_refs st) [ROOTINO..<n] ())))))"

end
