(* ===== verification/Xcheck_Correct.thy ===== *)
theory Xcheck_Correct
  imports Xcheck
begin

text \<open>
  What the checker of \<^verbatim>\<open>xcheck.c\<close> accepts: a declarative description of the consistency of an image
  and the proof that \<open>xcheck\<close> returns without a complaint exactly on the images that satisfy it.
\<close>

section \<open>Addresses\<close>

definition addr_ok :: "uint \<Rightarrow> uchar list \<Rightarrow> uchar list \<Rightarrow> uint \<Rightarrow> bool" where
  "addr_ok ds bmap mark a \<longleftrightarrow> a = 0 \<or>
     (ds \<le> a \<and> a < 1000 \<and> marked bmap (unat a) \<and> \<not> marked mark (unat a))"

definition set_mark :: "uint \<Rightarrow> uchar list \<Rightarrow> uchar list" where
  "set_mark a mark = (if a = 0 then mark
     else mark[unat a div 8 := ucast ((ucast (mark ! (unat a div 8)) :: uint) OR bit_of a)])"

lemma bit_of_test: "(ucast (x :: uchar) :: uint) AND bit_of a = 0 \<longleftrightarrow> \<not> bit x (unat a mod 8)"
  using bit_test [of "unat a mod 8" x] by (auto simp: bit_of_def unat_mod)

lemma check_address_Inr:
  "check_address a d ds bmap mark = Inr mark' \<longleftrightarrow> addr_ok ds bmap mark a \<and> mark' = set_mark a mark"
  by (auto simp: check_address_def addr_ok_def set_mark_def Let_def FSSIZE_def bit_of_test marked_def
      unat_div not_less not_le)

lemma length_set_mark [simp]: "length (set_mark a mark) = length mark"
  by (simp add: set_mark_def)

lemma length_fold_set_mark [simp]: "length (fold set_mark as mark) = length mark"
  by (induction as arbitrary: mark) auto

lemma bit_of_or: "k < 8 \<Longrightarrow>
   bit (ucast ((ucast (x :: uchar) :: uint) OR bit_of a) :: uchar) k \<longleftrightarrow> bit x k \<or> k = unat a mod 8"
  by (auto simp: bit_simps bit_of_def unat_mod)

lemma marked_set_mark:
  assumes "unat a < 8 * length mark"
  shows "marked (set_mark a mark) b \<longleftrightarrow> marked mark b \<or> a \<noteq> 0 \<and> b = unat a"
proof (cases "a = 0")
  case False
  have len: "unat a div 8 < length mark" using assms by simp
  show ?thesis
  proof (cases "b div 8 = unat a div 8")
    case True
    with False len have "marked (set_mark a mark) b \<longleftrightarrow> marked mark b \<or> b mod 8 = unat a mod 8"
      by (simp add: marked_def set_mark_def bit_of_or)
    also have "b mod 8 = unat a mod 8 \<longleftrightarrow> b = unat a"
      using True by (metis div_mult_mod_eq)
    finally show ?thesis using False by simp
  next
    case diff: False
    then have "marked (set_mark a mark) b \<longleftrightarrow> marked mark b"
      by (auto simp: marked_def set_mark_def)
    with diff show ?thesis by auto
  qed
qed (simp add: set_mark_def)

text \<open>A sequence of addresses, each checked against the marks left by those before it.\<close>

fun marks_ok :: "uint \<Rightarrow> uchar list \<Rightarrow> uchar list \<Rightarrow> uint list \<Rightarrow> bool" where
  "marks_ok ds bmap mark [] \<longleftrightarrow> True"
| "marks_ok ds bmap mark (a # as) \<longleftrightarrow> addr_ok ds bmap mark a \<and> marks_ok ds bmap (set_mark a mark) as"

lemma marks_ok_append:
  "marks_ok ds bmap mark (as @ bs) \<longleftrightarrow>
     marks_ok ds bmap mark as \<and> marks_ok ds bmap (fold set_mark as mark) bs"
  by (induction as arbitrary: mark) auto

lemma efold_check_address:
  "efold (\<lambda>x mark. check_address (g x) d ds bmap mark) xs mark = Inr mark' \<longleftrightarrow>
     marks_ok ds bmap mark (map g xs) \<and> mark' = fold set_mark (map g xs) mark"
  by (induction xs arbitrary: mark) (auto simp: ebind_eq_Inr check_address_Inr)

lemma marks_ok_iff:
  assumes "length mark = NBMAP"
  shows "marks_ok ds bmap mark as \<longleftrightarrow>
    (\<forall>a \<in> set as. a \<noteq> 0 \<longrightarrow> ds \<le> a \<and> a < 1000 \<and> marked bmap (unat a) \<and> \<not> marked mark (unat a)) \<and>
    distinct (filter (\<lambda>a. a \<noteq> 0) as)"
  using assms
proof (induction as arbitrary: mark)
  case (Cons a as)
  have small: "c < 1000 \<Longrightarrow> unat c < 8 * length mark" for c :: uint
    using Cons.prems by (simp add: word_less_nat_alt NBMAP_def FSSIZE_def BSIZE_def)
  have upd: "marked (set_mark a mark) (unat c) \<longleftrightarrow> marked mark (unat c) \<or> a \<noteq> 0 \<and> c = a"
    if "a < 1000" for c
    using marked_set_mark [OF small [OF that]] by (auto simp: word_unat_eq_iff)
  show ?case
  proof (cases "a = 0")
    case True
    with Cons show ?thesis by (simp add: addr_ok_def set_mark_def)
  next
    case False
    with Cons upd show ?thesis by (auto simp: addr_ok_def)
  qed
qed simp

lemma marked_fold:
  assumes "\<forall>a \<in> set as. a < 1000" "length mark = NBMAP"
  shows "marked (fold set_mark as mark) b \<longleftrightarrow> marked mark b \<or> (\<exists>a \<in> set as. a \<noteq> 0 \<and> b = unat a)"
  using assms
proof (induction as arbitrary: mark)
  case (Cons a as)
  then have "unat a < 8 * length mark"
    by (simp add: word_less_nat_alt NBMAP_def FSSIZE_def BSIZE_def)
  with Cons marked_set_mark [OF this] show ?case by auto
qed simp

text \<open>All the addresses of an inode, in the order in which they are checked. An address below 1000
  is inside the image.\<close>

definition inode_addrs :: "image \<Rightarrow> dinode \<Rightarrow> uint list" where
  "inode_addrs img inode =
     map (\<lambda>j. di_addrs inode ! j) [0..<NDIRECT + 1] @
     map (\<lambda>k. le32 (map img [blk_addr (di_addrs inode ! NDIRECT)..<blk_addr (di_addrs inode ! NDIRECT) + 512]) (4 * k))
       [0..<NINDIRECT]"

lemma blk_addr_small:
  assumes "a < (1000 :: uint)"
  shows "blk_addr a = 512 * unat a" and "blk_addr a + 512 \<le> IMG_SIZE"
proof -
  have "unat a < 1000" using assms by (simp add: word_less_nat_alt)
  then show "blk_addr a = 512 * unat a" by (simp add: blk_addr_def unat_word_ariths)
  with \<open>unat a < 1000\<close> show "blk_addr a + 512 \<le> IMG_SIZE" by (simp add: fs_consts)
qed

lemma addr_ok_small: "addr_ok ds bmap mark a \<Longrightarrow> a < 1000"
  by (auto simp: addr_ok_def)

lemma check_addrs_Inr:
  "check_addrs img ds bmap inode mark = Inr mark' \<longleftrightarrow>
     marks_ok ds bmap mark (inode_addrs img inode) \<and> mark' = fold set_mark (inode_addrs img inode) mark"
proof -
  let ?dir = "map (\<lambda>j. di_addrs inode ! j) [0..<NDIRECT]" and ?ind = "di_addrs inode ! NDIRECT"
  let ?rest = "map (\<lambda>k. le32 (map img [blk_addr ?ind..<blk_addr ?ind + 512]) (4 * k)) [0..<NINDIRECT]"
  define f where "f = (\<lambda>j mark. if j < NDIRECT then check_address (di_addrs inode ! j) True ds bmap mark
        else ebind (check_address ?ind False ds bmap mark)
          (\<lambda>mark. ebind (img_read img (blk_addr ?ind) (4 * NINDIRECT))
            (\<lambda>indirect. efold (\<lambda>k mark. check_address (le32 indirect (4 * k)) False ds bmap mark)
                [0..<NINDIRECT] mark)))"
  have direct: "efold f [0..<NDIRECT] mark =
      efold (\<lambda>j mark. check_address (di_addrs inode ! j) True ds bmap mark) [0..<NDIRECT] mark"
    by (intro efold_cong) (auto simp: f_def)
  have last: "f NDIRECT m = Inr m' \<longleftrightarrow>
      marks_ok ds bmap m (?ind # ?rest) \<and> m' = fold set_mark (?ind # ?rest) m" for m m'
    using addr_ok_small [of ds bmap m ?ind] blk_addr_small [of ?ind]
    by (auto simp: f_def ebind_eq_Inr check_address_Inr img_read_def NINDIRECT_def efold_check_address
        split: if_splits)
  have "check_addrs img ds bmap inode mark = efold f ([0..<NDIRECT] @ [NDIRECT]) mark"
    by (simp add: check_addrs_def f_def)
  then have "check_addrs img ds bmap inode mark = Inr mark' \<longleftrightarrow>
      (\<exists>m. efold f [0..<NDIRECT] mark = Inr m \<and> f NDIRECT m = Inr mark')"
    by (simp add: efold_append ebind_eq_Inr)
  then show ?thesis
    unfolding inode_addrs_def direct last by (auto simp: efold_check_address marks_ok_append)
qed

section \<open>Directories\<close>

text \<open>The entries of a directory of one block.\<close>

definition dir_entries :: "image \<Rightarrow> dinode \<Rightarrow> dirent list" where
  "dir_entries img inode = (let a = blk_addr (di_addrs inode ! 0) in
     map (\<lambda>k. dirent_of (map img [a + 16 * k..<a + 16 * k + 16])) [0..<(unat (di_size inode) + 15) div 16])"

definition dot_step :: "nat \<Rightarrow> dirent \<Rightarrow> dir_acc \<Rightarrow> dir_acc" where
  "dot_step i de acc =
    (if is_dot de then acc\<lparr>count_dots := count_dots acc + 1\<rparr>
     else if is_dotdot de then
       acc\<lparr>count_dots := count_dots acc + 1,
           root_exist := root_exist acc \<or> (i = ROOTINO \<and> unat (de_inum de) = ROOTINO)\<rparr>
     else acc)"

lemma entry_index: "k < (m + 15) div 16 \<longleftrightarrow> 16 * k < (m :: nat)"
  using less_eq_div_iff_mult_less_eq [of 16 "Suc k" "m + 15"] by (simp add: Suc_le_eq) linarith

lemma read_entry:
  assumes "blk_addr (di_addrs inode ! 0) + 512 \<le> IMG_SIZE"
  shows "read_inode_data inode img (16 * k) 16 =
    (if k < 32 then Inr (map img [blk_addr (di_addrs inode ! 0) + 16 * k..<blk_addr (di_addrs inode ! 0) + 16 * k + 16])
     else Inl Abort)"
proof (cases "k < 32")
  case True
  then have "16 * k div 512 = 0" "16 * k mod 512 = 16 * k" by auto
  with True assms show ?thesis
    by (simp add: read_inode_data_def img_read_def BSIZE_def NDIRECT_def Let_def)
next
  case False
  then have "16 * k div 512 \<noteq> 0" by (simp add: div_eq_0_iff)
  with False show ?thesis by (simp add: read_inode_data_def BSIZE_def)
qed

lemma dir_loop_unfold:
  assumes "blk_addr (di_addrs inode ! 0) + 512 \<le> IMG_SIZE"
    and "16 * k < unat (di_size inode)" and "k < 32"
  shows "dir_loop act img i inode (16 * k) acc st =
    (let de = dir_entries img inode ! k in
     if is_dot de \<and> unat (de_inum de) \<noteq> i then
       Inr (acc\<lparr>count_dots := count_dots acc + 1, dir_error := True\<rparr>, st)
     else ebind (act de st) (dir_loop act img i inode (16 * Suc k) (dot_step i de acc)))"
proof -
  let ?a = "blk_addr (di_addrs inode ! 0)"
  have "k < (unat (di_size inode) + 15) div 16" using assms(2) by (simp add: entry_index)
  then have de: "dir_entries img inode ! k = dirent_of (map img [?a + 16 * k..<?a + 16 * k + 16])"
    by (simp add: dir_entries_def Let_def)
  have suc: "16 * Suc k = 16 * k + 16" by simp
  show ?thesis
    unfolding de suc by (subst dir_loop.simps) (simp add: assms read_entry Let_def flip: dot_step_def)
qed

lemma drop_entries:
  assumes "16 * k < unat (di_size inode)"
  shows "drop k (dir_entries img inode) = dir_entries img inode ! k # drop (Suc k) (dir_entries img inode)"
proof (rule Cons_nth_drop_Suc [symmetric])
  show "k < length (dir_entries img inode)"
    using assms by (simp add: dir_entries_def Let_def entry_index)
qed

lemma dot_step_error [simp]: "dir_error (dot_step i de acc) = dir_error acc"
  by (simp add: dot_step_def)

lemma dir_loop_Inr:
  assumes base: "blk_addr (di_addrs inode ! 0) + 512 \<le> IMG_SIZE"
  shows "dir_loop act img i inode (16 * k) acc st = Inr (acc', st') \<and> \<not> dir_error acc' \<longleftrightarrow>
    (16 * k < unat (di_size inode) \<longrightarrow> unat (di_size inode) \<le> 512) \<and> \<not> dir_error acc \<and>
    (\<forall>de \<in> set (drop k (dir_entries img inode)). is_dot de \<longrightarrow> unat (de_inum de) = i) \<and>
    efold act (drop k (dir_entries img inode)) st = Inr st' \<and>
    acc' = fold (dot_step i) (drop k (dir_entries img inode)) acc"
proof (induction "40 - k" arbitrary: k acc st rule: less_induct)
  case less
  show ?case
  proof (cases "16 * k < unat (di_size inode)")
    case False
    then have "drop k (dir_entries img inode) = []"
      using entry_index [of k "unat (di_size inode)"] by (simp add: dir_entries_def Let_def)
    with False show ?thesis by (subst dir_loop.simps) auto
  next
    case size: True
    show ?thesis
    proof (cases "k < 32")
      case False
      then have "dir_loop act img i inode (16 * k) acc st = Inl Abort"
        using size by (subst dir_loop.simps) (simp add: read_entry [OF base])
      with False size show ?thesis by auto
    next
      case True
      define de where "de = dir_entries img inode ! k"
      have ih: "dir_loop act img i inode (16 * Suc k) a u = Inr (acc', st') \<and> \<not> dir_error acc' \<longleftrightarrow>
          (16 * Suc k < unat (di_size inode) \<longrightarrow> unat (di_size inode) \<le> 512) \<and> \<not> dir_error a \<and>
          (\<forall>de \<in> set (drop (Suc k) (dir_entries img inode)). is_dot de \<longrightarrow> unat (de_inum de) = i) \<and>
          efold act (drop (Suc k) (dir_entries img inode)) u = Inr st' \<and>
          acc' = fold (dot_step i) (drop (Suc k) (dir_entries img inode)) a" for a u
        using True by (intro less) simp
      have small: "(16 * Suc k < unat (di_size inode) \<longrightarrow> unat (di_size inode) \<le> 512) \<longleftrightarrow>
          unat (di_size inode) \<le> 512" using True by auto
      have "dir_loop act img i inode (16 * k) acc st = Inr (acc', st') \<and> \<not> dir_error acc' \<longleftrightarrow>
          (is_dot de \<longrightarrow> unat (de_inum de) = i) \<and> (\<exists>u. act de st = Inr u \<and>
             dir_loop act img i inode (16 * Suc k) (dot_step i de acc) u = Inr (acc', st') \<and> \<not> dir_error acc')"
        unfolding dir_loop_unfold [OF base size True] de_def [symmetric] Let_def
        by (auto simp: ebind_eq_Inr)
      then show ?thesis
        unfolding ih [unfolded small] drop_entries [OF size] de_def [symmetric]
        using size by (auto simp: ebind_eq_Inr)
    qed
  qed
qed

text \<open>A reference \<open>(i, k)\<close>: directory \<open>i\<close> has an entry for inode \<open>k\<close>.\<close>

definition apply_ref :: "nat \<times> nat \<Rightarrow> xstate \<Rightarrow> xstate" where
  "apply_ref r st = (let (i, k) = r; ino = inodes st ! k; st1 = st\<lparr>inode_dir := (inode_dir st)[k := 1]\<rparr> in
     if di_type ino = T_FILE then st1\<lparr>inodes := (inodes st)[k := ino\<lparr>di_nlink := di_nlink ino - 1\<rparr>]\<rparr>
     else if di_type ino = T_DIR \<and> i \<noteq> k then
       st1\<lparr>dir_links := (dir_links st)[k := dir_links st ! k + 1]\<rparr>
     else st1)"

lemma note_entry_Inr:
  "note_entry i de st = Inr st' \<longleftrightarrow>
     unat (de_inum de) < length (inodes st) \<and> st' = apply_ref (i, unat (de_inum de)) st"
  by (auto simp: note_entry_def apply_ref_def Let_def)

lemma apply_ref_frame [simp]:
  "length (inodes (apply_ref r st)) = length (inodes st)"
  "bmap_mark (apply_ref r st) = bmap_mark st"
  "apply_ref r (st\<lparr>bmap_mark := m\<rparr>) = (apply_ref r st)\<lparr>bmap_mark := m\<rparr>"
  by (auto simp: apply_ref_def Let_def split: prod.splits)

lemma fold_apply_ref_frame [simp]:
  "length (inodes (fold apply_ref rs st)) = length (inodes st)"
  "bmap_mark (fold apply_ref rs st) = bmap_mark st"
  "fold apply_ref rs (st\<lparr>bmap_mark := m\<rparr>) = (fold apply_ref rs st)\<lparr>bmap_mark := m\<rparr>"
  by (induction rs arbitrary: st) auto

definition entry_refs :: "nat \<Rightarrow> dirent list \<Rightarrow> (nat \<times> nat) list" where
  "entry_refs i es = map (\<lambda>de. (i, unat (de_inum de))) es"

lemma efold_note_entry:
  "efold (note_entry i) es st = Inr st' \<longleftrightarrow>
     (\<forall>de \<in> set es. unat (de_inum de) < length (inodes st)) \<and> st' = fold apply_ref (entry_refs i es) st"
  by (induction es arbitrary: st) (auto simp: entry_refs_def ebind_eq_Inr note_entry_Inr)

lemma fold_dot_step:
  "fold (dot_step i) es acc =
     acc\<lparr>count_dots := count_dots acc + length (filter (\<lambda>de. is_dot de \<or> is_dotdot de) es),
         root_exist := root_exist acc \<or>
           (i = ROOTINO \<and> (\<exists>de \<in> set es. is_dotdot de \<and> unat (de_inum de) = ROOTINO))\<rparr>"
  by (induction es arbitrary: acc) (auto simp: dot_step_def not_dot_dotdot conj_disj_distribL)

text \<open>A directory is well formed when it fits one block, refers to existing inode numbers, has two
  entries named \<open>.\<close> or \<open>..\<close>, a \<open>.\<close> refers to itself and, for the root, a \<open>..\<close> to the root.\<close>

definition dir_form_ok :: "image \<Rightarrow> nat \<Rightarrow> dinode \<Rightarrow> bool" where
  "dir_form_ok img i inode \<longleftrightarrow> (let es = dir_entries img inode in
     unat (di_size inode) \<le> 512 \<and>
     (\<forall>de \<in> set es. is_dot de \<longrightarrow> unat (de_inum de) = i) \<and>
     length (filter (\<lambda>de. is_dot de \<or> is_dotdot de) es) = 2 \<and>
     (i = ROOTINO \<longrightarrow> (\<exists>de \<in> set es. is_dotdot de \<and> unat (de_inum de) = ROOTINO)))"

definition dir_ok :: "image \<Rightarrow> nat \<Rightarrow> nat \<Rightarrow> dinode \<Rightarrow> bool" where
  "dir_ok img n i inode \<longleftrightarrow> dir_form_ok img i inode \<and>
     (\<forall>de \<in> set (dir_entries img inode). unat (de_inum de) < n)"

lemma scan_dir_Inr:
  assumes "blk_addr (di_addrs inode ! 0) + 512 \<le> IMG_SIZE"
  shows "scan_dir act img i inode st = Inr st' \<longleftrightarrow>
    dir_form_ok img i inode \<and> efold act (dir_entries img inode) st = Inr st'"
proof -
  let ?acc0 = "\<lparr>count_dots = 0, root_exist = False, dir_error = False\<rparr>"
  have "scan_dir act img i inode st = Inr st' \<longleftrightarrow> (\<exists>acc. (dir_loop act img i inode (16 * 0) ?acc0 st = Inr (acc, st')
      \<and> \<not> dir_error acc) \<and> \<not> (i = ROOTINO \<and> \<not> root_exist acc) \<and> count_dots acc = 2)"
    by (auto simp: scan_dir_def ebind_eq_Inr split: if_splits)
  also have "\<dots> \<longleftrightarrow> dir_form_ok img i inode \<and> efold act (dir_entries img inode) st = Inr st'"
    unfolding dir_loop_Inr [OF assms] by (auto simp: fold_dot_step dir_form_ok_def Let_def)
  finally show ?thesis .
qed

lemma check_dir_Inr:
  assumes "blk_addr (di_addrs inode ! 0) + 512 \<le> IMG_SIZE"
  shows "check_dir img i inode st = Inr st' \<longleftrightarrow>
    dir_ok img (length (inodes st)) i inode \<and>
    st' = fold apply_ref (entry_refs i (dir_entries img inode)) st"
  unfolding check_dir_def scan_dir_Inr [OF assms] efold_note_entry dir_ok_def by blast

section \<open>The loop over the inodes\<close>

definition type_ok :: "dinode \<Rightarrow> bool" where
  "type_ok inode \<longleftrightarrow> di_type inode \<in> {0, T_DIR, T_FILE, T_DEV}"

definition inode_used :: "image \<Rightarrow> dinode \<Rightarrow> uint list" where
  "inode_used img inode = (if di_type inode = 0 then [] else inode_addrs img inode)"

definition inode_refs :: "image \<Rightarrow> nat \<Rightarrow> dinode \<Rightarrow> (nat \<times> nat) list" where
  "inode_refs img i inode = (if di_type inode = T_DIR then entry_refs i (dir_entries img inode) else [])"

definition inode_ok :: "image \<Rightarrow> nat \<Rightarrow> nat \<Rightarrow> dinode \<Rightarrow> bool" where
  "inode_ok img n i inode \<longleftrightarrow> type_ok inode \<and> (di_type inode = T_DIR \<longrightarrow> dir_ok img n i inode)"

lemma marks_ok_small: "marks_ok ds bmap mark as \<Longrightarrow> a \<in> set as \<Longrightarrow> a < 1000"
  by (induction as arbitrary: mark) (auto dest: addr_ok_small)

lemma check_inode_Inr:
  "check_inode img ds bmap i st = Inr st' \<longleftrightarrow> (let inode = inodes st ! i in
     inode_ok img (length (inodes st)) i inode \<and>
     marks_ok ds bmap (bmap_mark st) (inode_used img inode) \<and>
     st' = (fold apply_ref (inode_refs img i inode) st)
             \<lparr>bmap_mark := fold set_mark (inode_used img inode) (bmap_mark st)\<rparr>)"
proof -
  define inode where "inode = inodes st ! i"
  have base: "blk_addr (di_addrs inode ! 0) + 512 \<le> IMG_SIZE"
    if "marks_ok ds bmap (bmap_mark st) (inode_addrs img inode)"
  proof (rule blk_addr_small(2))
    have "di_addrs inode ! 0 \<in> set (inode_addrs img inode)"
      by (force simp: inode_addrs_def NDIRECT_def)
    with that show "di_addrs inode ! 0 < 1000" by (rule marks_ok_small)
  qed
  have T: "T_DIR \<noteq> 0" "T_FILE \<noteq> 0" "T_DEV \<noteq> 0" by (simp_all add: T_DIR_def T_FILE_def T_DEV_def)
  have dir: "check_dir img i inode (st\<lparr>bmap_mark := m\<rparr>) = Inr st' \<longleftrightarrow>
      dir_ok img (length (inodes st)) i inode \<and>
      st' = (fold apply_ref (entry_refs i (dir_entries img inode)) st)\<lparr>bmap_mark := m\<rparr>"
    if "marks_ok ds bmap (bmap_mark st) (inode_addrs img inode)" for m
    using check_dir_Inr [OF base [OF that], of img i "st\<lparr>bmap_mark := m\<rparr>" st'] by simp
  have "check_inode img ds bmap i st = Inr st' \<longleftrightarrow> type_ok inode \<and>
     (if di_type inode = 0 then st' = st
      else marks_ok ds bmap (bmap_mark st) (inode_addrs img inode) \<and>
       (let m = fold set_mark (inode_addrs img inode) (bmap_mark st) in
        if di_type inode = T_DIR then check_dir img i inode (st\<lparr>bmap_mark := m\<rparr>) = Inr st'
        else st' = st\<lparr>bmap_mark := m\<rparr>))"
    by (auto simp: check_inode_def inode_def [symmetric] check_inode_type_def type_ok_def
        ebind_eq_Inr check_addrs_Inr Let_def T)
  then show ?thesis
    using dir T by (auto simp: Let_def inode_def [symmetric] inode_ok_def inode_used_def inode_refs_def)
qed

text \<open>The loop changes only the link counts of the inodes.\<close>

definition same_inodes :: "dinode list \<Rightarrow> xstate \<Rightarrow> bool" where
  "same_inodes inos st \<longleftrightarrow> length (inodes st) = length inos \<and>
     (\<forall>j < length inos. (inodes st ! j)\<lparr>di_nlink := 0\<rparr> = (inos ! j)\<lparr>di_nlink := 0\<rparr>)"

lemma nlink_irrelevant:
  assumes "a\<lparr>di_nlink := 0\<rparr> = b\<lparr>di_nlink := 0\<rparr>"
  shows "di_type a = di_type b" "di_size a = di_size b" "di_addrs a = di_addrs b"
    and "inode_used img a = inode_used img b" "inode_refs img i a = inode_refs img i b"
    and "inode_ok img n i a = inode_ok img n i b"
proof -
  show eqs: "di_type a = di_type b" "di_size a = di_size b" "di_addrs a = di_addrs b"
    using assms by (metis dinode.select_convs dinode.surjective dinode.update_convs(4))+
  show "inode_used img a = inode_used img b" "inode_refs img i a = inode_refs img i b"
    "inode_ok img n i a = inode_ok img n i b"
    using eqs by (auto simp: inode_used_def inode_addrs_def inode_refs_def inode_ok_def type_ok_def
        dir_ok_def dir_form_ok_def dir_entries_def)
qed

lemma apply_ref_inode:
  "j < length (inodes st) \<Longrightarrow>
     (inodes (apply_ref r st) ! j)\<lparr>di_nlink := 0\<rparr> = (inodes st ! j)\<lparr>di_nlink := 0\<rparr>"
  by (cases r) (simp add: apply_ref_def Let_def nth_update)

lemma same_inodes_apply_ref: "same_inodes inos st \<Longrightarrow> same_inodes inos (apply_ref r st)"
  unfolding same_inodes_def by (metis apply_ref_frame(1) apply_ref_inode)

lemma same_inodes_fold: "same_inodes inos st \<Longrightarrow> same_inodes inos (fold apply_ref rs st)"
  by (induction rs arbitrary: st) (auto simp: same_inodes_apply_ref)

lemma same_inodes_mark [simp]: "same_inodes inos (st\<lparr>bmap_mark := m\<rparr>) = same_inodes inos st"
  by (simp add: same_inodes_def)

lemma check_inodes_Inr:
  assumes "same_inodes inos st" "set is \<subseteq> {..<length inos}"
  shows "efold (check_inode img ds bmap) is st = Inr st' \<longleftrightarrow>
    (\<forall>i \<in> set is. inode_ok img (length inos) i (inos ! i)) \<and>
    marks_ok ds bmap (bmap_mark st) (concat (map (\<lambda>i. inode_used img (inos ! i)) is)) \<and>
    st' = (fold apply_ref (concat (map (\<lambda>i. inode_refs img i (inos ! i)) is)) st)
            \<lparr>bmap_mark := fold set_mark (concat (map (\<lambda>i. inode_used img (inos ! i)) is)) (bmap_mark st)\<rparr>"
  using assms
proof (induction "is" arbitrary: st)
  case Nil
  then show ?case by auto
next
  case (Cons i "is")
  then have eq: "(inodes st ! i)\<lparr>di_nlink := 0\<rparr> = (inos ! i)\<lparr>di_nlink := 0\<rparr>"
    and len: "length (inodes st) = length inos"
    by (auto simp: same_inodes_def)
  let ?u = "(fold apply_ref (inode_refs img i (inos ! i)) st)
             \<lparr>bmap_mark := fold set_mark (inode_used img (inos ! i)) (bmap_mark st)\<rparr>"
  have "same_inodes inos ?u" using Cons.prems(1) by (simp add: same_inodes_fold)
  with Cons have ih: "efold (check_inode img ds bmap) is ?u = Inr st' \<longleftrightarrow>
    (\<forall>i \<in> set is. inode_ok img (length inos) i (inos ! i)) \<and>
    marks_ok ds bmap (bmap_mark ?u) (concat (map (\<lambda>i. inode_used img (inos ! i)) is)) \<and>
    st' = (fold apply_ref (concat (map (\<lambda>i. inode_refs img i (inos ! i)) is)) ?u)
            \<lparr>bmap_mark := fold set_mark (concat (map (\<lambda>i. inode_used img (inos ! i)) is)) (bmap_mark ?u)\<rparr>"
    by (intro Cons.IH) auto
  have "efold (check_inode img ds bmap) (i # is) st = Inr st' \<longleftrightarrow>
      inode_ok img (length inos) i (inos ! i) \<and>
      marks_ok ds bmap (bmap_mark st) (inode_used img (inos ! i)) \<and>
      efold (check_inode img ds bmap) is ?u = Inr st'"
    using nlink_irrelevant [OF eq] len
    by (auto simp: ebind_eq_Inr check_inode_Inr Let_def)
  then show ?case unfolding ih by (auto simp: marks_ok_append)
qed

section \<open>What the bookkeeping arrays hold\<close>

definition refs_to :: "nat \<Rightarrow> (nat \<times> nat) list \<Rightarrow> nat" where
  "refs_to j rs = length (filter (\<lambda>(i, k). k = j) rs)"

definition dir_refs_to :: "nat \<Rightarrow> (nat \<times> nat) list \<Rightarrow> nat" where
  "dir_refs_to j rs = length (filter (\<lambda>(i, k). k = j \<and> i \<noteq> j) rs)"

lemma T_distinct: "T_DIR \<noteq> T_FILE" "T_FILE \<noteq> 0" "T_DIR \<noteq> 0"
  by (simp_all add: T_DIR_def T_FILE_def)

lemma fold_apply_ref_arrays:
  assumes "length (inode_dir st) = length (inodes st)" "length (dir_links st) = length (inodes st)"
    and "j < length (inodes st)"
  shows "inode_dir (fold apply_ref rs st) ! j = (if j \<in> snd ` set rs then 1 else inode_dir st ! j) \<and>
    di_type (inodes (fold apply_ref rs st) ! j) = di_type (inodes st ! j) \<and>
    (di_type (inodes st ! j) = T_FILE \<longrightarrow>
       di_nlink (inodes (fold apply_ref rs st) ! j) = di_nlink (inodes st ! j) - of_nat (refs_to j rs)) \<and>
    (di_type (inodes st ! j) = T_DIR \<longrightarrow>
       dir_links (fold apply_ref rs st) ! j = dir_links st ! j + of_nat (dir_refs_to j rs))"
  using assms
proof (induction rs arbitrary: st)
  case Nil
  then show ?case by (simp add: refs_to_def dir_refs_to_def)
next
  case (Cons r rs)
  obtain i k where r: "r = (i, k)" by (cases r)
  have len: "length (inode_dir (apply_ref r st)) = length (inode_dir st)"
    "length (dir_links (apply_ref r st)) = length (dir_links st)"
    by (auto simp: apply_ref_def r Let_def)
  have arr: "inode_dir (apply_ref r st) ! j = (if k = j then 1 else inode_dir st ! j)"
    "di_type (inodes (apply_ref r st) ! j) = di_type (inodes st ! j)"
    "di_type (inodes st ! j) = T_FILE \<Longrightarrow>
       di_nlink (inodes (apply_ref r st) ! j) = di_nlink (inodes st ! j) - (if k = j then 1 else 0)"
    "di_type (inodes st ! j) = T_DIR \<Longrightarrow>
       dir_links (apply_ref r st) ! j = dir_links st ! j + (if k = j \<and> i \<noteq> j then 1 else 0)"
    using Cons.prems T_distinct by (auto simp: apply_ref_def r Let_def nth_update)
  have "fold apply_ref (r # rs) st = fold apply_ref rs (apply_ref r st)" by simp
  with Cons.IH [of "apply_ref r st"] Cons.prems len arr show ?case
    by (auto simp: r refs_to_def dir_refs_to_def)
qed

lemma bitmap_loop_Inr:
  "bitmap_loop bmap mark (8 * j) = Inr () \<longleftrightarrow>
     (8 * j < int NBMAP \<longrightarrow> 0 \<le> j) \<and> (\<forall>k. nat j \<le> k \<and> k < 80 \<longrightarrow> bmap ! k = mark ! k)"
proof (induction "nat (80 - j)" arbitrary: j rule: less_induct)
  case less
  show ?case
  proof (cases "8 * j < int NBMAP")
    case False
    then have "80 \<le> nat j" by (simp add: fs_consts)
    with False show ?thesis by (subst bitmap_loop.simps) auto
  next
    case lt: True
    then have j: "j < 80" by (simp add: fs_consts)
    show ?thesis
    proof (cases "j < 0")
      case True
      with lt show ?thesis by (subst bitmap_loop.simps) simp
    next
      case False
      have ih: "bitmap_loop bmap mark (8 * (j + 1)) = Inr () \<longleftrightarrow>
          (\<forall>k. nat (j + 1) \<le> k \<and> k < 80 \<longrightarrow> bmap ! k = mark ! k)"
        using less [of "j + 1"] j False by simp
      have range: "nat j \<le> k \<longleftrightarrow> k = nat j \<or> nat (j + 1) \<le> k" for k using False by auto
      have "bitmap_loop bmap mark (8 * j) = (if bmap ! nat j \<noteq> mark ! nat j then
          Inl (Exit ''ERROR: bitmap marks block in use but it is not in use.'')
          else bitmap_loop bmap mark (8 * (j + 1)))"
        using lt False by (subst bitmap_loop.simps) (simp add: algebra_simps)
      with ih range False j show ?thesis by (auto simp: nat_less_iff)
    qed
  qed
qed

section \<open>Consistency of an image\<close>

definition img_sb :: "image \<Rightarrow> superblock" where
  "img_sb img = superblock_of (map img [BSIZE..<BSIZE + 28])"

definition img_n :: "image \<Rightarrow> nat" where
  "img_n img = unat (sb_ninodes (img_sb img))"

definition img_inodes :: "image \<Rightarrow> dinode list" where
  "img_inodes img = (let a = blk_addr (sb_inodestart (img_sb img)) in
     map (\<lambda>i. dinode_of (map img [a..<a + 64 * img_n img]) (64 * i)) [0..<img_n img])"

definition img_bmap :: "image \<Rightarrow> uchar list" where
  "img_bmap img = (let a = blk_addr (sb_bmapstart (img_sb img)) in map img [a..<a + NBMAP])"

definition img_data_start :: "image \<Rightarrow> uint" where
  "img_data_start img = 1000 - sb_nblocks (img_sb img)"

text \<open>The block addresses of all inodes in use, and the directory entries of all directories.\<close>

definition img_used :: "image \<Rightarrow> uint list" where
  "img_used img = concat (map (\<lambda>i. inode_used img (img_inodes img ! i)) [ROOTINO..<img_n img])"

definition img_refs :: "image \<Rightarrow> (nat \<times> nat) list" where
  "img_refs img = concat (map (\<lambda>i. inode_refs img i (img_inodes img ! i)) [ROOTINO..<img_n img])"

definition tables_inside :: "image \<Rightarrow> bool" where
  "tables_inside img \<longleftrightarrow>
     blk_addr (sb_inodestart (img_sb img)) + 64 * img_n img \<le> IMG_SIZE \<and>
     blk_addr (sb_bmapstart (img_sb img)) + NBMAP \<le> IMG_SIZE"

text \<open>Every block in use is a data block marked in the bitmap, and none is used twice.\<close>

definition blocks_ok :: "image \<Rightarrow> bool" where
  "blocks_ok img \<longleftrightarrow>
     (\<forall>a \<in> set (img_used img). a \<noteq> 0 \<longrightarrow>
        img_data_start img \<le> a \<and> a < 1000 \<and> marked (img_bmap img) (unat a)) \<and>
     distinct (filter (\<lambda>a. a \<noteq> 0) (img_used img))"

text \<open>From the byte after that of the first data block, the blocks below 640 that the bitmap marks
  are in use.\<close>

definition bitmap_ok :: "image \<Rightarrow> bool" where
  "bitmap_ok img \<longleftrightarrow> (let first = cdiv8 (sint (img_data_start img)) + 1 in
     (first < 80 \<longrightarrow> 0 \<le> first) \<and>
     (\<forall>b. 8 * nat first \<le> b \<and> b < 640 \<and> marked (img_bmap img) b \<longrightarrow>
        (\<exists>a \<in> set (img_used img). a \<noteq> 0 \<and> unat a = b)))"

text \<open>An inode is in use exactly when a directory refers to it, a file has no more links than
  references (the difference taken in 16 bits), and a directory is an entry of at most one other
  directory.\<close>

definition refs_ok :: "image \<Rightarrow> nat \<Rightarrow> bool" where
  "refs_ok img j \<longleftrightarrow> (let ino = img_inodes img ! j in
     (di_type ino \<noteq> 0 \<longleftrightarrow> j \<in> snd ` set (img_refs img)) \<and>
     (di_type ino = T_FILE \<longrightarrow> sint (di_nlink ino - of_nat (refs_to j (img_refs img))) \<le> 0) \<and>
     (di_type ino = T_DIR \<longrightarrow> dir_refs_to j (img_refs img) \<le> 1))"

definition fs_consistent :: "image \<Rightarrow> bool" where
  "fs_consistent img \<longleftrightarrow> tables_inside img \<and>
     (\<forall>i \<in> {ROOTINO..<img_n img}. inode_ok img (img_n img) i (img_inodes img ! i)) \<and>
     blocks_ok img \<and> bitmap_ok img \<and> (\<forall>j \<in> {ROOTINO..<img_n img}. refs_ok img j)"

lemma marked_word_eq:
  "(\<forall>k. m \<le> k \<and> k < n \<longrightarrow> bm ! k = cm ! k) \<longleftrightarrow>
   (\<forall>b. 8 * m \<le> b \<and> b < 8 * n \<longrightarrow> marked bm b = marked cm b)" for bm cm :: "uchar list"
proof
  assume eq: "\<forall>k. m \<le> k \<and> k < n \<longrightarrow> bm ! k = cm ! k"
  show "\<forall>b. 8 * m \<le> b \<and> b < 8 * n \<longrightarrow> marked bm b = marked cm b"
  proof (intro allI impI)
    fix b assume "8 * m \<le> b \<and> b < 8 * n"
    then have "m \<le> b div 8" "b div 8 < n" by (auto simp: less_eq_div_iff_mult_less_eq div_less_iff_less_mult)
    with eq show "marked bm b = marked cm b" by (simp add: marked_def)
  qed
next
  assume eq: "\<forall>b. 8 * m \<le> b \<and> b < 8 * n \<longrightarrow> marked bm b = marked cm b"
  show "\<forall>k. m \<le> k \<and> k < n \<longrightarrow> bm ! k = cm ! k"
  proof (intro allI impI)
    fix k assume k: "m \<le> k \<and> k < n"
    have "bit (bm ! k) r = bit (cm ! k) r" if "r < 8" for r
      using eq [rule_format, of "8 * k + r"] k that by (simp add: marked_def)
    then show "bm ! k = cm ! k" by (intro bit_word_eqI) simp
  qed
qed

lemma efold_check_refs:
  "efold (check_refs st) js () = Inr () \<longleftrightarrow> (\<forall>j \<in> set js. check_refs st j () = Inr ())"
  by (induction js) (auto simp: ebind_eq_Inr)

lemma dir_entries_length: "dir_ok img n i inode \<Longrightarrow> length (dir_entries img inode) \<le> 32"
  using div_le_mono [of "unat (di_size inode) + 15" 527 16]
  by (simp add: dir_ok_def dir_form_ok_def dir_entries_def Let_def)

lemma length_concat_le:
  "(\<And>x. x \<in> set xs \<Longrightarrow> length (f x) \<le> c) \<Longrightarrow> length (concat (map f xs)) \<le> c * length xs"
  by (induction xs) (auto simp: add_le_mono)

lemma img_refs_bound:
  assumes "tables_inside img" "\<forall>i \<in> {ROOTINO..<img_n img}. inode_ok img (img_n img) i (img_inodes img ! i)"
  shows "dir_refs_to j (img_refs img) < 2 ^ 32"
proof -
  have "length (inode_refs img i (img_inodes img ! i)) \<le> 32" if "i \<in> set [ROOTINO..<img_n img]" for i
    using assms(2) that dir_entries_length
    by (auto simp: inode_refs_def inode_ok_def entry_refs_def split: if_splits)
  then have "length (img_refs img) \<le> 32 * length [ROOTINO..<img_n img]"
    unfolding img_refs_def by (rule length_concat_le)
  also have "\<dots> \<le> 32 * 8000" using assms(1) by (auto simp: tables_inside_def fs_consts)
  finally have "length (img_refs img) \<le> 256000" by simp
  then show ?thesis
    unfolding dir_refs_to_def by (rule le_less_trans [OF le_trans [OF length_filter_le]]) simp
qed

text \<open>The state after the loop over the inodes.\<close>

definition st_start :: "image \<Rightarrow> xstate" where
  "st_start img = \<lparr>inodes = img_inodes img, bmap_mark = replicate NBMAP 0,
     inode_dir = replicate (img_n img) 0, dir_links = replicate (img_n img) 0\<rparr>"

definition st_final :: "image \<Rightarrow> xstate" where
  "st_final img = (fold apply_ref (img_refs img) (st_start img))
     \<lparr>bmap_mark := fold set_mark (img_used img) (replicate NBMAP 0)\<rparr>"

lemma length_img_inodes [simp]: "length (img_inodes img) = img_n img"
  by (simp add: img_inodes_def Let_def)

lemma marked_zero [simp]: "b < 8 * NBMAP \<Longrightarrow> \<not> marked (replicate NBMAP 0) b"
  by (simp add: marked_def div_less_iff_less_mult mult.commute)

lemma marks_ok_start:
  "marks_ok (img_data_start img) (img_bmap img) (replicate NBMAP 0) (img_used img) \<longleftrightarrow> blocks_ok img"
proof -
  have "a < 1000 \<Longrightarrow> \<not> marked (replicate NBMAP 0) (unat a)" for a :: uint
    by (rule marked_zero) (simp add: word_less_nat_alt fs_consts)
  then show ?thesis by (auto simp: marks_ok_iff blocks_ok_def)
qed

lemma check_inodes_start:
  "efold (check_inode img (img_data_start img) (img_bmap img)) [ROOTINO..<img_n img] (st_start img) = Inr st \<longleftrightarrow>
    (\<forall>i \<in> {ROOTINO..<img_n img}. inode_ok img (img_n img) i (img_inodes img ! i)) \<and>
    blocks_ok img \<and> st = st_final img"
proof -
  have same: "same_inodes (img_inodes img) (st_start img)" by (simp add: same_inodes_def st_start_def)
  have "set [ROOTINO..<img_n img] \<subseteq> {..<length (img_inodes img)}" by auto
  from check_inodes_Inr [OF same this, of img "img_data_start img" "img_bmap img" st] show ?thesis
    unfolding img_used_def [symmetric] img_refs_def [symmetric] length_img_inodes
    by (simp add: st_final_def marks_ok_start st_start_def)
qed

lemma bitmap_loop_final:
  assumes "blocks_ok img"
  shows "bitmap_loop (img_bmap img) (bmap_mark (st_final img))
      ((cdiv8 (sint (img_data_start img)) + 1) * 8) = Inr () \<longleftrightarrow> bitmap_ok img"
proof -
  define first where "first = cdiv8 (sint (img_data_start img)) + 1"
  have small: "\<forall>a \<in> set (img_used img). a < 1000"
    using assms by (auto simp: blocks_ok_def)
  have mark: "marked (bmap_mark (st_final img)) b \<longleftrightarrow> (\<exists>a \<in> set (img_used img). a \<noteq> 0 \<and> unat a = b)"
    if "b < 640" for b
  proof -
    have "marked (bmap_mark (st_final img)) b \<longleftrightarrow> marked (fold set_mark (img_used img) (replicate NBMAP 0)) b"
      by (simp add: st_final_def)
    also have "\<dots> \<longleftrightarrow> marked (replicate NBMAP 0) b \<or> (\<exists>a \<in> set (img_used img). a \<noteq> 0 \<and> b = unat a)"
      using small by (rule marked_fold) simp
    moreover have "\<not> marked (replicate NBMAP 0) b"
      using that by (intro marked_zero) (simp add: fs_consts)
    ultimately show ?thesis by auto
  qed
  have sub: "marked (img_bmap img) b" if "\<exists>a \<in> set (img_used img). a \<noteq> 0 \<and> unat a = b" for b
    using assms that by (auto simp: blocks_ok_def)
  have "bitmap_loop (img_bmap img) (bmap_mark (st_final img)) (8 * first) = Inr () \<longleftrightarrow>
      (8 * first < int NBMAP \<longrightarrow> 0 \<le> first) \<and>
      (\<forall>b. 8 * nat first \<le> b \<and> b < 640 \<longrightarrow> marked (img_bmap img) b = marked (bmap_mark (st_final img)) b)"
    by (simp add: bitmap_loop_Inr marked_word_eq)
  also have "\<dots> \<longleftrightarrow> bitmap_ok img"
    unfolding bitmap_ok_def first_def [symmetric] Let_def using mark sub by (auto simp: fs_consts)
  finally show ?thesis by (simp add: first_def mult.commute)
qed

lemma check_refs_final:
  assumes "tables_inside img"
    and "\<forall>i \<in> {ROOTINO..<img_n img}. inode_ok img (img_n img) i (img_inodes img ! i)"
    and "j < img_n img"
  shows "check_refs (st_final img) j () = Inr () \<longleftrightarrow> refs_ok img j"
proof -
  have "dir_refs_to j (img_refs img) < 2 ^ 32" using assms(1,2) by (rule img_refs_bound)
  then have w: "1 < (of_nat (dir_refs_to j (img_refs img)) :: uint) \<longleftrightarrow> 1 < dir_refs_to j (img_refs img)"
    by (simp add: word_less_nat_alt unsigned_of_nat take_bit_nat_eq_self)
  have arr: "inode_dir (st_final img) ! j = (if j \<in> snd ` set (img_refs img) then 1 else 0)"
    "di_type (inodes (st_final img) ! j) = di_type (img_inodes img ! j)"
    "di_type (img_inodes img ! j) = T_FILE \<Longrightarrow> di_nlink (inodes (st_final img) ! j) =
       di_nlink (img_inodes img ! j) - of_nat (refs_to j (img_refs img))"
    "di_type (img_inodes img ! j) = T_DIR \<Longrightarrow>
       dir_links (st_final img) ! j = of_nat (dir_refs_to j (img_refs img))"
    using fold_apply_ref_arrays [of "st_start img" j "img_refs img"] assms(3)
    by (auto simp: st_final_def st_start_def)
  show ?thesis
    unfolding check_refs_def refs_ok_def Let_def arr(1,2)
    using arr(3,4) w T_distinct by (auto split: if_splits)
qed

lemma img_tables_read:
  "img_read img BSIZE 28 = Inr (map img [BSIZE..<BSIZE + 28])"
  "read_inodes img (img_sb img) = (if blk_addr (sb_inodestart (img_sb img)) + 64 * img_n img \<le> IMG_SIZE
      then Inr (img_inodes img) else Inl Fault)"
  "img_read img (blk_addr (sb_bmapstart (img_sb img))) NBMAP =
      (if blk_addr (sb_bmapstart (img_sb img)) + NBMAP \<le> IMG_SIZE then Inr (img_bmap img) else Inl Fault)"
  "of_nat FSSIZE - sb_nblocks (img_sb img) = img_data_start img"
proof -
  show "img_read img BSIZE 28 = Inr (map img [BSIZE..<BSIZE + 28])"
    by (simp add: img_read_def fs_consts del: upt_rec_numeral upt_Suc)
qed (simp_all add: read_inodes_def img_read_def img_inodes_def img_n_def img_bmap_def
    img_data_start_def FSSIZE_def Let_def)

lemma xcheck_unfold:
  "xcheck img = (if tables_inside img then
     ebind (efold (check_inode img (img_data_start img) (img_bmap img)) [ROOTINO..<img_n img] (st_start img)) (\<lambda>st.
     ebind (bitmap_loop (img_bmap img) (bmap_mark st) ((cdiv8 (sint (img_data_start img)) + 1) * 8)) (\<lambda>_.
     efold (check_refs st) [ROOTINO..<img_n img] ()))
   else Inl Fault)"
  unfolding xcheck_def img_tables_read ebind_Inr img_sb_def [symmetric] Let_def img_n_def [symmetric]
    tables_inside_def
  by (simp add: st_start_def img_tables_read split: if_splits)

lemma xcheck_iff_consistent: "xcheck img = Inr () \<longleftrightarrow> fs_consistent img"
proof (cases "tables_inside img")
  case True
  have "xcheck img = Inr () \<longleftrightarrow>
     (\<forall>i \<in> {ROOTINO..<img_n img}. inode_ok img (img_n img) i (img_inodes img ! i)) \<and> blocks_ok img \<and>
     bitmap_loop (img_bmap img) (bmap_mark (st_final img))
       ((cdiv8 (sint (img_data_start img)) + 1) * 8) = Inr () \<and>
     (\<forall>j \<in> {ROOTINO..<img_n img}. check_refs (st_final img) j () = Inr ())"
    using True by (auto simp: xcheck_unfold ebind_eq_Inr check_inodes_start efold_check_refs)
  then show ?thesis
    using True check_refs_final [OF True] bitmap_loop_final by (auto simp: fs_consistent_def)
next
  case False
  then show ?thesis by (simp add: xcheck_unfold fs_consistent_def)
qed


section \<open>What the checker does not notice\<close>

text \<open>An image with 200 inodes, all free, whose bitmap marks block 999.\<close>

definition rootless_image :: image where
  "rootless_image a =
    (if a = 516 then 0xAC else if a = 517 then 3 else if a = 520 then 200 else if a = 532 then 2
     else if a = 536 then 28 else if a = 28 * 512 + 124 then 128 else 0)"

lemma rootless_sb:
  "sb_nblocks (img_sb rootless_image) = 940" "img_n rootless_image = 200"
  "blk_addr (sb_inodestart (img_sb rootless_image)) = 1024"
  "blk_addr (sb_bmapstart (img_sb rootless_image)) = 14336"
proof -
  have bytes: "map rootless_image [BSIZE..<BSIZE + 28] =
     [0, 0, 0, 0, 0xAC, 3, 0, 0, 200, 0, 0, 0, 0, 0, 0, 0, 0, 0, 0, 0, 2, 0, 0, 0, 28, 0, 0, 0]"
    by (simp add: rootless_image_def BSIZE_def)
  have sb: "img_sb rootless_image = superblock_of
     [0, 0, 0, 0, 0xAC, 3, 0, 0, 200, 0, 0, 0, 0, 0, 0, 0, 0, 0, 0, 0, 2, 0, 0, 0, 28, 0, 0, 0]"
    unfolding img_sb_def bytes ..
  show "sb_nblocks (img_sb rootless_image) = 940" "img_n rootless_image = 200"
    "blk_addr (sb_inodestart (img_sb rootless_image)) = 1024"
    "blk_addr (sb_bmapstart (img_sb rootless_image)) = 14336"
    by (simp_all add: sb superblock_of_def le32_def img_n_def blk_addr_def unsigned_ucast_eq)
qed

lemma rootless_types: "i < 200 \<Longrightarrow> di_type (img_inodes rootless_image ! i) = 0"
  by (simp add: img_inodes_def rootless_sb dinode_of_def le16_def Let_def rootless_image_def
      del: upt_rec_numeral)

lemma rootless_bitmap: "k < NBMAP \<Longrightarrow> img_bmap rootless_image ! k = (if k = 124 then 128 else 0)"
  by (simp add: img_bmap_def rootless_sb Let_def rootless_image_def del: upt_rec_numeral)

lemma rootless_free: "i \<in> {ROOTINO..<img_n rootless_image} \<Longrightarrow> di_type (img_inodes rootless_image ! i) = 0"
  using rootless_types by (simp add: rootless_sb)

lemma rootless_none: "img_used rootless_image = []" "img_refs rootless_image = []"
  using rootless_free T_distinct by (auto simp: img_used_def img_refs_def inode_used_def inode_refs_def)

lemma rootless_consistent: "fs_consistent rootless_image"
proof -
  have "\<not> marked (img_bmap rootless_image) b" if "b < 640" for b
  proof -
    have "b div 8 < 80" using that by (simp add: div_less_iff_less_mult)
    then show ?thesis by (simp add: marked_def rootless_bitmap fs_consts)
  qed
  then have "bitmap_ok rootless_image"
    by (auto simp: bitmap_ok_def img_data_start_def rootless_sb cdiv8_def)
  moreover have "tables_inside rootless_image" by (simp add: tables_inside_def rootless_sb fs_consts)
  moreover have "inode_ok rootless_image n i (img_inodes rootless_image ! i)"
    if "i \<in> {ROOTINO..<img_n rootless_image}" for n i
    using rootless_free [OF that] T_distinct by (simp add: inode_ok_def type_ok_def)
  moreover have "refs_ok rootless_image i" if "i \<in> {ROOTINO..<img_n rootless_image}" for i
    using rootless_free [OF that] T_distinct rootless_none by (simp add: refs_ok_def)
  ultimately show ?thesis using rootless_none by (auto simp: fs_consistent_def blocks_ok_def)
qed

text \<open>
  Two inconsistencies that go unnoticed: the checker accepts an image that has no root
  directory at all (error 3 is only looked for when inode 1 is a directory), and in which the bitmap
  marks block 999 although no inode uses it (the loop for error 6 compares the bytes of the bitmap
  only up to block 639, because its bound counts bytes and its variable bits).
\<close>

theorem xcheck_accepts_rootless:
  "xcheck rootless_image = Inr () \<and> di_type (img_inodes rootless_image ! ROOTINO) \<noteq> T_DIR \<and>
   marked (img_bmap rootless_image) 999 \<and> img_used rootless_image = []"
proof -
  have "marked (img_bmap rootless_image) 999"
    by (simp add: marked_def rootless_bitmap fs_consts bit_numeral_word_iff)
  then show ?thesis
    using rootless_consistent rootless_none T_distinct rootless_types
    by (simp add: fs_consts flip: xcheck_iff_consistent)
qed

text \<open>
  The \<open>..\<close> entries of subdirectories count as references to their parent, so a directory with two
  subdirectories is always rejected, well formed or not.
\<close>

lemma filter_two: "x \<in> set xs \<Longrightarrow> y \<in> set xs \<Longrightarrow> x \<noteq> y \<Longrightarrow> P x \<Longrightarrow> P y \<Longrightarrow> 2 \<le> length (filter P xs)"
proof -
  assume a: "x \<in> set xs" "y \<in> set xs" "x \<noteq> y" "P x" "P y"
  have "card {x, y} \<le> card (set (filter P xs))" using a by (intro card_mono) auto
  also have "\<dots> \<le> length (filter P xs)" by (rule card_length)
  finally show ?thesis using a(3) by simp
qed

lemma img_refs_mem:
  "i \<in> {ROOTINO..<img_n img} \<Longrightarrow> di_type (img_inodes img ! i) = T_DIR \<Longrightarrow>
     de \<in> set (dir_entries img (img_inodes img ! i)) \<Longrightarrow> (i, unat (de_inum de)) \<in> set (img_refs img)"
  by (force simp: img_refs_def inode_refs_def entry_refs_def)

lemma xcheck_rejects_two_subdirs:
  assumes "i \<in> {ROOTINO..<img_n img}" "k \<in> {ROOTINO..<img_n img}" "j \<in> {ROOTINO..<img_n img}"
    and "i \<noteq> k" "i \<noteq> j" "k \<noteq> j"
    and "di_type (img_inodes img ! i) = T_DIR" "di_type (img_inodes img ! k) = T_DIR"
      "di_type (img_inodes img ! j) = T_DIR"
    and "de1 \<in> set (dir_entries img (img_inodes img ! i))" "is_dotdot de1" "unat (de_inum de1) = j"
    and "de2 \<in> set (dir_entries img (img_inodes img ! k))" "is_dotdot de2" "unat (de_inum de2) = j"
  shows "xcheck img \<noteq> Inr ()"
proof
  assume "xcheck img = Inr ()"
  then have "refs_ok img j" using assms(3) by (simp add: xcheck_iff_consistent fs_consistent_def)
  then have le: "dir_refs_to j (img_refs img) \<le> 1" using assms by (simp add: refs_ok_def Let_def)
  have "(i, j) \<in> set (img_refs img)" "(k, j) \<in> set (img_refs img)"
    using img_refs_mem [OF assms(1,7,10)] img_refs_mem [OF assms(2,8,13)] assms(12,15) by auto
  then have "2 \<le> dir_refs_to j (img_refs img)"
    unfolding dir_refs_to_def using assms(4-6) by (intro filter_two [of "(i, j)" _ "(k, j)"]) auto
  with le show False by simp
qed

end
