(* ===== verification/Xcheck_Contest1.thy ===== *)
theory Xcheck_Contest1
  imports Xcheck_Correct
begin

text \<open>
  \<^verbatim>\<open>projects/filesystems-check/xcheck_contest_1.c\<close>: the checker extended with the test that the \<open>..\<close>
  entry of a directory refers to the directory that contains it. It remembers for every directory
  the subdirectories seen in it, in an array of \<open>MAX_CHILDS\<close> entries.
\<close>

section \<open>The extended checker\<close>

definition MAX_CHILDS :: nat where "MAX_CHILDS = 10"

record dir_map =
  child_inum :: "uint list"
  child_num :: nat
  parent_inum :: uint

definition empty_map :: dir_map where
  "empty_map = \<lparr>child_inum = replicate MAX_CHILDS 0, child_num = 0, parent_inum = 0\<rparr>"

record c1_state =
  c1_x :: xstate
  maps :: "dir_map list"

text \<open>The search for \<open>i\<close> among the children of \<open>p\<close>.\<close>

definition find_child :: "dir_map \<Rightarrow> nat \<Rightarrow> bool" where
  "find_child m i = (\<exists>c < child_num m. unat (child_inum m ! c) = i)"

lemma find_child_code [code]:
  "find_child m i = list_ex (\<lambda>c. unat (child_inum m ! c) = i) [0..<child_num m]"
  by (auto simp: find_child_def list_ex_iff)

definition c1_parent :: "nat \<Rightarrow> dirent \<Rightarrow> c1_state \<Rightarrow> xerr + unit" where
  "c1_parent i de st =
    (let p = unat (de_inum de) in
     if i = ROOTINO \<and> p = ROOTINO then Inr ()
     else if length (maps st) \<le> p then Inl Fault
     else if find_child (maps st ! p) i then Inr ()
     else Inl (Exit ''ERROR: parent directory mismatch.''))"

text \<open>\<open>note_entry\<close>, and the entry of a subdirectory appended to the children of \<open>i\<close>; the array has
  room for \<open>MAX_CHILDS\<close>.\<close>

definition c1_note :: "nat \<Rightarrow> dirent \<Rightarrow> c1_state \<Rightarrow> xerr + c1_state" where
  "c1_note i de st =
    ebind (note_entry i de (c1_x st)) (\<lambda>x.
      let k = unat (de_inum de); m = maps st ! i in
      if di_type (inodes (c1_x st) ! k) = T_DIR \<and> i \<noteq> k then
        if child_num m < MAX_CHILDS then
          Inr \<lparr>c1_x = x, maps = (maps st)[i := m\<lparr>child_inum := (child_inum m)[child_num m := ucast (de_inum de)],
                                             child_num := child_num m + 1\<rparr>]\<rparr>
        else Inl Fault
      else Inr (st\<lparr>c1_x := x\<rparr>))"

text \<open>The work for one entry; the parent test comes first, in the branch for \<open>..\<close>.\<close>

definition c1_entry :: "nat \<Rightarrow> dirent \<Rightarrow> c1_state \<Rightarrow> xerr + c1_state" where
  "c1_entry i de st =
    ebind (if is_dotdot de then c1_parent i de st else Inr ()) (\<lambda>_. c1_note i de st)"

definition c1_check_dir :: "image \<Rightarrow> nat \<Rightarrow> dinode \<Rightarrow> c1_state \<Rightarrow> xerr + c1_state" where
  "c1_check_dir img i inode st = scan_dir (c1_entry i) img i inode st"

definition c1_check_inode ::
  "image \<Rightarrow> uint \<Rightarrow> uchar list \<Rightarrow> nat \<Rightarrow> c1_state \<Rightarrow> xerr + c1_state" where
  "c1_check_inode img data_start bmap i st =
    (let inode = inodes (c1_x st) ! i in
     ebind (check_inode_type (di_type inode)) (\<lambda>_.
     ebind (if di_type inode \<noteq> 0 then check_addrs img data_start bmap inode (bmap_mark (c1_x st))
            else Inr (bmap_mark (c1_x st))) (\<lambda>mark.
     let st = st\<lparr>c1_x := (c1_x st)\<lparr>bmap_mark := mark\<rparr>\<rparr> in
     if di_type inode = T_DIR then c1_check_dir img i inode st else Inr st)))"

definition xcheck_contest_1 :: "image \<Rightarrow> xerr + unit" where
  "xcheck_contest_1 img =
    ebind (img_read img BSIZE 28) (\<lambda>sbytes.
    let sb = superblock_of sbytes; n = unat (sb_ninodes sb);
        data_start = of_nat FSSIZE - sb_nblocks sb in
    ebind (read_inodes img sb) (\<lambda>inos.
    ebind (img_read img (blk_addr (sb_bmapstart sb)) NBMAP) (\<lambda>bmap.
    let st0 = \<lparr>c1_x = \<lparr>inodes = inos, bmap_mark = replicate NBMAP 0, inode_dir = replicate n 0,
                        dir_links = replicate n 0\<rparr>,
               maps = replicate n empty_map\<rparr> in
    ebind (efold (c1_check_inode img data_start bmap) [ROOTINO..<n] st0) (\<lambda>st.
    ebind (bitmap_loop bmap (bmap_mark (c1_x st)) ((cdiv8 (sint data_start) + 1) * 8)) (\<lambda>_.
    efold (check_refs (c1_x st)) [ROOTINO..<n] ())))))"

section \<open>The children recorded so far\<close>

definition kids_of :: "dir_map \<Rightarrow> nat list" where
  "kids_of m = map unat (take (child_num m) (child_inum m))"

definition wf_map :: "dir_map \<Rightarrow> bool" where
  "wf_map m \<longleftrightarrow> length (child_inum m) = MAX_CHILDS \<and> child_num m \<le> MAX_CHILDS"

definition wf_maps :: "nat \<Rightarrow> c1_state \<Rightarrow> bool" where
  "wf_maps n st \<longleftrightarrow> length (maps st) = n \<and> length (inodes (c1_x st)) = n \<and> (\<forall>j < n. wf_map (maps st ! j))"

lemma kids_of_upt: "wf_map m \<Longrightarrow> kids_of m = map (\<lambda>c. unat (child_inum m ! c)) [0..<child_num m]"
  by (rule nth_equalityI) (auto simp: kids_of_def wf_map_def)

lemma find_child_kids: "wf_map m \<Longrightarrow> find_child m i \<longleftrightarrow> i \<in> set (kids_of m)"
  by (auto simp: find_child_def kids_of_upt)

lemma kids_of_length [simp]: "wf_map m \<Longrightarrow> length (kids_of m) = child_num m"
  by (simp add: kids_of_def wf_map_def)

definition is_kid :: "dinode list \<Rightarrow> nat \<Rightarrow> dirent \<Rightarrow> bool" where
  "is_kid inos i de \<longleftrightarrow> di_type (inos ! unat (de_inum de)) = T_DIR \<and> i \<noteq> unat (de_inum de)"

definition add_kid :: "nat \<Rightarrow> ushort \<Rightarrow> c1_state \<Rightarrow> dir_map list" where
  "add_kid i inum st = (let m = maps st ! i in
     (maps st)[i := m\<lparr>child_inum := (child_inum m)[child_num m := ucast inum], child_num := child_num m + 1\<rparr>])"

lemma add_kid_maps:
  assumes "wf_maps n st" "i < n" "child_num (maps st ! i) < MAX_CHILDS" "j < n"
  shows "wf_map (add_kid i inum st ! j) \<and>
    kids_of (add_kid i inum st ! j) = kids_of (maps st ! j) @ (if j = i then [unat inum] else [])"
proof -
  have "wf_map (maps st ! i)" "wf_map (maps st ! j)" "i < length (maps st)" "j < length (maps st)"
    using assms by (auto simp: wf_maps_def)
  moreover have "unat (ucast inum :: uint) = unat inum"
    using unsigned_less [of inum, where ?'a = nat] by (simp add: unsigned_ucast_eq take_bit_nat_eq_self)
  ultimately show ?thesis using assms(3)
    by (auto simp: add_kid_def Let_def nth_update kids_of_def wf_map_def take_Suc_update)
qed

definition entry_ok :: "nat \<Rightarrow> nat \<Rightarrow> (nat \<Rightarrow> nat list) \<Rightarrow> dirent \<Rightarrow> bool" where
  "entry_ok n i K de \<longleftrightarrow> (let p = unat (de_inum de) in
     p < n \<and> (is_dotdot de \<longrightarrow> i = ROOTINO \<and> p = ROOTINO \<or> p \<noteq> i \<and> i \<in> set (K p)))"

text \<open>One entry.\<close>

lemma c1_entry_step:
  assumes "wf_maps n st" "i < n" "i \<notin> set (kids_of (maps st ! i))"
  shows "c1_entry i de st =
    (if entry_ok n i (\<lambda>j. kids_of (maps st ! j)) de then
       if is_kid (inodes (c1_x st)) i de then
         if child_num (maps st ! i) < MAX_CHILDS then
           Inr \<lparr>c1_x = apply_ref (i, unat (de_inum de)) (c1_x st), maps = add_kid i (de_inum de) st\<rparr>
         else Inl Fault
       else Inr (st\<lparr>c1_x := apply_ref (i, unat (de_inum de)) (c1_x st)\<rparr>)
     else if unat (de_inum de) < n then Inl (Exit ''ERROR: parent directory mismatch.'') else Inl Fault)"
proof -
  let ?p = "unat (de_inum de)"
  have len: "length (maps st) = n" "length (inodes (c1_x st)) = n" using assms(1) by (auto simp: wf_maps_def)
  have parent: "c1_parent i de st = (if i = ROOTINO \<and> ?p = ROOTINO \<or> ?p \<noteq> i \<and> i \<in> set (kids_of (maps st ! ?p))
      then Inr () else Inl (Exit ''ERROR: parent directory mismatch.''))" if "?p < n"
    using that assms by (auto simp: c1_parent_def wf_maps_def find_child_kids Let_def)
  have note_ok: "note_entry i de (c1_x st) = (if ?p < n then Inr (apply_ref (i, ?p) (c1_x st)) else Inl Fault)"
    using note_entry_Inr [of i de "c1_x st" "apply_ref (i, ?p) (c1_x st)"] len
    by (auto simp: note_entry_def Let_def)
  show ?thesis
  proof (cases "?p < n")
    case True
    then show ?thesis
      unfolding c1_entry_def parent [OF True]
      by (auto simp: c1_note_def note_ok entry_ok_def is_kid_def add_kid_def Let_def)
  next
    case False
    then show ?thesis
      by (auto simp: c1_entry_def c1_parent_def c1_note_def note_ok entry_ok_def len Let_def)
  qed
qed

text \<open>The entries of one directory: they must all be fine with respect to the children known before,
  and leave room in the array.\<close>

definition new_kids :: "dinode list \<Rightarrow> nat \<Rightarrow> dirent list \<Rightarrow> nat list" where
  "new_kids inos i es = map (\<lambda>de. unat (de_inum de)) (filter (is_kid inos i) es)"

lemma new_kids_same:
  assumes "same_inodes inos st" "\<forall>de \<in> set es. unat (de_inum de) < length inos"
  shows "new_kids (inodes st) i es = new_kids inos i es"
proof -
  have "di_type (inodes st ! k) = di_type (inos ! k)" if "k < length inos" for k
    using assms(1) that by (intro nlink_irrelevant(1)) (simp add: same_inodes_def)
  then have "is_kid (inodes st) i de = is_kid inos i de" if "de \<in> set es" for de
    using assms(2) that by (simp add: is_kid_def)
  then show ?thesis by (simp add: new_kids_def cong: filter_cong)
qed

definition c1_ok :: "nat \<Rightarrow> nat \<Rightarrow> c1_state \<Rightarrow> dirent list \<Rightarrow> bool" where
  "c1_ok n i st es \<longleftrightarrow> (\<forall>de \<in> set es. entry_ok n i (\<lambda>j. kids_of (maps st ! j)) de) \<and>
     child_num (maps st ! i) + length (new_kids (inodes (c1_x st)) i es) \<le> MAX_CHILDS"

definition c1_after :: "nat \<Rightarrow> nat \<Rightarrow> c1_state \<Rightarrow> dirent list \<Rightarrow> c1_state \<Rightarrow> bool" where
  "c1_after n i st es st' \<longleftrightarrow> wf_maps n st' \<and>
     c1_x st' = fold apply_ref (entry_refs i es) (c1_x st) \<and>
     (\<forall>j < n. kids_of (maps st' ! j) = kids_of (maps st ! j) @
        (if j = i then new_kids (inodes (c1_x st)) i es else []))"

lemma c1_entry_after:
  assumes "wf_maps n st" "i < n" "i \<notin> set (kids_of (maps st ! i))"
  shows "(\<exists>st'. c1_entry i de st = Inr st') \<longleftrightarrow> c1_ok n i st [de]"
    and "c1_entry i de st = Inr st' \<Longrightarrow> c1_after n i st [de] st'"
proof -
  have wf: "wf_map (maps st ! j)" if "j < n" for j using assms(1) that by (simp add: wf_maps_def)
  have len: "length (maps st) = n" "length (inodes (c1_x st)) = n" using assms(1) by (auto simp: wf_maps_def)
  show "(\<exists>st'. c1_entry i de st = Inr st') \<longleftrightarrow> c1_ok n i st [de]"
    using wf [OF assms(2)] by (auto simp: c1_entry_step [OF assms] c1_ok_def new_kids_def wf_map_def)
  assume "c1_entry i de st = Inr st'"
  then consider "is_kid (inodes (c1_x st)) i de" "child_num (maps st ! i) < MAX_CHILDS"
      "st' = \<lparr>c1_x = apply_ref (i, unat (de_inum de)) (c1_x st), maps = add_kid i (de_inum de) st\<rparr>"
    | "\<not> is_kid (inodes (c1_x st)) i de" "st' = st\<lparr>c1_x := apply_ref (i, unat (de_inum de)) (c1_x st)\<rparr>"
    by (auto simp: c1_entry_step [OF assms] split: if_splits)
  then show "c1_after n i st [de] st'"
  proof cases
    case 1
    moreover have "length (add_kid i (de_inum de) st) = n" using len by (simp add: add_kid_def Let_def)
    ultimately show ?thesis
      using add_kid_maps [OF assms(1,2), of _ "de_inum de"] len
      by (auto simp: c1_after_def wf_maps_def new_kids_def entry_refs_def)
  next
    case 2
    then show ?thesis using len wf by (auto simp: c1_after_def wf_maps_def new_kids_def entry_refs_def)
  qed
qed

lemma new_kids_not_self: "i \<notin> set (new_kids inos i es)"
  by (auto simp: new_kids_def is_kid_def)

lemma c1_entries:
  assumes "wf_maps n st" "i < n" "i \<notin> set (kids_of (maps st ! i))"
  shows "((\<exists>st'. efold (c1_entry i) es st = Inr st') \<longleftrightarrow> c1_ok n i st es) \<and>
    (\<forall>st'. efold (c1_entry i) es st = Inr st' \<longrightarrow> c1_after n i st es st')"
  using assms
proof (induction es arbitrary: st)
  case Nil
  have "wf_map (maps st ! i)" using Nil by (simp add: wf_maps_def)
  with Nil show ?case by (auto simp: c1_ok_def c1_after_def new_kids_def entry_refs_def wf_map_def)
next
  case (Cons de es)
  note step = c1_entry_after [OF Cons.prems, of de]
  show ?case
  proof (cases "c1_ok n i st [de]")
    case False
    then have "\<not> c1_ok n i st (de # es)" by (auto simp: c1_ok_def new_kids_def split: if_splits)
    moreover have "c1_entry i de st \<noteq> Inr u" for u using False step(1) by blast
    ultimately show ?thesis by (auto simp: ebind_eq_Inr)
  next
    case True
    then obtain u where u: "c1_entry i de st = Inr u" using step(1) by blast
    with step(2) have after: "c1_after n i st [de] u" by blast
    have same: "same_inodes (inodes (c1_x st)) (c1_x u)"
      using after same_inodes_fold [of "inodes (c1_x st)" "c1_x st"]
      by (simp add: c1_after_def same_inodes_def)
    have kids: "kids_of (maps u ! j) = kids_of (maps st ! j) @
        (if j = i then new_kids (inodes (c1_x st)) i [de] else [])" if "j < n" for j
      using after that by (simp add: c1_after_def)
    have num: "child_num (maps u ! i) = child_num (maps st ! i) + length (new_kids (inodes (c1_x st)) i [de])"
    proof -
      have wf: "wf_map (maps u ! i)" "wf_map (maps st ! i)"
        using after Cons.prems by (auto simp: c1_after_def wf_maps_def)
      have "length (kids_of (maps u ! i)) = length (kids_of (maps st ! i)) + length (new_kids (inodes (c1_x st)) i [de])"
        using kids [OF Cons.prems(2)] by simp
      with wf show ?thesis by simp
    qed
    have ih: "((\<exists>st'. efold (c1_entry i) es u = Inr st') \<longleftrightarrow> c1_ok n i u es) \<and>
      (\<forall>st'. efold (c1_entry i) es u = Inr st' \<longrightarrow> c1_after n i u es st')"
      using after kids [OF Cons.prems(2)] Cons.prems new_kids_not_self [of i "inodes (c1_x st)" "[de]"]
      by (intro Cons.IH) (auto simp: c1_after_def)
    have eok: "entry_ok n i (\<lambda>j. kids_of (maps u ! j)) d \<longleftrightarrow> entry_ok n i (\<lambda>j. kids_of (maps st ! j)) d" for d
    proof (cases "unat (de_inum d) < n \<and> unat (de_inum d) \<noteq> i")
      case True
      then have "kids_of (maps u ! unat (de_inum d)) = kids_of (maps st ! unat (de_inum d))"
        using kids [of "unat (de_inum d)"] by simp
      then show ?thesis by (simp add: entry_ok_def Let_def)
    qed (auto simp: entry_ok_def Let_def)
    have nk: "new_kids (inodes (c1_x u)) i es = new_kids (inodes (c1_x st)) i es"
      if "\<forall>d \<in> set es. entry_ok n i (\<lambda>j. kids_of (maps st ! j)) d"
    proof (rule new_kids_same [OF same])
      have "length (inodes (c1_x st)) = n" using Cons.prems(1) by (simp add: wf_maps_def)
      then show "\<forall>d \<in> set es. unat (de_inum d) < length (inodes (c1_x st))"
        using that by (simp add: entry_ok_def Let_def)
    qed
    have cons: "new_kids inos i (de # es) = new_kids inos i [de] @ new_kids inos i es" for inos
      by (simp add: new_kids_def)
    have ok: "c1_ok n i st (de # es) \<longleftrightarrow> c1_ok n i u es"
      using True nk by (auto simp: c1_ok_def eok num cons [of "inodes (c1_x st)"])
    moreover have "c1_after n i st (de # es) st'" if "efold (c1_entry i) es u = Inr st'" for st'
    proof -
      from that ih have au: "c1_after n i u es st'" and "c1_ok n i u es" by blast+
      then have "new_kids (inodes (c1_x u)) i es = new_kids (inodes (c1_x st)) i es"
        by (intro nk) (simp add: c1_ok_def eok)
      moreover have "c1_x u = apply_ref (i, unat (de_inum de)) (c1_x st)"
        using after by (simp add: c1_after_def entry_refs_def)
      ultimately show ?thesis
        using au kids cons [of "inodes (c1_x st)"] by (simp add: c1_after_def entry_refs_def)
    qed
    ultimately show ?thesis using u ih by (auto simp: ebind_eq_Inr)
  qed
qed

section \<open>The loop over the inodes\<close>

abbreviation img_type :: "image \<Rightarrow> nat \<Rightarrow> ushort" where
  "img_type img i \<equiv> di_type (img_inodes img ! i)"

abbreviation img_entries :: "image \<Rightarrow> nat \<Rightarrow> dirent list" where
  "img_entries img i \<equiv> dir_entries img (img_inodes img ! i)"

definition dir_kids :: "image \<Rightarrow> nat \<Rightarrow> nat list" where
  "dir_kids img i = new_kids (img_inodes img) i (img_entries img i)"

definition known_kids :: "image \<Rightarrow> nat \<Rightarrow> nat \<Rightarrow> nat list" where
  "known_kids img k j = (if ROOTINO \<le> j \<and> j < k \<and> img_type img j = T_DIR then dir_kids img j else [])"

definition used_upto :: "image \<Rightarrow> nat \<Rightarrow> uint list" where
  "used_upto img k = concat (map (\<lambda>i. inode_used img (img_inodes img ! i)) [ROOTINO..<k])"

definition refs_upto :: "image \<Rightarrow> nat \<Rightarrow> (nat \<times> nat) list" where
  "refs_upto img k = concat (map (\<lambda>i. inode_refs img i (img_inodes img ! i)) [ROOTINO..<k])"

definition x_upto :: "image \<Rightarrow> nat \<Rightarrow> xstate" where
  "x_upto img k = (fold apply_ref (refs_upto img k) (st_start img))
     \<lparr>bmap_mark := fold set_mark (used_upto img k) (replicate NBMAP 0)\<rparr>"

definition c1_inv :: "image \<Rightarrow> nat \<Rightarrow> c1_state \<Rightarrow> bool" where
  "c1_inv img k st \<longleftrightarrow> wf_maps (img_n img) st \<and> c1_x st = x_upto img k \<and>
     (\<forall>j < img_n img. kids_of (maps st ! j) = known_kids img k j)"

definition c1_dir_ok :: "image \<Rightarrow> nat \<Rightarrow> bool" where
  "c1_dir_ok img i \<longleftrightarrow> (\<forall>de \<in> set (img_entries img i). entry_ok (img_n img) i (known_kids img i) de) \<and>
     length (dir_kids img i) \<le> MAX_CHILDS"

definition c1_inode_ok :: "image \<Rightarrow> nat \<Rightarrow> bool" where
  "c1_inode_ok img i \<longleftrightarrow> inode_ok img (img_n img) i (img_inodes img ! i) \<and>
     (img_type img i = T_DIR \<longrightarrow> c1_dir_ok img i)"

lemma upto_Suc:
  assumes "ROOTINO \<le> k"
  shows "used_upto img (Suc k) = used_upto img k @ inode_used img (img_inodes img ! k)"
    "refs_upto img (Suc k) = refs_upto img k @ inode_refs img k (img_inodes img ! k)"
    "[ROOTINO..<Suc k] = [ROOTINO..<k] @ [k]"
  using assms by (auto simp: used_upto_def refs_upto_def)

lemma same_x_upto: "same_inodes (img_inodes img) (x_upto img k)"
proof -
  have "same_inodes (img_inodes img) (st_start img)" by (simp add: same_inodes_def st_start_def)
  then show ?thesis by (simp add: x_upto_def same_inodes_fold)
qed

lemma x_upto_Suc:
  assumes "ROOTINO \<le> k"
  shows "x_upto img (Suc k) = (fold apply_ref (inode_refs img k (img_inodes img ! k)) (x_upto img k))
     \<lparr>bmap_mark := fold set_mark (inode_used img (img_inodes img ! k)) (bmap_mark (x_upto img k))\<rparr>"
  by (simp add: x_upto_def upto_Suc [OF assms])

lemma entry_ok_cong: "(\<And>j. j < n \<Longrightarrow> K j = L j) \<Longrightarrow> entry_ok n i K de = entry_ok n i L de"
  by (auto simp: entry_ok_def Let_def)

lemma c1_dir_step:
  fixes m :: "uchar list"
  assumes inv: "c1_inv img k st" and k: "ROOTINO \<le> k" "k < img_n img"
  defines "st1 \<equiv> st\<lparr>c1_x := (c1_x st)\<lparr>bmap_mark := m\<rparr>\<rparr>"
  shows "((\<exists>st'. efold (c1_entry k) (img_entries img k) st1 = Inr st') \<longleftrightarrow> c1_dir_ok img k) \<and>
    (\<forall>st'. efold (c1_entry k) (img_entries img k) st1 = Inr st' \<longrightarrow> wf_maps (img_n img) st' \<and>
       c1_x st' = (fold apply_ref (entry_refs k (img_entries img k)) (x_upto img k))\<lparr>bmap_mark := m\<rparr> \<and>
       (\<forall>j < img_n img. kids_of (maps st' ! j) = known_kids img k j @ (if j = k then dir_kids img k else [])))"
proof -
  let ?n = "img_n img" and ?es = "img_entries img k"
  have x: "c1_x st = x_upto img k" and wf: "wf_maps ?n st1" and kids: "\<And>j. j < ?n \<Longrightarrow> kids_of (maps st1 ! j) = known_kids img k j"
    using inv by (auto simp: c1_inv_def st1_def wf_maps_def)
  have cx: "c1_x st1 = (x_upto img k)\<lparr>bmap_mark := m\<rparr>" by (simp add: st1_def x)
  have none: "kids_of (maps st1 ! k) = []" using kids [OF k(2)] by (simp add: known_kids_def)
  then have num: "child_num (maps st1 ! k) = 0"
    using wf k(2) kids_of_length [of "maps st1 ! k"] by (simp add: wf_maps_def)
  have eok: "entry_ok ?n k (\<lambda>j. kids_of (maps st1 ! j)) de = entry_ok ?n k (known_kids img k) de" for de
    using kids by (rule entry_ok_cong)
  have nk: "new_kids (inodes (c1_x st1)) k ?es = dir_kids img k"
    if "\<forall>de \<in> set ?es. entry_ok ?n k (known_kids img k) de"
    unfolding dir_kids_def
  proof (rule new_kids_same)
    show "same_inodes (img_inodes img) (c1_x st1)" using same_x_upto [of img k] by (simp add: st1_def x)
    show "\<forall>de \<in> set ?es. unat (de_inum de) < length (img_inodes img)"
      using that by (simp add: entry_ok_def Let_def)
  qed
  have ok: "c1_ok ?n k st1 ?es \<longleftrightarrow> c1_dir_ok img k"
    using nk by (auto simp: c1_ok_def c1_dir_ok_def eok num)
  have main: "((\<exists>st'. efold (c1_entry k) ?es st1 = Inr st') \<longleftrightarrow> c1_ok ?n k st1 ?es) \<and>
      (\<forall>st'. efold (c1_entry k) ?es st1 = Inr st' \<longrightarrow> c1_after ?n k st1 ?es st')"
    using wf k(2) none by (intro c1_entries) auto
  have "c1_after ?n k st1 ?es st' \<Longrightarrow> c1_dir_ok img k \<Longrightarrow> wf_maps ?n st' \<and>
      c1_x st' = (fold apply_ref (entry_refs k ?es) (x_upto img k))\<lparr>bmap_mark := m\<rparr> \<and>
      (\<forall>j < ?n. kids_of (maps st' ! j) = known_kids img k j @ (if j = k then dir_kids img k else []))" for st'
    using nk cx by (simp add: c1_after_def kids c1_dir_ok_def)
  with main ok show ?thesis by blast
qed

text \<open>One inode.\<close>

lemma c1_check_inode_step:
  assumes inv: "c1_inv img k st" and k: "ROOTINO \<le> k" "k < img_n img"
  defines "ds \<equiv> img_data_start img" and "bm \<equiv> img_bmap img" and "inode \<equiv> img_inodes img ! k"
  shows "((\<exists>st'. c1_check_inode img ds bm k st = Inr st') \<longleftrightarrow>
      c1_inode_ok img k \<and> marks_ok ds bm (bmap_mark (c1_x st)) (inode_used img inode)) \<and>
    (\<forall>st'. c1_check_inode img ds bm k st = Inr st' \<longrightarrow> c1_inv img (Suc k) st')"
proof -
  have x: "c1_x st = x_upto img k" and wf: "wf_maps (img_n img) st" using inv by (auto simp: c1_inv_def)
  define ino where "ino = inodes (c1_x st) ! k"
  have eq: "ino\<lparr>di_nlink := 0\<rparr> = inode\<lparr>di_nlink := 0\<rparr>"
    using same_x_upto [of img k] k by (simp add: same_inodes_def ino_def inode_def x)
  note irr = nlink_irrelevant [OF eq]
  have used: "inode_addrs img ino = inode_addrs img inode" and ents: "dir_entries img ino = dir_entries img inode"
    and form: "dir_form_ok img k ino = dir_form_ok img k inode" and ty: "type_ok ino = type_ok inode"
    using irr(1-3) by (auto simp: inode_addrs_def dir_entries_def dir_form_ok_def type_ok_def)
  define m where "m = fold set_mark (inode_used img inode) (bmap_mark (c1_x st))"
  define st1 where "st1 = st\<lparr>c1_x := (c1_x st)\<lparr>bmap_mark := m\<rparr>\<rparr>"
  note dirs = c1_dir_step [OF inv k, of m, folded st1_def inode_def]
  have T: "T_DIR \<noteq> 0" by (simp add: T_DIR_def)
  have base: "blk_addr (di_addrs ino ! 0) + 512 \<le> IMG_SIZE"
    if "marks_ok ds bm (bmap_mark (c1_x st)) (inode_addrs img ino)"
  proof (rule blk_addr_small(2))
    have "di_addrs ino ! 0 \<in> set (inode_addrs img ino)" by (force simp: inode_addrs_def NDIRECT_def)
    with that show "di_addrs ino ! 0 < 1000" by (rule marks_ok_small)
  qed
  have char: "c1_check_inode img ds bm k st = Inr st' \<longleftrightarrow> type_ok inode \<and>
      marks_ok ds bm (bmap_mark (c1_x st)) (inode_used img inode) \<and>
      (if di_type inode = T_DIR
       then dir_form_ok img k inode \<and> efold (c1_entry k) (dir_entries img inode) st1 = Inr st'
       else st' = st1)" for st'
  proof -
    have "c1_check_inode img ds bm k st = Inr st' \<longleftrightarrow> type_ok ino \<and>
       (if di_type ino = 0 then st' = st
        else marks_ok ds bm (bmap_mark (c1_x st)) (inode_addrs img ino) \<and>
         (let st1 = st\<lparr>c1_x := (c1_x st)\<lparr>bmap_mark := fold set_mark (inode_addrs img ino) (bmap_mark (c1_x st))\<rparr>\<rparr> in
          if di_type ino = T_DIR then c1_check_dir img k ino st1 = Inr st' else st' = st1))"
      by (auto simp: c1_check_inode_def ino_def [symmetric] check_inode_type_def type_ok_def
          ebind_eq_Inr check_addrs_Inr Let_def T T_DIR_def T_FILE_def T_DEV_def)
    also have "\<dots> \<longleftrightarrow> type_ok ino \<and> marks_ok ds bm (bmap_mark (c1_x st)) (inode_used img ino) \<and>
        (if di_type ino = T_DIR
         then dir_form_ok img k ino \<and> efold (c1_entry k) (dir_entries img ino) st1 = Inr st'
         else st' = st1)"
      using base T irr(4) by (auto simp: inode_used_def Let_def c1_check_dir_def scan_dir_Inr st1_def m_def)
    finally show ?thesis using irr ty form ents by simp
  qed
  have okeq: "c1_inode_ok img k \<longleftrightarrow> type_ok inode \<and>
      (di_type inode = T_DIR \<longrightarrow> dir_form_ok img k inode \<and> c1_dir_ok img k)"
    by (auto simp: c1_inode_ok_def inode_ok_def dir_ok_def c1_dir_ok_def entry_ok_def Let_def inode_def)
  have known: "known_kids img (Suc k) j = known_kids img k j @
      (if j = k \<and> di_type inode = T_DIR then dir_kids img k else [])" for j
    using k by (auto simp: known_kids_def inode_def less_Suc_eq)
  have "c1_inv img (Suc k) st'" if "c1_check_inode img ds bm k st = Inr st'" for st'
  proof (cases "di_type inode = T_DIR")
    case True
    with that dirs char have "wf_maps (img_n img) st'"
      "c1_x st' = (fold apply_ref (entry_refs k (dir_entries img inode)) (x_upto img k))\<lparr>bmap_mark := m\<rparr>"
      "\<forall>j < img_n img. kids_of (maps st' ! j) = known_kids img k j @ (if j = k then dir_kids img k else [])"
      by auto
    with True show ?thesis
      by (simp add: c1_inv_def x_upto_Suc [OF k(1)] known inode_refs_def m_def x inode_def [symmetric])
  next
    case False
    with that char have "st' = st1" by simp
    with False inv wf show ?thesis
      by (simp add: c1_inv_def st1_def wf_maps_def x_upto_Suc [OF k(1)] known inode_refs_def m_def x
          inode_def [symmetric])
  qed
  moreover have "(\<exists>st'. c1_check_inode img ds bm k st = Inr st') \<longleftrightarrow>
      c1_inode_ok img k \<and> marks_ok ds bm (bmap_mark (c1_x st)) (inode_used img inode)"
    using dirs by (auto simp: char okeq)
  ultimately show ?thesis by blast
qed


lemma c1_loop:
  assumes "k \<le> img_n img"
  defines "f \<equiv> c1_check_inode img (img_data_start img) (img_bmap img)"
  shows "((\<exists>st. efold f [ROOTINO..<k] \<lparr>c1_x = st_start img, maps = replicate (img_n img) empty_map\<rparr> = Inr st) \<longleftrightarrow>
      (\<forall>i \<in> {ROOTINO..<k}. c1_inode_ok img i) \<and>
      marks_ok (img_data_start img) (img_bmap img) (replicate NBMAP 0) (used_upto img k)) \<and>
    (\<forall>st. efold f [ROOTINO..<k] \<lparr>c1_x = st_start img, maps = replicate (img_n img) empty_map\<rparr> = Inr st \<longrightarrow>
      c1_inv img k st)"
  using assms(1)
proof (induction k)
  case 0
  have "c1_inv img 0 \<lparr>c1_x = st_start img, maps = replicate (img_n img) empty_map\<rparr>"
    by (auto simp: c1_inv_def wf_maps_def wf_map_def empty_map_def kids_of_def known_kids_def
        x_upto_def refs_upto_def used_upto_def st_start_def)
  then show ?case by (simp add: used_upto_def)
next
  case (Suc k)
  let ?st0 = "\<lparr>c1_x = st_start img, maps = replicate (img_n img) empty_map\<rparr>"
  let ?ds = "img_data_start img" and ?bm = "img_bmap img"
  show ?case
  proof (cases "ROOTINO \<le> k")
    case False
    then have "[ROOTINO..<Suc k] = [ROOTINO..<k]" "{ROOTINO..<Suc k} = {ROOTINO..<k}"
      "used_upto img (Suc k) = used_upto img k" and inv: "c1_inv img (Suc k) st = c1_inv img k st" for st
      by (auto simp: used_upto_def c1_inv_def known_kids_def x_upto_def refs_upto_def)
    with Suc show ?thesis by simp
  next
    case True
    have ih: "((\<exists>st. efold f [ROOTINO..<k] ?st0 = Inr st) \<longleftrightarrow> (\<forall>i \<in> {ROOTINO..<k}. c1_inode_ok img i) \<and>
        marks_ok ?ds ?bm (replicate NBMAP 0) (used_upto img k))"
      "\<And>st. efold f [ROOTINO..<k] ?st0 = Inr st \<Longrightarrow> c1_inv img k st"
      using Suc by auto
    have step: "((\<exists>st'. f k st = Inr st') \<longleftrightarrow> c1_inode_ok img k \<and>
        marks_ok ?ds ?bm (fold set_mark (used_upto img k) (replicate NBMAP 0)) (inode_used img (img_inodes img ! k)))"
      "\<And>st'. f k st = Inr st' \<Longrightarrow> c1_inv img (Suc k) st'"
      if "efold f [ROOTINO..<k] ?st0 = Inr st" for st
      using c1_check_inode_step [OF ih(2) [OF that] True] Suc.prems ih(2) [OF that]
      by (auto simp: f_def c1_inv_def x_upto_def)
    have run: "efold f [ROOTINO..<Suc k] ?st0 = Inr st' \<longleftrightarrow>
        (\<exists>st. efold f [ROOTINO..<k] ?st0 = Inr st \<and> f k st = Inr st')" for st'
      by (simp add: upto_Suc(3) [OF True] efold_append ebind_eq_Inr del: upt_Suc)
    have range: "{ROOTINO..<Suc k} = insert k {ROOTINO..<k}" using True by auto
    show ?thesis
    proof (cases "\<exists>st. efold f [ROOTINO..<k] ?st0 = Inr st")
      case True
      then obtain st where st: "efold f [ROOTINO..<k] ?st0 = Inr st" by blast
      then have "efold f [ROOTINO..<Suc k] ?st0 = Inr st' \<longleftrightarrow> f k st = Inr st'" for st'
        unfolding run by simp
      moreover have "(\<forall>i \<in> {ROOTINO..<k}. c1_inode_ok img i) \<and>
          marks_ok ?ds ?bm (replicate NBMAP 0) (used_upto img k)" using ih(1) True by blast
      ultimately show ?thesis
        unfolding upto_Suc(1) [OF \<open>ROOTINO \<le> k\<close>] marks_ok_append range using step [OF st] by auto
    next
      case False
      then have "efold f [ROOTINO..<Suc k] ?st0 \<noteq> Inr st'" for st' unfolding run by blast
      moreover from False ih(1) have "\<not> ((\<forall>i \<in> {ROOTINO..<k}. c1_inode_ok img i) \<and>
          marks_ok ?ds ?bm (replicate NBMAP 0) (used_upto img k))" by blast
      ultimately show ?thesis
        unfolding upto_Suc(1) [OF \<open>ROOTINO \<le> k\<close>] marks_ok_append range by blast
    qed
  qed
qed

section \<open>Properties\<close>

text \<open>Every \<open>..\<close> entry refers to a directory with a smaller inode number that has an entry for this
  one (for the root, to the root), and no directory has more than ten entries for others.\<close>

definition parents_ok :: "image \<Rightarrow> bool" where
  "parents_ok img \<longleftrightarrow> (\<forall>i \<in> {ROOTINO..<img_n img}. img_type img i = T_DIR \<longrightarrow>
     (\<forall>de \<in> set (img_entries img i). is_dotdot de \<longrightarrow>
        (let p = unat (de_inum de) in
         i = ROOTINO \<and> p = ROOTINO \<or> p < i \<and> (p, i) \<in> set (img_refs img))))"

definition kids_fit :: "image \<Rightarrow> bool" where
  "kids_fit img \<longleftrightarrow> (\<forall>i \<in> {ROOTINO..<img_n img}. img_type img i = T_DIR \<longrightarrow>
     length (filter (is_kid (img_inodes img) i) (img_entries img i)) \<le> MAX_CHILDS)"

lemma known_kids_refs:
  assumes "i \<in> {ROOTINO..<img_n img}" "img_type img i = T_DIR"
  shows "i \<in> set (known_kids img i p) \<and> p \<noteq> i \<longleftrightarrow> p < i \<and> (p, i) \<in> set (img_refs img)"
proof -
  have "(p, i) \<in> set (img_refs img) \<longleftrightarrow> p \<in> {ROOTINO..<img_n img} \<and> img_type img p = T_DIR \<and>
      (\<exists>de \<in> set (img_entries img p). unat (de_inum de) = i)"
    by (auto simp: img_refs_def inode_refs_def entry_refs_def image_iff split: if_splits)
  with assms show ?thesis
    by (auto simp: known_kids_def dir_kids_def new_kids_def is_kid_def)
qed

lemma c1_dir_ok_iff:
  assumes "i \<in> {ROOTINO..<img_n img}" "img_type img i = T_DIR" "dir_ok img (img_n img) i (img_inodes img ! i)"
  shows "c1_dir_ok img i \<longleftrightarrow>
    (\<forall>de \<in> set (img_entries img i). is_dotdot de \<longrightarrow>
        (let p = unat (de_inum de) in i = ROOTINO \<and> p = ROOTINO \<or> p < i \<and> (p, i) \<in> set (img_refs img))) \<and>
    length (filter (is_kid (img_inodes img) i) (img_entries img i)) \<le> MAX_CHILDS"
  using known_kids_refs [OF assms(1,2)] assms(3)
  by (auto simp: c1_dir_ok_def entry_ok_def dir_ok_def dir_kids_def new_kids_def Let_def)

lemma xcheck_contest_1_unfold:
  "xcheck_contest_1 img = (if tables_inside img then
     ebind (efold (c1_check_inode img (img_data_start img) (img_bmap img)) [ROOTINO..<img_n img]
         \<lparr>c1_x = st_start img, maps = replicate (img_n img) empty_map\<rparr>) (\<lambda>st.
     ebind (bitmap_loop (img_bmap img) (bmap_mark (c1_x st)) ((cdiv8 (sint (img_data_start img)) + 1) * 8)) (\<lambda>_.
     efold (check_refs (c1_x st)) [ROOTINO..<img_n img] ()))
   else Inl Fault)"
  unfolding xcheck_contest_1_def img_tables_read ebind_Inr img_sb_def [symmetric] Let_def img_n_def [symmetric]
    tables_inside_def
  by (simp add: st_start_def img_tables_read split: if_splits)

lemma xcheck_contest_1_iff:
  "xcheck_contest_1 img = Inr () \<longleftrightarrow> fs_consistent img \<and> parents_ok img \<and> kids_fit img"
proof -
  note unfold = xcheck_contest_1_unfold [of img]
  have used: "used_upto img (img_n img) = img_used img" and x: "x_upto img (img_n img) = st_final img"
    by (auto simp: used_upto_def img_used_def x_upto_def refs_upto_def img_refs_def st_final_def)
  show ?thesis
  proof (cases "tables_inside img")
    case True
    note loop = c1_loop [of "img_n img" img, simplified used marks_ok_start]
    have "xcheck_contest_1 img = Inr () \<longleftrightarrow>
       (\<forall>i \<in> {ROOTINO..<img_n img}. c1_inode_ok img i) \<and> blocks_ok img \<and>
       bitmap_loop (img_bmap img) (bmap_mark (st_final img))
         ((cdiv8 (sint (img_data_start img)) + 1) * 8) = Inr () \<and>
       (\<forall>j \<in> {ROOTINO..<img_n img}. check_refs (st_final img) j () = Inr ())"
      using loop True by (auto simp: unfold ebind_eq_Inr efold_check_refs c1_inv_def x) 
    then show ?thesis
      using True check_refs_final [OF True] bitmap_loop_final c1_dir_ok_iff
      by (auto simp: fs_consistent_def parents_ok_def kids_fit_def c1_inode_ok_def inode_ok_def)
  next
    case False
    then show ?thesis by (simp add: unfold fs_consistent_def)
  qed
qed


end
