(* ===== verification/Xcheck_Contest2.thy ===== *)
theory Xcheck_Contest2
  imports Xcheck_Contest1
begin

text \<open>
  \<^verbatim>\<open>projects/filesystems-check/xcheck_contest_2.c\<close>: the checker that follows the \<open>..\<close> entries of every
  directory up to the root and complains when it comes back to the directory it started from. A
  parent that does not list the directory is only reported, the program goes on. The lines of
  \<open>stderr\<close> that do not end the program are collected in the state.
\<close>

section \<open>Following the parents\<close>

text \<open>The loop over the entries of an inode, whatever its type.\<close>

function entry_loop :: "(dirent \<Rightarrow> 's \<Rightarrow> xerr + 's) \<Rightarrow> image \<Rightarrow> dinode \<Rightarrow> nat \<Rightarrow> 's \<Rightarrow> xerr + 's" where
  "entry_loop act img inode off st =
    (if off < unat (di_size inode) then
       ebind (read_inode_data inode img off 16) (\<lambda>bs.
       ebind (act (dirent_of bs) st) (entry_loop act img inode (off + 16)))
     else Inr st)"
  by pat_completeness auto
termination
  by (relation "measure (\<lambda>(act, img, inode, off, st). 1024 - off)")
    (auto simp: read_inode_data_def fs_consts Let_def split: if_splits)

declare entry_loop.simps [simp del]

text \<open>The recursion; the first argument bounds the depth of the call stack.\<close>

primrec trace_parent :: "nat \<Rightarrow> image \<Rightarrow> dinode list \<Rightarrow> nat \<Rightarrow> nat \<Rightarrow> xerr + unit" where
  "trace_parent 0 img inos p leaf = Inl Stack_Overflow"
| "trace_parent (Suc d) img inos p leaf =
    (if length inos \<le> p then Inl Fault
     else entry_loop (\<lambda>de _.
       if is_dot de \<and> unat (de_inum de) = leaf then Inl (Exit ''ERROR: inaccessible directory exists.'')
       else if is_dotdot de \<and> unat (de_inum de) \<noteq> ROOTINO then trace_parent d img inos (unat (de_inum de)) leaf
       else Inr ()) img (inos ! p) 0 ())"

type_synonym c2_state = "c1_state \<times> string list"

definition c2_parent :: "nat \<Rightarrow> image \<Rightarrow> nat \<Rightarrow> dirent \<Rightarrow> c2_state \<Rightarrow> xerr + string list" where
  "c2_parent d img i de = (\<lambda>(st, err).
    (let p = unat (de_inum de) in
     if i = ROOTINO \<and> p = ROOTINO then Inr err
     else if length (maps st) \<le> p then Inl Fault
     else ebind (trace_parent d img (inodes (c1_x st)) p i) (\<lambda>_.
       Inr (if find_child (maps st ! p) i then err else err @ [''ERROR: parent directory mismatch.'']))))"

definition c2_entry :: "nat \<Rightarrow> image \<Rightarrow> nat \<Rightarrow> dirent \<Rightarrow> c2_state \<Rightarrow> xerr + c2_state" where
  "c2_entry d img i de = (\<lambda>(st, err).
    ebind (if is_dotdot de then c2_parent d img i de (st, err) else Inr err) (\<lambda>err.
    ebind (c1_note i de st) (\<lambda>st. Inr (st, err))))"

definition c2_check_inode ::
  "nat \<Rightarrow> image \<Rightarrow> uint \<Rightarrow> uchar list \<Rightarrow> nat \<Rightarrow> c2_state \<Rightarrow> xerr + c2_state" where
  "c2_check_inode d img data_start bmap i = (\<lambda>(st, err).
    (let inode = inodes (c1_x st) ! i in
     ebind (check_inode_type (di_type inode)) (\<lambda>_.
     ebind (if di_type inode \<noteq> 0 then check_addrs img data_start bmap inode (bmap_mark (c1_x st))
            else Inr (bmap_mark (c1_x st))) (\<lambda>mark.
     let st = st\<lparr>c1_x := (c1_x st)\<lparr>bmap_mark := mark\<rparr>\<rparr> in
     if di_type inode = T_DIR then scan_dir (c2_entry d img i) img i inode (st, err) else Inr (st, err)))))"

text \<open>\<open>main\<close>; the result is what has been reported on the way.\<close>

definition xcheck_contest_2 :: "nat \<Rightarrow> image \<Rightarrow> xerr + string list" where
  "xcheck_contest_2 d img =
    ebind (img_read img BSIZE 28) (\<lambda>sbytes.
    let sb = superblock_of sbytes; n = unat (sb_ninodes sb);
        data_start = of_nat FSSIZE - sb_nblocks sb in
    ebind (read_inodes img sb) (\<lambda>inos.
    ebind (img_read img (blk_addr (sb_bmapstart sb)) NBMAP) (\<lambda>bmap.
    let st0 = \<lparr>c1_x = \<lparr>inodes = inos, bmap_mark = replicate NBMAP 0, inode_dir = replicate n 0,
                        dir_links = replicate n 0\<rparr>,
               maps = replicate n empty_map\<rparr> in
    ebind (efold (c2_check_inode d img data_start bmap) [ROOTINO..<n] (st0, [])) (\<lambda>(st, err).
    ebind (bitmap_loop bmap (bmap_mark (c1_x st)) ((cdiv8 (sint data_start) + 1) * 8)) (\<lambda>_.
    ebind (efold (check_refs (c1_x st)) [ROOTINO..<n] ()) (\<lambda>_. Inr err))))))"

section \<open>The loop over the entries\<close>

lemma entry_loop_efold:
  assumes base: "blk_addr (di_addrs inode ! 0) + 512 \<le> IMG_SIZE" and size: "unat (di_size inode) \<le> 512"
  shows "entry_loop act img inode (16 * k) st = efold act (drop k (dir_entries img inode)) st"
proof (induction "40 - k" arbitrary: k st rule: less_induct)
  case less
  show ?case
  proof (cases "16 * k < unat (di_size inode)")
    case False
    then have "drop k (dir_entries img inode) = []"
      using entry_index [of k "unat (di_size inode)"] by (simp add: dir_entries_def Let_def)
    with False show ?thesis by (subst entry_loop.simps) simp
  next
    case True
    let ?a = "blk_addr (di_addrs inode ! 0)"
    have k: "k < 32" using True size by linarith
    have "k < (unat (di_size inode) + 15) div 16" using True by (simp add: entry_index)
    then have de: "dir_entries img inode ! k = dirent_of (map img [?a + 16 * k..<?a + 16 * k + 16])"
      by (simp add: dir_entries_def Let_def)
    have ih: "entry_loop act img inode (16 * Suc k) = efold act (drop (Suc k) (dir_entries img inode))"
      using k by (intro ext less) simp
    have suc: "16 * Suc k = 16 * k + 16" by simp
    show ?thesis
      unfolding drop_entries [OF True] efold.simps ih [symmetric] de suc
      by (subst entry_loop.simps) (simp add: True k read_entry [OF base])
  qed
qed

lemmas entry_loop_efold0 = entry_loop_efold [where k = 0, simplified]

text \<open>The recursion depends only on the sizes and addresses of the inodes.\<close>

lemma entry_loop_cong:
  "di_size a = di_size b \<Longrightarrow> di_addrs a = di_addrs b \<Longrightarrow> entry_loop act img a off st = entry_loop act img b off st"
proof (induction act img a off st rule: entry_loop.induct)
  case (1 act img a off st)
  from 1(2,3) have rd: "read_inode_data a img off 16 = read_inode_data b img off 16"
    by (simp add: read_inode_data_def Let_def)
  show ?case
  proof (cases "off < unat (di_size a)")
    case True
    have eq: "ebind (read_inode_data a img off 16) (\<lambda>bs. ebind (act (dirent_of bs) st) (entry_loop act img a (off + 16))) =
        ebind (read_inode_data b img off 16) (\<lambda>bs. ebind (act (dirent_of bs) st) (entry_loop act img b (off + 16)))"
      using 1 True rd by (intro ebind_cong) auto
    show ?thesis using True 1(2,3) eq by (subst (1 2) entry_loop.simps) simp
  next
    case False
    then show ?thesis using 1(2,3) by (subst (1 2) entry_loop.simps) simp
  qed
qed

lemma trace_parent_same:
  assumes "same_inodes inos st"
  shows "trace_parent d img (inodes st) p leaf = trace_parent d img inos p leaf"
proof (induction d arbitrary: p)
  case (Suc d)
  show ?case
  proof (cases "p < length inos")
    case True
    then have eq: "(inodes st ! p)\<lparr>di_nlink := 0\<rparr> = (inos ! p)\<lparr>di_nlink := 0\<rparr>" "length (inodes st) = length inos"
      using assms by (auto simp: same_inodes_def)
    show ?thesis
      using True eq(2) by (simp add: Suc entry_loop_cong [OF nlink_irrelevant(2,3) [OF eq(1)]] cong: if_cong)
  next
    case False
    then show ?thesis using assms by (simp add: same_inodes_def)
  qed
qed simp

section \<open>Runs without a report\<close>

definition traces_ok :: "nat \<Rightarrow> image \<Rightarrow> nat \<Rightarrow> dirent list \<Rightarrow> bool" where
  "traces_ok d img i es \<longleftrightarrow> (\<forall>de \<in> set es. is_dotdot de \<longrightarrow> i \<noteq> ROOTINO \<or> unat (de_inum de) \<noteq> ROOTINO \<longrightarrow>
     trace_parent d img (img_inodes img) (unat (de_inum de)) i = Inr ())"

lemma c2_entry_silent:
  "c2_entry d img i de (st, err) = Inr (st', []) \<Longrightarrow> err = [] \<and> c1_entry i de st = Inr st'"
  by (auto simp: c2_entry_def c2_parent_def c1_entry_def c1_parent_def Let_def ebind_eq_Inr split: if_splits)

lemma c2_entry_of_c1:
  assumes "same_inodes (img_inodes img) (c1_x st)" "traces_ok d img i [de]" "c1_entry i de st = Inr st'"
  shows "c2_entry d img i de (st, []) = Inr (st', []) \<and> same_inodes (img_inodes img) (c1_x st')"
proof -
  from assms(3) have "\<exists>x. note_entry i de (c1_x st) = Inr x \<and> c1_x st' = x"
    by (auto simp: c1_entry_def c1_note_def Let_def ebind_eq_Inr split: if_splits)
  then have "same_inodes (img_inodes img) (c1_x st')"
    using assms(1) by (auto simp: note_entry_Inr same_inodes_apply_ref)
  moreover have "c2_entry d img i de (st, []) = Inr (st', [])"
    using assms by (auto simp: c2_entry_def c2_parent_def c1_entry_def c1_parent_def Let_def ebind_eq_Inr
        traces_ok_def trace_parent_same split: if_splits)
  ultimately show ?thesis by blast
qed

lemma c2_entries_silent:
  "efold (c2_entry d img i) es (st, err) = Inr (st', []) \<Longrightarrow> err = [] \<and> efold (c1_entry i) es st = Inr st'"
proof (induction es arbitrary: st err)
  case (Cons de es)
  then obtain u e where "c2_entry d img i de (st, err) = Inr (u, e)"
    "efold (c2_entry d img i) es (u, e) = Inr (st', [])"
    by (auto simp: ebind_eq_Inr)
  with Cons.IH show ?case using c2_entry_silent by (fastforce simp: ebind_eq_Inr)
qed simp

lemma c2_entries_of_c1:
  assumes "same_inodes (img_inodes img) (c1_x st)" "traces_ok d img i es" "efold (c1_entry i) es st = Inr st'"
  shows "efold (c2_entry d img i) es (st, []) = Inr (st', [])"
  using assms
proof (induction es arbitrary: st)
  case (Cons de es)
  then obtain u where u: "c1_entry i de st = Inr u" "efold (c1_entry i) es u = Inr st'"
    by (auto simp: ebind_eq_Inr)
  have "traces_ok d img i [de]" "traces_ok d img i es" using Cons.prems(2) by (auto simp: traces_ok_def)
  with u Cons c2_entry_of_c1 [of img st d i de u] show ?case by (auto simp: ebind_eq_Inr)
qed simp

text \<open>A report stays.\<close>

lemma read_is_entry:
  assumes "read_inode_data inode img (16 * k) 16 = Inr bs" "16 * k < unat (di_size inode)"
  shows "k < 32 \<and> dirent_of bs \<in> set (dir_entries img inode)"
proof -
  let ?a = "blk_addr (di_addrs inode ! 0)"
  have z: "16 * k div 512 = 0" using assms(1) by (auto simp: read_inode_data_def BSIZE_def Let_def split: if_splits)
  then have k: "k < 32" by (auto simp: div_eq_0_iff)
  then have "16 * k mod 512 = 16 * k" by simp
  with z assms(1) have bs: "bs = map img [?a + 16 * k..<?a + 16 * k + 16]"
    by (auto simp: read_inode_data_def img_read_def BSIZE_def NDIRECT_def split: if_splits)
  have "k < (unat (di_size inode) + 15) div 16" using assms(2) by (simp add: entry_index)
  with k bs show ?thesis by (auto simp: dir_entries_def Let_def)
qed

lemma dir_loop_cases:
  assumes "dir_loop act img i inode (16 * k) acc st = Inr (acc', st')"
  obtains "st' = st" | de u acc2 where "k < 32" "de \<in> set (dir_entries img inode)" "act de st = Inr u"
    "dir_loop act img i inode (16 * Suc k) acc2 u = Inr (acc', st')"
proof (cases "16 * k < unat (di_size inode)")
  case False
  with assms have "st' = st" by (subst (asm) dir_loop.simps) simp
  then show ?thesis by (rule that)
next
  case True
  with assms obtain bs where bs: "read_inode_data inode img (16 * k) 16 = Inr bs"
    by (subst (asm) dir_loop.simps) (auto simp: ebind_eq_Inr)
  have "k < 32" "dirent_of bs \<in> set (dir_entries img inode)" using read_is_entry [OF bs True] by auto
  moreover have "st' = st \<or> (\<exists>u acc2. act (dirent_of bs) st = Inr u \<and>
      dir_loop act img i inode (16 * k + 16) acc2 u = Inr (acc', st'))"
    using assms True bs by (subst (asm) dir_loop.simps) (simp only: ebind_Inr ebind_eq_Inr Let_def if_True split: if_splits, blast+)
  moreover have "16 * k + 16 = 16 * Suc k" by simp
  ultimately show ?thesis using that by metis
qed

lemma dir_loop_keeps:
  assumes step: "\<And>de s t. de \<in> set (dir_entries img inode) \<Longrightarrow> P s \<Longrightarrow> act de s = Inr t \<Longrightarrow> P t"
  shows "dir_loop act img i inode (16 * k) acc st = Inr (acc', st') \<Longrightarrow> P st \<Longrightarrow> P st'"
proof (induction "32 - k" arbitrary: k acc st rule: less_induct)
  case less
  from less.prems(1) show ?case
  proof (cases rule: dir_loop_cases)
    case 1
    with less.prems(2) show ?thesis by simp
  next
    case (2 de u acc2)
    then show ?thesis using less.hyps [OF _ 2(4)] step [OF 2(2) less.prems(2) 2(3)] by simp
  qed
qed

lemmas dir_loop_keeps0 = dir_loop_keeps [where k = 0, unfolded mult_0_right]

lemma c2_check_inode_reported:
  assumes "c2_check_inode d img ds bm k (st, err) = Inr (st', [])"
  shows "err = []"
proof (rule ccontr)
  assume "err \<noteq> []"
  have step: "snd s \<noteq> [] \<Longrightarrow> c2_entry d img k de s = Inr t \<Longrightarrow> snd t \<noteq> []" for s t de
    using c2_entry_silent by (metis prod.collapse)
  have "snd t \<noteq> []" if "scan_dir (c2_entry d img k) img k ino (st1, err) = Inr t" for ino st1 t
  proof -
    from that obtain acc where
      "dir_loop (c2_entry d img k) img k ino 0 \<lparr>count_dots = 0, root_exist = False, dir_error = False\<rparr> (st1, err) = Inr (acc, t)"
      unfolding scan_dir_def ebind_eq_Inr by (auto split: if_splits)
    from dir_loop_keeps0 [where P = "\<lambda>s. snd s \<noteq> []", OF step this] \<open>err \<noteq> []\<close> show ?thesis by simp
  qed
  with assms \<open>err \<noteq> []\<close> show False
    by (fastforce simp: c2_check_inode_def Let_def ebind_eq_Inr split: if_splits)
qed

text \<open>One inode.\<close>

lemma c2_check_inode_eq:
  assumes inv: "c1_inv img k st" and k: "ROOTINO \<le> k" "k < img_n img"
    and marks: "check_addrs img ds bm (inodes (c1_x st) ! k) (bmap_mark (c1_x st)) = Inr mark"
  defines "ino \<equiv> inodes (c1_x st) ! k"
  shows "scan_dir (c2_entry d img k) img k ino (st1, err) = Inr (st', []) \<Longrightarrow>
      err = [] \<and> scan_dir (c1_entry k) img k ino st1 = Inr st'"
    and "scan_dir (c1_entry k) img k ino st1 = Inr st' \<Longrightarrow> same_inodes (img_inodes img) (c1_x st1) \<Longrightarrow>
      traces_ok d img k (img_entries img k) \<Longrightarrow> scan_dir (c2_entry d img k) img k ino (st1, []) = Inr (st', [])"
proof -
  have "marks_ok ds bm (bmap_mark (c1_x st)) (inode_addrs img ino)"
    using marks by (simp add: check_addrs_Inr ino_def)
  moreover have "di_addrs ino ! 0 \<in> set (inode_addrs img ino)" by (force simp: inode_addrs_def NDIRECT_def)
  ultimately have base: "blk_addr (di_addrs ino ! 0) + 512 \<le> IMG_SIZE"
    using marks_ok_small blk_addr_small(2) by blast
  have eq: "ino\<lparr>di_nlink := 0\<rparr> = (img_inodes img ! k)\<lparr>di_nlink := 0\<rparr>"
    using same_x_upto [of img k] k inv by (simp add: same_inodes_def ino_def c1_inv_def)
  have ents: "dir_entries img ino = img_entries img k"
    using nlink_irrelevant(2,3) [OF eq] by (simp add: dir_entries_def)
  show "scan_dir (c2_entry d img k) img k ino (st1, err) = Inr (st', []) \<Longrightarrow>
      err = [] \<and> scan_dir (c1_entry k) img k ino st1 = Inr st'"
    unfolding scan_dir_Inr [OF base] using c2_entries_silent by blast
  show "scan_dir (c1_entry k) img k ino st1 = Inr st' \<Longrightarrow> same_inodes (img_inodes img) (c1_x st1) \<Longrightarrow>
      traces_ok d img k (img_entries img k) \<Longrightarrow> scan_dir (c2_entry d img k) img k ino (st1, []) = Inr (st', [])"
    unfolding scan_dir_Inr [OF base] ents using c2_entries_of_c1 by blast
qed

lemma c2_check_inode_silent:
  assumes inv: "c1_inv img k st" and k: "ROOTINO \<le> k" "k < img_n img"
  shows "c2_check_inode d img ds bm k (st, err) = Inr (st', []) \<Longrightarrow>
      err = [] \<and> c1_check_inode img ds bm k st = Inr st'"
    and "c1_check_inode img ds bm k st = Inr st' \<Longrightarrow>
      img_type img k = T_DIR \<longrightarrow> traces_ok d img k (img_entries img k) \<Longrightarrow>
      c2_check_inode d img ds bm k (st, []) = Inr (st', [])"
proof -
  let ?ino = "inodes (c1_x st) ! k"
  have T: "T_DIR \<noteq> 0" by (simp add: T_DIR_def)
  have same: "same_inodes (img_inodes img) (c1_x st)" using inv same_x_upto by (simp add: c1_inv_def)
  then have "?ino\<lparr>di_nlink := 0\<rparr> = (img_inodes img ! k)\<lparr>di_nlink := 0\<rparr>" using k by (simp add: same_inodes_def)
  then have ty: "di_type ?ino = img_type img k" by (rule nlink_irrelevant)
  show "c2_check_inode d img ds bm k (st, err) = Inr (st', []) \<Longrightarrow>
      err = [] \<and> c1_check_inode img ds bm k st = Inr st'"
    using c2_check_inode_eq(1) [OF inv k] T
    by (auto simp: c2_check_inode_def c1_check_inode_def c1_check_dir_def Let_def ebind_eq_Inr split: if_splits)
  show "c1_check_inode img ds bm k st = Inr st' \<Longrightarrow>
      img_type img k = T_DIR \<longrightarrow> traces_ok d img k (img_entries img k) \<Longrightarrow>
      c2_check_inode d img ds bm k (st, []) = Inr (st', [])"
    using c2_check_inode_eq(2) [OF inv k] T same
    by (auto simp: c2_check_inode_def c1_check_inode_def c1_check_dir_def Let_def ebind_eq_Inr ty split: if_splits)
qed

abbreviation c1_start :: "image \<Rightarrow> c1_state" where
  "c1_start img \<equiv> \<lparr>c1_x = st_start img, maps = replicate (img_n img) empty_map\<rparr>"

lemma c2_loop:
  fixes d :: nat
  assumes "k \<le> img_n img"
  defines "f \<equiv> c1_check_inode img (img_data_start img) (img_bmap img)"
    and "g \<equiv> c2_check_inode d img (img_data_start img) (img_bmap img)"
  shows "(efold g [ROOTINO..<k] (c1_start img, []) = Inr (st', []) \<longrightarrow> efold f [ROOTINO..<k] (c1_start img) = Inr st') \<and>
    ((\<forall>i \<in> {ROOTINO..<k}. img_type img i = T_DIR \<longrightarrow> traces_ok d img i (img_entries img i)) \<longrightarrow>
     efold f [ROOTINO..<k] (c1_start img) = Inr st' \<longrightarrow> efold g [ROOTINO..<k] (c1_start img, []) = Inr (st', []))"
  using assms(1)
proof (induction k arbitrary: st')
  case (Suc k)
  show ?case
  proof (cases "ROOTINO \<le> k")
    case True
    have k: "k < img_n img" using Suc.prems by simp
    have inv: "efold f [ROOTINO..<k] (c1_start img) = Inr u \<Longrightarrow> c1_inv img k u" for u
      using c1_loop [of k img] k by (simp add: f_def)
    note ih = Suc.IH [OF order.strict_implies_order [OF k]]
    have f: "efold f [ROOTINO..<Suc k] (c1_start img) = Inr st' \<longleftrightarrow>
        (\<exists>u. efold f [ROOTINO..<k] (c1_start img) = Inr u \<and> f k u = Inr st')"
      by (simp add: upto_Suc(3) [OF True] efold_append ebind_eq_Inr del: upt_Suc)
    have g: "efold g [ROOTINO..<Suc k] (c1_start img, []) = Inr (st', []) \<longleftrightarrow>
        (\<exists>u e. efold g [ROOTINO..<k] (c1_start img, []) = Inr (u, e) \<and> g k (u, e) = Inr (st', []))"
      by (simp add: upto_Suc(3) [OF True] efold_append ebind_eq_Inr del: upt_Suc)
    show ?thesis unfolding f g
    proof (intro conjI impI)
      assume "\<exists>u e. efold g [ROOTINO..<k] (c1_start img, []) = Inr (u, e) \<and> g k (u, e) = Inr (st', [])"
      then obtain u e where u: "efold g [ROOTINO..<k] (c1_start img, []) = Inr (u, e)" "g k (u, e) = Inr (st', [])"
        by blast
      show "\<exists>u. efold f [ROOTINO..<k] (c1_start img) = Inr u \<and> f k u = Inr st'"
      proof (intro exI conjI)
        have "e = []" using u(2) unfolding g_def by (rule c2_check_inode_reported)
        then show one: "efold f [ROOTINO..<k] (c1_start img) = Inr u" using u(1) ih by blast
        show "f k u = Inr st'"
          using c2_check_inode_silent(1) [OF inv [OF one] True k u(2) [unfolded g_def]] by (simp add: f_def)
      qed
    next
      assume tr: "\<forall>i \<in> {ROOTINO..<Suc k}. img_type img i = T_DIR \<longrightarrow> traces_ok d img i (img_entries img i)"
        and "\<exists>u. efold f [ROOTINO..<k] (c1_start img) = Inr u \<and> f k u = Inr st'"
      then obtain u where u: "efold f [ROOTINO..<k] (c1_start img) = Inr u" "f k u = Inr st'" by blast
      have "g k (u, []) = Inr (st', [])"
        using c2_check_inode_silent(2) [OF inv [OF u(1)] True k] u(2) tr True by (simp add: f_def g_def)
      moreover have "efold g [ROOTINO..<k] (c1_start img, []) = Inr (u, [])"
        using tr u(1) by (intro ih [THEN conjunct2, rule_format]) auto
      ultimately show "\<exists>u e. efold g [ROOTINO..<k] (c1_start img, []) = Inr (u, e) \<and> g k (u, e) = Inr (st', [])"
        by blast
    qed
  next
    case False
    then have eq: "[ROOTINO..<Suc k] = [ROOTINO..<k]" "{ROOTINO..<Suc k} = {ROOTINO..<k}" by auto
    show ?thesis unfolding eq by (rule Suc.IH) (use Suc.prems in simp)
  qed
qed simp

section \<open>Parents with smaller numbers\<close>

text \<open>In a consistent image in which every parent has a smaller number than its directory, the
  recursion ends at the root within as many calls as there are inodes.\<close>

lemma fs_dir_readable:
  assumes "fs_consistent img" "i \<in> {ROOTINO..<img_n img}" "img_type img i = T_DIR"
  shows "blk_addr (di_addrs (img_inodes img ! i) ! 0) + 512 \<le> IMG_SIZE"
    and "dir_ok img (img_n img) i (img_inodes img ! i)"
proof -
  let ?ino = "img_inodes img ! i"
  have T: "T_DIR \<noteq> 0" by (simp add: T_DIR_def)
  have "di_addrs ?ino ! 0 \<in> set (inode_addrs img ?ino)" by (force simp: inode_addrs_def NDIRECT_def)
  then have "di_addrs ?ino ! 0 \<in> set (img_used img)"
    using assms(2,3) T by (auto simp: img_used_def inode_used_def)
  then have "di_addrs ?ino ! 0 = 0 \<or> di_addrs ?ino ! 0 < 1000"
    using assms(1) by (auto simp: fs_consistent_def blocks_ok_def)
  then have "di_addrs ?ino ! 0 < 1000" by auto
  then show "blk_addr (di_addrs ?ino ! 0) + 512 \<le> IMG_SIZE" by (rule blk_addr_small)
  show "dir_ok img (img_n img) i ?ino"
    using assms by (simp add: fs_consistent_def inode_ok_def)
qed

lemma efold_unit: "(\<And>x. x \<in> set xs \<Longrightarrow> f x () = Inr ()) \<Longrightarrow> efold f xs () = Inr ()"
  by (induction xs) auto

lemma trace_parent_ends:
  assumes img: "fs_consistent img" "parents_ok img"
  shows "p \<in> {ROOTINO..<img_n img} \<Longrightarrow> img_type img p = T_DIR \<Longrightarrow> p < leaf \<Longrightarrow> p \<le> d \<Longrightarrow>
    trace_parent d img (img_inodes img) p leaf = Inr ()"
proof (induction d arbitrary: p)
  case 0
  then show ?case by (simp add: ROOTINO_def)
next
  case (Suc d)
  note dir = fs_dir_readable [OF img(1) Suc.prems(1,2)]
  have ok: "unat (di_size (img_inodes img ! p)) \<le> 512"
    "\<And>de. de \<in> set (img_entries img p) \<Longrightarrow> is_dot de \<Longrightarrow> unat (de_inum de) = p"
    using dir(2) by (auto simp: dir_ok_def dir_form_ok_def Let_def)
  have up: "trace_parent d img (img_inodes img) (unat (de_inum de)) leaf = Inr ()"
    if "de \<in> set (img_entries img p)" "is_dotdot de" "unat (de_inum de) \<noteq> ROOTINO" for de
  proof -
    have q: "unat (de_inum de) < p" "(unat (de_inum de), p) \<in> set (img_refs img)"
      using img(2) Suc.prems(1,2) that unfolding parents_ok_def Let_def by metis+
    then have "unat (de_inum de) \<in> {ROOTINO..<img_n img}" "img_type img (unat (de_inum de)) = T_DIR"
      by (auto simp: img_refs_def inode_refs_def entry_refs_def split: if_splits)
    with q(1) Suc.prems(3,4) show ?thesis by (intro Suc.IH) auto
  qed
  have "\<not> img_n img \<le> p" using Suc.prems(1) by simp
  then show ?case
    unfolding trace_parent.simps entry_loop_efold0 [OF dir(1) ok(1)]
    using up ok(2) Suc.prems(3) by (auto intro!: efold_unit)
qed

lemma parents_traces_ok:
  assumes "fs_consistent img" "parents_ok img" "img_n img \<le> d" "i \<in> {ROOTINO..<img_n img}" "img_type img i = T_DIR"
  shows "traces_ok d img i (img_entries img i)"
  unfolding traces_ok_def
proof (intro ballI impI)
  fix de
  assume de: "de \<in> set (img_entries img i)" "is_dotdot de" "i \<noteq> ROOTINO \<or> unat (de_inum de) \<noteq> ROOTINO"
  then have q: "unat (de_inum de) < i" "(unat (de_inum de), i) \<in> set (img_refs img)"
    using assms(2,4,5) unfolding parents_ok_def Let_def by metis+
  then have "unat (de_inum de) \<in> {ROOTINO..<img_n img}" "img_type img (unat (de_inum de)) = T_DIR"
    by (auto simp: img_refs_def inode_refs_def entry_refs_def split: if_splits)
  with q(1) assms(3,4) show "trace_parent d img (img_inodes img) (unat (de_inum de)) i = Inr ()"
    by (intro trace_parent_ends [OF assms(1,2)]) auto
qed

lemma xcheck_contest_2_unfold:
  "xcheck_contest_2 d img = (if tables_inside img then
     ebind (efold (c2_check_inode d img (img_data_start img) (img_bmap img)) [ROOTINO..<img_n img] (c1_start img, [])) (\<lambda>(st, err).
     ebind (bitmap_loop (img_bmap img) (bmap_mark (c1_x st)) ((cdiv8 (sint (img_data_start img)) + 1) * 8)) (\<lambda>_.
     ebind (efold (check_refs (c1_x st)) [ROOTINO..<img_n img] ()) (\<lambda>_. Inr err)))
   else Inl Fault)"
  unfolding xcheck_contest_2_def img_tables_read ebind_Inr img_sb_def [symmetric] Let_def img_n_def [symmetric]
    tables_inside_def
  by (simp add: st_start_def img_tables_read split: if_splits)

section \<open>Properties\<close>

text \<open>
  With a call stack that allows as many nested calls as there are inodes, \<^verbatim>\<open>xcheck_contest_2\<close> ends
  without any report exactly on the images that \<^verbatim>\<open>xcheck_contest_1\<close> accepts: following the parents
  finds nothing that the test of the parent entry has not found.
\<close>

theorem contest_2_silent_iff_contest_1:
  assumes "img_n img \<le> d"
  shows "xcheck_contest_2 d img = Inr [] \<longleftrightarrow> xcheck_contest_1 img = Inr ()"
proof
  let ?f = "efold (c1_check_inode img (img_data_start img) (img_bmap img)) [ROOTINO..<img_n img] (c1_start img)"
  let ?g = "efold (c2_check_inode d img (img_data_start img) (img_bmap img)) [ROOTINO..<img_n img] (c1_start img, [])"
  note loop = c2_loop [where img = img and d = d, OF order.refl]
  have inside: "tables_inside img" if "xcheck_contest_2 d img = Inr [] \<or> xcheck_contest_1 img = Inr ()"
    using that by (auto simp: xcheck_contest_1_unfold xcheck_contest_2_unfold split: if_splits)
  show "xcheck_contest_1 img = Inr ()" if two: "xcheck_contest_2 d img = Inr []"
  proof -
    have t: "tables_inside img" using two inside by blast
    from two obtain st where "?g = Inr (st, [])"
      "bitmap_loop (img_bmap img) (bmap_mark (c1_x st)) ((cdiv8 (sint (img_data_start img)) + 1) * 8) = Inr ()"
      "efold (check_refs (c1_x st)) [ROOTINO..<img_n img] () = Inr ()"
      unfolding xcheck_contest_2_unfold if_P [OF t] ebind_eq_Inr by (auto simp: ebind_eq_Inr)
    moreover from this(1) have "?f = Inr st" using loop by blast
    ultimately show ?thesis using t by (simp add: xcheck_contest_1_unfold)
  qed
  show "xcheck_contest_2 d img = Inr []" if one: "xcheck_contest_1 img = Inr ()"
  proof -
    have "fs_consistent img" "parents_ok img" using one by (auto simp: xcheck_contest_1_iff)
    then have tr: "\<forall>i \<in> {ROOTINO..<img_n img}. img_type img i = T_DIR \<longrightarrow> traces_ok d img i (img_entries img i)"
      using parents_traces_ok assms by blast
    have t: "tables_inside img" using one inside by blast
    from one obtain st where st: "?f = Inr st"
      "bitmap_loop (img_bmap img) (bmap_mark (c1_x st)) ((cdiv8 (sint (img_data_start img)) + 1) * 8) = Inr ()"
      "efold (check_refs (c1_x st)) [ROOTINO..<img_n img] () = Inr ()"
      unfolding xcheck_contest_1_unfold if_P [OF t] ebind_eq_Inr by auto
    moreover from st(1) have "?g = Inr (st, [])" using loop tr by blast
    ultimately show ?thesis using t by (simp add: xcheck_contest_2_unfold)
  qed
qed

theorem contest_2_silent_iff_contest_1_witness:
  "xcheck_contest_2 200 rootless_image = Inr [] \<and> img_n rootless_image = 200"
proof -
  have n: "img_n rootless_image = 200" by (simp add: rootless_sb)
  have "parents_ok rootless_image \<and> kids_fit rootless_image"
    using rootless_free T_distinct by (auto simp: parents_ok_def kids_fit_def)
  then have "xcheck_contest_1 rootless_image = Inr ()"
    using rootless_consistent by (simp add: xcheck_contest_1_iff)
  then show ?thesis using contest_2_silent_iff_contest_1 [of rootless_image 200] n by simp
qed

text \<open>
  Parents in a circle that does not contain the directory at hand: when from every inode of a set
  \<open>S\<close> the first \<open>..\<close> entry leads to a member of \<open>S\<close> other than the root, and no \<open>.\<close> entry before it
  names the directory \<open>leaf\<close>, \<open>trace_parent\<close> never ends: it exhausts a call stack of any depth.
\<close>

theorem trace_parent_never_ends:
  assumes "p \<in> S"
    and "\<forall>q \<in> S. q < length inos \<and> blk_addr (di_addrs (inos ! q) ! 0) + 512 \<le> IMG_SIZE \<and> unat (di_size (inos ! q)) \<le> 512"
    and "\<forall>q \<in> S. \<exists>es de fs. dir_entries img (inos ! q) = es @ de # fs \<and> is_dotdot de \<and>
        unat (de_inum de) \<in> S - {ROOTINO} \<and>
        (\<forall>e \<in> set es. \<not> is_dotdot e \<and> (is_dot e \<longrightarrow> unat (de_inum e) \<noteq> leaf))"
  shows "trace_parent d img inos p leaf = Inl Stack_Overflow"
  using assms(1)
proof (induction d arbitrary: p)
  case (Suc d)
  let ?act = "\<lambda>de _. if is_dot de \<and> unat (de_inum de) = leaf then Inl (Exit ''ERROR: inaccessible directory exists.'')
       else if is_dotdot de \<and> unat (de_inum de) \<noteq> ROOTINO then trace_parent d img inos (unat (de_inum de)) leaf
       else Inr ()"
  from Suc.prems assms(2) have p: "p < length inos" "blk_addr (di_addrs (inos ! p) ! 0) + 512 \<le> IMG_SIZE"
    "unat (di_size (inos ! p)) \<le> 512" by auto
  from Suc.prems assms(3) obtain es de fs where es: "dir_entries img (inos ! p) = es @ de # fs" "is_dotdot de"
    "unat (de_inum de) \<in> S - {ROOTINO}" "\<forall>e \<in> set es. \<not> is_dotdot e \<and> (is_dot e \<longrightarrow> unat (de_inum e) \<noteq> leaf)"
    by blast
  have "efold ?act es () = Inr ()" using es(4) by (intro efold_unit) auto
  moreover have "?act de () = Inl Stack_Overflow"
    using es(2,3) Suc.IH not_dot_dotdot [of de] by auto
  ultimately have "efold ?act (dir_entries img (inos ! p)) () = Inl Stack_Overflow"
    unfolding es(1) efold_append by simp
  with p show ?case by (simp add: entry_loop_efold0 [OF p(2,3)])
qed simp

definition circle_inode :: "uint \<Rightarrow> dinode" where
  "circle_inode b = \<lparr>di_type = T_DIR, di_major = 0, di_minor = 0, di_nlink = 1, di_size = 32, di_addrs = b # replicate 12 0\<rparr>"

text \<open>Directory 3 in block 3 with parent 4, and directory 4 in block 4 with parent 3.\<close>

definition circle_image :: image where
  "circle_image a = (if a = 1536 \<or> a = 2064 then 3 else if a = 1552 \<or> a = 2048 then 4
     else if a \<in> {1538, 1554, 1555, 2050, 2066, 2067} then 46 else 0)"

lemma circle_entries:
  "dir_entries circle_image (circle_inode 3) =
     [\<lparr>de_inum = 3, de_name = [46, 0, 0, 0, 0, 0, 0, 0, 0, 0, 0, 0, 0, 0]\<rparr>, \<lparr>de_inum = 4, de_name = [46, 46, 0, 0, 0, 0, 0, 0, 0, 0, 0, 0, 0, 0]\<rparr>]"
  "dir_entries circle_image (circle_inode 4) =
     [\<lparr>de_inum = 4, de_name = [46, 0, 0, 0, 0, 0, 0, 0, 0, 0, 0, 0, 0, 0]\<rparr>, \<lparr>de_inum = 3, de_name = [46, 46, 0, 0, 0, 0, 0, 0, 0, 0, 0, 0, 0, 0]\<rparr>]"
proof -
  have "[0..<2] = [0, Suc 0]" by (simp add: upt_rec)
  then show "dir_entries circle_image (circle_inode 3) =
     [\<lparr>de_inum = 3, de_name = [46, 0, 0, 0, 0, 0, 0, 0, 0, 0, 0, 0, 0, 0]\<rparr>,
      \<lparr>de_inum = 4, de_name = [46, 46, 0, 0, 0, 0, 0, 0, 0, 0, 0, 0, 0, 0]\<rparr>]"
    "dir_entries circle_image (circle_inode 4) =
     [\<lparr>de_inum = 4, de_name = [46, 0, 0, 0, 0, 0, 0, 0, 0, 0, 0, 0, 0, 0]\<rparr>,
      \<lparr>de_inum = 3, de_name = [46, 46, 0, 0, 0, 0, 0, 0, 0, 0, 0, 0, 0, 0]\<rparr>]"
    by (simp_all add: dir_entries_def circle_inode_def blk_addr_def dirent_of_def le16_def circle_image_def Let_def)
qed

theorem trace_parent_never_ends_witness:
  "\<forall>d. trace_parent d circle_image (map (\<lambda>i. circle_inode (of_nat i)) [0..<5]) 3 2 = Inl Stack_Overflow"
proof
  fix d
  let ?inos = "map (\<lambda>i. circle_inode (of_nat i)) [0..<5]"
  have nth: "?inos ! 3 = circle_inode 3" "?inos ! 4 = circle_inode 4" "length ?inos = 5" by simp_all
  have 1: "\<forall>q \<in> {3, 4}. q < length ?inos \<and> blk_addr (di_addrs (?inos ! q) ! 0) + 512 \<le> IMG_SIZE \<and>
      unat (di_size (?inos ! q)) \<le> 512" unfolding nth by (simp add: nth circle_inode_def blk_addr_def fs_consts del: upt_rec_numeral)
  have 2: "\<forall>q \<in> {3, 4}. \<exists>es de fs. dir_entries circle_image (?inos ! q) = es @ de # fs \<and> is_dotdot de \<and>
        unat (de_inum de) \<in> {3, 4} - {ROOTINO} \<and>
        (\<forall>e \<in> set es. \<not> is_dotdot e \<and> (is_dot e \<longrightarrow> unat (de_inum e) \<noteq> 2))"
    (is "\<forall>q \<in> _. ?P q")
  proof -
    have "?P 3" unfolding nth circle_entries
      by (intro exI [of _ "[_]"] exI [of _ "[]"] exI conjI, simp) (simp_all add: is_dotdot_def is_dot_def ROOTINO_def)
    moreover have "?P 4" unfolding nth circle_entries
      by (intro exI [of _ "[_]"] exI [of _ "[]"] exI conjI, simp) (simp_all add: is_dotdot_def is_dot_def ROOTINO_def)
    ultimately show ?thesis by simp
  qed
  show "trace_parent d circle_image ?inos 3 2 = Inl Stack_Overflow"
    by (rule trace_parent_never_ends [OF _ 1 2]) simp
qed

end
