(* ===== verification/Xcheck_Contest3.thy ===== *)
theory Xcheck_Contest3
  imports Xcheck_Contest2
begin

text \<open>
  \<^verbatim>\<open>projects/filesystems-check/xcheck_contest_3.c\<close>: the checker that reports all errors without stopping
  and repairs lost inodes by entering them in the directory \<^verbatim>\<open>lost_found\<close>. The outcome is the new image,
  that is the content of the file \<^verbatim>\<open>.repair\<close>, with the messages on \<open>stderr\<close>. Opening and mapping the files
  are not modelled.
\<close>

section \<open>Bytes of inodes and blocks\<close>

definition le16_bytes :: "ushort \<Rightarrow> uchar list" where
  "le16_bytes w = [ucast w, ucast (drop_bit 8 w)]"

definition le32_bytes :: "uint \<Rightarrow> uchar list" where
  "le32_bytes w = [ucast w, ucast (drop_bit 8 w), ucast (drop_bit 16 w), ucast (drop_bit 24 w)]"

definition dinode_bytes :: "dinode \<Rightarrow> uchar list" where
  "dinode_bytes din = le16_bytes (di_type din) @ le16_bytes (di_major din) @ le16_bytes (di_minor din) @
     le16_bytes (di_nlink din) @ le32_bytes (di_size din) @ concat (map le32_bytes (di_addrs din))"

definition img_write :: "image \<Rightarrow> nat \<Rightarrow> uchar list \<Rightarrow> image" where
  "img_write img a bs = (\<lambda>i. if a \<le> i \<and> i < a + length bs then bs ! (i - a) else img i)"

text \<open>\<open>bcopy\<close> into a buffer.\<close>

definition patch :: "uchar list \<Rightarrow> nat \<Rightarrow> uchar list \<Rightarrow> uchar list" where
  "patch buf k bs = take k buf @ bs @ drop (k + length bs) buf"

text \<open>The array of inodes as memory.\<close>

definition inodes_read :: "dinode list \<Rightarrow> nat \<Rightarrow> nat \<Rightarrow> xerr + uchar list" where
  "inodes_read inos a n =
    (if a + n \<le> 64 * length inos then Inr (take n (drop a (concat (map dinode_bytes inos)))) else Inl Fault)"

section \<open>The checks\<close>

definition read_inode_mem :: "(nat \<Rightarrow> nat \<Rightarrow> xerr + uchar list) \<Rightarrow> dinode \<Rightarrow> nat \<Rightarrow> nat \<Rightarrow> xerr + uchar list" where
  "read_inode_mem rd inode off len =
    (let block_num = off div BSIZE in
     if block_num \<noteq> 0 then Inl Abort
     else ebind
       (if block_num < NDIRECT then Inr (di_addrs inode ! block_num)
        else if block_num - NDIRECT < NINDIRECT then
          ebind (rd (blk_addr (di_addrs inode ! NDIRECT)) BSIZE)
            (\<lambda>indirect. Inr (le32 indirect (4 * (block_num - NDIRECT))))
        else Inr 0)
       (\<lambda>addr. rd (blk_addr addr + off mod BSIZE) len))"

record c3_state =
  c3_c1 :: c1_state
  data_end_block :: uint
  lost_found_dir_inum :: nat
  c3_err :: "string list"

abbreviation c3_x :: "c3_state \<Rightarrow> xstate" where
  "c3_x st \<equiv> c1_x (c3_c1 st)"

definition set_x :: "xstate \<Rightarrow> c3_state \<Rightarrow> c3_state" where
  "set_x x st = st\<lparr>c3_c1 := (c3_c1 st)\<lparr>c1_x := x\<rparr>\<rparr>"

definition report :: "bool \<Rightarrow> string \<Rightarrow> string list" where
  "report b msg = (if b then [msg] else [])"

definition c3_check_inode_type :: "ushort \<Rightarrow> string list" where
  "c3_check_inode_type ty = report (ty \<noteq> 0 \<and> ty \<noteq> T_DIR \<and> ty \<noteq> T_FILE \<and> ty \<noteq> T_DEV) ''ERROR: bad inode.''"

definition c3_check_address :: "uint \<Rightarrow> bool \<Rightarrow> uint \<Rightarrow> uchar list \<Rightarrow> c3_state \<Rightarrow> xerr + c3_state" where
  "c3_check_address addr direct data_start bmap st =
    (let err1 = report ((addr < data_start \<and> addr \<noteq> 0) \<or> addr \<ge> of_nat FSSIZE)
       (if direct then ''ERROR: bad direct address in inode.'' else ''ERROR: bad indirect address in inode.'') in
     if addr = 0 then Inr (st\<lparr>c3_err := c3_err st @ err1\<rparr>)
     else let index = addr; b = bit_of index; k = unat (index div 8); mark = bmap_mark (c3_x st) in
       if NBMAP \<le> k then Inl Fault
       else let err2 = report ((ucast (bmap ! k) :: uint) AND b = 0)
              ''ERROR: address used by inode but marked free in bitmap.'';
            err3 = report ((ucast (mark ! k) :: uint) AND b \<noteq> 0)
              (if direct then ''ERROR: direct address used more than once.''
               else ''ERROR: indirect address used more than once.'')
          in Inr ((set_x ((c3_x st)\<lparr>bmap_mark := mark[k := ucast ((ucast (mark ! k) :: uint) OR b)]\<rparr>) st)
               \<lparr>data_end_block := index, c3_err := c3_err st @ err1 @ err2 @ err3\<rparr>))"

definition c3_check_addrs :: "image \<Rightarrow> uint \<Rightarrow> uchar list \<Rightarrow> dinode \<Rightarrow> c3_state \<Rightarrow> xerr + c3_state" where
  "c3_check_addrs img data_start bmap inode st0 =
    efold (\<lambda>j st.
        if j < NDIRECT then c3_check_address (di_addrs inode ! j) True data_start bmap st
        else ebind (c3_check_address (di_addrs inode ! NDIRECT) False data_start bmap st)
          (\<lambda>st. ebind (img_read img (blk_addr (di_addrs inode ! NDIRECT)) (4 * NINDIRECT))
            (\<lambda>indirect. efold (\<lambda>k st. c3_check_address (le32 indirect (4 * k)) False data_start bmap st)
                [0..<NINDIRECT] st)))
      [0..<NDIRECT + 1] st0"

text \<open>\<open>trace_parent\<close> reads the inode through its second pointer and the entries through its first. In
  this version it reports the loop and goes on, and does not stop at the root.\<close>

function mem_entry_loop ::
  "(dirent \<Rightarrow> 's \<Rightarrow> xerr + 's) \<Rightarrow> (nat \<Rightarrow> nat \<Rightarrow> xerr + uchar list) \<Rightarrow> dinode \<Rightarrow> nat \<Rightarrow> 's \<Rightarrow> xerr + 's" where
  "mem_entry_loop act rd inode off st =
    (if off < unat (di_size inode) then
       ebind (read_inode_mem rd inode off 16) (\<lambda>bs.
       ebind (act (dirent_of bs) st) (mem_entry_loop act rd inode (off + 16)))
     else Inr st)"
  by pat_completeness auto
termination
  by (relation "measure (\<lambda>(act, rd, inode, off, st). 1024 - off)")
    (auto simp: read_inode_mem_def fs_consts Let_def split: if_splits)

declare mem_entry_loop.simps [simp del]

primrec c3_trace_parent :: "nat \<Rightarrow> (nat \<Rightarrow> nat \<Rightarrow> xerr + uchar list) \<Rightarrow> (nat \<Rightarrow> nat \<Rightarrow> xerr + uchar list) \<Rightarrow>
    nat \<Rightarrow> nat \<Rightarrow> string list \<Rightarrow> xerr + string list" where
  "c3_trace_parent 0 img_ptr inodes_ptr p leaf err = Inl Stack_Overflow"
| "c3_trace_parent (Suc d) img_ptr inodes_ptr p leaf err =
    ebind (inodes_ptr (64 * p) 64) (\<lambda>bs.
    mem_entry_loop (\<lambda>de err.
       let err = err @ report (is_dot de \<and> unat (de_inum de) = leaf) ''ERROR: inaccessible directory exists.'' in
       if is_dotdot de then c3_trace_parent d img_ptr inodes_ptr (unat (de_inum de)) leaf err else Inr err)
      img_ptr (dinode_of bs 0) 0 err)"

text \<open>The call passes the two pointers in the wrong order.\<close>

definition c3_parent :: "nat \<Rightarrow> image \<Rightarrow> nat \<Rightarrow> dirent \<Rightarrow> c3_state \<Rightarrow> xerr + string list" where
  "c3_parent d img i de st =
    (let p = unat (de_inum de); ms = maps (c3_c1 st) in
     if i = ROOTINO \<and> p = ROOTINO then Inr (c3_err st)
     else if length ms \<le> p then Inl Fault
     else c3_trace_parent d (inodes_read (inodes (c3_x st))) (img_read img) p i
       (c3_err st @ report (\<not> find_child (ms ! p) i) ''ERROR: parent directory mismatch.''))"

definition is_lost_found :: "dirent \<Rightarrow> bool" where
  "is_lost_found de \<longleftrightarrow> take 10 (de_name de) = bytes ''lost_found''"

definition c3_entry :: "nat \<Rightarrow> image \<Rightarrow> nat \<Rightarrow> dirent \<Rightarrow> c3_state \<Rightarrow> xerr + c3_state" where
  "c3_entry d img i de st =
    ebind (if is_dotdot de then c3_parent d img i de st else Inr (c3_err st)) (\<lambda>err.
    ebind (c1_note i de (c3_c1 st)) (\<lambda>c1.
      let k = unat (de_inum de) in
      Inr (st\<lparr>c3_c1 := c1, c3_err := err,
         lost_found_dir_inum := (if di_type (inodes (c3_x st) ! k) = T_DIR \<and> i \<noteq> k \<and> is_lost_found de then k
                                 else lost_found_dir_inum st)\<rparr>)))"

definition c3_check_dir :: "nat \<Rightarrow> image \<Rightarrow> nat \<Rightarrow> dinode \<Rightarrow> c3_state \<Rightarrow> xerr + c3_state" where
  "c3_check_dir d img i inode st =
    ebind (dir_loop (c3_entry d img i) img i inode 0 \<lparr>count_dots = 0, root_exist = False, dir_error = False\<rparr> st)
      (\<lambda>(acc, st). Inr (st\<lparr>c3_err := c3_err st @
          report (i = ROOTINO \<and> \<not> root_exist acc) ''ERROR: root directory does not exist.'' @
          report (dir_error acc \<or> count_dots acc \<noteq> 2) ''ERROR: directory not properly formatted.''\<rparr>))"

definition c3_check_inode :: "nat \<Rightarrow> image \<Rightarrow> uint \<Rightarrow> uchar list \<Rightarrow> nat \<Rightarrow> c3_state \<Rightarrow> xerr + c3_state" where
  "c3_check_inode d img data_start bmap i st =
    (let inode = inodes (c3_x st) ! i;
         st = st\<lparr>c3_err := c3_err st @ c3_check_inode_type (di_type inode)\<rparr> in
     ebind (if di_type inode \<noteq> 0 then c3_check_addrs img data_start bmap inode st else Inr st) (\<lambda>st.
     if di_type inode = T_DIR then c3_check_dir d img i inode st else Inr st))"

function c3_bitmap_loop :: "uchar list \<Rightarrow> uchar list \<Rightarrow> int \<Rightarrow> string list \<Rightarrow> xerr + string list" where
  "c3_bitmap_loop bmap mark j err =
    (if j < int NBMAP then
       if j < 0 then Inl Fault
       else c3_bitmap_loop bmap mark (j + 8) (err @ report (bmap ! nat (j div 8) \<noteq> mark ! nat (j div 8))
         ''ERROR: bitmap marks block in use but it is not in use.'')
     else Inr err)"
  by pat_completeness auto
termination
  by (relation "measure (\<lambda>(bmap, mark, j, err). nat (int NBMAP - j))") auto

declare c3_bitmap_loop.simps [simp del]

section \<open>The repair\<close>

definition xint :: "uint \<Rightarrow> uint" where
  "xint x = le32 (le32_bytes x) 0"

definition rsect :: "image \<Rightarrow> uint \<Rightarrow> nat \<Rightarrow> xerr + uchar list" where
  "rsect img sec n = img_read img (blk_addr sec) n"

definition wsect :: "image \<Rightarrow> uchar list \<Rightarrow> uint \<Rightarrow> xerr + image" where
  "wsect img buf sec =
    (if blk_addr sec + length buf \<le> IMG_SIZE then Inr (img_write img (blk_addr sec) buf) else Inl Fault)"

text \<open>The block in which byte \<open>off\<close> of the file lies, allocated when it is missing.\<close>

definition iappend_block :: "dinode \<Rightarrow> nat \<Rightarrow> image \<Rightarrow> uint \<Rightarrow> xerr + uint \<times> dinode \<times> image \<times> uint" where
  "iappend_block din fbn img deb =
    (let slot = (if fbn < NDIRECT then fbn else NDIRECT);
         (din, deb) = (if xint (di_addrs din ! slot) = 0
           then (din\<lparr>di_addrs := (di_addrs din)[slot := xint deb]\<rparr>, deb + 1) else (din, deb)) in
     if fbn < NDIRECT then Inr (xint (di_addrs din ! fbn), din, img, deb)
     else ebind (rsect img (di_addrs din ! NDIRECT) (4 * NINDIRECT)) (\<lambda>indirect.
       let k = fbn - NDIRECT in
       if le32 indirect (4 * k) = 0 then
         ebind (wsect img (patch indirect (4 * k) (le32_bytes (xint deb))) (di_addrs din ! NDIRECT)) (\<lambda>img.
           Inr (xint (xint deb), din, img, deb + 1))
       else Inr (xint (le32 indirect (4 * k)), din, img, deb)))"

function iappend_loop :: "uchar list \<Rightarrow> dinode \<Rightarrow> nat \<Rightarrow> image \<Rightarrow> uint \<Rightarrow> xerr + dinode \<times> nat \<times> image \<times> uint" where
  "iappend_loop p din off img deb =
    (if p = [] then Inr (din, off, img, deb)
     else let fbn = off div BSIZE; n1 = min (length p) ((fbn + 1) * BSIZE - off) in
       if NDIRECT + NINDIRECT \<le> fbn then Inl Abort
       else ebind (iappend_block din fbn img deb) (\<lambda>(x, din, img, deb).
         ebind (rsect img x BSIZE) (\<lambda>buf.
         ebind (wsect img (patch buf (off - fbn * BSIZE) (take n1 p)) x) (\<lambda>img.
         iappend_loop (drop n1 p) din (off + n1) img deb))))"
  by pat_completeness auto
termination
proof (relation "measure (\<lambda>(p, din, off, img, deb). length p)", goal_cases)
  case (2 p din off img deb)
  have "off < (off div 512 + 1) * 512"
    using dividend_less_div_times [of 512 off] by simp
  with 2 show ?case by (simp add: BSIZE_def)
qed simp

declare iappend_loop.simps [simp del]

definition iappend :: "dinode list \<Rightarrow> image \<Rightarrow> nat \<Rightarrow> uchar list \<Rightarrow> uint \<Rightarrow> xerr + dinode list \<times> image \<times> uint" where
  "iappend inos img save p deb =
    (if length inos \<le> save then Inl Fault
     else ebind (iappend_loop p (inos ! save) (unat (di_size (inos ! save))) img deb) (\<lambda>(din, off, img, deb).
       Inr (inos[save := din\<lparr>di_size := xint (of_nat off)\<rparr>], img, deb)))"

definition lost_name :: "uchar list" where
  "lost_name = bytes ''lost_inodes'' @ [0, 0, 0]"

definition mov_lost_found :: "image \<Rightarrow> dinode list \<Rightarrow> nat \<Rightarrow> nat \<Rightarrow> uint \<Rightarrow> xerr + dinode list \<times> image \<times> uint" where
  "mov_lost_found img inos inum save_dir deb = iappend inos img save_dir (le16_bytes (of_nat inum) @ lost_name) deb"

definition c3_check_refs :: "nat \<Rightarrow> c3_state \<times> image \<Rightarrow> xerr + c3_state \<times> image" where
  "c3_check_refs j = (\<lambda>(st, img).
    (let x = c3_x st; ino = inodes x ! j in
     ebind (if di_type ino \<noteq> 0 \<and> inode_dir x ! j = 0 then
         ebind (mov_lost_found img (inodes x) j (lost_found_dir_inum st) (data_end_block st)) (\<lambda>(inos, img, deb).
           Inr ((set_x (x\<lparr>inodes := inos\<rparr>) st)\<lparr>data_end_block := deb,
              c3_err := c3_err st @ [''ERROR: inode marked use but not found in a directory.'']\<rparr>, img))
       else Inr (st, img)) (\<lambda>(st, img).
     let x = c3_x st; ino = inodes x ! j in
     Inr (st\<lparr>c3_err := c3_err st @
        report (inode_dir x ! j = 1 \<and> di_type ino = 0) ''ERROR: inode referred to in directory but marked free.'' @
        report (di_type ino = T_FILE \<and> 0 < sint (di_nlink ino)) ''ERROR: bad reference count for file.'' @
        report (di_type ino = T_DIR \<and> 1 < dir_links x ! j)
          ''ERROR: directory appears more than once in file system.''\<rparr>, img))))"

section \<open>\<open>main\<close>\<close>

text \<open>The arguments after the program name. With one argument \<open>argv[2]\<close> is a null pointer when the name
  of the output file is built, so that the program gets past this point only in the repair mode; the
  buffer for the name has 200 bytes.\<close>

definition c3_args :: "string list \<Rightarrow> xerr + string list" where
  "c3_args args =
    (if length args < 2 \<or> 193 \<le> length (args ! 1) then Inl Fault
     else Inr (report (length args \<noteq> 2) ''Usage: xcheck (-r) <file_system_image>'' @ report (args ! 0 \<noteq> ''-r'') ''need -r''))"

definition c3_scan :: "nat \<Rightarrow> image \<Rightarrow> string list \<Rightarrow> xerr + superblock \<times> c3_state" where
  "c3_scan d img err =
    ebind (img_read img BSIZE 28) (\<lambda>sbytes.
    let sb = superblock_of sbytes; n = unat (sb_ninodes sb);
        data_start = of_nat FSSIZE - sb_nblocks sb in
    ebind (read_inodes img sb) (\<lambda>inos.
    ebind (img_read img (blk_addr (sb_bmapstart sb)) NBMAP) (\<lambda>bmap.
    let st0 = \<lparr>c3_c1 = \<lparr>c1_x = \<lparr>inodes = inos, bmap_mark = replicate NBMAP 0, inode_dir = replicate n 0,
                                dir_links = replicate n 0\<rparr>, maps = replicate n empty_map\<rparr>,
               data_end_block = 0, lost_found_dir_inum = 0, c3_err = err\<rparr> in
    ebind (efold (c3_check_inode d img data_start bmap) [ROOTINO..<n] st0) (\<lambda>st.
    ebind (c3_bitmap_loop bmap (bmap_mark (c3_x st)) ((cdiv8 (sint data_start) + 1) * 8) (c3_err st)) (\<lambda>err.
    Inr (sb, st\<lparr>c3_err := err\<rparr>))))))"

definition xcheck_contest_3 :: "nat \<Rightarrow> string list \<Rightarrow> image \<Rightarrow> xerr + image \<times> string list" where
  "xcheck_contest_3 d args img =
    ebind (c3_args args) (\<lambda>err.
    ebind (c3_scan d img err) (\<lambda>(sb, st).
    ebind (efold c3_check_refs [ROOTINO..<unat (sb_ninodes sb)] (st, img)) (\<lambda>(st, img).
      let k = lost_found_dir_inum st; a = blk_addr (sb_inodestart sb) + 64 * k in
      if length (inodes (c3_x st)) \<le> k \<or> IMG_SIZE < a + 64 then Inl Fault
      else Inr (img_write img a (dinode_bytes (inodes (c3_x st) ! k)), c3_err st))))"

end
