(* ===== verification/Xcheck_Contest3_Correct.thy ===== *)
theory Xcheck_Contest3_Correct
  imports Xcheck_Contest3
begin

text \<open>
  What the repair of \<^verbatim>\<open>xcheck_contest_3.c\<close> does to the image: the bytes it writes, the directory entries and
  inodes read back from them, and the scan that comes before it. The last part evaluates the program
  on two small images.
\<close>

section \<open>Round trips of the bytes\<close>

lemma le16_bytes_of: "le16 (xs @ le16_bytes w @ ys) (length xs) = w"
proof -
  have "ucast (ucast w :: uchar) + 256 * ucast (ucast (drop_bit 8 w) :: uchar) = w"
  proof -
    have "ucast (ucast w :: uchar) + push_bit 8 (ucast (ucast (drop_bit 8 w) :: uchar)) =
        (ucast (ucast w :: uchar) OR push_bit 8 (ucast (ucast (drop_bit 8 w) :: uchar)) :: ushort)"
      by (rule disjunctive_add) (auto simp: bit_simps)
    also have "\<dots> = w" by (rule bit_word_eqI) (auto simp: bit_simps)
    finally show ?thesis by (simp add: push_bit_eq_mult mult.commute)
  qed
  then show ?thesis by (simp add: le16_def le16_bytes_def nth_append)
qed

lemma le32_bytes_of: "le32 (xs @ le32_bytes w @ ys) (length xs) = w"
proof -
  let ?b = "\<lambda>k. ucast (ucast (drop_bit k w) :: uchar) :: uint"
  have "?b 0 + push_bit 8 (?b 8) = ?b 0 OR push_bit 8 (?b 8)"
    by (rule disjunctive_add) (auto simp: bit_simps)
  moreover have "(?b 0 OR push_bit 8 (?b 8)) + push_bit 16 (?b 16) = (?b 0 OR push_bit 8 (?b 8)) OR push_bit 16 (?b 16)"
    by (rule disjunctive_add) (auto simp: bit_simps)
  moreover have "((?b 0 OR push_bit 8 (?b 8)) OR push_bit 16 (?b 16)) + push_bit 24 (?b 24) =
      ((?b 0 OR push_bit 8 (?b 8)) OR push_bit 16 (?b 16)) OR push_bit 24 (?b 24)"
    by (rule disjunctive_add) (auto simp: bit_simps)
  moreover have "((?b 0 OR push_bit 8 (?b 8)) OR push_bit 16 (?b 16)) OR push_bit 24 (?b 24) = w"
  proof (rule bit_word_eqI)
    fix n :: nat
    consider "n < 8" | "8 \<le> n" "n < 16" | "16 \<le> n" "n < 24" | "24 \<le> n" by linarith
    then show "bit (((?b 0 OR push_bit 8 (?b 8)) OR push_bit 16 (?b 16)) OR push_bit 24 (?b 24)) n = bit w n"
      if "n < LENGTH(32)" using that by cases (auto simp: bit_simps)
  qed
  ultimately have "?b 0 + push_bit 8 (?b 8) + push_bit 16 (?b 16) + push_bit 24 (?b 24) = w" by simp
  then have "?b 0 + 256 * ?b 8 + 65536 * ?b 16 + 16777216 * ?b 24 = w" by (simp add: push_bit_eq_mult mult.commute)
  then show ?thesis by (simp add: le32_def le32_bytes_def nth_append)
qed

lemma xint_id [simp]: "xint x = x"
  using le32_bytes_of [of "[]" x "[]"] by (simp add: xint_def)

lemma le_bytes_length [simp]: "length (le16_bytes v) = 2" "length (le32_bytes w) = 4"
  by (simp_all add: le16_bytes_def le32_bytes_def)

lemma concat_le32_length [simp]: "length (concat (map le32_bytes ws)) = 4 * length ws"
  by (induction ws) auto

lemma dinode_bytes_length: "length (di_addrs din) = 13 \<Longrightarrow> length (dinode_bytes din) = 64"
  by (simp add: dinode_bytes_def)

lemma concat_le32_split:
  "j < length ws \<Longrightarrow> concat (map le32_bytes ws) =
     concat (map le32_bytes (take j ws)) @ le32_bytes (ws ! j) @ concat (map le32_bytes (drop (Suc j) ws))"
  by (subst id_take_nth_drop [of j ws]) auto

lemma le16_at: "bs = xs @ le16_bytes w @ ys \<Longrightarrow> k = length xs \<Longrightarrow> le16 bs k = w"
  by (simp add: le16_bytes_of)

lemma le32_at: "bs = xs @ le32_bytes w @ ys \<Longrightarrow> k = length xs \<Longrightarrow> le32 bs k = w"
  by (simp add: le32_bytes_of)

lemma dinode_roundtrip:
  assumes "length (di_addrs din) = 13"
  shows "dinode_of (xs @ dinode_bytes din @ ys) (length xs) = din"
proof (rule dinode.equality)
  let ?bs = "xs @ dinode_bytes din @ ys"
  let ?h = "le16_bytes (di_type din)" and ?a = "concat (map le32_bytes (di_addrs din))"
  show "di_type (dinode_of ?bs (length xs)) = di_type din"
    by (simp add: dinode_of_def) (rule le16_at [of _ xs], auto simp: dinode_bytes_def)
  show "di_major (dinode_of ?bs (length xs)) = di_major din"
    by (simp add: dinode_of_def) (rule le16_at [of _ "xs @ ?h"], auto simp: dinode_bytes_def)
  show "di_minor (dinode_of ?bs (length xs)) = di_minor din"
    by (simp add: dinode_of_def) (rule le16_at [of _ "xs @ ?h @ le16_bytes (di_major din)"], auto simp: dinode_bytes_def)
  show "di_nlink (dinode_of ?bs (length xs)) = di_nlink din"
    by (simp add: dinode_of_def)
      (rule le16_at [of _ "xs @ ?h @ le16_bytes (di_major din) @ le16_bytes (di_minor din)"], auto simp: dinode_bytes_def)
  show "di_size (dinode_of ?bs (length xs)) = di_size din"
    by (simp add: dinode_of_def)
      (rule le32_at [of _ "xs @ ?h @ le16_bytes (di_major din) @ le16_bytes (di_minor din) @ le16_bytes (di_nlink din)"],
       auto simp: dinode_bytes_def)
  show "di_addrs (dinode_of ?bs (length xs)) = di_addrs din"
  proof (rule nth_equalityI)
    show "length (di_addrs (dinode_of ?bs (length xs))) = length (di_addrs din)"
      using assms by (simp add: dinode_of_def NDIRECT_def)
    fix j assume "j < length (di_addrs (dinode_of ?bs (length xs)))"
    then have j: "j < 13" by (simp add: dinode_of_def NDIRECT_def)
    let ?front = "xs @ ?h @ le16_bytes (di_major din) @ le16_bytes (di_minor din) @ le16_bytes (di_nlink din) @
      le32_bytes (di_size din) @ concat (map le32_bytes (take j (di_addrs din)))"
    have "le32 ?bs (length xs + 12 + 4 * j) = di_addrs din ! j"
    proof (rule le32_at)
      show "?bs = ?front @ le32_bytes (di_addrs din ! j) @ concat (map le32_bytes (drop (Suc j) (di_addrs din))) @ ys"
        using j assms by (simp add: dinode_bytes_def concat_le32_split [of j "di_addrs din"])
      show "length xs + 12 + 4 * j = length ?front" using j assms by simp
    qed
    then show "di_addrs (dinode_of ?bs (length xs)) ! j = di_addrs din ! j"
      using j by (simp add: dinode_of_def NDIRECT_def del: upt_Suc)
  qed
qed simp

text \<open>Reading back what has been written.\<close>

lemma img_write_inside: "map (img_write img a bs) [a..<a + length bs] = bs"
  by (rule nth_equalityI) (auto simp: img_write_def)

lemma img_write_outside: "a + n \<le> b \<or> b + length bs \<le> a \<Longrightarrow> map (img_write img b bs) [a..<a + n] = map img [a..<a + n]"
  by (auto simp: img_write_def)

lemma dinode_read_write:
  assumes "length (di_addrs din) = 13" "k < n"
  shows "dinode_of (map (img_write img (a + 64 * k) (dinode_bytes din)) [a..<a + 64 * n]) (64 * k) = din"
proof -
  let ?img = "img_write img (a + 64 * k) (dinode_bytes din)"
  note len = dinode_bytes_length [OF assms(1)]
  have "[a..<a + 64 * n] = [a..<a + 64 * k] @ [a + 64 * k..<a + 64 * k + 64] @ [a + 64 * k + 64..<a + 64 * n]"
    using assms(2) upt_add_eq_append [of a "a + 64 * k" "64 * (n - k)"] upt_add_eq_append [of "a + 64 * k" "a + 64 * k + 64" "64 * (n - k) - 64"]
    by (simp add: algebra_simps)
  then have "map ?img [a..<a + 64 * n] =
      map ?img [a..<a + 64 * k] @ dinode_bytes din @ map ?img [a + 64 * k + 64..<a + 64 * n]"
    using img_write_inside [of img "a + 64 * k" "dinode_bytes din"] by (simp add: len)
  then show ?thesis using dinode_roundtrip [OF assms(1), of "map ?img [a..<a + 64 * k]"] by simp
qed

section \<open>Appending within a block\<close>

lemma img_write_append: "img_write (img_write img a xs) (a + length xs) ys = img_write img a (xs @ ys)"
  by (rule ext) (auto simp: img_write_def nth_append)

lemma img_write_nil [simp]: "img_write img a [] = img"
  by (rule ext) (auto simp: img_write_def)

lemma img_write_patch:
  assumes "k + length bs \<le> n"
  shows "img_write img a (patch (map img [a..<a + n]) k bs) = img_write img (a + k) bs"
  using assms by (intro ext) (auto simp: img_write_def patch_def nth_append)

lemma iappend_from_block:
  assumes k: "k < length inos" and sz: "unat (di_size (inos ! k)) + length p \<le> 512" "p \<noteq> []"
    and block: "iappend_block (inos ! k) 0 img deb = Inr (b, din, img, deb')" and b: "b < 1000"
  shows "iappend inos img k p deb =
    Inr (inos[k := din\<lparr>di_size := of_nat (unat (di_size (inos ! k)) + length p)\<rparr>],
         img_write img (512 * unat b + unat (di_size (inos ! k))) p, deb')"
proof -
  let ?sz = "unat (di_size (inos ! k))"
  have fbn: "?sz div BSIZE = 0" and n1: "min (length p) (512 - ?sz) = length p"
    using sz by (cases p; auto simp: BSIZE_def)+
  note blk = blk_addr_small [OF b]
  have read: "rsect img b BSIZE = Inr (map img [blk_addr b..<blk_addr b + 512])"
    using blk by (simp add: rsect_def img_read_def BSIZE_def)
  have len: "length (patch (map img [blk_addr b..<blk_addr b + 512]) ?sz p) = 512"
    using sz by (simp add: patch_def)
  have wr: "wsect img (patch (map img [blk_addr b..<blk_addr b + 512]) ?sz p) b =
      Inr (img_write img (512 * unat b + ?sz) p)"
    unfolding wsect_def len using blk sz img_write_patch [of ?sz p 512 img "blk_addr b"] by simp
  have "iappend_loop p (inos ! k) ?sz img deb = Inr (din, ?sz + length p, img_write img (512 * unat b + ?sz) p, deb')"
    using sz(2) wr n1 block read [unfolded BSIZE_def] fbn [unfolded BSIZE_def]
    by (simp add: iappend_loop.simps [of p] iappend_loop.simps [of "[]"] BSIZE_def NDIRECT_def Let_def)
  then show ?thesis using k by (simp add: iappend_def)
qed

lemma iappend_in_block:
  assumes "k < length inos" "unat (di_size (inos ! k)) + length p \<le> 512" "p \<noteq> []"
    and b: "b = di_addrs (inos ! k) ! 0" "b \<noteq> 0" "b < 1000"
  shows "iappend inos img k p deb =
    Inr (inos[k := (inos ! k)\<lparr>di_size := of_nat (unat (di_size (inos ! k)) + length p)\<rparr>],
         img_write img (512 * unat b + unat (di_size (inos ! k))) p, deb)"
proof -
  have "iappend_block (inos ! k) 0 img deb = Inr (b, inos ! k, img, deb)"
    using b by (simp add: iappend_block_def NDIRECT_def)
  from iappend_from_block [OF assms(1-3) this b(3)] show ?thesis .
qed

section \<open>The loop that repairs\<close>

definition lost :: "xstate \<Rightarrow> nat \<Rightarrow> bool" where
  "lost x j \<longleftrightarrow> di_type (inodes x ! j) \<noteq> 0 \<and> inode_dir x ! j = 0"

definition lost_entry :: "nat \<Rightarrow> uchar list" where
  "lost_entry j = le16_bytes (of_nat j) @ lost_name"

lemma lost_entry_length [simp]: "length (lost_entry j) = 16"
  by (simp add: lost_entry_def lost_name_def bytes_def)

lemma lost_entries_length [simp]: "length (concat (map lost_entry js)) = 16 * length js"
  by (induction js) auto

definition grow :: "nat \<Rightarrow> nat \<Rightarrow> dinode list \<Rightarrow> dinode list" where
  "grow k m inos = inos[k := (inos ! k)\<lparr>di_size := of_nat (unat (di_size (inos ! k)) + m)\<rparr>]"

lemma grow_0 [simp]: "grow k 0 inos = inos"
  by (simp add: grow_def)

lemma grow_grow:
  assumes "k < length inos" "unat (di_size (inos ! k)) + m \<le> 512"
  shows "grow k m' (grow k m inos) = grow k (m + m') inos" "unat (di_size (grow k m inos ! k)) = unat (di_size (inos ! k)) + m"
proof -
  have "unat (of_nat (unat (di_size (inos ! k)) + m) :: uint) = unat (di_size (inos ! k)) + m"
    using assms(2) by (simp add: unat_of_nat take_bit_nat_eq_self del: of_nat_add)
  then show "grow k m' (grow k m inos) = grow k (m + m') inos" "unat (di_size (grow k m inos ! k)) = unat (di_size (inos ! k)) + m"
    using assms(1) by (simp_all add: grow_def add.assoc del: of_nat_add)
qed

text \<open>One inode.\<close>

lemma c3_check_refs_step:
  assumes k: "k = lost_found_dir_inum st" "k < length (inodes (c3_x st))"
    and sz: "unat (di_size (inodes (c3_x st) ! k)) + 16 * (if lost (c3_x st) j then 1 else 0) \<le> 512"
    and b: "b = di_addrs (inodes (c3_x st) ! k) ! 0" "b \<noteq> 0" "b < 1000"
  defines "m \<equiv> (if lost (c3_x st) j then 16 else 0)"
  shows "\<exists>st'. c3_check_refs j (st, img) = Inr (st',
       img_write img (512 * unat b + unat (di_size (inodes (c3_x st) ! k))) (if lost (c3_x st) j then lost_entry j else [])) \<and>
     lost_found_dir_inum st' = k \<and> c3_x st' = (c3_x st)\<lparr>inodes := grow k m (inodes (c3_x st))\<rparr>"
proof (cases "lost (c3_x st) j")
  case True
  have "lost_entry j \<noteq> []" by (simp add: lost_entry_def le16_bytes_def)
  moreover have "unat (di_size (inodes (c3_x st) ! k)) + length (lost_entry j) \<le> 512" using sz True by simp
  ultimately have "mov_lost_found img (inodes (c3_x st)) j k (data_end_block st) =
    Inr (grow k 16 (inodes (c3_x st)), img_write img (512 * unat b + unat (di_size (inodes (c3_x st) ! k))) (lost_entry j),
      data_end_block st)"
    using iappend_in_block [OF k(2) _ _ b] by (simp add: mov_lost_found_def grow_def flip: lost_entry_def)
  with True k(1) show ?thesis
    by (simp add: c3_check_refs_def) (simp add: lost_def m_def set_x_def Let_def)
next
  case False
  then show ?thesis
    by (auto simp: c3_check_refs_def m_def lost_def Let_def k(1))
qed

lemma c3_refs_loop:
  assumes "k = lost_found_dir_inum st" "k < length (inodes (c3_x st))"
    and "unat (di_size (inodes (c3_x st) ! k)) + 16 * length (filter (lost (c3_x st)) js) \<le> 512"
    and "b = di_addrs (inodes (c3_x st) ! k) ! 0" "b \<noteq> 0" "b < 1000"
  shows "\<exists>st'. efold c3_check_refs js (st, img) = Inr (st',
       img_write img (512 * unat b + unat (di_size (inodes (c3_x st) ! k)))
         (concat (map lost_entry (filter (lost (c3_x st)) js)))) \<and>
     lost_found_dir_inum st' = k \<and>
     c3_x st' = (c3_x st)\<lparr>inodes := grow k (16 * length (filter (lost (c3_x st)) js)) (inodes (c3_x st))\<rparr>"
  using assms
proof (induction js arbitrary: st img)
  case (Cons j js)
  let ?x = "c3_x st"
  let ?m = "if lost ?x j then 16 else 0 :: nat"
  let ?e = "if lost ?x j then lost_entry j else []"
  obtain st1 where st1: "c3_check_refs j (st, img) = Inr (st1, img_write img (512 * unat b + unat (di_size (inodes ?x ! k))) ?e)"
    "lost_found_dir_inum st1 = k" "c3_x st1 = ?x\<lparr>inodes := grow k ?m (inodes ?x)\<rparr>"
    using c3_check_refs_step [OF Cons.prems(1,2) _ Cons.prems(4-6), of j img] Cons.prems(3) by (auto split: if_splits)
  have len: "length ?e = ?m" by simp
  have m: "unat (di_size (inodes ?x ! k)) + ?m \<le> 512" using Cons.prems(3) by (auto split: if_splits)
  note gg = grow_grow [OF Cons.prems(2) m]
  have same: "lost (c3_x st1) i = lost ?x i" for i
    using st1(3) Cons.prems(2) by (cases "i = k") (auto simp: lost_def grow_def)
  then have flt: "filter (lost (c3_x st1)) js = filter (lost ?x) js" by (rule filter_cong [OF refl])
  have "\<exists>st'. efold c3_check_refs js (st1, img_write img (512 * unat b + unat (di_size (inodes ?x ! k))) ?e) = Inr (st',
       img_write (img_write img (512 * unat b + unat (di_size (inodes ?x ! k))) ?e)
         (512 * unat b + unat (di_size (inodes (c3_x st1) ! k)))
         (concat (map lost_entry (filter (lost (c3_x st1)) js)))) \<and>
     lost_found_dir_inum st' = k \<and>
     c3_x st' = (c3_x st1)\<lparr>inodes := grow k (16 * length (filter (lost (c3_x st1)) js)) (inodes (c3_x st1))\<rparr>"
    using Cons.prems st1(2,3) gg(2) flt
    by (intro Cons.IH) (auto simp: grow_def split: if_splits)
  then show ?case
    using st1 gg img_write_append [of img "512 * unat b + unat (di_size (inodes ?x ! k))" ?e]
    unfolding flt len by (auto simp: add.assoc split: if_splits)
qed simp

section \<open>The scan\<close>

text \<open>The scan changes only link counts of files, and marks only inodes to which a directory refers.\<close>

definition c3_inv :: "image \<Rightarrow> xstate \<Rightarrow> bool" where
  "c3_inv img x \<longleftrightarrow> length (inodes x) = img_n img \<and> length (inode_dir x) = img_n img \<and>
     same_inodes (img_inodes img) x \<and>
     (\<forall>j < img_n img. img_type img j \<noteq> T_FILE \<longrightarrow> inodes x ! j = img_inodes img ! j) \<and>
     (\<forall>j < img_n img. inode_dir x ! j \<noteq> 0 \<longrightarrow> j \<in> snd ` set (img_refs img))"

lemma c3_inv_mark [simp]: "c3_inv img (x\<lparr>bmap_mark := m\<rparr>) = c3_inv img x"
  by (simp add: c3_inv_def)

lemma c3_inv_ref:
  assumes "c3_inv img x" "(i, k) \<in> set (img_refs img)" "k < img_n img"
  shows "c3_inv img (apply_ref (i, k) x)"
proof -
  have ty: "di_type (inodes x ! k) = img_type img k"
    using assms(1,3) by (intro nlink_irrelevant) (simp add: c3_inv_def same_inodes_def)
  have "same_inodes (img_inodes img) (apply_ref (i, k) x)"
    using assms(1) by (intro same_inodes_apply_ref) (simp add: c3_inv_def)
  moreover have "inode_dir (apply_ref (i, k) x) = (inode_dir x)[k := 1]" by (simp add: apply_ref_def Let_def)
  moreover have "j < img_n img \<Longrightarrow> img_type img j \<noteq> T_FILE \<Longrightarrow> inodes (apply_ref (i, k) x) ! j = inodes x ! j" for j
    using ty by (cases "j = k") (auto simp: apply_ref_def Let_def)
  moreover have "k \<in> snd ` set (img_refs img)" using assms(2) by force
  ultimately show ?thesis
    using assms(1,3) by (auto simp: c3_inv_def nth_update split: if_splits)
qed

lemma c3_check_address_x:
  "c3_check_address a dir ds bm st = Inr st' \<Longrightarrow> (\<exists>m. c3_x st' = (c3_x st)\<lparr>bmap_mark := m\<rparr>)"
  by (auto simp: c3_check_address_def set_x_def Let_def split: if_splits intro: exI [of _ "bmap_mark (c3_x st)"])

lemma c3_check_address_inv:
  "c3_check_address a dir ds bm st = Inr st' \<Longrightarrow> c3_inv img (c3_x st') = c3_inv img (c3_x st)"
  using c3_check_address_x by fastforce

lemma c3_check_addrs_inv:
  assumes "c3_check_addrs img ds bm inode st = Inr st'" "c3_inv img' (c3_x st)"
  shows "c3_inv img' (c3_x st')"
proof (rule efold_invariant [OF assms(1) [unfolded c3_check_addrs_def], where P = "\<lambda>st. c3_inv img' (c3_x st)"])
  show "c3_inv img' (c3_x st)" by (rule assms(2))
  fix j s t
  assume inv: "c3_inv img' (c3_x s)" and run: "(if j < NDIRECT then c3_check_address (di_addrs inode ! j) True ds bm s
      else ebind (c3_check_address (di_addrs inode ! NDIRECT) False ds bm s)
          (\<lambda>st. ebind (img_read img (blk_addr (di_addrs inode ! NDIRECT)) (4 * NINDIRECT))
            (\<lambda>indirect. efold (\<lambda>k st. c3_check_address (le32 indirect (4 * k)) False ds bm st)
                [0..<NINDIRECT] st))) = Inr t"
  show "c3_inv img' (c3_x t)"
  proof (cases "j < NDIRECT")
    case True
    with run inv show ?thesis using c3_check_address_inv by auto
  next
    case False
    with run obtain u bs where u: "c3_check_address (di_addrs inode ! NDIRECT) False ds bm s = Inr u"
      "efold (\<lambda>k st. c3_check_address (le32 bs (4 * k)) False ds bm st) [0..<NINDIRECT] u = Inr t"
      by (auto simp: ebind_eq_Inr simp del: upt_Suc)
    show ?thesis
      by (rule efold_invariant [OF u(2), where P = "\<lambda>st. c3_inv img' (c3_x st)"])
        (use c3_check_address_inv inv u(1) in auto)
  qed
qed

lemma c1_note_x: "c1_note i de c1 = Inr c1' \<Longrightarrow> note_entry i de (c1_x c1) = Inr (c1_x c1')"
  by (auto simp: c1_note_def ebind_eq_Inr Let_def split: if_splits)

lemma c3_entry_inv:
  assumes "c3_entry d img i de st = Inr st'" "c3_inv img (c3_x st)"
    and "i \<in> {ROOTINO..<img_n img}" "img_type img i = T_DIR" "de \<in> set (img_entries img i)"
  shows "c3_inv img (c3_x st')"
proof -
  from assms(1) obtain c1 where "c1_note i de (c3_c1 st) = Inr c1" "c3_c1 st' = c1"
    by (auto simp: c3_entry_def ebind_eq_Inr Let_def)
  then have "note_entry i de (c3_x st) = Inr (c3_x st')" using c1_note_x by blast
  then have x: "unat (de_inum de) < img_n img" "c3_x st' = apply_ref (i, unat (de_inum de)) (c3_x st)"
    using assms(2) by (auto simp: note_entry_Inr c3_inv_def)
  moreover have "(i, unat (de_inum de)) \<in> set (img_refs img)"
    using assms(3-5) by (auto simp: img_refs_def inode_refs_def entry_refs_def)
  ultimately show ?thesis using assms(2) by (simp add: c3_inv_ref)
qed

lemma c3_check_inode_inv:
  assumes run: "c3_check_inode d img ds bm i st = Inr st'" and inv: "c3_inv img (c3_x st)" and i: "i \<in> {ROOTINO..<img_n img}"
  shows "c3_inv img (c3_x st')"
proof -
  let ?ino = "inodes (c3_x st) ! i"
  have eq: "?ino\<lparr>di_nlink := 0\<rparr> = (img_inodes img ! i)\<lparr>di_nlink := 0\<rparr>"
    using inv i by (simp add: c3_inv_def same_inodes_def)
  note irr = nlink_irrelevant [OF eq]
  have ents: "dir_entries img ?ino = img_entries img i" using irr(2,3) by (simp add: dir_entries_def)
  from run obtain st1 where st1: "(if di_type ?ino \<noteq> 0 then c3_check_addrs img ds bm ?ino
        (st\<lparr>c3_err := c3_err st @ c3_check_inode_type (di_type ?ino)\<rparr>)
      else Inr (st\<lparr>c3_err := c3_err st @ c3_check_inode_type (di_type ?ino)\<rparr>)) = Inr st1"
    "(if di_type ?ino = T_DIR then c3_check_dir d img i ?ino st1 else Inr st1) = Inr st'"
    by (auto simp: c3_check_inode_def Let_def ebind_eq_Inr)
  have inv1: "c3_inv img (c3_x st1)"
    using st1(1) inv c3_check_addrs_inv [of img ds bm ?ino _ st1 img] by (auto split: if_splits)
  show ?thesis
  proof (cases "di_type ?ino = T_DIR")
    case True
    with st1(2) obtain acc st2 where
      loop: "dir_loop (c3_entry d img i) img i ?ino 0 \<lparr>count_dots = 0, root_exist = False, dir_error = False\<rparr> st1 = Inr (acc, st2)"
      and st': "c3_x st' = c3_x st2"
      by (auto simp: c3_check_dir_def ebind_eq_Inr)
    have "c3_inv img (c3_x st2)"
      by (rule dir_loop_keeps0 [where P = "\<lambda>st. c3_inv img (c3_x st)", OF _ loop inv1])
        (use c3_entry_inv i True irr(1) ents in auto)
    with st' show ?thesis by simp
  next
    case False
    with st1(2) inv1 show ?thesis by simp
  qed
qed

abbreviation c3_start :: "image \<Rightarrow> string list \<Rightarrow> c3_state" where
  "c3_start img err \<equiv> \<lparr>c3_c1 = c1_start img, data_end_block = 0, lost_found_dir_inum = 0, c3_err = err\<rparr>"

lemma c3_scan_run:
  assumes "c3_scan d img err = Inr (sb, st)"
  obtains st1 where "sb = img_sb img" "tables_inside img"
    "efold (c3_check_inode d img (img_data_start img) (img_bmap img)) [ROOTINO..<img_n img] (c3_start img err) = Inr st1"
    "c3_x st = c3_x st1" "data_end_block st = data_end_block st1"
proof -
  have "sb = img_sb img \<and> tables_inside img \<and>
    (\<exists>st1. efold (c3_check_inode d img (img_data_start img) (img_bmap img)) [ROOTINO..<img_n img] (c3_start img err) = Inr st1 \<and>
    c3_x st = c3_x st1 \<and> data_end_block st = data_end_block st1)"
    using assms
    unfolding c3_scan_def img_tables_read ebind_Inr img_sb_def [symmetric] Let_def img_n_def [symmetric] tables_inside_def
    by (auto simp: st_start_def img_tables_read ebind_eq_Inr split: if_splits)
  with that show ?thesis by blast
qed

lemma c3_scan_inv:
  assumes "c3_scan d img err = Inr (sb, st)"
  shows "sb = img_sb img" "tables_inside img" "c3_inv img (c3_x st)"
proof -
  obtain st1 where scan: "sb = img_sb img" "tables_inside img" "c3_x st = c3_x st1"
    and st1: "efold (c3_check_inode d img (img_data_start img) (img_bmap img)) [ROOTINO..<img_n img] (c3_start img err) = Inr st1"
    using c3_scan_run [OF assms] by blast
  have "c3_inv img (c3_x st1)"
    by (rule efold_invariant [OF st1, where P = "\<lambda>st. c3_inv img (c3_x st)"])
      (use c3_check_inode_inv in \<open>auto simp: c3_inv_def same_inodes_def st_start_def\<close>)
  with scan show "sb = img_sb img" "tables_inside img" "c3_inv img (c3_x st)" by simp_all
qed

section \<open>The repaired image\<close>

text \<open>There is room for \<open>m\<close> entries in the first block of directory \<open>k\<close>, and that block and the inode table
  overlap neither each other nor the superblock or the first block of another directory.\<close>

abbreviation img_table :: "image \<Rightarrow> nat" where
  "img_table img \<equiv> blk_addr (sb_inodestart (img_sb img))"

definition repairable :: "image \<Rightarrow> nat \<Rightarrow> nat \<Rightarrow> bool" where
  "repairable img k m \<longleftrightarrow> (let b = di_addrs (img_inodes img ! k) ! 0; sz = unat (di_size (img_inodes img ! k)) in
     k \<in> {ROOTINO..<img_n img} \<and> img_type img k = T_DIR \<and> 540 \<le> img_table img \<and>
     2 \<le> b \<and> b < 1000 \<and> 16 dvd sz \<and> sz + 16 * m \<le> 512 \<and>
     (\<forall>i \<in> {ROOTINO..<img_n img}. img_type img i = T_DIR \<longrightarrow>
        (let a = blk_addr (di_addrs (img_inodes img ! i) ! 0) in
         unat (di_size (img_inodes img ! i)) \<le> 512 \<and>
         (a + 512 \<le> img_table img \<or> img_table img + 64 * img_n img \<le> a) \<and>
         (i \<noteq> k \<longrightarrow> a + 512 \<le> 512 * unat b \<or> 512 * unat b + 512 \<le> a))))"

definition repaired :: "image \<Rightarrow> nat \<Rightarrow> nat list \<Rightarrow> image" where
  "repaired img k L = (let din = img_inodes img ! k; sz = unat (di_size din) in
     img_write (img_write img (512 * unat (di_addrs din ! 0) + sz) (concat (map lost_entry L)))
       (img_table img + 64 * k) (dinode_bytes (din\<lparr>di_size := of_nat (sz + 16 * length L)\<rparr>)))"

lemma img_addrs_length: "j < img_n img \<Longrightarrow> length (di_addrs (img_inodes img ! j)) = 13"
  by (simp add: img_inodes_def dinode_of_def NDIRECT_def Let_def)

lemma dinode_of_cong:
  assumes "\<And>i. i < 64 \<Longrightarrow> bs ! (k + i) = cs ! (k + i)"
  shows "dinode_of bs k = dinode_of cs k"
proof -
  have "le16 bs (k + i) = le16 cs (k + i)" if "i < 63" for i
    using assms [of i] assms [of "i + 1"] that by (simp add: le16_def)
  note h = this [of 0] this [of 2] this [of 4] this [of 6]
  have w: "le32 bs (k + i) = le32 cs (k + i)" if "i < 61" for i
    using assms [of i] assms [of "i + 1"] assms [of "i + 2"] assms [of "i + 3"] that by (simp add: le32_def add.assoc)
  have "le32 bs (k + 12 + 4 * j) = le32 cs (k + 12 + 4 * j)" if "j < 13" for j
    using w [of "12 + 4 * j"] that by (simp add: add.assoc [symmetric])
  with h w [of 8] show ?thesis by (auto simp: dinode_of_def NDIRECT_def simp del: upt_Suc)
qed

lemma repaired_bytes:
  assumes "k < img_n img"
    and "\<not> (img_table img + 64 * k \<le> a \<and> a < img_table img + 64 * k + 64)"
    and "\<not> (512 * unat (di_addrs (img_inodes img ! k) ! 0) + unat (di_size (img_inodes img ! k)) \<le> a \<and>
        a < 512 * unat (di_addrs (img_inodes img ! k) ! 0) + unat (di_size (img_inodes img ! k)) + 16 * length L)"
  shows "repaired img k L a = img a"
  using assms(2,3) img_addrs_length [OF assms(1)]
  by (auto simp: repaired_def img_write_def dinode_bytes_length Let_def)

lemma repaired_sb:
  assumes "repairable img k (length L)"
  shows "img_sb (repaired img k L) = img_sb img"
proof -
  let ?b = "di_addrs (img_inodes img ! k) ! 0"
  have "2 \<le> unat ?b" using assms by (simp add: repairable_def Let_def word_le_nat_alt)
  then have "repaired img k L a = img a" if "a < 540" for a
    using assms that by (intro repaired_bytes) (auto simp: repairable_def Let_def)
  then show ?thesis by (auto simp: img_sb_def BSIZE_def simp del: upt_rec_numeral intro!: arg_cong [where f = superblock_of])
qed

lemma repaired_n: "repairable img k (length L) \<Longrightarrow> img_n (repaired img k L) = img_n img"
  by (simp add: img_n_def repaired_sb)

lemma repaired_inodes:
  assumes rep: "repairable img k (length L)" and j: "j < img_n img"
  shows "img_inodes (repaired img k L) ! j =
    (if j = k then (img_inodes img ! k)\<lparr>di_size := of_nat (unat (di_size (img_inodes img ! k)) + 16 * length L)\<rparr>
     else img_inodes img ! j)"
proof -
  let ?img = "repaired img k L" and ?t = "img_table img" and ?n = "img_n img" and ?din = "img_inodes img ! k"
  have k: "k < ?n" using rep by (simp add: repairable_def Let_def)
  have nth: "img_inodes i ! j = dinode_of (map i [?t..<?t + 64 * ?n]) (64 * j)" if "img_sb i = img_sb img" for i
    using j that by (simp add: img_inodes_def img_n_def Let_def)
  show ?thesis
  proof (cases "j = k")
    case True
    have "dinode_of (map ?img [?t..<?t + 64 * ?n]) (64 * k) =
        ?din\<lparr>di_size := of_nat (unat (di_size ?din) + 16 * length L)\<rparr>"
      unfolding repaired_def Let_def using img_addrs_length [OF k] k by (intro dinode_read_write) simp_all
    with True nth [OF repaired_sb [OF rep]] show ?thesis by simp
  next
    case False
    let ?b = "512 * unat (di_addrs ?din ! 0)"
    have apart: "?b + 512 \<le> ?t \<or> ?t + 64 * ?n \<le> ?b" "unat (di_size ?din) + 16 * length L \<le> 512"
      using rep blk_addr_small(1) [of "di_addrs ?din ! 0"] by (auto simp: repairable_def Let_def)
    have "dinode_of (map ?img [?t..<?t + 64 * ?n]) (64 * j) = dinode_of (map img [?t..<?t + 64 * ?n]) (64 * j)"
    proof (rule dinode_of_cong)
      fix i :: nat assume i: "i < 64"
      have lt: "64 * j + i < 64 * ?n" using i j by linarith
      have "64 * j + i < 64 * k \<or> 64 * k + 64 \<le> 64 * j + i" using False i by linarith
      then have "?img (?t + (64 * j + i)) = img (?t + (64 * j + i))"
        using lt apart by (intro repaired_bytes [OF k]) auto
      with lt show "map ?img [?t..<?t + 64 * ?n] ! (64 * j + i) = map img [?t..<?t + 64 * ?n] ! (64 * j + i)" by simp
    qed
    with False nth [OF repaired_sb [OF rep]] nth [OF refl] show ?thesis by simp
  qed
qed

text \<open>The directory afterwards, and the other directories.\<close>

lemma lost_entry_dirent: "dirent_of (lost_entry j) = \<lparr>de_inum = of_nat j, de_name = lost_name\<rparr>"
proof -
  have "le16 (lost_entry j) 0 = of_nat j" by (rule le16_at [of _ "[]"]) (simp_all add: lost_entry_def)
  then show ?thesis by (simp add: dirent_of_def lost_entry_def le16_bytes_def)
qed

lemma concat_lost_slice:
  "r < length L \<Longrightarrow> take 16 (drop (16 * r) (concat (map lost_entry L))) = lost_entry (L ! r)"
proof (induction L arbitrary: r)
  case (Cons j L)
  then show ?case by (cases r) (simp_all add: mult_Suc_right)
qed simp

lemma img_write_slice:
  assumes "k + m \<le> length bs"
  shows "map (img_write img a bs) [a + k..<a + k + m] = take m (drop k bs)"
  using assms by (intro nth_equalityI) (auto simp: img_write_def)

lemma repaired_entries:
  assumes rep: "repairable img k (length L)"
  shows "img_entries (repaired img k L) k = img_entries img k @ map (\<lambda>j. \<lparr>de_inum = of_nat j, de_name = lost_name\<rparr>) L"
proof -
  let ?img = "repaired img k L" and ?din = "img_inodes img ! k" and ?t = "img_table img"
  let ?b = "512 * unat (di_addrs ?din ! 0)" and ?sz = "unat (di_size ?din)" and ?m = "length L"
  let ?img1 = "img_write img (?b + ?sz) (concat (map lost_entry L))"
  have k: "k < img_n img" and dvd: "16 dvd ?sz" and room: "?sz + 16 * ?m \<le> 512"
    and blk: "blk_addr (di_addrs ?din ! 0) = ?b" and apart: "?b + 512 \<le> ?t \<or> ?t + 64 * img_n img \<le> ?b"
    using rep blk_addr_small(1) [of "di_addrs ?din ! 0"] by (auto simp: repairable_def Let_def)
  obtain q where q: "?sz = 16 * q" using dvd by blast
  have sz': "unat (of_nat (?sz + 16 * ?m) :: uint) = ?sz + 16 * ?m"
    using room by (simp add: unat_of_nat take_bit_nat_eq_self del: of_nat_add)
  have cnt: "(?sz + 15) div 16 = q" "(?sz + 16 * ?m + 15) div 16 = q + ?m" using q by auto
  define ent where "ent i r = dirent_of (map i [?b + 16 * r..<?b + 16 * r + 16])" for i r
  have old: "img_entries img k = map (ent img) [0..<q]"
    by (simp add: dir_entries_def blk cnt ent_def Let_def)
  have "di_addrs (img_inodes ?img ! k) = di_addrs ?din" "di_size (img_inodes ?img ! k) = of_nat (?sz + 16 * ?m)"
    using repaired_inodes [OF rep k] by simp_all
  then have new: "img_entries ?img k = map (ent ?img) [0..<q + ?m]"
    by (simp add: dir_entries_def blk cnt(2) sz' ent_def Let_def del: of_nat_add)
  have low: "ent ?img r = ent img r" if "r < q" for r
  proof -
    have "?img a = img a" if "a \<in> set [?b + 16 * r..<?b + 16 * r + 16]" for a
      using that \<open>r < q\<close> room q apart k by (intro repaired_bytes [OF k]) auto
    then show ?thesis unfolding ent_def by (intro arg_cong [where f = dirent_of]) simp
  qed
  have high: "ent ?img (q + r) = \<lparr>de_inum = of_nat (L ! r), de_name = lost_name\<rparr>" if "r < ?m" for r
  proof -
    have "?img a = ?img1 a" if "a \<in> set [?b + 16 * (q + r)..<?b + 16 * (q + r) + 16]" for a
      using that \<open>r < ?m\<close> room q apart k img_addrs_length [OF k]
      by (auto simp: repaired_def Let_def img_write_def [of "img_write _ _ _"] dinode_bytes_length)
    then have "map ?img [?b + 16 * (q + r)..<?b + 16 * (q + r) + 16] = map ?img1 [?b + 16 * (q + r)..<?b + 16 * (q + r) + 16]"
      by simp
    also have "\<dots> = lost_entry (L ! r)"
      using img_write_slice [of "16 * r" 16 "concat (map lost_entry L)" img "?b + ?sz"] that q concat_lost_slice [OF that]
      by (simp add: algebra_simps)
    finally show ?thesis by (simp add: ent_def lost_entry_dirent)
  qed
  have "[0..<q + ?m] = [0..<q] @ map ((+) q) [0..<?m]"
    by (rule nth_equalityI) (auto simp: nth_append)
  then have "img_entries ?img k = map (ent ?img) [0..<q] @ map (\<lambda>r. ent ?img (q + r)) [0..<?m]" unfolding new by simp
  also have "\<dots> = map (ent img) [0..<q] @ map (\<lambda>r. \<lparr>de_inum = of_nat (L ! r), de_name = lost_name\<rparr>) [0..<?m]"
    using low high by simp
  also have "map (\<lambda>r. \<lparr>de_inum = of_nat (L ! r), de_name = lost_name\<rparr>) [0..<?m] = map (\<lambda>j. \<lparr>de_inum = of_nat j, de_name = lost_name\<rparr>) L"
    by (rule nth_equalityI) auto
  finally show ?thesis unfolding old .
qed

lemma repaired_other_entries:
  assumes rep: "repairable img k (length L)" and i: "i \<in> {ROOTINO..<img_n img}" "img_type img i = T_DIR" "i \<noteq> k"
  shows "img_entries (repaired img k L) i = img_entries img i"
proof -
  let ?img = "repaired img k L" and ?din = "img_inodes img ! k" and ?t = "img_table img"
  let ?b = "512 * unat (di_addrs ?din ! 0)" and ?ino = "img_inodes img ! i"
  let ?a = "blk_addr (di_addrs ?ino ! 0)"
  have k: "k < img_n img" and room: "unat (di_size ?din) + 16 * length L \<le> 512" and sz: "unat (di_size ?ino) \<le> 512"
    and apart: "?a + 512 \<le> ?t \<or> ?t + 64 * img_n img \<le> ?a" "?a + 512 \<le> ?b \<or> ?b + 512 \<le> ?a"
    using rep i by (auto simp: repairable_def Let_def)
  have "?img a = img a" if "?a \<le> a" "a < ?a + 512" for a
    using that apart room k by (intro repaired_bytes [OF k]) auto
  moreover have "16 * r + 16 \<le> 512" if "r < (unat (di_size ?ino) + 15) div 16" for r
  proof -
    from that have "16 * r < unat (di_size ?ino)" by (simp add: entry_index)
    with sz have "r < 32" by linarith
    then show ?thesis by simp
  qed
  ultimately have "dirent_of (map ?img [?a + 16 * r..<?a + 16 * r + 16]) = dirent_of (map img [?a + 16 * r..<?a + 16 * r + 16])"
    if "r < (unat (di_size ?ino) + 15) div 16" for r
    using that by (intro arg_cong [where f = dirent_of]) fastforce
  moreover have "img_inodes ?img ! i = ?ino" using repaired_inodes [OF rep] i by simp
  ultimately show ?thesis by (simp add: dir_entries_def Let_def)
qed

lemma img_n_bound: "tables_inside img \<Longrightarrow> img_n img \<le> 8000"
  by (simp add: tables_inside_def fs_consts)

text \<open>Every inode in use has an entry in the repaired image.\<close>

lemma repaired_no_lost:
  assumes rep: "repairable img k (length L)" and n: "img_n img \<le> 8000"
    and ref: "\<And>j. j \<in> {ROOTINO..<img_n img} \<Longrightarrow> img_type img j \<noteq> 0 \<Longrightarrow> j \<in> set L \<or> j \<in> snd ` set (img_refs img)"
    and j: "j \<in> {ROOTINO..<img_n img}" "img_type (repaired img k L) j \<noteq> 0"
  shows "j \<in> snd ` set (img_refs (repaired img k L))"
proof -
  let ?img = "repaired img k L"
  have ty: "img_type ?img i = img_type img i" if "i < img_n img" for i
    using repaired_inodes [OF rep that] by simp
  have k: "k \<in> {ROOTINO..<img_n img}" "img_type img k = T_DIR" using rep by (auto simp: repairable_def Let_def)
  have mem: "(i, j) \<in> set (img_refs ?img)" if "i \<in> {ROOTINO..<img_n img}" "img_type img i = T_DIR"
    "de \<in> set (img_entries ?img i)" "unat (de_inum de) = j" for i de
    using that ty [of i] by (auto simp: img_refs_def repaired_n [OF rep] inode_refs_def entry_refs_def)
  from ref j ty have "j \<in> set L \<or> j \<in> snd ` set (img_refs img)" by auto
  then show ?thesis
  proof
    assume "j \<in> set L"
    then have "\<lparr>de_inum = of_nat j, de_name = lost_name\<rparr> \<in> set (img_entries ?img k)"
      by (simp add: repaired_entries [OF rep])
    moreover have "unat (of_nat j :: ushort) = j" using j(1) n by (simp add: unat_of_nat take_bit_nat_eq_self)
    ultimately show ?thesis using mem [OF k] by force
  next
    assume "j \<in> snd ` set (img_refs img)"
    then obtain i where "(i, j) \<in> set (img_refs img)" by auto
    then obtain de where i: "i \<in> {ROOTINO..<img_n img}" "img_type img i = T_DIR"
      "de \<in> set (img_entries img i)" "unat (de_inum de) = j"
      by (auto simp: img_refs_def inode_refs_def entry_refs_def split: if_splits)
    then have "de \<in> set (img_entries ?img i)"
      using repaired_entries [OF rep] repaired_other_entries [OF rep i(1,2)] by (cases "i = k") auto
    then show ?thesis using mem i by force
  qed
qed

section \<open>Allocating a block\<close>

definition deb_used :: "image \<Rightarrow> c3_state \<Rightarrow> bool" where
  "deb_used img st \<longleftrightarrow> data_end_block st = 0 \<or> data_end_block st \<in> set (img_used img)"

lemma c3_check_address_deb:
  "c3_check_address a dir ds bm st = Inr st' \<Longrightarrow> deb_used img st \<Longrightarrow> a \<in> set (img_used img) \<Longrightarrow> deb_used img st'"
  by (auto simp: c3_check_address_def deb_used_def Let_def split: if_splits)

lemma c3_check_addrs_deb:
  assumes run: "c3_check_addrs img ds bm inode st = Inr st'" and st: "deb_used img' st"
    and used: "set (inode_addrs img inode) \<subseteq> set (img_used img')"
  shows "deb_used img' st'"
proof (rule efold_invariant [OF run [unfolded c3_check_addrs_def], where P = "deb_used img'"])
  show "deb_used img' st" by (rule st)
  fix j s t
  assume j: "j \<in> set [0..<NDIRECT + 1]" and inv: "deb_used img' s"
    and run: "(if j < NDIRECT then c3_check_address (di_addrs inode ! j) True ds bm s
      else ebind (c3_check_address (di_addrs inode ! NDIRECT) False ds bm s)
          (\<lambda>st. ebind (img_read img (blk_addr (di_addrs inode ! NDIRECT)) (4 * NINDIRECT))
            (\<lambda>indirect. efold (\<lambda>k st. c3_check_address (le32 indirect (4 * k)) False ds bm st)
                [0..<NINDIRECT] st))) = Inr t"
  have direct: "di_addrs inode ! i \<in> set (img_used img')" if "i < NDIRECT + 1" for i
    using used that by (auto simp: inode_addrs_def simp del: upt_Suc)
  show "deb_used img' t"
  proof (cases "j < NDIRECT")
    case True
    then show ?thesis using run c3_check_address_deb [OF _ inv direct [of j]] by simp
  next
    case False
    with run obtain u bs where u: "c3_check_address (di_addrs inode ! NDIRECT) False ds bm s = Inr u"
      "img_read img (blk_addr (di_addrs inode ! NDIRECT)) (4 * NINDIRECT) = Inr bs"
      "efold (\<lambda>k st. c3_check_address (le32 bs (4 * k)) False ds bm st) [0..<NINDIRECT] u = Inr t"
      by (auto simp: ebind_eq_Inr simp del: upt_Suc)
    have bs: "bs = map img [blk_addr (di_addrs inode ! NDIRECT)..<blk_addr (di_addrs inode ! NDIRECT) + 512]"
      using u(2) by (simp add: img_read_def NINDIRECT_def split: if_splits)
    have du: "deb_used img' u"
      using c3_check_address_deb [OF u(1) inv direct [of NDIRECT]] by simp
    show ?thesis
    proof (rule efold_invariant [OF u(3), where P = "deb_used img'"])
      fix k v w
      assume k: "k \<in> set [0..<NINDIRECT]" and v: "deb_used img' v" "c3_check_address (le32 bs (4 * k)) False ds bm v = Inr w"
      have "le32 bs (4 * k) \<in> set (img_used img')"
        using used k bs by (auto simp: inode_addrs_def simp del: upt_Suc)
      then show "deb_used img' w" using c3_check_address_deb [OF v(2,1)] by simp
    qed (rule du)
  qed
qed

lemma c3_entry_deb: "c3_entry d img i de st = Inr st' \<Longrightarrow> data_end_block st' = data_end_block st"
  by (auto simp: c3_entry_def ebind_eq_Inr Let_def)

lemma c3_check_inode_deb:
  assumes run: "c3_check_inode d img ds bm i st = Inr st'" and inv: "c3_inv img (c3_x st)" "deb_used img st"
    and i: "i \<in> {ROOTINO..<img_n img}"
  shows "deb_used img st'"
proof -
  let ?ino = "inodes (c3_x st) ! i" and ?st = "st\<lparr>c3_err := c3_err st @ c3_check_inode_type (di_type (inodes (c3_x st) ! i))\<rparr>"
  have eq: "?ino\<lparr>di_nlink := 0\<rparr> = (img_inodes img ! i)\<lparr>di_nlink := 0\<rparr>"
    using inv i by (simp add: c3_inv_def same_inodes_def)
  note irr = nlink_irrelevant [OF eq]
  from run obtain st1 where st1: "(if di_type ?ino \<noteq> 0 then c3_check_addrs img ds bm ?ino ?st else Inr ?st) = Inr st1"
    "(if di_type ?ino = T_DIR then c3_check_dir d img i ?ino st1 else Inr st1) = Inr st'"
    by (auto simp: c3_check_inode_def Let_def ebind_eq_Inr)
  have d0: "deb_used img ?st" using inv(2) by (simp add: deb_used_def)
  have "deb_used img st1"
  proof (cases "di_type ?ino = 0")
    case True
    with st1(1) d0 show ?thesis by simp
  next
    case False
    then have "set (inode_addrs img ?ino) \<subseteq> set (img_used img)"
      using irr(1) irr(4) [of img] i by (fastforce simp: img_used_def inode_used_def)
    with False st1(1) d0 show ?thesis using c3_check_addrs_deb by auto
  qed
  moreover have "data_end_block st' = data_end_block st1"
  proof (cases "di_type ?ino = T_DIR")
    case True
    with st1(2) obtain acc st2 where
      loop: "dir_loop (c3_entry d img i) img i ?ino 0 \<lparr>count_dots = 0, root_exist = False, dir_error = False\<rparr> st1 = Inr (acc, st2)"
      and st': "data_end_block st' = data_end_block st2"
      by (auto simp: c3_check_dir_def ebind_eq_Inr)
    have "data_end_block st2 = data_end_block st1"
      by (rule dir_loop_keeps0 [where P = "\<lambda>s. data_end_block s = data_end_block st1", OF _ loop])
        (auto dest: c3_entry_deb)
    with st' show ?thesis by simp
  next
    case False
    with st1(2) show ?thesis by simp
  qed
  ultimately show ?thesis by (simp add: deb_used_def)
qed

lemma c3_scan_deb:
  assumes "c3_scan d img err = Inr (sb, st)"
  shows "deb_used img st"
proof -
  obtain st1 where st1: "efold (c3_check_inode d img (img_data_start img) (img_bmap img)) [ROOTINO..<img_n img]
      \<lparr>c3_c1 = c1_start img, data_end_block = 0, lost_found_dir_inum = 0, c3_err = err\<rparr> = Inr st1"
    "data_end_block st = data_end_block st1" using c3_scan_run [OF assms] by blast
  have "c3_inv img (c3_x st1) \<and> deb_used img st1"
    by (rule efold_invariant [OF st1(1), where P = "\<lambda>st. c3_inv img (c3_x st) \<and> deb_used img st"])
      (use c3_check_inode_inv c3_check_inode_deb in \<open>auto simp: c3_inv_def same_inodes_def st_start_def deb_used_def\<close>)
  with st1(2) show ?thesis by (simp add: deb_used_def)
qed

section \<open>Two small images\<close>

text \<open>A root directory in block 4; with \<open>lf\<close> also a directory \<^verbatim>\<open>lost_found\<close> (inode 2, block 5) and a device
  (inode 3) that no directory refers to.\<close>

definition small_image :: "bool \<Rightarrow> image" where
  "small_image lf a =
    (if a < 1024 then
       if a = 516 then 0x68 else if a = 517 then 1 else if a = 520 then (if lf then 4 else 2) else if a = 532 then 2
       else if a = 536 then 3 else 0
     else if a < 2048 then
       if a = 1088 then 1 else if a = 1096 then (if lf then 48 else 32) else if a = 1100 then 4
       else if a = 1152 then 1 else if a = 1160 then 32 else if a = 1164 then 5 else if a = 1216 then 3 else 0
     else if a = 2048 \<or> a = 2064 \<or> a = 2576 then 1 else if a = 2080 \<or> a = 2560 then 2
     else if 2082 \<le> a \<and> a < 2092 then bytes ''lost_found'' ! (a - 2082)
     else if a \<in> {2050, 2066, 2067, 2562, 2578, 2579} then 46 else 0)"

lemma small_sb:
  "sb_nblocks (img_sb (small_image lf)) = 360" "img_n (small_image lf) = (if lf then 4 else 2)"
  "img_table (small_image lf) = 1024" "blk_addr (sb_bmapstart (img_sb (small_image lf))) = 1536"
proof -
  have bytes: "map (small_image lf) [BSIZE..<BSIZE + 28] =
     [0, 0, 0, 0, 0x68, 1, 0, 0, if lf then 4 else 2, 0, 0, 0, 0, 0, 0, 0, 0, 0, 0, 0, 2, 0, 0, 0, 3, 0, 0, 0]"
    by (simp add: small_image_def BSIZE_def)
  have sb: "img_sb (small_image lf) = superblock_of
     [0, 0, 0, 0, 0x68, 1, 0, 0, if lf then 4 else 2, 0, 0, 0, 0, 0, 0, 0, 0, 0, 0, 0, 2, 0, 0, 0, 3, 0, 0, 0]"
    unfolding img_sb_def bytes ..
  show "sb_nblocks (img_sb (small_image lf)) = 360" "img_n (small_image lf) = (if lf then 4 else 2)"
    "img_table (small_image lf) = 1024" "blk_addr (sb_bmapstart (img_sb (small_image lf))) = 1536"
    by (simp_all add: sb superblock_of_def le32_def img_n_def blk_addr_def unsigned_ucast_eq)
qed

definition small_inode :: "ushort \<Rightarrow> uint \<Rightarrow> uint \<Rightarrow> dinode" where
  "small_inode ty sz b = \<lparr>di_type = ty, di_major = 0, di_minor = 0, di_nlink = 0, di_size = sz,
     di_addrs = [b, 0, 0, 0, 0, 0, 0, 0, 0, 0, 0, 0, 0]\<rparr>"

lemma small_inode_type [simp]: "di_type (small_inode ty sz b) = ty"
  by (simp add: small_inode_def)

lemma small_inodes:
  "img_inodes (small_image lf) = [small_inode 0 0 0, small_inode T_DIR (if lf then 48 else 32) 4] @
     (if lf then [small_inode T_DIR 32 5, small_inode T_DEV 0 0] else [])"
proof (rule nth_equalityI)
  fix i assume i: "i < length (img_inodes (small_image lf))"
  let ?n = "if lf then 4 else 2 :: nat"
  have upt: "[0..<13] = [0, 1, 2, 3, 4, 5, 6, 7, 8, 9, 10, 11, 12 :: nat]" by (simp add: upt_rec)
  have byte: "map (small_image lf) [1024..<1024 + 64 * ?n] ! k = small_image lf (1024 + k)" if "k < 64 * ?n" for k
    using that by simp
  consider "i = 0" | "i = 1" | "lf" "i = 2" | "lf" "i = 3" using i by (cases lf) (simp_all add: small_sb, linarith+)
  then show "img_inodes (small_image lf) ! i = ([small_inode 0 0 0, small_inode T_DIR (if lf then 48 else 32) 4] @
     (if lf then [small_inode T_DIR 32 5, small_inode T_DEV 0 0] else [])) ! i"
    by cases (simp_all add: img_inodes_def small_sb dinode_of_def le16_def le32_def Let_def NDIRECT_def upt small_image_def
      small_inode_def T_DIR_def T_DEV_def del: upt_rec_numeral upt_Suc)
qed (simp add: small_sb)

lemma small_boot: "a < 512 \<Longrightarrow> small_image lf a = 0"
  by (simp add: small_image_def)

lemma small_entries:
  "img_entries (small_image lf) 1 =
     [\<lparr>de_inum = 1, de_name = [46, 0, 0, 0, 0, 0, 0, 0, 0, 0, 0, 0, 0, 0]\<rparr>,
      \<lparr>de_inum = 1, de_name = [46, 46, 0, 0, 0, 0, 0, 0, 0, 0, 0, 0, 0, 0]\<rparr>] @
     (if lf then [\<lparr>de_inum = 2, de_name = bytes ''lost_found'' @ [0, 0, 0, 0]\<rparr>] else [])"
  "lf \<Longrightarrow> img_entries (small_image lf) 2 =
     [\<lparr>de_inum = 2, de_name = [46, 0, 0, 0, 0, 0, 0, 0, 0, 0, 0, 0, 0, 0]\<rparr>,
      \<lparr>de_inum = 1, de_name = [46, 46, 0, 0, 0, 0, 0, 0, 0, 0, 0, 0, 0, 0]\<rparr>]"
proof -
  have "[0..<2] = [0, 1 :: nat]" "[0..<3] = [0, 1, 2 :: nat]" by (simp_all add: upt_rec)
  then show "img_entries (small_image lf) 1 =
     [\<lparr>de_inum = 1, de_name = [46, 0, 0, 0, 0, 0, 0, 0, 0, 0, 0, 0, 0, 0]\<rparr>,
      \<lparr>de_inum = 1, de_name = [46, 46, 0, 0, 0, 0, 0, 0, 0, 0, 0, 0, 0, 0]\<rparr>] @
     (if lf then [\<lparr>de_inum = 2, de_name = bytes ''lost_found'' @ [0, 0, 0, 0]\<rparr>] else [])"
    "lf \<Longrightarrow> img_entries (small_image lf) 2 =
     [\<lparr>de_inum = 2, de_name = [46, 0, 0, 0, 0, 0, 0, 0, 0, 0, 0, 0, 0, 0]\<rparr>,
      \<lparr>de_inum = 1, de_name = [46, 46, 0, 0, 0, 0, 0, 0, 0, 0, 0, 0, 0, 0]\<rparr>]"
    by (simp_all add: dir_entries_def small_inodes small_inode_def blk_addr_def dirent_of_def le16_def small_image_def Let_def
        bytes_def of_char_def)
qed

text \<open>The addresses of such an inode: only the first can be in use.\<close>

lemma efold_id: "(\<And>x. x \<in> set xs \<Longrightarrow> f x s = Inr s) \<Longrightarrow> efold f xs s = Inr s"
  by (induction xs) auto

lemma ebind_same: "(\<And>s. f s = Inr s) \<Longrightarrow> ebind m f = m"
  by (cases m) auto

lemma c3_check_address_0: "c3_check_address 0 dir ds bm st = Inr st"
  by (simp add: c3_check_address_def report_def FSSIZE_def)

lemma small_inode_addrs: "di_addrs (small_inode ty sz b) = b # replicate 12 0"
  by (simp add: small_inode_def eval_nat_numeral)

lemma small_addrs:
  assumes "\<And>a. a < 512 \<Longrightarrow> img a = 0"
  shows "c3_check_addrs img ds bm (small_inode ty sz b) st = c3_check_address b True ds bm st"
proof -
  let ?ino = "small_inode ty sz b"
  have nth: "di_addrs ?ino ! j = 0" if "1 \<le> j" "j < 13" for j
    using that unfolding small_inode_addrs by (cases j) auto
  have rd: "img_read img (blk_addr 0) (4 * NINDIRECT) = Inr (replicate 512 0)"
    using assms by (auto simp: img_read_def blk_addr_def fs_consts list_eq_iff_nth_eq simp del: upt_rec_numeral)
  have ind: "efold (\<lambda>k st. c3_check_address (le32 (replicate 512 0) (4 * k)) False ds bm st) [0..<NINDIRECT] st = Inr st" for st
    by (rule efold_id) (simp add: NINDIRECT_def le32_def c3_check_address_0)
  let ?f = "\<lambda>j st. if j < NDIRECT then c3_check_address (di_addrs ?ino ! j) True ds bm st
        else ebind (c3_check_address (di_addrs ?ino ! NDIRECT) False ds bm st)
          (\<lambda>st. ebind (img_read img (blk_addr (di_addrs ?ino ! NDIRECT)) (4 * NINDIRECT))
            (\<lambda>indirect. efold (\<lambda>k st. c3_check_address (le32 indirect (4 * k)) False ds bm st) [0..<NINDIRECT] st))"
  have rest: "efold ?f [1..<13] st = Inr st" for st
  proof (rule efold_id)
    fix j assume "j \<in> set [1..<13]"
    then have j: "1 \<le> j" "j < 13" by auto
    show "?f j st = Inr st"
      using nth [of NDIRECT] by (simp add: nth [OF j] c3_check_address_0 rd ind NDIRECT_def)
  qed
  have "[0..<NDIRECT + 1] = 0 # [1..<13]" by (simp add: NDIRECT_def upt_conv_Cons)
  then have "c3_check_addrs img ds bm ?ino st = ebind (?f 0 st) (efold ?f [1..<13])"
    unfolding c3_check_addrs_def by simp
  also have "\<dots> = ?f 0 st" by (rule ebind_same) (rule rest)
  finally show ?thesis by (simp add: NDIRECT_def small_inode_addrs)
qed

text \<open>What matters of the state of the scan.\<close>

definition scan_st :: "bool \<Rightarrow> uchar list \<Rightarrow> nat \<Rightarrow> uint \<Rightarrow> nat \<Rightarrow> c3_state \<Rightarrow> bool" where
  "scan_st lf idir lfd deb kids st \<longleftrightarrow> inodes (c3_x st) = img_inodes (small_image lf) \<and> inode_dir (c3_x st) = idir \<and>
     length (maps (c3_c1 st)) = img_n (small_image lf) \<and> (\<forall>m \<in> set (maps (c3_c1 st)). child_num m \<le> kids) \<and>
     lost_found_dir_inum st = lfd \<and> data_end_block st = deb"

lemma scan_st_address:
  assumes "scan_st lf idir lfd deb kids st" "b < 1000" "b \<noteq> 0"
  shows "\<exists>st'. c3_check_address b dir ds bm st = Inr st' \<and> scan_st lf idir lfd b kids st'"
proof -
  have "unat (b div 8) < 125" using assms(2) by (simp add: unat_div word_less_nat_alt)
  then show ?thesis using assms by (simp add: c3_check_address_def scan_st_def set_x_def Let_def NBMAP_def fs_consts)
qed

lemma scan_st_parent:
  assumes "scan_st lf idir lfd deb kids st" "unat (de_inum de) < 2"
  shows "\<exists>err. c3_parent (Suc d) (small_image lf) i de st = Inr err"
proof -
  let ?p = "unat (de_inum de)"
  have "64 * ?p + 64 \<le> 512" using assms(2) by simp
  then have rd: "img_read (small_image lf) (64 * ?p) 64 = Inr (replicate 64 0)"
    by (auto simp: img_read_def fs_consts list_eq_iff_nth_eq small_boot simp del: upt_rec_numeral)
  have "di_size (dinode_of (replicate 64 0) 0) = 0" by (simp add: dinode_of_def le32_def)
  with rd assms show ?thesis
    by (auto simp: c3_parent_def scan_st_def small_sb mem_entry_loop.simps [of _ _ _ 0] Let_def)
qed

lemma scan_st_entry:
  assumes st: "scan_st lf idir lfd deb kids st" and kids: "kids < MAX_CHILDS"
    and k: "unat (de_inum de) \<in> {1, 2}" "unat (de_inum de) < img_n (small_image lf)" and i: "i < img_n (small_image lf)"
    and p: "is_dotdot de \<longrightarrow> unat (de_inum de) < 2"
  shows "\<exists>st'. c3_entry (Suc d) (small_image lf) i de st = Inr st' \<and>
    scan_st lf (idir[unat (de_inum de) := 1]) (if i \<noteq> unat (de_inum de) \<and> is_lost_found de then unat (de_inum de) else lfd)
      deb (Suc kids) st'"
proof -
  obtain err where err: "(if is_dotdot de then c3_parent (Suc d) (small_image lf) i de st else Inr (c3_err st)) = Inr err"
    using scan_st_parent [OF st, of de d i] p by (cases "is_dotdot de") auto
  have ty: "di_type (img_inodes (small_image lf) ! unat (de_inum de)) = T_DIR"
    using k by (auto simp: small_inodes small_inode_def small_sb split: if_splits)
  have num: "child_num (maps (c3_c1 st) ! i) \<le> kids" using st i by (simp add: scan_st_def)
  moreover have "child_num (maps (c3_c1 st) ! i) < MAX_CHILDS" using num kids by linarith
  ultimately show ?thesis
    unfolding c3_entry_def err ebind_Inr using st k(2) ty i T_distinct
    by (auto simp: c1_note_def note_entry_def scan_st_def Let_def dest!: set_update_subset_insert [THEN subsetD])
qed

lemma scan_st_dir:
  assumes "scan_st lf idir lfd deb kids st" and i: "i < img_n (small_image lf)"
    and ino: "inode = small_inode T_DIR sz b" "img_inodes (small_image lf) ! i = inode" "b < 1000" "sz \<le> 512"
    and dots: "\<forall>de \<in> set (img_entries (small_image lf) i). is_dot de \<longrightarrow> unat (de_inum de) = i"
    and run: "efold (c3_entry d (small_image lf) i) (img_entries (small_image lf) i) st = Inr st'"
      "scan_st lf idir' lfd' deb' kids' st'"
  shows "\<exists>st''. c3_check_dir d (small_image lf) i inode st = Inr st'' \<and> scan_st lf idir' lfd' deb' kids' st''"
proof -
  let ?acc = "\<lparr>count_dots = 0, root_exist = False, dir_error = False\<rparr>"
  have base: "blk_addr (di_addrs inode ! 0) + 512 \<le> IMG_SIZE"
    using blk_addr_small(2) [OF ino(3)] by (simp add: ino(1) small_inode_addrs)
  have "unat (di_size inode) \<le> 512" using ino(4) by (simp add: ino(1) small_inode_def word_le_nat_alt)
  then have "dir_loop (c3_entry d (small_image lf) i) (small_image lf) i inode (16 * 0) ?acc st =
      Inr (fold (dot_step i) (img_entries (small_image lf) i) ?acc, st')"
    using dir_loop_Inr [OF base, of "c3_entry d (small_image lf) i" "small_image lf" i 0 ?acc st
        "fold (dot_step i) (img_entries (small_image lf) i) ?acc" st'] dots run(1) by (simp add: ino(2))
  then show ?thesis using run(2) by (simp add: c3_check_dir_def scan_st_def)
qed

lemma scan_st_err [simp]: "scan_st lf idir lfd deb kids (st\<lparr>c3_err := e\<rparr>) = scan_st lf idir lfd deb kids st"
  by (simp add: scan_st_def)

lemma small_root:
  assumes "scan_st lf [0, 0] 0 0 0 st \<and> \<not> lf \<or> scan_st lf [0, 0, 0, 0] 0 0 0 st \<and> lf"
  shows "\<exists>st'. c3_check_inode (Suc d) (small_image lf) ds bm 1 st = Inr st' \<and>
    scan_st lf (if lf then [0, 1, 1, 0] else [0, 1]) (if lf then 2 else 0) 4 3 st'"
proof -
  let ?img = "small_image lf"
  have ino: "inodes (c3_x st) ! 1 = small_inode T_DIR (if lf then 48 else 32) 4" "img_inodes ?img ! 1 = inodes (c3_x st) ! 1"
    using assms by (auto simp: scan_st_def small_inodes)
  define idir :: "uchar list" where "idir = replicate (if lf then 4 else 2) 0"
  have st: "scan_st lf idir 0 0 0 st" using assms by (auto simp: idir_def eval_nat_numeral)
  obtain st1 where st1: "c3_check_address 4 True ds bm (st\<lparr>c3_err := c3_err st @ c3_check_inode_type T_DIR\<rparr>) = Inr st1"
    "scan_st lf idir 0 4 0 st1"
    using scan_st_address [of lf idir 0 0 0 "st\<lparr>c3_err := c3_err st @ c3_check_inode_type T_DIR\<rparr>" 4 True ds bm] st by auto
  let ?e1 = "\<lparr>de_inum = 1, de_name = [46, 0, 0, 0, 0, 0, 0, 0, 0, 0, 0, 0, 0, 0]\<rparr>"
  let ?e2 = "\<lparr>de_inum = 1, de_name = [46, 46, 0, 0, 0, 0, 0, 0, 0, 0, 0, 0, 0, 0]\<rparr>"
  let ?e3 = "\<lparr>de_inum = 2, de_name = bytes ''lost_found'' @ [0, 0, 0, 0]\<rparr>"
  have n: "1 < img_n ?img" "lf \<Longrightarrow> 2 < img_n ?img" by (simp_all add: small_sb)
  have names: "\<not> is_lost_found ?e1" "\<not> is_lost_found ?e2" "is_lost_found ?e3" "\<not> is_dotdot ?e1" "\<not> is_dotdot ?e3" "is_dot ?e1" "\<not> is_dot ?e2" "\<not> is_dot ?e3"
    by (simp_all add: is_lost_found_def bytes_def of_char_def is_dotdot_def is_dot_def)
  have dots: "\<forall>de \<in> set (img_entries ?img 1). is_dot de \<longrightarrow> unat (de_inum de) = 1"
    unfolding small_entries using names by auto
  obtain st2 where st2: "c3_entry (Suc d) ?img 1 ?e1 st1 = Inr st2" "scan_st lf (idir[1 := 1]) 0 4 (Suc 0) st2"
    using scan_st_entry [OF st1(2) _ _ _ n(1), of ?e1 d] n(1) names by (auto simp: MAX_CHILDS_def)
  obtain st3 where st3: "c3_entry (Suc d) ?img 1 ?e2 st2 = Inr st3" "scan_st lf (idir[1 := 1, 1 := 1]) 0 4 (Suc (Suc 0)) st3"
    using scan_st_entry [OF st2(2) _ _ _ n(1), of ?e2 d] n(1) names by (auto simp: MAX_CHILDS_def)
  have "\<exists>st4. c3_entry (Suc d) ?img 1 ?e3 st3 = Inr st4 \<and> scan_st lf (idir[1 := 1, 1 := 1, 2 := 1]) 2 4 (Suc (Suc (Suc 0))) st4"
    if lf using scan_st_entry [OF st3(2) _ _ _ n(1), of ?e3 d] n(2) [OF that] names by (auto simp: MAX_CHILDS_def)
  then obtain st4 where st4: "lf \<longrightarrow> c3_entry (Suc d) ?img 1 ?e3 st3 = Inr st4"
    "lf \<longrightarrow> scan_st lf (idir[1 := 1, 1 := 1, 2 := 1]) 2 4 (Suc (Suc (Suc 0))) st4" by blast
  define st5 where "st5 = (if lf then st4 else st3)"
  have "efold (c3_entry (Suc d) ?img 1) (img_entries ?img 1) st1 = Inr st5"
    using st2 st3 st4 unfolding small_entries by (simp add: st5_def)
  moreover have "scan_st lf (if lf then [0, 1, 1, 0] else [0, 1]) (if lf then 2 else 0) 4 3 st5"
    using st3 st4 by (auto simp: st5_def idir_def eval_nat_numeral scan_st_def)
  ultimately have "\<exists>st''. c3_check_dir (Suc d) ?img 1 (inodes (c3_x st) ! 1) st1 = Inr st'' \<and>
      scan_st lf (if lf then [0, 1, 1, 0] else [0, 1]) (if lf then 2 else 0) 4 3 st''"
    using dots by (intro scan_st_dir [OF st1(2) n(1) ino(1) ino(2)]) simp_all
  then show ?thesis
    using st1(1) T_distinct
    by (simp add: c3_check_inode_def ino(1) small_addrs [OF small_boot] Let_def del: One_nat_def split del: if_split)
qed

lemma small_lost_found:
  assumes "scan_st True [0, 1, 1, 0] 2 4 3 st"
  shows "\<exists>st'. c3_check_inode (Suc d) (small_image True) ds bm 2 st = Inr st' \<and> scan_st True [0, 1, 1, 0] 2 5 5 st'"
proof -
  let ?img = "small_image True"
  have ino: "inodes (c3_x st) ! 2 = small_inode T_DIR 32 5" "img_inodes ?img ! 2 = inodes (c3_x st) ! 2"
    using assms by (auto simp: scan_st_def small_inodes)
  obtain st1 where st1: "c3_check_address 5 True ds bm (st\<lparr>c3_err := c3_err st @ c3_check_inode_type T_DIR\<rparr>) = Inr st1"
    "scan_st True [0, 1, 1, 0] 2 5 3 st1"
    using scan_st_address [of True "[0, 1, 1, 0]" 2 4 3 "st\<lparr>c3_err := c3_err st @ c3_check_inode_type T_DIR\<rparr>" 5 True ds bm] assms by auto
  let ?e1 = "\<lparr>de_inum = 2, de_name = [46, 0, 0, 0, 0, 0, 0, 0, 0, 0, 0, 0, 0, 0]\<rparr>"
  let ?e2 = "\<lparr>de_inum = 1, de_name = [46, 46, 0, 0, 0, 0, 0, 0, 0, 0, 0, 0, 0, 0]\<rparr>"
  have n: "1 < img_n ?img" "2 < img_n ?img" by (simp_all add: small_sb)
  have names: "\<not> is_lost_found ?e1" "\<not> is_lost_found ?e2" "\<not> is_dotdot ?e1" "is_dot ?e1" "\<not> is_dot ?e2"
    by (simp_all add: is_lost_found_def bytes_def of_char_def is_dotdot_def is_dot_def)
  have dots: "\<forall>de \<in> set (img_entries ?img 2). is_dot de \<longrightarrow> unat (de_inum de) = 2"
    using names by (auto simp: small_entries)
  obtain st2 where st2: "c3_entry (Suc d) ?img 2 ?e1 st1 = Inr st2" "scan_st True [0, 1, 1, 0] 2 5 (Suc 3) st2"
    using scan_st_entry [OF st1(2) _ _ _ n(2), of ?e1 d] n names by (auto simp: MAX_CHILDS_def)
  obtain st3 where st3: "c3_entry (Suc d) ?img 2 ?e2 st2 = Inr st3" "scan_st True [0, 1, 1, 0] 2 5 (Suc (Suc 3)) st3"
    using scan_st_entry [OF st2(2) _ _ _ n(2), of ?e2 d] n names by (auto simp: MAX_CHILDS_def)
  have "efold (c3_entry (Suc d) ?img 2) (img_entries ?img 2) st1 = Inr st3"
    using st2 st3 by (simp add: small_entries)
  moreover have "scan_st True [0, 1, 1, 0] 2 5 5 st3" using st3 by (simp add: eval_nat_numeral)
  ultimately have "\<exists>st''. c3_check_dir (Suc d) ?img 2 (inodes (c3_x st) ! 2) st1 = Inr st'' \<and> scan_st True [0, 1, 1, 0] 2 5 5 st''"
    using dots by (intro scan_st_dir [OF st1(2) n(2) ino(1) ino(2)]) simp_all
  then show ?thesis
    using st1(1) T_distinct by (simp add: c3_check_inode_def ino(1) small_addrs [OF small_boot] Let_def)
qed

lemma small_device:
  assumes "scan_st True idir lfd deb kids st"
  shows "\<exists>st'. c3_check_inode d (small_image True) ds bm 3 st = Inr st' \<and> scan_st True idir lfd deb kids st'"
proof -
  have "inodes (c3_x st) ! 3 = small_inode T_DEV 0 0" using assms by (simp add: scan_st_def small_inodes)
  moreover have "T_DEV \<noteq> T_DIR" by (simp add: T_DEV_def T_DIR_def)
  ultimately show ?thesis
    using assms by (simp add: c3_check_inode_def small_addrs [OF small_boot] c3_check_address_0 Let_def)
qed

text \<open>The whole scan.\<close>

lemma small_scan:
  "\<exists>st. c3_scan (Suc d) (small_image lf) err = Inr (img_sb (small_image lf), st) \<and>
     scan_st lf (if lf then [0, 1, 1, 0] else [0, 1]) (if lf then 2 else 0) (if lf then 5 else 4) 5 st"
proof -
  let ?img = "small_image lf"
  let ?f = "c3_check_inode (Suc d) ?img (img_data_start ?img) (img_bmap ?img)"
  have start: "scan_st lf (replicate (img_n ?img) 0) 0 0 0 (c3_start ?img err)"
    by (auto simp: scan_st_def st_start_def empty_map_def)
  then have "scan_st lf [0, 0] 0 0 0 (c3_start ?img err) \<and> \<not> lf \<or> scan_st lf [0, 0, 0, 0] 0 0 0 (c3_start ?img err) \<and> lf"
    by (cases lf) (simp_all add: small_sb eval_nat_numeral)
  from small_root [OF this] obtain st1 where st1: "?f 1 (c3_start ?img err) = Inr st1"
    "scan_st lf (if lf then [0, 1, 1, 0] else [0, 1]) (if lf then 2 else 0) 4 3 st1" by blast
  have run: "\<exists>st. efold ?f [ROOTINO..<img_n ?img] (c3_start ?img err) = Inr st \<and>
     scan_st lf (if lf then [0, 1, 1, 0] else [0, 1]) (if lf then 2 else 0) (if lf then 5 else 4) 5 st"
  proof (cases lf)
    case True
    with st1 small_lost_found obtain st2 where st2: "?f 2 st1 = Inr st2" "scan_st True [0, 1, 1, 0] 2 5 5 st2" by fastforce
    with True small_device obtain st3 where st3: "?f 3 st2 = Inr st3" "scan_st True [0, 1, 1, 0] 2 5 5 st3" by fastforce
    have "[1..<4] = [1, 2, 3 :: nat]" by (simp add: upt_rec)
    with True st1 st2 st3 show ?thesis by (simp add: small_sb ROOTINO_def)
  next
    case False
    have "[1..<2] = [1 :: nat]" by (simp add: upt_rec)
    moreover have "scan_st False [0, 1] 0 4 5 st1" using st1(2) False by (auto simp: scan_st_def)
    ultimately show ?thesis using False st1 by (simp add: small_sb ROOTINO_def)
  qed
  then obtain st where st: "efold ?f [ROOTINO..<img_n ?img] (c3_start ?img err) = Inr st"
    "scan_st lf (if lf then [0, 1, 1, 0] else [0, 1]) (if lf then 2 else 0) (if lf then 5 else 4) 5 st" by blast
  have "img_data_start ?img = 640" by (simp add: img_data_start_def small_sb)
  then have "c3_bitmap_loop bm mk ((cdiv8 (sint (img_data_start ?img)) + 1) * 8) e = Inr e" for bm mk e
    by (subst c3_bitmap_loop.simps) (simp add: cdiv8_def fs_consts)
  moreover have "tables_inside ?img" by (simp add: tables_inside_def small_sb fs_consts)
  ultimately show ?thesis
    using st unfolding c3_scan_def img_tables_read ebind_Inr img_sb_def [symmetric] Let_def img_n_def [symmetric] tables_inside_def
    by (simp add: st_start_def img_tables_read)
qed

section \<open>Properties\<close>



text \<open>
  The block that the repair allocates is one in use: \<open>data_end_block\<close> is the last address that was
  checked, not the one after it. In an image without a directory \<^verbatim>\<open>lost_found\<close> the entry goes to inode 0,
  which has no block, and overwrites the first 16 bytes of a block that belongs to some inode.
\<close>

theorem repair_overwrites_used_block:
  assumes "c3_scan d img err = Inr (sb, st)" and "lost_found_dir_inum st = 0" and "0 < img_n img"
    and "di_size (img_inodes img ! 0) = 0" and "di_addrs (img_inodes img ! 0) ! 0 = 0"
    and "data_end_block st \<noteq> 0" and "data_end_block st < 1000"
  shows "data_end_block st \<in> set (img_used img) \<and>
    (\<exists>inos. mov_lost_found img (inodes (c3_x st)) j (lost_found_dir_inum st) (data_end_block st) =
       Inr (inos, img_write img (512 * unat (data_end_block st)) (lost_entry j), data_end_block st + 1))"
proof -
  let ?inos = "inodes (c3_x st)" and ?b = "data_end_block st"
  note inv = c3_scan_inv(3) [OF assms(1)]
  have eq: "(?inos ! 0)\<lparr>di_nlink := 0\<rparr> = (img_inodes img ! 0)\<lparr>di_nlink := 0\<rparr>" and len: "0 < length ?inos"
    using inv assms(3) by (auto simp: c3_inv_def same_inodes_def)
  note irr = nlink_irrelevant(2,3) [OF eq]
  have "length (di_addrs (?inos ! 0)) = 13" using irr(2) img_addrs_length [OF assms(3)] by simp
  then have "iappend_block (?inos ! 0) 0 img ?b = Inr (?b, (?inos ! 0)\<lparr>di_addrs := (di_addrs (?inos ! 0))[0 := ?b]\<rparr>, img, ?b + 1)"
    using assms(5) irr(2) by (simp add: iappend_block_def NDIRECT_def)
  moreover have "lost_entry j \<noteq> []" by (simp add: lost_entry_def le16_bytes_def)
  ultimately have "\<exists>inos. mov_lost_found img ?inos j 0 ?b = Inr (inos, img_write img (512 * unat ?b) (lost_entry j), ?b + 1)"
    using iappend_from_block [OF len _ _ _ assms(7), of "lost_entry j"] irr(1) assms(4)
    by (simp add: mov_lost_found_def flip: lost_entry_def)
  moreover have "?b \<in> set (img_used img)" using c3_scan_deb [OF assms(1)] assms(6) by (simp add: deb_used_def)
  ultimately show ?thesis using assms(2) by simp
qed

theorem repair_overwrites_used_block_witness:
  "\<exists>st inos. c3_scan 1 (small_image False) [] = Inr (img_sb (small_image False), st) \<and> 4 \<in> set (img_used (small_image False)) \<and>
     mov_lost_found (small_image False) (inodes (c3_x st)) 1 0 (data_end_block st) =
       Inr (inos, img_write (small_image False) 2048 (lost_entry 1), 5)"
proof -
  let ?img = "small_image False"
  obtain st where scan: "c3_scan 1 ?img [] = Inr (img_sb ?img, st)" and st: "scan_st False [0, 1] 0 4 5 st"
    using small_scan [of 0 False "[]"] by auto
  have d: "data_end_block st = 4" "lost_found_dir_inum st = 0" using st by (simp_all add: scan_st_def)
  from repair_overwrites_used_block [OF scan d(2), of 1] d scan show ?thesis
    by (auto simp: small_sb small_inodes small_inode_def)
qed

end
