(* ===== verification/Lottery_Random.thy ===== *)
theory Lottery_Random
  imports Prelude
begin

text \<open>
  The random numbers of the lottery scheduler, \<open>random\<close> and \<open>getwinner\<close> of
  \<^verbatim>\<open>projects/scheduling-xv6-lottery/src/proc.c\<close>. xv6 runs on 32-bit x86, so \<open>long\<close> and
  \<open>unsigned long\<close> have 32 bits. The rejection loop of \<open>getwinner\<close> is bounded by fuel; that it
  always ends follows from the generator having full period.
\<close>

section \<open>The code\<close>

text \<open>\<open>random\<close> updates \<open>val\<close> and returns it.\<close>

definition random :: "uint \<Rightarrow> uint" where
  "random val = (1103515245 * val + 12345) AND 0x7fffffff"

text \<open>The \<open>do ... while\<close> loop: the number drawn, which is also the new \<open>val\<close>.\<close>

fun draw :: "nat \<Rightarrow> uint \<Rightarrow> uint \<Rightarrow> uint option" where
  "draw 0 limit val = None"
| "draw (Suc fuel) limit val =
    (let x = random val in if limit \<le> x then draw fuel limit x else Some x)"

text \<open>\<open>getwinner\<close>: the winner and the new \<open>val\<close>. Division by 0 traps.\<close>

datatype winner_result = Winner uint uint | DivideError | OutOfFuel

definition getwinner :: "nat \<Rightarrow> uint \<Rightarrow> uint \<Rightarrow> winner_result" where
  "getwinner fuel totaltickets val =
    (let num_bins = totaltickets + 1; num_rand = 0x7fffffff + 1 in
     if num_bins = 0 then DivideError
     else let bin_size = num_rand div num_bins; defect = num_rand mod num_bins in
       case draw fuel (num_rand - defect) val of
         None \<Rightarrow> OutOfFuel
       | Some x \<Rightarrow> if bin_size = 0 then DivideError else Winner (x div bin_size) x)"

section \<open>The generator has full period\<close>

text \<open>The sum of the first \<open>n\<close> powers of the multiplier.\<close>

definition geo :: "nat \<Rightarrow> nat" where
  "geo n = (\<Sum>i < n. 1103515245 ^ i)"

lemma geo_simps [simp]: "geo 0 = 0" "geo (Suc n) = geo n + 1103515245 ^ n"
  by (simp_all add: geo_def)

lemma geo_double: "geo (m + m) = geo m * (1 + 1103515245 ^ m)"
proof -
  have "geo (m + k) = geo m + 1103515245 ^ m * geo k" for k
    by (induction k) (auto simp: power_add algebra_simps)
  then show ?thesis by (simp add: algebra_simps)
qed

lemma geo_odd: "odd (geo n) \<longleftrightarrow> odd n"
  by (induction n) auto

lemma one_plus_power: "\<exists>q. odd q \<and> 1 + (1103515245 :: nat) ^ m = 2 * q"
proof -
  have "(1103515245 :: nat) mod 4 = 1" by simp
  then have "(1103515245 :: nat) ^ m mod 4 = 1 ^ m mod 4" by (metis power_mod)
  then have "(1 + (1103515245 :: nat) ^ m) mod 4 = 2" by (simp add: mod_Suc)
  then obtain k where "1 + (1103515245 :: nat) ^ m = 4 * k + 2"
    by (metis mult_div_mod_eq)
  then have "1 + (1103515245 :: nat) ^ m = 2 * (2 * k + 1)" by simp
  then show ?thesis by (intro exI [of _ "2 * k + 1"]) simp
qed

lemma geo_dvd: "2 ^ k dvd geo n \<Longrightarrow> 2 ^ k dvd n"
proof (induction k arbitrary: n)
  case (Suc k)
  then have "even (geo n)" by (metis dvd_mult_left power_Suc)
  then have "even n" using geo_odd by blast
  then obtain m where m: "n = m + m" by (metis evenE mult_2)
  obtain q where q: "odd q" "1 + (1103515245 :: nat) ^ m = 2 * q" using one_plus_power by blast
  have "geo n = 2 * (geo m * q)" unfolding m geo_double q(2) by simp
  with Suc.prems have "2 ^ k dvd geo m * q" by simp
  moreover have "coprime (2 ^ k) q" using q(1) by simp
  ultimately have "2 ^ k dvd geo m" by (metis coprime_dvd_mult_left_iff)
  then have "2 ^ k dvd m" by (rule Suc.IH)
  then show ?case unfolding m by (simp add: mult_2 [symmetric])
qed simp

text \<open>On natural numbers: \<open>random\<close> is the congruential step modulo \<open>2 ^ 31\<close>.\<close>

definition lcg :: "nat \<Rightarrow> nat" where
  "lcg x = (1103515245 * x + 12345) mod 2 ^ 31"

lemma unat_random: "unat (random v) = lcg (unat v)"
proof -
  have "random v = take_bit 31 (1103515245 * v + 12345)"
    by (simp add: random_def flip: take_bit_eq_mask) (simp add: take_bit_eq_mask mask_eq_exp_minus_1)
  then have "unat (random v) = take_bit 31 (unat (1103515245 * v + 12345 :: uint))"
    by (simp add: unsigned_take_bit_eq)
  also have "\<dots> = (1103515245 * unat v mod 4294967296 + 12345) mod 2 ^ 31"
    by (simp add: unat_word_ariths take_bit_eq_mod mod_mod_cancel)
  also have "\<dots> = lcg (unat v)"
    unfolding lcg_def by (subst mod_add_left_eq [symmetric], subst mod_mod_cancel) (simp_all add: mod_add_left_eq)
  finally show ?thesis .
qed

lemma mod_affine: "(a * (y mod m) + c) mod m = (a * y + c) mod (m :: nat)"
  by (metis mod_add_left_eq mod_mult_right_eq)

lemma geo_Suc_left: "geo (Suc n) = 1103515245 * geo n + 1"
  by (induction n) (auto simp: algebra_simps)

lemma lcg_power: "(lcg ^^ n) x mod 2 ^ 31 = (1103515245 ^ n * x + 12345 * geo n) mod 2 ^ 31"
proof (induction n)
  case (Suc n)
  have "(lcg ^^ Suc n) x mod 2 ^ 31 = (1103515245 * ((lcg ^^ n) x mod 2 ^ 31) + 12345) mod 2 ^ 31"
    unfolding mod_affine by (simp add: lcg_def)
  also have "\<dots> = (1103515245 * ((1103515245 ^ n * x + 12345 * geo n) mod 2 ^ 31) + 12345) mod 2 ^ 31"
    by (simp only: Suc)
  also have "\<dots> = (1103515245 * (1103515245 ^ n * x + 12345 * geo n) + 12345) mod 2 ^ 31"
    by (rule mod_affine)
  also have "1103515245 * (1103515245 ^ n * x + 12345 * geo n) + 12345 =
      1103515245 ^ Suc n * x + 12345 * (1103515245 * geo n + 1)"
    by (simp add: algebra_simps)
  also have "1103515245 * geo n + 1 = geo (Suc n)"
    by (rule geo_Suc_left [symmetric])
  finally show ?case .
qed simp

lemma geo_power: "(1103515245 :: nat) ^ n = 1103515244 * geo n + 1"
  by (induction n) auto

lemma lcg_cycle:
  assumes "x < 2 ^ 31" "(lcg ^^ n) x = x"
  shows "2 ^ 31 dvd n"
proof -
  have "(x + geo n * (1103515244 * x + 12345)) mod 2 ^ 31 = x mod 2 ^ 31"
    using lcg_power [of n x] assms(2) by (simp add: geo_power algebra_simps)
  then have "2 ^ 31 dvd geo n * (1103515244 * x + 12345)"
    by (metis add_diff_cancel_left' le_add1 mod_eq_dvd_iff_nat)
  moreover have "odd (1103515244 * x + 12345)" by simp
  then have "coprime (2 ^ 31) (1103515244 * x + 12345)"
    by (metis coprime_left_2_iff_odd coprime_power_left_iff)
  ultimately have "2 ^ 31 dvd geo n" by (metis coprime_dvd_mult_left_iff)
  then show ?thesis by (rule geo_dvd)
qed

lemma lcg_bound: "lcg x < 2 ^ 31"
  by (simp add: lcg_def)

lemma lcg_pow_bound: "x < 2 ^ 31 \<Longrightarrow> (lcg ^^ n) x < 2 ^ 31"
  by (cases n) (auto simp: lcg_def)

lemma lcg_full_period:
  assumes "x < 2 ^ 31" "y < 2 ^ 31"
  shows "\<exists>j < 2 ^ 31. (lcg ^^ j) x = y"
proof -
  let ?f = "\<lambda>j. (lcg ^^ j) x" and ?A = "{..<2 ^ 31 :: nat}"
  have "i = j" if "i \<le> j" "j < 2 ^ 31" "?f i = ?f j" for i j
  proof -
    have "(lcg ^^ (j - i)) (?f i) = ?f i"
      using that(1,3) by (metis comp_apply funpow_add le_add_diff_inverse2)
    then have "2 ^ 31 dvd j - i" using lcg_pow_bound [OF assms(1)] by (intro lcg_cycle)
    then show ?thesis using that by (metis diff_is_0_eq le_antisym less_imp_diff_less nat_dvd_not_less not_gr_zero)
  qed
  then have "inj_on ?f ?A"
    by (intro inj_onI) (metis lessThan_iff nat_le_linear)
  moreover have "?f ` ?A \<subseteq> ?A" using lcg_pow_bound [OF assms(1)] by blast
  ultimately have "?f ` ?A = ?A" by (intro endo_inj_surj) auto
  with assms(2) show ?thesis by (metis (no_types, lifting) imageE lessThan_iff)
qed

section \<open>The rejection loop ends\<close>

lemma draw_Some:
  assumes "unat ((random ^^ Suc j) val) < unat limit" "j < fuel"
  shows "\<exists>x. draw fuel limit val = Some x"
  using assms
proof (induction j arbitrary: val fuel)
  case 0
  then obtain f where "fuel = Suc f" by (cases fuel) auto
  with 0 show ?case by (simp add: Let_def word_le_nat_alt)
next
  case (Suc j)
  then obtain f where f: "fuel = Suc f" "j < f" by (cases fuel) auto
  from Suc.prems(1) have "unat ((random ^^ Suc j) (random val)) < unat limit"
    by (simp add: funpow_swap1)
  then have "\<exists>x. draw f limit (random val) = Some x" using f(2) by (rule Suc.IH)
  then show ?case by (simp add: f Let_def)
qed

lemma draw_bound: "draw fuel limit val = Some x \<Longrightarrow> x < limit"
  by (induction fuel limit val rule: draw.induct) (auto simp: Let_def split: if_splits)

lemma unat_random_pow: "unat ((random ^^ Suc j) val) = (lcg ^^ j) (unat (random val))"
  by (induction j) (auto simp: unat_random)

lemma draw_terminates:
  assumes "0 < limit"
  shows "\<exists>x. draw (2 ^ 31) limit val = Some x"
proof -
  have "unat (random val) < 2 ^ 31" unfolding unat_random by (rule lcg_bound)
  then obtain j where j: "j < 2 ^ 31" "(lcg ^^ j) (unat (random val)) = 0"
    using lcg_full_period [of "unat (random val)" 0] by auto
  then have "unat ((random ^^ Suc j) val) < unat limit"
    using assms unfolding unat_random_pow by (simp add: word_less_nat_alt)
  then show ?thesis using j(1) by (rule draw_Some)
qed

section \<open>Properties\<close>

lemma unat_div_mod:
  fixes n r :: uint
  assumes "n \<noteq> 0"
  shows "unat r = unat (r div n) * unat n + unat (r mod n)" "unat (r mod n) < unat n"
proof -
  show "unat r = unat (r div n) * unat n + unat (r mod n)" by (simp add: unat_div unat_mod)
  have "0 < unat n" using assms by (simp add: unat_gt_0)
  then show "unat (r mod n) < unat n" by (simp add: unat_mod)
qed

text \<open>
  C30: The draw of the winning ticket always ends and is in range: for every non-negative number of
  tickets and every value of the generator, \<open>getwinner\<close> returns after at most \<open>2 ^ 31\<close> calls of
  \<open>random\<close>, since the congruential generator runs through all 31-bit numbers, and the winner lies
  in the closed interval from 0 to \<open>totaltickets\<close>.
\<close>

theorem getwinner_terminates:
  assumes "0 \<le> sint totaltickets"
  shows "\<exists>winner val'. getwinner (2 ^ 31) totaltickets val = Winner winner val' \<and> winner \<le> totaltickets"
proof -
  define n r where "n = totaltickets + 1" and "r = (0x80000000 :: uint)"
  have n: "unat n = unat totaltickets + 1" "unat n \<le> 2 ^ 31" and r: "unat r = 2 ^ 31"
    using assms by (auto simp: sint_nonneg_iff n_def r_def unat_word_ariths)
  then have nz: "n \<noteq> 0" by auto
  note dm = unat_div_mod [OF nz, of r]
  have bin: "1 \<le> unat (r div n)" using n r by (simp add: unat_div div_greater_zero_iff Suc_le_eq)
  have "unat (r mod n) \<le> unat r" using dm by simp
  then have lim: "unat (r - r mod n) = unat (r div n) * unat n"
    using dm by (simp add: unat_sub_if_size)
  then have "0 < r - r mod n" using bin n by (simp add: word_less_nat_alt)
  then obtain x where x: "draw (2 ^ 31) (r - r mod n) val = Some x" using draw_terminates by blast
  then have "unat x < unat (r div n) * unat n" using draw_bound [OF x] lim by (simp add: word_less_nat_alt)
  then have "unat x div unat (r div n) < unat n" by (simp add: less_mult_imp_div_less mult.commute)
  then have "x div (r div n) \<le> totaltickets" using n by (simp add: word_le_nat_alt unat_div)
  moreover have "getwinner (2 ^ 31) totaltickets val = Winner (x div (r div n)) x"
    using nz bin x by (auto simp: getwinner_def Let_def n_def [symmetric] r_def)
  ultimately show ?thesis by blast
qed

theorem getwinner_terminates_witness:
  "0 \<le> sint (5 :: uint) \<and> (\<exists>winner val'. getwinner (2 ^ 31) 5 1 = Winner winner val' \<and> winner \<le> 5)"
  using getwinner_terminates [of 5 1] by simp

text \<open>
  An overflow of the ticket count hangs the kernel: when the sum of the tickets has wrapped to
  a negative number other than -1, every drawn number is rejected and \<open>getwinner\<close> never returns,
  whatever the fuel; at -1 it divides by 0. \<open>settickets\<close> accepts any positive number, so two
  processes with \<open>2 ^ 30\<close> tickets are enough.
\<close>

theorem getwinner_overflow:
  assumes "sint totaltickets < 0"
  shows "getwinner fuel totaltickets val = (if totaltickets = -1 then DivideError else OutOfFuel)"
proof -
  define n r where "n = totaltickets + 1" and "r = (0x80000000 :: uint)"
  have big: "2 ^ 31 \<le> unat totaltickets" using assms sint_nonneg_iff [of totaltickets] by linarith
  have none: "draw f 0 v = None" for f v by (induction f arbitrary: v) (auto simp: Let_def)
  show ?thesis
  proof (cases "totaltickets = -1")
    case True
    then show ?thesis by (simp add: getwinner_def)
  next
    case False
    then have nz: "n \<noteq> 0" by (metis n_def add.right_inverse add_left_cancel add.commute)
    then have "unat n = unat totaltickets + 1"
      by (metis n_def add.commute Suc_eq_plus1 unatSuc)
    then have "unat (r mod n) = unat r" using big by (simp add: r_def unat_mod)
    then have "r mod n = r" by (simp add: word_unat_eq_iff)
    then have "r - r mod n = 0" by simp
    with nz False none show ?thesis by (simp add: getwinner_def Let_def n_def [symmetric] r_def)
  qed
qed

theorem getwinner_overflow_witness:
  "sint (0x40000000 + 0x40000000 :: uint) < 0 \<and>
   getwinner 1000000 (0x40000000 + 0x40000000) 1 = OutOfFuel"
  using getwinner_overflow [of "0x40000000 + 0x40000000" 1000000 1] by simp

end
