(* ===== verification/Lottery_Proc.thy ===== *)
theory Lottery_Proc
  imports Lottery_Random
begin

text \<open>
  The process table of the lottery xv6, \<^verbatim>\<open>projects/scheduling-xv6-lottery/src/proc.c\<close> and the system
  calls of \<^verbatim>\<open>sysproc.c\<close>. Each operation is the critical section it runs under \<open>ptable.lock\<close>; the
  results of the allocator and of the virtual memory code, which are not part of these files, are
  arguments. Processes are indices of the table.
\<close>

section \<open>The process table\<close>

datatype procstate = UNUSED | EMBRYO | SLEEPING | RUNNABLE | RUNNING | ZOMBIE

text \<open>What a process sleeps on: a process structure (in \<open>wait\<close>) or another address.\<close>

datatype chan = ChanProc nat | ChanAddr nat

record proc =
  p_sz :: uint
  p_kstack :: bool
  p_state :: procstate
  p_pid :: int
  p_parent :: "nat option"
  p_tf :: "string \<Rightarrow> uint"
  p_chan :: "chan option"
  p_killed :: bool
  p_ofile :: "nat option list"
  p_cwd :: "nat option"
  p_name :: string
  p_tickets :: uint
  p_ticks :: uint

definition NPROC :: nat where "NPROC = 64"

record kernel =
  ptable :: "proc list"
  nextpid :: int
  initproc :: nat

definition upd_proc :: "nat \<Rightarrow> (proc \<Rightarrow> proc) \<Rightarrow> kernel \<Rightarrow> kernel" where
  "upd_proc i f k = k\<lparr>ptable := (ptable k)[i := f (ptable k ! i)]\<rparr>"

text \<open>The first free slot.\<close>

fun find_slot :: "(proc \<Rightarrow> bool) \<Rightarrow> proc list \<Rightarrow> nat \<Rightarrow> nat option" where
  "find_slot P [] i = None"
| "find_slot P (p # ps) i = (if P p then Some i else find_slot P ps (i + 1))"

text \<open>\<open>allocproc\<close>; \<open>kalloc_ok\<close> tells whether \<open>kalloc\<close> returned a page. The counter of identifiers is an \<open>int\<close>.\<close>

definition allocproc :: "bool \<Rightarrow> kernel \<Rightarrow> nat option \<times> kernel" where
  "allocproc kalloc_ok k =
    (case find_slot (\<lambda>p. p_state p = UNUSED) (ptable k) 0 of
       None \<Rightarrow> (None, k)
     | Some i \<Rightarrow>
        let k1 = (upd_proc i (\<lambda>p. p\<lparr>p_state := EMBRYO, p_pid := nextpid k, p_tickets := 1\<rparr>) k)
                   \<lparr>nextpid := int32 (nextpid k + 1)\<rparr> in
        if kalloc_ok then (Some i, upd_proc i (\<lambda>p. p\<lparr>p_kstack := True\<rparr>) k1)
        else (None, upd_proc i (\<lambda>p. p\<lparr>p_kstack := False, p_state := UNUSED\<rparr>) k1))"

text \<open>\<open>userinit\<close>: the first process; the page table is set up without failure.\<close>

definition userinit :: "kernel \<Rightarrow> kernel option" where
  "userinit k =
    (case allocproc True k of
       (None, _) \<Rightarrow> None
     | (Some i, k1) \<Rightarrow> Some (upd_proc i (\<lambda>p. p\<lparr>p_sz := 4096, p_name := ''initcode'', p_cwd := Some 0,
                                            p_state := RUNNABLE\<rparr>) (k1\<lparr>initproc := i\<rparr>)))"

text \<open>\<open>growproc\<close>; \<open>newsz\<close> is the result of \<open>allocuvm\<close> or \<open>deallocuvm\<close>, 0 on failure.\<close>

definition growproc :: "nat \<Rightarrow> int \<Rightarrow> uint \<Rightarrow> kernel \<Rightarrow> int \<times> kernel" where
  "growproc cur n newsz k =
    (if n = 0 then (0, k)
     else if newsz = 0 then (-1, k)
     else (0, upd_proc cur (\<lambda>p. p\<lparr>p_sz := newsz\<rparr>) k))"

text \<open>\<open>fork\<close> by process \<open>cur\<close>; \<open>filedup\<close> and \<open>idup\<close> return their argument. The lock is not held between
  \<open>allocproc\<close> and the last assignment; \<open>fork_copy\<close> is what follows \<open>allocproc\<close>, on the slot \<open>np\<close>, which nobody else
  uses while it is an embryo.\<close>

definition fork_copy :: "nat \<Rightarrow> nat \<Rightarrow> bool \<Rightarrow> kernel \<Rightarrow> int \<times> kernel" where
  "fork_copy cur np copyuvm_ok k =
    (if \<not> copyuvm_ok then (-1, upd_proc np (\<lambda>p. p\<lparr>p_kstack := False, p_state := UNUSED\<rparr>) k)
     else let c = ptable k ! cur in
       (p_pid (ptable k ! np),
        upd_proc np (\<lambda>p. p\<lparr>p_sz := p_sz c, p_parent := Some cur, p_tickets := p_tickets c,
                           p_tf := (p_tf c)(''eax'' := 0),
                           p_ofile := map2 (\<lambda>f g. if f \<noteq> None then f else g) (p_ofile c) (p_ofile p),
                           p_cwd := p_cwd c, p_name := p_name c, p_state := RUNNABLE\<rparr>) k))"

definition fork :: "nat \<Rightarrow> bool \<Rightarrow> bool \<Rightarrow> kernel \<Rightarrow> int \<times> kernel" where
  "fork cur kalloc_ok copyuvm_ok k =
    (case allocproc kalloc_ok k of
       (None, k1) \<Rightarrow> (-1, k1)
     | (Some np, k1) \<Rightarrow> fork_copy cur np copyuvm_ok k1)"

definition wakeup1 :: "chan option \<Rightarrow> kernel \<Rightarrow> kernel" where
  "wakeup1 c k = k\<lparr>ptable := map (\<lambda>p. if p_state p = SLEEPING \<and> p_chan p = c
                                      then p\<lparr>p_state := RUNNABLE\<rparr> else p) (ptable k)\<rparr>"

text \<open>The loop of \<open>exit\<close> that passes the children to \<open>init\<close>.\<close>

definition reparent1 :: "nat \<Rightarrow> nat \<Rightarrow> kernel \<Rightarrow> kernel" where
  "reparent1 cur i k =
    (if p_parent (ptable k ! i) = Some cur then
       let k1 = upd_proc i (\<lambda>p. p\<lparr>p_parent := Some (initproc k)\<rparr>) k in
       if p_state (ptable k ! i) = ZOMBIE then wakeup1 (Some (ChanProc (initproc k))) k1 else k1
     else k)"

text \<open>\<open>exit\<close>, up to the jump into the scheduler; \<open>None\<close> is the panic.\<close>

definition exit :: "nat \<Rightarrow> kernel \<Rightarrow> kernel option" where
  "exit cur k =
    (if cur = initproc k then None
     else let k1 = upd_proc cur (\<lambda>p. p\<lparr>p_ofile := replicate (length (p_ofile p)) None, p_cwd := None\<rparr>) k;
              k2 = wakeup1 (map_option ChanProc (p_parent (ptable k1 ! cur))) k1;
              k3 = fold (reparent1 cur) [0..<length (ptable k)] k2
          in Some (upd_proc cur (\<lambda>p. p\<lparr>p_state := ZOMBIE\<rparr>) k3))"

text \<open>One round of \<open>wait\<close>: a reaped child's pid, \<open>-1\<close>, or the process goes to sleep.\<close>

datatype wait_result = Reaped int | NoChild | Asleep

fun wait_scan :: "nat \<Rightarrow> nat list \<Rightarrow> bool \<Rightarrow> kernel \<Rightarrow> (int \<times> kernel, bool) sum" where
  "wait_scan cur [] havekids k = Inr havekids"
| "wait_scan cur (i # is) havekids k =
    (let p = ptable k ! i in
     if p_parent p \<noteq> Some cur then wait_scan cur is havekids k
     else if p_state p = ZOMBIE then
       Inl (p_pid p, upd_proc i (\<lambda>p. p\<lparr>p_kstack := False, p_pid := 0, p_parent := None, p_name := [],
                                       p_killed := False, p_state := UNUSED\<rparr>) k)
     else wait_scan cur is True k)"

definition sleep :: "nat \<Rightarrow> chan \<Rightarrow> kernel \<Rightarrow> kernel" where
  "sleep cur c k = upd_proc cur (\<lambda>p. p\<lparr>p_chan := Some c, p_state := SLEEPING\<rparr>) k"

definition wait :: "nat \<Rightarrow> kernel \<Rightarrow> wait_result \<times> kernel" where
  "wait cur k =
    (case wait_scan cur [0..<length (ptable k)] False k of
       Inl (pid, k1) \<Rightarrow> (Reaped pid, k1)
     | Inr havekids \<Rightarrow>
        if \<not> havekids \<or> p_killed (ptable k ! cur) then (NoChild, k)
        else (Asleep, sleep cur (ChanProc cur) k))"

text \<open>The end of \<open>sleep\<close>, when the process runs again.\<close>

definition sleep_return :: "nat \<Rightarrow> kernel \<Rightarrow> kernel" where
  "sleep_return cur k = upd_proc cur (\<lambda>p. p\<lparr>p_chan := None\<rparr>) k"

definition wakeup :: "chan \<Rightarrow> kernel \<Rightarrow> kernel" where
  "wakeup c k = wakeup1 (Some c) k"

definition yield :: "nat \<Rightarrow> kernel \<Rightarrow> kernel" where
  "yield cur k = upd_proc cur (\<lambda>p. p\<lparr>p_state := RUNNABLE\<rparr>) k"

definition kill :: "int \<Rightarrow> kernel \<Rightarrow> int \<times> kernel" where
  "kill pid k =
    (case find_slot (\<lambda>p. p_pid p = pid) (ptable k) 0 of
       None \<Rightarrow> (-1, k)
     | Some i \<Rightarrow> (0, upd_proc i (\<lambda>p. p\<lparr>p_killed := True,
                      p_state := (if p_state p = SLEEPING then RUNNABLE else p_state p)\<rparr>) k))"

definition settickets :: "nat \<Rightarrow> uint \<Rightarrow> kernel \<Rightarrow> int \<times> kernel" where
  "settickets cur number k =
    (case find_slot (\<lambda>p. p_pid p = p_pid (ptable k ! cur)) (ptable k) 0 of
       None \<Rightarrow> (-1, k)
     | Some i \<Rightarrow> (0, upd_proc i (\<lambda>p. p\<lparr>p_tickets := number\<rparr>) k))"

text \<open>The system call; the argument has been fetched from user space.\<close>

definition sys_settickets :: "nat \<Rightarrow> uint \<Rightarrow> kernel \<Rightarrow> int \<times> kernel" where
  "sys_settickets cur n k = (if sint n < 1 then (-1, k) else settickets cur n k)"

record pstat =
  ps_inuse :: "int list"
  ps_tickets :: "uint list"
  ps_pid :: "int list"
  ps_ticks :: "uint list"

definition getpinfo :: "kernel \<Rightarrow> pstat" where
  "getpinfo k =
     \<lparr>ps_inuse = map (\<lambda>p. if p_state p = UNUSED then 0 else 1) (ptable k),
      ps_tickets = map p_tickets (ptable k), ps_pid = map p_pid (ptable k),
      ps_ticks = map p_ticks (ptable k)\<rparr>"

section \<open>The scheduler\<close>

definition total_tickets :: "kernel \<Rightarrow> uint" where
  "total_tickets k = fold (\<lambda>p t. if p_state p = RUNNABLE then t + p_tickets p else t) (ptable k) 0"

text \<open>
  The second loop of \<open>scheduler\<close>: \<open>run i k\<close> stands for \<open>swtch\<close>, the kernel after process \<open>i\<close> has run
  and switched back, with the clock ticks that have passed. The result lists the processes that
  were run. A process with more than one ticket is printed with the identifier of its parent; \<open>None\<close> is
  the null pointer that is followed there when it has none.
\<close>

fun sched_loop ::
  "(nat \<Rightarrow> kernel \<Rightarrow> kernel \<times> uint) \<Rightarrow> uint \<Rightarrow> nat list \<Rightarrow> uint \<Rightarrow> kernel \<Rightarrow> (nat list \<times> kernel) option" where
  "sched_loop run winner [] counter k = Some ([], k)"
| "sched_loop run winner (i # is) counter k =
    (let p = ptable k ! i in
     if p_state p \<noteq> RUNNABLE then sched_loop run winner is counter k
     else let counter = counter + p_tickets p in
       if sint counter \<le> sint winner then sched_loop run winner is counter k
       else let k1 = upd_proc i (\<lambda>p. p\<lparr>p_state := RUNNING\<rparr>) k;
                (k2, elapsed) = run i k1;
                k3 = upd_proc i (\<lambda>p. p\<lparr>p_ticks := p_ticks p + elapsed\<rparr>) k2
            in if 1 < sint (p_tickets (ptable k3 ! i)) \<and> Option.is_none (p_parent (ptable k3 ! i)) then None
               else map_option (apfst ((#) i)) (sched_loop run winner is counter k3))"

text \<open>One round of the scheduler's endless loop, with the generator's value; \<open>None\<close> when the draw
  does not return, and in the case of the null pointer.\<close>

definition scheduler_round ::
  "nat \<Rightarrow> (nat \<Rightarrow> kernel \<Rightarrow> kernel \<times> uint) \<Rightarrow> uint \<Rightarrow> kernel \<Rightarrow> (nat list \<times> kernel \<times> uint) option" where
  "scheduler_round fuel run val k =
    (case getwinner fuel (total_tickets k) val of
       Winner winner val' \<Rightarrow>
         map_option (\<lambda>(ran, k'). (ran, k', val')) (sched_loop run winner [0..<length (ptable k)] 0 k)
     | _ \<Rightarrow> None)"

end
