(* ===== verification/Lottery_Correct.thy ===== *)
theory Lottery_Correct
  imports Lottery_Proc
begin

text \<open>
  Properties of the process table and of the lottery: an invariant of every sequence of kernel
  operations, what \<open>fork\<close>, \<open>exit\<close> and \<open>wait\<close> do to the table, and which processes a round of the
  scheduler runs.
\<close>

section \<open>Slots\<close>

lemma find_slot_Some:
  "find_slot P ps i = Some j \<Longrightarrow> i \<le> j \<and> j < i + length ps \<and> P (ps ! (j - i)) \<and> (\<forall>m < j - i. \<not> P (ps ! m))"
proof (induction ps arbitrary: i)
  case (Cons p ps)
  show ?case
  proof (cases "P p")
    case True
    with Cons.prems show ?thesis by simp
  next
    case False
    then have ih: "Suc i \<le> j" "j < Suc i + length ps" "P (ps ! (j - Suc i))" "\<forall>m < j - Suc i. \<not> P (ps ! m)"
      using Cons.IH [of "Suc i"] Cons.prems by auto
    then have "(p # ps) ! (j - i) = ps ! (j - Suc i)" by (simp add: nth_Cons')
    moreover have "\<not> P ((p # ps) ! m)" if "m < j - i" for m
      using False ih that by (cases m) auto
    ultimately show ?thesis using ih by simp
  qed
qed simp

lemma find_slot_None: "find_slot P ps i = None \<longleftrightarrow> (\<forall>p \<in> set ps. \<not> P p)"
  by (induction ps arbitrary: i) auto

lemma find_slot_0:
  assumes "find_slot P ps 0 = Some j"
  shows "j < length ps \<and> P (ps ! j)"
  using find_slot_Some [OF assms] by auto

lemma upd_proc_simps [simp]:
  "length (ptable (upd_proc i f k)) = length (ptable k)"
  "nextpid (upd_proc i f k) = nextpid k" "initproc (upd_proc i f k) = initproc k"
  "j < length (ptable k) \<Longrightarrow> ptable (upd_proc i f k) ! j = (if i = j then f (ptable k ! j) else ptable k ! j)"
  by (auto simp: upd_proc_def nth_update)

lemma wakeup1_simps [simp]:
  "length (ptable (wakeup1 c k)) = length (ptable k)"
  "nextpid (wakeup1 c k) = nextpid k" "initproc (wakeup1 c k) = initproc k"
  "j < length (ptable k) \<Longrightarrow> ptable (wakeup1 c k) ! j =
     (if p_state (ptable k ! j) = SLEEPING \<and> p_chan (ptable k ! j) = c
      then (ptable k ! j)\<lparr>p_state := RUNNABLE\<rparr> else ptable k ! j)"
  by (auto simp: wakeup1_def)

section \<open>The invariant\<close>

definition alive :: "proc \<Rightarrow> bool" where
  "alive p \<longleftrightarrow> p_state p \<noteq> UNUSED \<and> p_state p \<noteq> EMBRYO \<and> p_state p \<noteq> ZOMBIE"

text \<open>Process identifiers are below \<open>nextpid\<close> and unique, a process in use has one and at least one
  ticket, and the parent of a process is alive.\<close>

definition kinv :: "kernel \<Rightarrow> bool" where
  "kinv k \<longleftrightarrow> length (ptable k) = NPROC \<and> initproc k < NPROC \<and> alive (ptable k ! initproc k) \<and>
     1 \<le> nextpid k \<and> nextpid k < 2 ^ 31 \<and>
     (\<forall>i < NPROC. 0 \<le> p_pid (ptable k ! i) \<and> p_pid (ptable k ! i) < nextpid k) \<and>
     (\<forall>i < NPROC. \<forall>j < NPROC. p_pid (ptable k ! i) = p_pid (ptable k ! j) \<longrightarrow> i = j \<or> p_pid (ptable k ! i) = 0) \<and>
     (\<forall>i < NPROC. p_state (ptable k ! i) \<noteq> UNUSED \<longrightarrow>
        p_pid (ptable k ! i) \<noteq> 0 \<and> 1 \<le> sint (p_tickets (ptable k ! i))) \<and>
     (\<forall>i < NPROC. \<forall>j. p_parent (ptable k ! i) = Some j \<longrightarrow> j < NPROC \<and> alive (ptable k ! j))"

text \<open>An operation that keeps identifiers and parents and does not end a process.\<close>

lemma kinv_keep:
  assumes "kinv k" and "length (ptable k') = length (ptable k)" "nextpid k' = nextpid k" "initproc k' = initproc k"
    and "\<And>i. i < NPROC \<Longrightarrow> p_pid (ptable k' ! i) = p_pid (ptable k ! i)"
    and "\<And>i. i < NPROC \<Longrightarrow> p_parent (ptable k' ! i) = p_parent (ptable k ! i)"
    and "\<And>i. i < NPROC \<Longrightarrow> alive (ptable k ! i) \<Longrightarrow> alive (ptable k' ! i)"
    and "\<And>i. i < NPROC \<Longrightarrow> p_state (ptable k' ! i) \<noteq> UNUSED \<Longrightarrow>
           p_state (ptable k ! i) \<noteq> UNUSED \<and> 1 \<le> sint (p_tickets (ptable k' ! i))"
  shows "kinv k'"
  using assms(1) unfolding kinv_def assms(2-4)
  by (auto simp: assms(5,6) dest: assms(7) assms(8)) (metis assms(7,8))+

section \<open>The operations keep it\<close>

datatype kop =
  KAlloc nat bool | KForkCopy nat nat bool | KExit nat | KWait nat | KSleep nat chan | KSleepReturn nat | KWakeup chan
| KYield nat | KKill int | KSetTickets nat uint | KGrow nat int uint | KDispatch nat

text \<open>An operation of the running process \<open>cur\<close>, an interrupt, or the scheduler giving the processor to
  a runnable process; \<open>None\<close> when it is not possible or panics. \<open>fork\<close> is two steps, between which other
  processors can work on the table.\<close>

definition running :: "nat \<Rightarrow> kernel \<Rightarrow> bool" where
  "running cur k \<longleftrightarrow> cur < NPROC \<and> p_state (ptable k ! cur) = RUNNING"

fun kstep :: "kop \<Rightarrow> kernel \<Rightarrow> kernel option" where
  "kstep (KAlloc cur a) k = (if running cur k then Some (snd (allocproc a k)) else None)"
| "kstep (KForkCopy cur np b) k = (if running cur k \<and> np < NPROC \<and> p_state (ptable k ! np) = EMBRYO
     then Some (snd (fork_copy cur np b k)) else None)"
| "kstep (KExit cur) k = (if running cur k then exit cur k else None)"
| "kstep (KWait cur) k = (if running cur k then Some (snd (wait cur k)) else None)"
| "kstep (KSleep cur c) k = (if running cur k then Some (sleep cur c k) else None)"
| "kstep (KSleepReturn cur) k = (if running cur k then Some (sleep_return cur k) else None)"
| "kstep (KWakeup c) k = Some (wakeup c k)"
| "kstep (KYield cur) k = (if running cur k then Some (yield cur k) else None)"
| "kstep (KKill pid) k = Some (snd (kill pid k))"
| "kstep (KSetTickets cur n) k = (if running cur k then Some (snd (sys_settickets cur n k)) else None)"
| "kstep (KGrow cur n newsz) k = (if running cur k then Some (snd (growproc cur n newsz k)) else None)"
| "kstep (KDispatch i) k = (if i < NPROC \<and> p_state (ptable k ! i) = RUNNABLE
     then Some (upd_proc i (\<lambda>p. p\<lparr>p_state := RUNNING\<rparr>) k) else None)"

lemma kinv_len: "kinv k \<Longrightarrow> length (ptable k) = NPROC"
  by (simp add: kinv_def)

lemma kinv_tickets: "kinv k \<Longrightarrow> i < NPROC \<Longrightarrow> p_state (ptable k ! i) \<noteq> UNUSED \<Longrightarrow> 1 \<le> sint (p_tickets (ptable k ! i))"
  by (simp add: kinv_def)

lemma kinv_pid: "kinv k \<Longrightarrow> i < NPROC \<Longrightarrow> p_pid (ptable k ! i) < nextpid k"
  by (simp add: kinv_def)

lemma kinv_wakeup1: "kinv k \<Longrightarrow> kinv (wakeup1 c k)"
  by (rule kinv_keep [of k]) (auto simp: kinv_len alive_def kinv_tickets)

lemma kinv_upd:
  assumes "kinv k" "i < NPROC"
    and "p_pid (f (ptable k ! i)) = p_pid (ptable k ! i)" "p_parent (f (ptable k ! i)) = p_parent (ptable k ! i)"
    and "alive (ptable k ! i) \<Longrightarrow> alive (f (ptable k ! i))"
    and "p_state (f (ptable k ! i)) \<noteq> UNUSED \<Longrightarrow> p_state (ptable k ! i) \<noteq> UNUSED \<and>
           1 \<le> sint (p_tickets (f (ptable k ! i)))"
  shows "kinv (upd_proc i f k)"
  using assms by (intro kinv_keep [OF assms(1)]) (auto simp: kinv_len kinv_tickets)

lemma kinv_kill: "kinv k \<Longrightarrow> kinv (snd (kill pid k))"
  by (auto simp: kill_def split: option.split if_splits intro!: kinv_upd
      dest!: find_slot_0 simp: kinv_len alive_def kinv_tickets)

lemma kinv_sys_settickets:
  assumes "kinv k"
  shows "kinv (snd (sys_settickets cur n k))"
  using assms
  by (auto simp: sys_settickets_def settickets_def split: option.split intro!: kinv_upd
      dest!: find_slot_0 simp: kinv_len alive_def kinv_tickets)

text \<open>\<open>allocproc\<close> takes a free slot and a fresh identifier.\<close>

lemma allocproc_cases:
  assumes "allocproc ok k = (r, k')" "kinv k"
  shows "(r = None \<and> k' = k) \<or> (\<exists>i < NPROC. \<exists>q. p_state (ptable k ! i) = UNUSED \<and>
    k' = upd_proc i (\<lambda>_. q) (k\<lparr>nextpid := int32 (nextpid k + 1)\<rparr>) \<and>
    p_pid q = nextpid k \<and> p_tickets q = 1 \<and> p_parent q = p_parent (ptable k ! i) \<and>
    (r = Some i \<and> ok \<and> p_state q = EMBRYO \<or> r = None \<and> p_state q = UNUSED))"
proof (cases "find_slot (\<lambda>p. p_state p = UNUSED) (ptable k) 0")
  case None
  with assms show ?thesis by (simp add: allocproc_def)
next
  case (Some i)
  then have i: "i < NPROC" "p_state (ptable k ! i) = UNUSED" using find_slot_0 [OF Some] assms(2) by (auto simp: kinv_len)
  let ?p = "(ptable k ! i)\<lparr>p_state := EMBRYO, p_pid := nextpid k, p_tickets := 1\<rparr>"
  let ?q = "if ok then ?p\<lparr>p_kstack := True\<rparr> else ?p\<lparr>p_kstack := False, p_state := UNUSED\<rparr>"
  have "k' = upd_proc i (\<lambda>_. ?q) (k\<lparr>nextpid := int32 (nextpid k + 1)\<rparr>)" "r = (if ok then Some i else None)"
    using assms i by (auto simp: allocproc_def Some Let_def upd_proc_def kinv_len split: if_splits)
  then show ?thesis
    using i by (intro disjI2 exI [of _ i] conjI [OF i(1)] exI [of _ ?q]) (cases ok; simp)
qed

text \<open>A slot that is not alive gets a parent that is, and keeps its identifier or gets a fresh one.\<close>

lemma kinv_fill:
  assumes "kinv k" "i < NPROC" "\<not> alive (ptable k ! i)"
    and "p_pid q = p_pid (ptable k ! i) \<and> n = nextpid k \<and> (p_state q \<noteq> UNUSED \<longrightarrow> p_state (ptable k ! i) \<noteq> UNUSED) \<or>
      p_pid q = nextpid k \<and> n = nextpid k + 1"
    and "n < 2 ^ 31" "p_state q \<noteq> UNUSED \<Longrightarrow> 1 \<le> sint (p_tickets q)"
    and "\<And>j. p_parent q = Some j \<Longrightarrow> j < NPROC \<and> alive (ptable k ! j)"
  shows "kinv (upd_proc i (\<lambda>_. q) (k\<lparr>nextpid := n\<rparr>))"
proof -
  have pids: "\<And>j. j < NPROC \<Longrightarrow> 0 \<le> p_pid (ptable k ! j) \<and> p_pid (ptable k ! j) < nextpid k"
    and uniq: "\<And>a b. a < NPROC \<Longrightarrow> b < NPROC \<Longrightarrow> p_pid (ptable k ! a) = p_pid (ptable k ! b) \<Longrightarrow>
       a = b \<or> p_pid (ptable k ! a) = 0"
    and used: "\<And>a. a < NPROC \<Longrightarrow> p_state (ptable k ! a) \<noteq> UNUSED \<Longrightarrow> p_pid (ptable k ! a) \<noteq> 0 \<and> 1 \<le> sint (p_tickets (ptable k ! a))"
    and par: "\<And>a j. a < NPROC \<Longrightarrow> p_parent (ptable k ! a) = Some j \<Longrightarrow> j < NPROC \<and> alive (ptable k ! j)"
    and init: "initproc k < NPROC" "alive (ptable k ! initproc k)" "1 \<le> nextpid k" and len: "length (ptable k) = NPROC"
    using assms(1) by (auto simp: kinv_def)
  let ?k = "upd_proc i (\<lambda>_. q) (k\<lparr>nextpid := n\<rparr>)"
  have slot: "ptable ?k ! j = (if i = j then q else ptable k ! j)" if "j < NPROC" for j
    using that len by simp
  have al: "alive (ptable ?k ! j)" if "j < NPROC" "alive (ptable k ! j)" for j
    using that assms(3) by (auto simp: slot)
  show ?thesis
    unfolding kinv_def
  proof (intro conjI allI impI)
    fix a b assume ab: "a < NPROC" "b < NPROC" "p_pid (ptable ?k ! a) = p_pid (ptable ?k ! b)"
    show "a = b \<or> p_pid (ptable ?k ! a) = 0"
      using ab pids [of a] pids [of b] uniq [of a b] assms(4) by (auto simp: slot split: if_splits)
  next
    fix a j assume a: "a < NPROC" "p_parent (ptable ?k ! a) = Some j"
    then have "j < NPROC \<and> alive (ptable k ! j)" using par [of a j] assms(7) by (auto simp: slot split: if_splits)
    then show "j < NPROC" "alive (ptable ?k ! j)" using al by auto
  next
    fix a assume a: "a < NPROC"
    show "p_pid (ptable ?k ! a) < nextpid ?k" "0 \<le> p_pid (ptable ?k ! a)"
      using a pids [of a] pids [of i] init(3) assms(4) by (auto simp: slot)
    show "p_pid (ptable ?k ! a) \<noteq> 0" "1 \<le> sint (p_tickets (ptable ?k ! a))" if "p_state (ptable ?k ! a) \<noteq> UNUSED"
      using a that used [of a] used [of i] init(3) assms(4,6) by (auto simp: slot split: if_splits)
  next
    show "alive (ptable ?k ! initproc ?k)" using al init by simp
  qed (use len init assms(4,5) in auto)
qed

lemma kinv_parent: "kinv k \<Longrightarrow> i < NPROC \<Longrightarrow> p_parent (ptable k ! i) = Some j \<Longrightarrow> j < NPROC \<and> alive (ptable k ! j)"
  by (simp add: kinv_def)

lemma kinv_allocproc:
  assumes inv: "kinv k" and al: "allocproc a k = (r, k')" and wrap: "nextpid k \<le> nextpid k'"
  shows "kinv k' \<and> (\<forall>np. r = Some np \<longrightarrow> np < NPROC \<and> p_state (ptable k ! np) = UNUSED \<and> p_state (ptable k' ! np) = EMBRYO) \<and>
    (\<forall>j < NPROC. p_state (ptable k ! j) \<noteq> UNUSED \<longrightarrow> ptable k' ! j = ptable k ! j)"
  using allocproc_cases [OF al inv]
proof
  assume "r = None \<and> k' = k"
  with inv show ?thesis by simp
next
  assume "\<exists>i < NPROC. \<exists>q. p_state (ptable k ! i) = UNUSED \<and>
    k' = upd_proc i (\<lambda>_. q) (k\<lparr>nextpid := int32 (nextpid k + 1)\<rparr>) \<and>
    p_pid q = nextpid k \<and> p_tickets q = 1 \<and> p_parent q = p_parent (ptable k ! i) \<and>
    (r = Some i \<and> a \<and> p_state q = EMBRYO \<or> r = None \<and> p_state q = UNUSED)"
  then obtain i q where i: "i < NPROC" "p_state (ptable k ! i) = UNUSED" "p_pid q = nextpid k" "p_tickets q = 1"
    "p_parent q = p_parent (ptable k ! i)" and k': "k' = upd_proc i (\<lambda>_. q) (k\<lparr>nextpid := int32 (nextpid k + 1)\<rparr>)"
    and r: "r = Some i \<and> a \<and> p_state q = EMBRYO \<or> r = None \<and> p_state q = UNUSED" by blast
  have n: "int32 (nextpid k + 1) = nextpid k + 1 \<and> nextpid k + 1 < 2 ^ 31"
    using inv wrap k' by (intro int32_Suc) (auto simp: kinv_def)
  have "kinv k'" unfolding k' using i n kinv_parent [OF inv i(1)] inv
    by (intro kinv_fill) (auto simp: alive_def)
  with i r show ?thesis by (auto simp: k' kinv_len [OF inv])
qed

lemma kinv_embryo:
  assumes "kinv k" "i < NPROC" "p_state (ptable k ! i) = EMBRYO" "p_pid (f (ptable k ! i)) = p_pid (ptable k ! i)"
    and "p_state (f (ptable k ! i)) \<noteq> UNUSED \<Longrightarrow> 1 \<le> sint (p_tickets (f (ptable k ! i)))"
    and "\<And>j. p_parent (f (ptable k ! i)) = Some j \<Longrightarrow> j < NPROC \<and> alive (ptable k ! j)"
  shows "kinv (upd_proc i f k)"
proof -
  have "kinv (upd_proc i (\<lambda>_. f (ptable k ! i)) (k\<lparr>nextpid := nextpid k\<rparr>))"
    using assms by (intro kinv_fill) (auto simp: alive_def kinv_def)
  then show ?thesis by (simp add: upd_proc_def)
qed

lemma kinv_fork_copy:
  assumes inv: "kinv k" and cur: "running cur k" and np: "np < NPROC" "p_state (ptable k ! np) = EMBRYO"
  shows "kinv (snd (fork_copy cur np b k))"
proof -
  have cl: "cur < NPROC" "alive (ptable k ! cur)" "p_state (ptable k ! cur) \<noteq> UNUSED"
    using cur by (auto simp: running_def alive_def)
  show ?thesis
    using cl kinv_tickets [OF inv cl(1,3)] kinv_parent [OF inv np(1)] unfolding fork_copy_def
    by (auto simp: Let_def intro!: kinv_embryo [OF inv np])
qed

lemma kinv_fork:
  assumes inv: "kinv k" and cur: "running cur k" and wrap: "nextpid k \<le> nextpid (snd (fork cur a b k))"
  shows "kinv (snd (fork cur a b k))"
proof -
  obtain r k1 where al: "allocproc a k = (r, k1)" by (cases "allocproc a k")
  have "nextpid (snd (fork cur a b k)) = nextpid k1"
    using al by (auto simp: fork_def fork_copy_def Let_def split: option.splits)
  with wrap kinv_allocproc [OF inv al] have k1: "kinv k1"
    "\<And>np. r = Some np \<Longrightarrow> np < NPROC \<and> p_state (ptable k1 ! np) = EMBRYO"
    "\<And>j. j < NPROC \<Longrightarrow> p_state (ptable k ! j) \<noteq> UNUSED \<Longrightarrow> ptable k1 ! j = ptable k ! j" by auto
  have "running cur k1" using cur k1(3) [of cur] by (auto simp: running_def)
  with al k1 kinv_fork_copy [of k1 cur] show ?thesis by (cases r) (auto simp: fork_def)
qed

lemma kinv_wait:
  assumes inv: "kinv k" and cur: "running cur k"
  shows "kinv (snd (wait cur k))"
proof -
  have sleepy: "kinv (sleep cur c k)" for c
    using inv cur unfolding sleep_def
    by (intro kinv_upd) (auto simp: running_def alive_def kinv_tickets)
  have reap: "kinv k1" if "wait_scan cur is h k = Inl (pid, k1)" "set is \<subseteq> {..<NPROC}" for "is" h pid k1
    using that
  proof (induction "is" arbitrary: h)
    case (Cons i "is")
    show ?case
    proof (cases "p_parent (ptable k ! i) = Some cur \<and> p_state (ptable k ! i) = ZOMBIE")
      case True
      then have k1: "k1 = upd_proc i (\<lambda>p. p\<lparr>p_kstack := False, p_pid := 0, p_parent := None, p_name := [],
                                       p_killed := False, p_state := UNUSED\<rparr>) k"
        using Cons.prems(1) by (simp add: Let_def)
      have "i < NPROC" "\<not> alive (ptable k ! i)" using Cons.prems(2) True by (auto simp: alive_def)
      then show ?thesis
        using inv unfolding kinv_def k1 by (auto simp: alive_def split: if_splits)
    next
      case False
      with Cons show ?thesis by (auto simp: Let_def split: if_splits)
    qed
  qed simp
  have all: "set [0..<NPROC] \<subseteq> {..<NPROC}" by auto
  show ?thesis using inv sleepy reap [OF _ all] by (auto simp: wait_def kinv_len split: sum.splits)
qed

text \<open>The loop of \<open>exit\<close> over the children: what becomes of a slot.\<close>

definition slot_moved :: "nat \<Rightarrow> nat \<Rightarrow> bool \<Rightarrow> proc \<Rightarrow> proc \<Rightarrow> bool" where
  "slot_moved cur ini moved p p' \<longleftrightarrow>
     p_pid p' = p_pid p \<and> p_tickets p' = p_tickets p \<and> p_chan p' = p_chan p \<and>
     (p_state p' = p_state p \<or> p_state p = SLEEPING \<and> p_state p' = RUNNABLE) \<and>
     p_parent p' = (if moved \<and> p_parent p = Some cur then Some ini else p_parent p)"

lemma slot_moved_trans:
  "slot_moved cur ini a p p' \<Longrightarrow> slot_moved cur ini b p' p'' \<Longrightarrow> cur \<noteq> ini \<Longrightarrow> slot_moved cur ini (a \<or> b) p p''"
  by (auto simp: slot_moved_def split: if_splits)

lemma reparent1_slots:
  assumes "length (ptable k) = NPROC" "i < NPROC"
  shows "length (ptable (reparent1 cur i k)) = NPROC \<and> nextpid (reparent1 cur i k) = nextpid k \<and>
    initproc (reparent1 cur i k) = initproc k \<and>
    (\<forall>j < NPROC. slot_moved cur (initproc k) (j = i) (ptable k ! j) (ptable (reparent1 cur i k) ! j))"
  using assms by (auto simp: reparent1_def Let_def slot_moved_def)

lemma reparent_fold:
  assumes "length (ptable k) = NPROC" "set is \<subseteq> {..<NPROC}" "cur \<noteq> initproc k"
  shows "length (ptable (fold (reparent1 cur) is k)) = NPROC \<and> nextpid (fold (reparent1 cur) is k) = nextpid k \<and>
    initproc (fold (reparent1 cur) is k) = initproc k \<and>
    (\<forall>j < NPROC. slot_moved cur (initproc k) (j \<in> set is) (ptable k ! j) (ptable (fold (reparent1 cur) is k) ! j))"
  using assms
proof (induction "is" arbitrary: k)
  case (Cons i "is")
  let ?k = "reparent1 cur i k"
  have one: "length (ptable ?k) = NPROC" "nextpid ?k = nextpid k" "initproc ?k = initproc k"
    "\<And>j. j < NPROC \<Longrightarrow> slot_moved cur (initproc k) (j = i) (ptable k ! j) (ptable ?k ! j)"
    using reparent1_slots [of k i cur] Cons.prems by auto
  have "length (ptable (fold (reparent1 cur) is ?k)) = NPROC \<and> nextpid (fold (reparent1 cur) is ?k) = nextpid ?k \<and>
    initproc (fold (reparent1 cur) is ?k) = initproc ?k \<and>
    (\<forall>j < NPROC. slot_moved cur (initproc ?k) (j \<in> set is) (ptable ?k ! j) (ptable (fold (reparent1 cur) is ?k) ! j))"
    using Cons.prems one by (intro Cons.IH) auto
  note ih = this
  have "slot_moved cur (initproc k) (j \<in> set (i # is)) (ptable k ! j) (ptable (fold (reparent1 cur) is ?k) ! j)"
    if "j < NPROC" for j
    using slot_moved_trans [OF one(4) [OF that], of "j \<in> set is" "ptable (fold (reparent1 cur) is ?k) ! j"]
      ih one(3) Cons.prems(3) that by simp
  with ih one show ?case by simp
qed (auto simp: slot_moved_def)

text \<open>What \<open>exit\<close> leaves behind.\<close>

lemma exit_slots:
  assumes inv: "kinv k" and cur: "running cur k" and ex: "exit cur k = Some k'"
  shows "length (ptable k') = NPROC" "nextpid k' = nextpid k" "initproc k' = initproc k" "cur \<noteq> initproc k"
    and "\<And>j. j < NPROC \<Longrightarrow> j \<noteq> cur \<Longrightarrow> slot_moved cur (initproc k) True (ptable k ! j) (ptable k' ! j)"
    and "slot_moved cur (initproc k) True (ptable k ! cur) ((ptable k' ! cur)\<lparr>p_state := RUNNING\<rparr>)"
    and "p_state (ptable k' ! cur) = ZOMBIE"
    and "\<And>j. j < NPROC \<Longrightarrow> j \<noteq> cur \<Longrightarrow> p_parent (ptable k ! cur) = Some j \<Longrightarrow>
          p_state (ptable k ! j) = SLEEPING \<Longrightarrow> p_chan (ptable k ! j) = Some (ChanProc j) \<Longrightarrow>
          p_state (ptable k' ! j) = RUNNABLE"
proof -
  have len: "length (ptable k) = NPROC" using inv by (rule kinv_len)
  have c: "cur < NPROC" "p_state (ptable k ! cur) = RUNNING" using cur by (auto simp: running_def)
  show ni: "cur \<noteq> initproc k" using ex by (auto simp: exit_def split: if_splits)
  define k1 where "k1 = upd_proc cur (\<lambda>p. p\<lparr>p_ofile := replicate (length (p_ofile p)) None, p_cwd := None\<rparr>) k"
  define k2 where "k2 = wakeup1 (map_option ChanProc (p_parent (ptable k1 ! cur))) k1"
  define k3 where "k3 = fold (reparent1 cur) [0..<NPROC] k2"
  have k': "k' = upd_proc cur (\<lambda>p. p\<lparr>p_state := ZOMBIE\<rparr>) k3"
    using ex ni by (simp add: exit_def Let_def len k1_def k2_def k3_def)
  have l2: "length (ptable k2) = NPROC" "nextpid k2 = nextpid k" "initproc k2 = initproc k"
    by (simp_all add: k2_def k1_def len)
  have s2: "slot_moved cur (initproc k) False (ptable k ! j) (ptable k2 ! j)" if "j < NPROC" for j
    using that len by (auto simp: k2_def k1_def slot_moved_def)
  have f: "length (ptable k3) = NPROC" "nextpid k3 = nextpid k" "initproc k3 = initproc k"
    "\<And>j. j < NPROC \<Longrightarrow> slot_moved cur (initproc k) True (ptable k2 ! j) (ptable k3 ! j)"
  proof -
    have "set [0..<NPROC] \<subseteq> {..<NPROC}" by auto
    from reparent_fold [OF l2(1) this, of cur] l2 ni
    show "length (ptable k3) = NPROC" "nextpid k3 = nextpid k" "initproc k3 = initproc k"
      "\<And>j. j < NPROC \<Longrightarrow> slot_moved cur (initproc k) True (ptable k2 ! j) (ptable k3 ! j)"
      by (auto simp: k3_def)
  qed
  have s3: "slot_moved cur (initproc k) True (ptable k ! j) (ptable k3 ! j)" if "j < NPROC" for j
    using slot_moved_trans [OF s2 [OF that] f(4) [OF that] ni] by simp
  show "length (ptable k') = NPROC" "nextpid k' = nextpid k" "initproc k' = initproc k"
    by (simp_all add: k' f)
  show "slot_moved cur (initproc k) True (ptable k ! j) (ptable k' ! j)" if "j < NPROC" "j \<noteq> cur" for j
    using s3 [OF that(1)] that f(1) by (simp add: k')
  show "slot_moved cur (initproc k) True (ptable k ! cur) ((ptable k' ! cur)\<lparr>p_state := RUNNING\<rparr>)"
    using s3 [OF c(1)] c f(1) by (simp add: k' slot_moved_def)
  show "p_state (ptable k' ! cur) = ZOMBIE" using c f(1) by (simp add: k')
  show "p_state (ptable k' ! j) = RUNNABLE"
    if "j < NPROC" "j \<noteq> cur" "p_parent (ptable k ! cur) = Some j" "p_state (ptable k ! j) = SLEEPING"
      "p_chan (ptable k ! j) = Some (ChanProc j)" for j
  proof -
    have "p_state (ptable k2 ! j) = RUNNABLE" using that c len by (simp add: k2_def k1_def)
    then show ?thesis using f(4) [OF that(1)] that f(1) by (simp add: k' slot_moved_def)
  qed
qed

lemma kinv_exit:
  assumes inv: "kinv k" and cur: "running cur k" and ex: "exit cur k = Some k'"
  shows "kinv k'"
proof -
  note e = exit_slots [OF assms]
  have c: "cur < NPROC" "p_state (ptable k ! cur) = RUNNING" using cur by (auto simp: running_def)
  have slot: "p_pid (ptable k' ! j) = p_pid (ptable k ! j)" "p_tickets (ptable k' ! j) = p_tickets (ptable k ! j)"
    "p_parent (ptable k' ! j) = (if p_parent (ptable k ! j) = Some cur then Some (initproc k) else p_parent (ptable k ! j))"
    "p_state (ptable k' ! j) \<noteq> UNUSED \<longleftrightarrow> p_state (ptable k ! j) \<noteq> UNUSED"
    "alive (ptable k' ! j) \<longleftrightarrow> alive (ptable k ! j) \<and> j \<noteq> cur" if "j < NPROC" for j
    using e(5) [OF that] e(6,7) c by (cases "j = cur"; auto simp: slot_moved_def alive_def)+
  show ?thesis
    unfolding kinv_def e(1-3)
  proof (intro conjI allI impI)
    fix a j assume a: "a < NPROC" "p_parent (ptable k' ! a) = Some j"
    then have "j < NPROC \<and> alive (ptable k ! j) \<and> j \<noteq> cur"
      using inv e(4) by (auto simp: slot kinv_def split: if_splits)
    then show "j < NPROC" "alive (ptable k' ! j)" by (auto simp: slot)
  qed (use inv e(4) in \<open>auto simp: kinv_def slot\<close>)
qed

text \<open>A step after which the counter of identifiers is not smaller, so that it has not wrapped around.\<close>

lemma kinv_kstep:
  assumes "kinv k" "kstep op k = Some k'" "nextpid k \<le> nextpid k'"
  shows "kinv k'"
proof (cases op)
  case (KAlloc cur a)
  with assms kinv_allocproc [of k a "fst (allocproc a k)" k'] show ?thesis by (auto split: if_splits)
next
  case (KSleep cur c)
  with assms show ?thesis by (auto simp: sleep_def running_def alive_def kinv_tickets split: if_splits intro!: kinv_upd)
next
  case (KSleepReturn cur)
  with assms show ?thesis
    by (auto simp: sleep_return_def running_def alive_def kinv_tickets split: if_splits intro!: kinv_upd)
next
  case (KYield cur)
  with assms show ?thesis by (auto simp: yield_def running_def alive_def kinv_tickets split: if_splits intro!: kinv_upd)
next
  case (KGrow cur n newsz)
  with assms show ?thesis
    by (auto simp: growproc_def running_def alive_def kinv_tickets split: if_splits intro!: kinv_upd)
next
  case (KDispatch i)
  with assms show ?thesis by (auto simp: alive_def kinv_tickets split: if_splits intro!: kinv_upd)
qed (use assms in \<open>auto simp: wakeup_def split: if_splits
      intro: kinv_fork_copy kinv_wait kinv_exit kinv_wakeup1 kinv_kill kinv_sys_settickets\<close>)

text \<open>The kernel at boot: an all-zero process table, then \<open>userinit\<close>. A signed overflow is undefined in C, and the
  runs end before \<open>nextpid++\<close> does.\<close>

definition proc0 :: proc where
  "proc0 = \<lparr>p_sz = 0, p_kstack = False, p_state = UNUSED, p_pid = 0, p_parent = None, p_tf = (\<lambda>_. 0),
    p_chan = None, p_killed = False, p_ofile = replicate 16 None, p_cwd = None, p_name = [],
    p_tickets = 0, p_ticks = 0\<rparr>"

definition boot :: kernel where
  "boot = \<lparr>ptable = replicate NPROC proc0, nextpid = 1, initproc = 0\<rparr>"

inductive kreach :: "kernel \<Rightarrow> bool" where
  kreach_boot: "userinit boot = Some k \<Longrightarrow> kreach k"
| kreach_step: "kreach k \<Longrightarrow> kstep op k = Some k' \<Longrightarrow> nextpid k \<le> nextpid k' \<Longrightarrow> kreach k'"

inductive_cases kreachE: "kreach k"

lemma find_slot_replicate: "P x \<Longrightarrow> 0 < n \<Longrightarrow> find_slot P (replicate n x) i = Some i"
  by (cases n) auto

lemma kinv_boot:
  assumes "userinit boot = Some k"
  shows "kinv k"
proof -
  have slot: "find_slot (\<lambda>p. p_state p = UNUSED) (ptable boot) 0 = Some 0"
    by (simp add: boot_def find_slot_replicate proc0_def NPROC_def)
  have b: "nextpid boot = 1" "length (ptable boot) = NPROC" "0 < NPROC"
    "\<And>i. i < NPROC \<Longrightarrow> ptable boot ! i = proc0"
    by (simp_all add: boot_def NPROC_def)
  have "length (ptable k) = NPROC \<and> nextpid k = 2 \<and> initproc k = 0 \<and>
      (\<forall>i < NPROC. i \<noteq> 0 \<longrightarrow> ptable k ! i = proc0) \<and> p_state (ptable k ! 0) = RUNNABLE \<and>
      p_pid (ptable k ! 0) = 1 \<and> p_tickets (ptable k ! 0) = 1 \<and> p_parent (ptable k ! 0) = None"
    using assms by (auto simp: userinit_def allocproc_def slot Let_def b proc0_def int32_def)
  then have slots: "length (ptable k) = NPROC" "nextpid k = 2" "initproc k = 0"
    "\<And>i. i < NPROC \<Longrightarrow> p_pid (ptable k ! i) = (if i = 0 then 1 else 0)"
    "\<And>i. i < NPROC \<Longrightarrow> p_state (ptable k ! i) = (if i = 0 then RUNNABLE else UNUSED)"
    "\<And>i. i < NPROC \<Longrightarrow> p_parent (ptable k ! i) = None" "p_tickets (ptable k ! 0) = 1"
    by (auto simp: proc0_def)
  show ?thesis
    unfolding kinv_def alive_def slots(1-3) using b(3) by (simp add: slots)
qed

lemma kreach_kinv: "kreach k \<Longrightarrow> kinv k"
  by (induction rule: kreach.induct) (auto intro: kinv_boot kinv_kstep)

text \<open>Runs of the kernel from boot, for evaluating concrete histories.\<close>

definition kexec :: "kop \<Rightarrow> kernel \<Rightarrow> kernel option" where
  "kexec op k = (case kstep op k of None \<Rightarrow> None | Some k' \<Rightarrow> if nextpid k \<le> nextpid k' then Some k' else None)"

definition krun :: "kop list \<Rightarrow> kernel option" where
  "krun ops = fold (\<lambda>op k. Option.bind k (kexec op)) ops (userinit boot)"

lemma kreach_kexec: "kreach k \<Longrightarrow> kexec op k = Some k' \<Longrightarrow> kreach k'"
  by (auto simp: kexec_def intro: kreach_step split: option.splits if_splits)

lemma kreach_fold:
  "fold (\<lambda>op k. Option.bind k (kexec op)) ops k0 = Some k \<Longrightarrow> (\<And>k. k0 = Some k \<Longrightarrow> kreach k) \<Longrightarrow> kreach k"
proof (induction ops arbitrary: k0)
  case (Cons op ops)
  show ?case
    using Cons.prems by (intro Cons.IH [of "Option.bind k0 (kexec op)"])
      (auto simp: Option.bind_eq_Some_conv intro: kreach_kexec)
qed simp

lemma krun_test:
  "case krun ops of None \<Rightarrow> False | Some k \<Rightarrow> test k \<Longrightarrow> \<exists>k. krun ops = Some k \<and> kreach k \<and> test k"
  using kreach_fold [of ops "userinit boot"] by (auto simp: krun_def intro: kreach_boot split: option.splits)

section \<open>Waiting for a child\<close>

lemma wait_scan_zombie:
  assumes "z \<in> set is" "p_parent (ptable k ! z) = Some cur" "p_state (ptable k ! z) = ZOMBIE"
  shows "\<exists>i \<in> set is. p_parent (ptable k ! i) = Some cur \<and> p_state (ptable k ! i) = ZOMBIE \<and>
    wait_scan cur is h k = Inl (p_pid (ptable k ! i), upd_proc i (\<lambda>p. p\<lparr>p_kstack := False, p_pid := 0,
       p_parent := None, p_name := [], p_killed := False, p_state := UNUSED\<rparr>) k)"
  using assms
proof (induction "is" arbitrary: h)
  case (Cons i "is")
  show ?case
  proof (cases "p_parent (ptable k ! i) = Some cur \<and> p_state (ptable k ! i) = ZOMBIE")
    case True
    then show ?thesis by (auto simp: Let_def)
  next
    case False
    with Cons.prems have z: "z \<in> set is" by auto
    have "wait_scan cur (i # is) h k = wait_scan cur is (h \<or> p_parent (ptable k ! i) = Some cur) k"
      using False by (auto simp: Let_def)
    then show ?thesis using Cons.IH [OF z Cons.prems(2,3)] by fastforce
  qed
qed simp

section \<open>A round of the scheduler\<close>

text \<open>The tickets of the runnable processes up to and including slot \<open>i\<close>.\<close>

definition cum :: "kernel \<Rightarrow> nat \<Rightarrow> int" where
  "cum k i = (\<Sum>j < i. if p_state (ptable k ! j) = RUNNABLE then sint (p_tickets (ptable k ! j)) else 0)"

lemma cum_Suc [simp]:
  "cum k (Suc i) = cum k i + (if p_state (ptable k ! i) = RUNNABLE then sint (p_tickets (ptable k ! i)) else 0)"
  by (simp add: cum_def)

lemma cum_mono:
  assumes "\<And>j. j < n \<Longrightarrow> p_state (ptable k ! j) = RUNNABLE \<Longrightarrow> 1 \<le> sint (p_tickets (ptable k ! j))" "i \<le> n"
  shows "0 \<le> cum k i" "cum k i \<le> cum k n"
proof -
  have nn: "0 \<le> (if p_state (ptable k ! j) = RUNNABLE then sint (p_tickets (ptable k ! j)) else 0)" if "j < n" for j
    using assms(1) [OF that] by auto
  show "0 \<le> cum k i" unfolding cum_def using assms(2) nn by (intro sum_nonneg) auto
  show "cum k i \<le> cum k n" unfolding cum_def using assms(2) nn by (intro sum_mono2) auto
qed

lemma sint_add_nonneg:
  fixes a b :: uint
  assumes "0 \<le> sint a" "0 \<le> sint b" "sint a + sint b < 2 ^ 31"
  shows "sint (a + b) = sint a + sint b"
  using assms by (simp add: sint_word_add signed_take_bit_int_eq_self)

text \<open>A process whose line of output follows a null pointer: more than one ticket and no parent.\<close>

definition no_parent_line :: "kernel \<Rightarrow> nat \<Rightarrow> bool" where
  "no_parent_line k i \<longleftrightarrow> 1 < sint (p_tickets (ptable k ! i)) \<and> p_parent (ptable k ! i) = None"

text \<open>The runnable processes from slot \<open>m\<close> on at which the running total exceeds the winning number.\<close>

definition drawn :: "kernel \<Rightarrow> uint \<Rightarrow> nat list \<Rightarrow> nat list" where
  "drawn k w is = filter (\<lambda>i. p_state (ptable k ! i) = RUNNABLE \<and> sint w < cum k (Suc i)) is"

definition ran_or_fault :: "kernel \<Rightarrow> nat list \<Rightarrow> nat list option" where
  "ran_or_fault k is = (if list_ex (no_parent_line k) is then None else Some is)"

text \<open>What is assumed of a process that runs: it computes until the timer makes it yield, and changes no slot but
  its own, and there neither its tickets nor its parent.\<close>

definition computes :: "(nat \<Rightarrow> kernel \<Rightarrow> kernel \<times> uint) \<Rightarrow> bool" where
  "computes run \<longleftrightarrow> (\<forall>i k. length (ptable (fst (run i k))) = length (ptable k) \<and>
     (\<forall>j. j \<noteq> i \<longrightarrow> ptable (fst (run i k)) ! j = ptable k ! j) \<and>
     p_tickets (ptable (fst (run i k)) ! i) = p_tickets (ptable k ! i) \<and> p_parent (ptable (fst (run i k)) ! i) = p_parent (ptable k ! i))"

lemma drawn_Cons: "drawn k w (i # is) = (if p_state (ptable k ! i) = RUNNABLE \<and> sint w < cum k (Suc i) then i # drawn k w is else drawn k w is)"
  by (simp add: drawn_def)

lemma ran_or_fault_Cons: "ran_or_fault k (i # is) = (if no_parent_line k i then None else map_option ((#) i) (ran_or_fault k is))"
  by (simp add: ran_or_fault_def)

lemma sched_loop_runs:
  assumes run: "computes run"
    and tick: "\<And>j. j < n \<Longrightarrow> p_state (ptable k0 ! j) = RUNNABLE \<Longrightarrow> 1 \<le> sint (p_tickets (ptable k0 ! j))"
    and total: "cum k0 n < 2 ^ 31"
  shows "m \<le> n \<Longrightarrow> length (ptable k) = n \<Longrightarrow> (\<And>j. m \<le> j \<Longrightarrow> j < n \<Longrightarrow> ptable k ! j = ptable k0 ! j) \<Longrightarrow>
    sint c = cum k0 m \<Longrightarrow> map_option fst (sched_loop run w [m..<n] c k) = ran_or_fault k0 (drawn k0 w [m..<n])"
proof (induction "n - m" arbitrary: m k c)
  case 0
  then show ?case by (simp add: drawn_def ran_or_fault_def)
next
  case (Suc d)
  then have m: "m < n" by simp
  then have upt: "[m..<n] = m # [Suc m..<n]" by (rule upt_conv_Cons)
  let ?p = "ptable k0 ! m"
  have pm: "ptable k ! m = ?p" using Suc.prems m by simp
  show ?case
  proof (cases "p_state ?p = RUNNABLE")
    case False
    then have "map_option fst (sched_loop run w [Suc m..<n] c k) = ran_or_fault k0 (drawn k0 w [Suc m..<n])"
      using Suc m by (intro Suc.hyps) auto
    with False pm show ?thesis by (simp add: upt drawn_Cons)
  next
    case True
    have "cum k0 (Suc m) \<le> cum k0 n" "0 \<le> cum k0 m"
      using m by (auto intro: cum_mono(2) [OF tick] cum_mono(1) [OF tick, where n = n] simp del: cum_Suc)
    then have "sint (c + p_tickets ?p) = sint c + sint (p_tickets ?p)"
      using tick [OF m True] total Suc.prems(4) True by (intro sint_add_nonneg) simp_all
    then have cnt: "sint (c + p_tickets ?p) = cum k0 (Suc m)" using Suc.prems(4) True by simp
    show ?thesis
    proof (cases "sint (c + p_tickets ?p) \<le> sint w")
      case le: True
      have "map_option fst (sched_loop run w [Suc m..<n] (c + p_tickets ?p) k) = ran_or_fault k0 (drawn k0 w [Suc m..<n])"
        using Suc m cnt by (intro Suc.hyps) auto
      with le cnt pm True show ?thesis by (simp add: upt Let_def drawn_Cons del: cum_Suc)
    next
      case False
      define k1 where "k1 = upd_proc m (\<lambda>p. p\<lparr>p_state := RUNNING\<rparr>) k"
      define k3 where "k3 = upd_proc m (\<lambda>p. p\<lparr>p_ticks := p_ticks p + snd (run m k1)\<rparr>) (fst (run m k1))"
      have len: "length (ptable k3) = n" using Suc.prems(2) run by (simp add: k3_def k1_def computes_def)
      have same: "ptable k3 ! j = ptable k0 ! j" if "Suc m \<le> j" "j < n" for j
        using that Suc.prems(2,3) run by (simp add: k3_def k1_def computes_def)
      have own: "p_tickets (ptable k3 ! m) = p_tickets ?p" "p_parent (ptable k3 ! m) = p_parent ?p"
        using m Suc.prems(2) run pm by (simp_all add: k3_def k1_def computes_def)
      have ih: "map_option fst (sched_loop run w [Suc m..<n] (c + p_tickets ?p) k3) = ran_or_fault k0 (drawn k0 w [Suc m..<n])"
        using Suc(2) m cnt len same by (intro Suc.hyps) auto
      have "map_option fst (sched_loop run w [m..<n] c k) =
          (if no_parent_line k0 m then None else map_option ((#) m) (map_option fst (sched_loop run w [Suc m..<n] (c + p_tickets ?p) k3)))"
        using False True pm own
        by (auto simp: upt Let_def k1_def k3_def no_parent_line_def Option.is_none_def option.map_comp comp_def split: prod.splits)
      with ih True False cnt show ?thesis by (simp add: upt drawn_Cons ran_or_fault_Cons del: cum_Suc)
    qed
  qed
qed

section \<open>Properties\<close>

text \<open>
  C2: The invariant of the process table: after booting and any sequence of the two halves of \<open>fork\<close>, of
  \<open>exit\<close>, \<open>wait\<close>, \<open>sleep\<close>, \<open>wakeup\<close>, \<open>kill\<close>, \<open>yield\<close>, \<open>growproc\<close>, \<open>settickets\<close> calls and dispatches, failing
  ones included, during which the 32-bit counter of identifiers does not overflow (\<open>kreach\<close>), processes in use
  have distinct identifiers and at least one ticket, and the parent of every process is alive, so that
  a zombie always has somebody who can wait for it.
\<close>

theorem process_table_invariant:
  assumes "kreach k" and "i < NPROC" and "j < NPROC" and "p_state (ptable k ! i) \<noteq> UNUSED"
  shows "1 \<le> sint (p_tickets (ptable k ! i)) \<and>
    (p_pid (ptable k ! j) = p_pid (ptable k ! i) \<longrightarrow> j = i) \<and>
    (\<forall>q. p_parent (ptable k ! i) = Some q \<longrightarrow> q < NPROC \<and> alive (ptable k ! q))"
  using kreach_kinv [OF assms(1)] assms(2-4) unfolding kinv_def by metis

theorem process_table_invariant_witness:
  "\<exists>k. kreach k \<and> p_state (ptable k ! 1) = RUNNABLE \<and> p_parent (ptable k ! 1) = Some 0 \<and>
     1 \<le> sint (p_tickets (ptable k ! 1)) \<and> alive (ptable k ! 0)"
proof -
  have "case krun [KDispatch 0, KAlloc 0 True, KForkCopy 0 1 True] of None \<Rightarrow> False
      | Some k \<Rightarrow> p_state (ptable k ! 1) = RUNNABLE \<and> p_parent (ptable k ! 1) = Some 0" by code_simp
  then obtain k where k: "kreach k" "p_state (ptable k ! 1) = RUNNABLE \<and> p_parent (ptable k ! 1) = Some 0"
    by (blast dest: krun_test)
  then show ?thesis
    using process_table_invariant [of k 1 1] by (intro exI [of _ k]) (simp add: NPROC_def)
qed

text \<open>
  \<open>fork\<close> succeeds exactly when the table has a free slot (and memory is available); the child is
  runnable, has a fresh identifier, the parent's tickets and memory size, and 0 in its \<open>eax\<close>; every
  other slot stays as it was.
\<close>

theorem fork_child:
  assumes "kinv k" and "running cur k"
  shows "if \<exists>i < NPROC. p_state (ptable k ! i) = UNUSED then
      \<exists>np < NPROC. p_state (ptable k ! np) = UNUSED \<and> (let (pid, k') = fork cur True True k; c = ptable k' ! np in
        pid = nextpid k \<and> p_pid c = pid \<and> (\<forall>i < NPROC. p_pid (ptable k ! i) \<noteq> pid) \<and>
        p_state c = RUNNABLE \<and> p_parent c = Some cur \<and> p_tickets c = p_tickets (ptable k ! cur) \<and>
        p_sz c = p_sz (ptable k ! cur) \<and> p_tf c ''eax'' = 0 \<and>
        (\<forall>i < NPROC. i \<noteq> np \<longrightarrow> ptable k' ! i = ptable k ! i))
    else fork cur True True k = (-1, k)"
proof (cases "\<exists>i < NPROC. p_state (ptable k ! i) = UNUSED")
  case True
  have len: "length (ptable k) = NPROC" using assms(1) by (rule kinv_len)
  with True have "find_slot (\<lambda>p. p_state p = UNUSED) (ptable k) 0 \<noteq> None"
    unfolding find_slot_None by (metis nth_mem)
  then obtain np where slot: "find_slot (\<lambda>p. p_state p = UNUSED) (ptable k) 0 = Some np" by blast
  have np: "np < NPROC" "p_state (ptable k ! np) = UNUSED" using find_slot_0 [OF slot] len by auto
  then have cn: "cur \<noteq> np" "cur < NPROC" using assms(2) by (auto simp: running_def)
  have fresh: "p_pid (ptable k ! i) \<noteq> nextpid k" if "i < NPROC" for i
    using kinv_pid [OF assms(1) that] by simp
  show ?thesis
    using True np cn fresh len
    by (simp add: fork_def fork_copy_def allocproc_def slot Let_def) (intro exI [of _ np], simp)
next
  case False
  then have "find_slot (\<lambda>p. p_state p = UNUSED) (ptable k) 0 = None"
    using kinv_len [OF assms(1)] by (auto simp: find_slot_None in_set_conv_nth)
  then show ?thesis unfolding if_not_P [OF False] by (simp add: fork_def allocproc_def)
qed

theorem fork_child_witness:
  "\<exists>k np. kreach k \<and> p_state (ptable (snd (fork 0 True True k)) ! np) = RUNNABLE \<and>
     fst (fork 0 True True k) = nextpid k \<and> p_tf (ptable (snd (fork 0 True True k)) ! np) ''eax'' = 0"
proof -
  have "case krun [KDispatch 0] of None \<Rightarrow> False
      | Some k \<Rightarrow> running 0 k \<and> p_state (ptable k ! 1) = UNUSED" by code_simp
  then obtain k where k: "kreach k" "running 0 k \<and> p_state (ptable k ! 1) = UNUSED"
    by (blast dest: krun_test)
  then have "\<exists>i < NPROC. p_state (ptable k ! i) = UNUSED" by (intro exI [of _ 1]) (simp add: NPROC_def)
  then show ?thesis
    using fork_child [OF kreach_kinv [OF k(1)], of 0] k
    by (cases "fork 0 True True k") (auto simp: Let_def intro!: exI [of _ k])
qed

text \<open>
  C31: No wakeup is lost between \<open>exit\<close> and \<open>wait\<close>: when a process exits while its parent sleeps in
  \<open>wait\<close>, the parent becomes runnable, no process has the exited one as its parent any more, and
  when the parent runs again its \<open>wait\<close> returns the identifier of a child that has exited and frees
  its slot.
\<close>

theorem exit_then_wait:
  assumes "kinv k" and "running c k" and "exit c k = Some k1" and "p_parent (ptable k ! c) = Some p"
    and "p \<noteq> c" and "p_state (ptable k ! p) = SLEEPING" and "p_chan (ptable k ! p) = Some (ChanProc p)"
    and "kstep (KDispatch p) k1 = Some k2"
  shows "p_state (ptable k1 ! p) = RUNNABLE \<and> (\<forall>i < NPROC. p_parent (ptable k1 ! i) \<noteq> Some c) \<and>
    (\<exists>z < NPROC. \<exists>k4. p_parent (ptable k1 ! z) = Some p \<and> p_state (ptable k1 ! z) = ZOMBIE \<and>
       wait p (sleep_return p k2) = (Reaped (p_pid (ptable k1 ! z)), k4) \<and> p_pid (ptable k1 ! z) \<noteq> 0 \<and>
       p_state (ptable k4 ! z) = UNUSED)"
proof -
  note e = exit_slots [OF assms(1-3)]
  have p: "p < NPROC" using assms(1,2,4) by (auto simp: kinv_def running_def)
  have c: "c < NPROC" using assms(2) by (simp add: running_def)
  have run: "p_state (ptable k1 ! p) = RUNNABLE" using e(8) [OF p assms(5,4,6,7)] .
  have inv1: "kinv k1" using assms(1-3) by (rule kinv_exit)
  have par: "p_parent (ptable k1 ! c) = Some p" "p_state (ptable k1 ! c) = ZOMBIE"
    using e(6,7) assms(4,5) by (auto simp: slot_moved_def)
  have orphans: "p_parent (ptable k1 ! i) \<noteq> Some c" if "i < NPROC" for i
    using e(4-6) that by (cases "i = c") (auto simp: slot_moved_def split: if_splits)
  have k2: "k2 = upd_proc p (\<lambda>q. q\<lparr>p_state := RUNNING\<rparr>) k1" using assms(8) p run by simp
  define k3 where "k3 = sleep_return p k2"
  have len: "length (ptable k3) = NPROC" using e(1) by (simp add: k3_def k2 sleep_return_def)
  have slot: "p_parent (ptable k3 ! i) = p_parent (ptable k1 ! i)" "p_pid (ptable k3 ! i) = p_pid (ptable k1 ! i)"
    "p_state (ptable k3 ! i) = ZOMBIE \<longleftrightarrow> p_state (ptable k1 ! i) = ZOMBIE" if "i < NPROC" for i
    using that e(1) run by (auto simp: k3_def k2 sleep_return_def)
  obtain z where z: "z \<in> set [0..<NPROC]" "p_parent (ptable k3 ! z) = Some p" "p_state (ptable k3 ! z) = ZOMBIE"
    "wait_scan p [0..<NPROC] False k3 = Inl (p_pid (ptable k3 ! z), upd_proc z (\<lambda>p. p\<lparr>p_kstack := False, p_pid := 0,
       p_parent := None, p_name := [], p_killed := False, p_state := UNUSED\<rparr>) k3)"
    using wait_scan_zombie [of c "[0..<NPROC]" k3 p False] c par by (auto simp: slot)
  have zn: "z < NPROC" using z(1) by simp
  then have "p_pid (ptable k1 ! z) \<noteq> 0" using inv1 z(3) by (simp add: kinv_def slot)
  moreover have "wait p k3 = (Reaped (p_pid (ptable k1 ! z)), upd_proc z (\<lambda>p. p\<lparr>p_kstack := False, p_pid := 0,
       p_parent := None, p_name := [], p_killed := False, p_state := UNUSED\<rparr>) k3)"
    using z(4) zn by (simp add: wait_def len slot)
  ultimately show ?thesis
    using run orphans zn z(2,3) len
    by (intro conjI exI [of _ z] exI [of _ "upd_proc z _ k3"]) (auto simp: slot k3_def [symmetric])
qed

theorem exit_then_wait_witness:
  "\<exists>k k1 k2 pid. kreach k \<and> exit 1 k = Some k1 \<and> kstep (KDispatch 0) k1 = Some k2 \<and>
     fst (wait 0 (sleep_return 0 k2)) = Reaped pid \<and> pid \<noteq> 0"
proof -
  let ?test = "\<lambda>k. running 1 k \<and> p_parent (ptable k ! 1) = Some 0 \<and> p_state (ptable k ! 0) = SLEEPING \<and>
    p_chan (ptable k ! 0) = Some (ChanProc 0) \<and>
    (case exit 1 k of None \<Rightarrow> False | Some k1 \<Rightarrow> \<not> Option.is_none (kstep (KDispatch 0) k1))"
  have "case krun [KDispatch 0, KAlloc 0 True, KForkCopy 0 1 True, KWait 0, KDispatch 1] of None \<Rightarrow> False | Some k \<Rightarrow> ?test k"
    by code_simp
  then obtain k where k: "kreach k" "?test k" by (blast dest: krun_test)
  then obtain k1 k2 where e: "exit 1 k = Some k1" "kstep (KDispatch 0) k1 = Some k2"
    by (auto split: option.splits simp: Option.is_none_def)
  then have "\<exists>z k4. wait 0 (sleep_return 0 k2) = (Reaped (p_pid (ptable k1 ! z)), k4) \<and> p_pid (ptable k1 ! z) \<noteq> 0"
    using exit_then_wait [OF kreach_kinv [OF k(1)] _ e(1) _ _ _ _ e(2)] k(2) by auto
  then show ?thesis using k(1) e by (metis fst_conv)
qed

text \<open>
  C32: Which processes a round of the lottery runs. When a process that is run only computes until the
  timer makes it yield (\<open>computes\<close>: it leaves the other slots, its tickets and its parent alone) and the tickets
  of the runnable processes add up to less than \<open>2 ^ 31\<close>, the second loop of \<open>scheduler\<close> runs every runnable
  process at which the running total of tickets exceeds the winning number: the holder of the
  winning ticket and all runnable processes after it in the table, since the loop goes on after the
  winner; nobody at all when the winning number is the total, which \<open>getwinner\<close> can return. The kernel
  follows a null pointer instead exactly when one of these processes has more than one ticket and no parent.
\<close>

theorem scheduler_runs_winner_and_rest:
  assumes "computes run" and "kinv k" and "cum k NPROC < 2 ^ 31"
  shows "map_option fst (sched_loop run winner [0..<NPROC] 0 k) =
    (if list_ex (no_parent_line k) (drawn k winner [0..<NPROC]) then None else Some (drawn k winner [0..<NPROC]))"
  unfolding ran_or_fault_def [symmetric]
  using assms kinv_tickets [OF assms(2)] kinv_len [OF assms(2)]
  by (intro sched_loop_runs) (auto simp: cum_def)

lemma computes_yield: "computes (\<lambda>i k. (yield i k, 1))"
  unfolding computes_def
proof (intro allI conjI impI)
  fix i k
  have "xs[i := x] ! i = (if i < length xs then x else xs ! i)" for xs :: "proc list" and x by (simp add: list_update_beyond not_less)
  then show "p_tickets (ptable (fst (yield i k, 1 :: uint)) ! i) = p_tickets (ptable k ! i)"
    "p_parent (ptable (fst (yield i k, 1 :: uint)) ! i) = p_parent (ptable k ! i)"
    by (simp_all add: yield_def upd_proc_def)
qed (simp_all add: yield_def upd_proc_def)

theorem scheduler_runs_winner_and_rest_witness:
  "\<exists>k. kreach k \<and> p_tickets (ptable k ! 0) = 1 \<and> p_tickets (ptable k ! 1) = 1 \<and>
     map_option fst (sched_loop (\<lambda>i k. (yield i k, 1)) 0 [0..<NPROC] 0 k) = Some [0, 1] \<and>
     map_option fst (sched_loop (\<lambda>i k. (yield i k, 1)) 2 [0..<NPROC] 0 k) = Some []"
proof -
  let ?test = "\<lambda>k. p_tickets (ptable k ! 0) = 1 \<and> p_tickets (ptable k ! 1) = 1 \<and> cum k NPROC = 2 \<and>
    drawn k 0 [0..<NPROC] = [0, 1] \<and> drawn k 2 [0..<NPROC] = []"
  have "case krun [KDispatch 0, KAlloc 0 True, KForkCopy 0 1 True, KYield 0] of None \<Rightarrow> False | Some k \<Rightarrow> ?test k"
    by code_simp
  then obtain k where k: "kreach k" "?test k" by (blast dest: krun_test)
  then have "\<not> list_ex (no_parent_line k) [0, 1]" by (simp add: no_parent_line_def)
  then show ?thesis
    using scheduler_runs_winner_and_rest [OF computes_yield kreach_kinv [OF k(1)], where winner = 0]
      scheduler_runs_winner_and_rest [OF computes_yield kreach_kinv [OF k(1)], where winner = 2] k
    by (intro exI [of _ k]) simp
qed

text \<open>The first process has no parent: a round that runs it with two tickets follows the null pointer.\<close>

lemma scheduler_null_parent:
  assumes "computes run" "kinv k" "cum k NPROC < 2 ^ 31" "p_state (ptable k ! i) = RUNNABLE" "i < NPROC" "p_parent (ptable k ! i) = None"
    "1 < sint (p_tickets (ptable k ! i))" "sint winner < cum k (Suc i)"
  shows "sched_loop run winner [0..<NPROC] 0 k = None"
proof -
  have "list_ex (no_parent_line k) (drawn k winner [0..<NPROC])"
    using assms(4-8) by (auto simp: list_ex_iff drawn_def no_parent_line_def simp del: cum_Suc)
  moreover have "map_option fst (sched_loop run winner [0..<NPROC] 0 k) = ran_or_fault k (drawn k winner [0..<NPROC])"
    using assms(1-3) kinv_tickets [OF assms(2)] kinv_len [OF assms(2)] by (intro sched_loop_runs) (auto simp: cum_def)
  ultimately show ?thesis by (simp add: ran_or_fault_def)
qed

end
