(* ===== verification/Lottery_Syscall.thy ===== *)
theory Lottery_Syscall
  imports Lottery_Correct
begin

unbundle bit_operations_syntax

text \<open>
  The system calls of the lottery xv6: \<^verbatim>\<open>syscall.c\<close>, which fetches the arguments from the memory of the
  calling process and dispatches on the number in \<open>eax\<close>, and the handlers of \<^verbatim>\<open>sysproc.c\<close> on the
  process table of \<^verbatim>\<open>Lottery_Proc\<close>. The virtual memory functions and the handlers of the file system
  are not part of these files; they are arguments.
\<close>

section \<open>The state\<close>

text \<open>A process that sleeps inside a system call continues there when it runs again: in the loop of
  \<open>wait\<close>, in the loop of \<open>sys_sleep\<close> with its locals \<open>n\<close> and \<open>ticks0\<close>, or in a handler of the file system.\<close>

datatype in_syscall = InWait | InSleep uint uint | InFs nat

text \<open>The memory of each process by address (the addresses are those of its page table), the clock, and
  where a sleeping process continues.\<close>

type_synonym umemory = "uint \<Rightarrow> 8 word"

record world =
  kern :: kernel
  umem :: "nat \<Rightarrow> umemory"
  ticks :: uint
  inside :: "nat \<Rightarrow> in_syscall option"

abbreviation proc_of :: "nat \<Rightarrow> world \<Rightarrow> proc" where
  "proc_of cur w \<equiv> ptable (kern w) ! cur"

text \<open>The virtual memory layer: whether \<open>kalloc\<close> has a page, the copy that \<open>copyuvm\<close> makes, and the new
  size and memory after \<open>allocuvm\<close> and \<open>deallocuvm\<close> (size 0 on failure).\<close>

record vm =
  kalloc_ok :: bool
  copyuvm :: "umemory \<Rightarrow> uint \<Rightarrow> umemory option"
  allocuvm :: "umemory \<Rightarrow> uint \<Rightarrow> uint \<Rightarrow> uint \<times> umemory"
  deallocuvm :: "umemory \<Rightarrow> uint \<Rightarrow> uint \<Rightarrow> uint \<times> umemory"

section \<open>Fetching arguments\<close>

text \<open>An \<open>int\<close> in memory, least significant byte first.\<close>

definition load_int :: "umemory \<Rightarrow> uint \<Rightarrow> uint" where
  "load_int m a = ucast (m a) OR push_bit 8 (ucast (m (a + 1))) OR push_bit 16 (ucast (m (a + 2))) OR push_bit 24 (ucast (m (a + 3)))"

definition fetchint :: "nat \<Rightarrow> uint \<Rightarrow> world \<Rightarrow> uint option" where
  "fetchint cur addr w =
    (let sz = p_sz (proc_of cur w) in
     if sz \<le> addr \<or> sz < addr + 4 then None else Some (load_int (umem w cur) addr))"

lemma unat_plus: "unat a + n < 2 ^ 32 \<Longrightarrow> unat ((a :: uint) + word_of_nat n) = unat a + n"
  by (simp add: unat_word_ariths unat_of_nat)

lemma unat_next: "(s :: uint) < ep \<Longrightarrow> unat (s + 1) = Suc (unat s)"
  using unat_plus [of s 1] unsigned_less [of ep, where ?'a = nat] by (simp add: word_less_nat_alt)

text \<open>The loop of \<open>fetchstr\<close>: from \<open>s\<close> to \<open>ep\<close>; the result is the length of the string.\<close>

function fetchstr_loop :: "umemory \<Rightarrow> uint \<Rightarrow> uint \<Rightarrow> uint \<Rightarrow> uint option" where
  "fetchstr_loop m pp ep s =
    (if s < ep then if m s = 0 then Some (s - pp) else fetchstr_loop m pp ep (s + 1) else None)"
  by pat_completeness auto
termination
  by (relation "measure (\<lambda>(m, pp, ep, s). unat ep - unat s)") (auto simp: unat_next word_less_nat_alt)

declare fetchstr_loop.simps [simp del]

definition fetchstr :: "nat \<Rightarrow> uint \<Rightarrow> world \<Rightarrow> (uint \<times> uint) option" where
  "fetchstr cur addr w =
    (let sz = p_sz (proc_of cur w) in
     if sz \<le> addr then None else map_option (\<lambda>len. (addr, len)) (fetchstr_loop (umem w cur) addr sz addr))"

definition argint :: "nat \<Rightarrow> uint \<Rightarrow> world \<Rightarrow> uint option" where
  "argint cur n w = fetchint cur (p_tf (proc_of cur w) ''esp'' + 4 + 4 * n) w"

definition argptr :: "nat \<Rightarrow> uint \<Rightarrow> uint \<Rightarrow> world \<Rightarrow> uint option" where
  "argptr cur n len w =
    (case argint cur n w of
       None \<Rightarrow> None
     | Some i \<Rightarrow>
        let sz = p_sz (proc_of cur w) in
        if sint len < 0 \<or> sz \<le> i \<or> sz < i + len then None else Some i)"

definition argstr :: "nat \<Rightarrow> uint \<Rightarrow> world \<Rightarrow> (uint \<times> uint) option" where
  "argstr cur n w = (case argint cur n w of None \<Rightarrow> None | Some addr \<Rightarrow> fetchstr cur addr w)"

section \<open>The handlers\<close>

text \<open>A handler returns a value, or the process sleeps inside it, or it never returns (\<open>exit\<close>); \<open>None\<close> is a
  panic.\<close>

datatype sysret = Ret uint | Sleeps in_syscall | Gone

type_synonym handler = "world \<Rightarrow> (sysret \<times> world) option"

text \<open>What a handler of the file system does to the caller: its result or the channel it sleeps on, the
  caller's memory, size and registers (which \<open>exec\<close> replaces), files, directory and name, and the channels
  it wakes.\<close>

datatype fs_end = FsRet uint | FsSleep chan

record fs_effect =
  fs_end :: fs_end
  fs_mem :: umemory
  fs_sz :: uint
  fs_tf :: "string \<Rightarrow> uint"
  fs_ofile :: "nat option list"
  fs_cwd :: "nat option"
  fs_name :: string
  fs_wakes :: "chan list"

type_synonym fs_handlers = "nat \<Rightarrow> nat \<Rightarrow> world \<Rightarrow> fs_effect"

definition sys_fs :: "fs_handlers \<Rightarrow> nat \<Rightarrow> nat \<Rightarrow> handler" where
  "sys_fs fs num cur w =
    (let e = fs num cur w;
         k = fold wakeup (fs_wakes e) (upd_proc cur (\<lambda>p. p\<lparr>p_sz := fs_sz e, p_tf := fs_tf e, p_ofile := fs_ofile e,
               p_cwd := fs_cwd e, p_name := fs_name e\<rparr>) (kern w));
         m = (umem w)(cur := fs_mem e)
     in case fs_end e of
          FsRet v \<Rightarrow> Some (Ret v, w\<lparr>kern := k, umem := m\<rparr>)
        | FsSleep c \<Rightarrow> Some (Sleeps (InFs num), w\<lparr>kern := sleep cur c k, umem := m\<rparr>))"

definition ret_int :: "int \<Rightarrow> uint" where
  "ret_int v = word_of_int v"

text \<open>\<open>fork\<close> with the memory of the child.\<close>

definition sys_fork :: "vm \<Rightarrow> nat \<Rightarrow> handler" where
  "sys_fork v cur w =
    (let copy = copyuvm v (umem w cur) (p_sz (proc_of cur w));
         (pid, k) = fork cur (kalloc_ok v) (copy \<noteq> None) (kern w)
     in Some (Ret (ret_int pid),
          case (find_slot (\<lambda>p. p_state p = UNUSED) (ptable (kern w)) 0, copy) of
            (Some i, Some m) \<Rightarrow> if kalloc_ok v then w\<lparr>kern := k, umem := (umem w)(i := m)\<rparr> else w\<lparr>kern := k\<rparr>
          | _ \<Rightarrow> w\<lparr>kern := k\<rparr>))"

definition sys_exit :: "nat \<Rightarrow> handler" where
  "sys_exit cur w = map_option (\<lambda>k. (Gone, w\<lparr>kern := k\<rparr>)) (exit cur (kern w))"

definition sys_wait :: "nat \<Rightarrow> handler" where
  "sys_wait cur w =
    (case wait cur (kern w) of
       (Reaped pid, k) \<Rightarrow> Some (Ret (ret_int pid), w\<lparr>kern := k\<rparr>)
     | (NoChild, k) \<Rightarrow> Some (Ret (ret_int (-1)), w\<lparr>kern := k\<rparr>)
     | (Asleep, k) \<Rightarrow> Some (Sleeps InWait, w\<lparr>kern := k\<rparr>))"

definition sys_kill :: "nat \<Rightarrow> handler" where
  "sys_kill cur w =
    (case argint cur 0 w of
       None \<Rightarrow> Some (Ret (ret_int (-1)), w)
     | Some pid \<Rightarrow> let (r, k) = kill (sint pid) (kern w) in Some (Ret (ret_int r), w\<lparr>kern := k\<rparr>))"

definition sys_getpid :: "nat \<Rightarrow> handler" where
  "sys_getpid cur w = Some (Ret (ret_int (p_pid (proc_of cur w))), w)"

text \<open>\<open>sbrk\<close>: \<open>growproc\<close> calls \<open>allocuvm\<close> or \<open>deallocuvm\<close> on the process's page table; the old size is the
  result.\<close>

definition sys_sbrk :: "vm \<Rightarrow> nat \<Rightarrow> handler" where
  "sys_sbrk v cur w =
    (case argint cur 0 w of
       None \<Rightarrow> Some (Ret (ret_int (-1)), w)
     | Some n \<Rightarrow>
        let addr = p_sz (proc_of cur w); m = umem w cur;
            (newsz, m') = (if 0 < sint n then allocuvm v m addr (addr + n)
                           else if sint n < 0 then deallocuvm v m addr (addr + n) else (addr, m));
            (r, k) = growproc cur (sint n) newsz (kern w);
            w' = w\<lparr>kern := k, umem := (umem w)(cur := m')\<rparr>
        in Some (if r < 0 then Ret (ret_int (-1)) else Ret addr, w'))"

text \<open>The loop of \<open>sys_sleep\<close> from its test on; the channel is \<open>&ticks\<close>. The test is on unsigned numbers.\<close>

definition ticks_chan :: chan where
  "ticks_chan = ChanAddr 0"

definition sleep_loop :: "nat \<Rightarrow> uint \<Rightarrow> uint \<Rightarrow> handler" where
  "sleep_loop cur n ticks0 w =
    (if ticks w - ticks0 < n then
       if p_killed (proc_of cur w) then Some (Ret (ret_int (-1)), w)
       else Some (Sleeps (InSleep n ticks0), w\<lparr>kern := sleep cur ticks_chan (kern w)\<rparr>)
     else Some (Ret 0, w))"

definition sys_sleep :: "nat \<Rightarrow> handler" where
  "sys_sleep cur w =
    (case argint cur 0 w of
       None \<Rightarrow> Some (Ret (ret_int (-1)), w)
     | Some n \<Rightarrow> sleep_loop cur n (ticks w) w)"

definition sys_uptime :: "nat \<Rightarrow> handler" where
  "sys_uptime cur w = Some (Ret (ticks w), w)"

definition sys_settickets_call :: "nat \<Rightarrow> handler" where
  "sys_settickets_call cur w =
    (case argint cur 0 w of
       None \<Rightarrow> Some (Ret (ret_int (-1)), w)
     | Some n \<Rightarrow> let (r, k) = sys_settickets cur n (kern w) in Some (Ret (ret_int r), w\<lparr>kern := k\<rparr>))"

text \<open>\<open>getpinfo\<close> writes a \<open>struct pstat\<close>, four arrays of \<open>NPROC\<close> numbers, into the caller's memory.\<close>

definition store_int :: "uint \<Rightarrow> uint \<Rightarrow> umemory \<Rightarrow> umemory" where
  "store_int a v m = m(a := ucast v, a + 1 := ucast (drop_bit 8 v), a + 2 := ucast (drop_bit 16 v), a + 3 := ucast (drop_bit 24 v))"

definition sizeof_pstat :: uint where
  "sizeof_pstat = 1024"

definition pinfo_entry :: "uint \<Rightarrow> kernel \<Rightarrow> nat \<Rightarrow> umemory \<Rightarrow> umemory" where
  "pinfo_entry p k i m =
    (let q = ptable k ! i; j = 4 * word_of_nat i;
         m = store_int (p + j) (if p_state q = UNUSED then 0 else 1) m;
         m = store_int (p + 512 + j) (word_of_int (p_pid q)) m;
         m = store_int (p + 256 + j) (p_tickets q) m
     in store_int (p + 768 + j) (p_ticks q) m)"

definition getpinfo_into :: "uint \<Rightarrow> kernel \<Rightarrow> umemory \<Rightarrow> umemory" where
  "getpinfo_into p k m = fold (pinfo_entry p k) [0..<NPROC] m"

definition sys_getpinfo :: "nat \<Rightarrow> handler" where
  "sys_getpinfo cur w =
    (case argptr cur 0 sizeof_pstat w of
       None \<Rightarrow> Some (Ret (ret_int (-1)), w)
     | Some p \<Rightarrow> Some (Ret 0, w\<lparr>umem := (umem w)(cur := getpinfo_into p (kern w) (umem w cur))\<rparr>))"

section \<open>The dispatcher\<close>

text \<open>The table of \<^verbatim>\<open>syscall.c\<close> with the numbers of \<^verbatim>\<open>syscall.h\<close>; \<open>fs num\<close> is the handler of the file
  system with that number.\<close>

definition syscalls :: "vm \<Rightarrow> fs_handlers \<Rightarrow> nat \<Rightarrow> (nat \<Rightarrow> handler) option" where
  "syscalls v fs num =
    (if num = 1 then Some (sys_fork v) else if num = 2 then Some sys_exit else if num = 3 then Some sys_wait
     else if num = 6 then Some sys_kill else if num = 11 then Some sys_getpid else if num = 12 then Some (sys_sbrk v)
     else if num = 13 then Some sys_sleep else if num = 14 then Some sys_uptime
     else if num = 22 then Some sys_settickets_call else if num = 23 then Some sys_getpinfo
     else if num \<in> {4, 5, 7, 8, 9, 10, 15, 16, 17, 18, 19, 20, 21} then Some (sys_fs fs num) else None)"

definition NELEM_syscalls :: nat where
  "NELEM_syscalls = 24"

text \<open>The end of a handler: its value goes to \<open>eax\<close>.\<close>

definition sys_finish :: "nat \<Rightarrow> (sysret \<times> world) option \<Rightarrow> world option" where
  "sys_finish cur r =
    (case r of
       None \<Rightarrow> None
     | Some (Ret v, w) \<Rightarrow> Some (w\<lparr>kern := upd_proc cur (\<lambda>p. p\<lparr>p_tf := (p_tf p)(''eax'' := v)\<rparr>) (kern w), inside := (inside w)(cur := None)\<rparr>)
     | Some (Sleeps p, w) \<Rightarrow> Some (w\<lparr>inside := (inside w)(cur := Some p)\<rparr>)
     | Some (Gone, w) \<Rightarrow> Some w)"

definition syscall :: "vm \<Rightarrow> fs_handlers \<Rightarrow> nat \<Rightarrow> world \<Rightarrow> world option" where
  "syscall v fs cur w =
    (let num = sint (p_tf (proc_of cur w) ''eax'') in
     if 0 < num \<and> num < int NELEM_syscalls
     then case syscalls v fs (nat num) of
            Some h \<Rightarrow> sys_finish cur (h cur w)
          | None \<Rightarrow> sys_finish cur (Some (Ret (ret_int (-1)), w))
     else sys_finish cur (Some (Ret (ret_int (-1)), w)))"

text \<open>A woken process goes on inside its system call: \<open>sleep\<close> clears the channel and returns into the
  loop.\<close>

definition sys_resume :: "fs_handlers \<Rightarrow> nat \<Rightarrow> in_syscall \<Rightarrow> world \<Rightarrow> world option" where
  "sys_resume fs cur p w =
    (let w1 = w\<lparr>kern := sleep_return cur (kern w)\<rparr> in
     sys_finish cur (case p of
         InWait \<Rightarrow> sys_wait cur w1
       | InSleep n ticks0 \<Rightarrow> sleep_loop cur n ticks0 w1
       | InFs num \<Rightarrow> sys_fs fs num cur w1))"

section \<open>Addresses\<close>

text \<open>User memory ends below the kernel, \<open>KERNBASE\<close> of \<^verbatim>\<open>memlayout.h\<close>.\<close>

definition KERNBASE :: uint where
  "KERNBASE = 0x80000000"

lemma unat_KERNBASE: "unat KERNBASE = 2 ^ 31"
  by (simp add: KERNBASE_def)

text \<open>Below it the test of \<open>fetchint\<close> and \<open>argptr\<close> does not wrap around.\<close>

lemma block_inside:
  assumes "sz \<le> KERNBASE" "\<not> sz \<le> a" "\<not> sz < a + n" "unat n < 2 ^ 31" "j < unat n"
  shows "unat (a + word_of_nat j) = unat a + j \<and> unat a + j < unat sz"
proof -
  have a: "unat a < unat sz" "unat sz \<le> 2 ^ 31" using assms(1,2) by (simp_all add: word_le_nat_alt unat_KERNBASE)
  then have "unat (a + n) = unat a + unat n" using unat_plus [of a "unat n"] assms(4) by simp
  with assms(3) have "unat a + unat n \<le> unat sz" by (simp add: word_less_nat_alt)
  with assms(5) a show ?thesis by (simp add: unat_plus)
qed

lemma unat_small_of_sint: "\<not> sint (n :: uint) < 0 \<Longrightarrow> unat n < 2 ^ 31"
  using sint_nonneg_iff [of n] by linarith

text \<open>Two memories that agree on the addresses of a process of size \<open>sz\<close>.\<close>

definition agree :: "uint \<Rightarrow> umemory \<Rightarrow> umemory \<Rightarrow> bool" where
  "agree sz m m' \<longleftrightarrow> (\<forall>a. a < sz \<longrightarrow> m a = m' a)"

lemma load_int_agree:
  assumes "agree sz m m'" "sz \<le> KERNBASE" "\<not> sz \<le> a" "\<not> sz < a + 4"
  shows "load_int m a = load_int m' a"
proof -
  have "m (a + word_of_nat j) = m' (a + word_of_nat j)" if "j < 4" for j
    using block_inside [OF assms(2-4), of j] assms(1) that by (simp add: agree_def word_less_nat_alt)
  from this [of 0] this [of 1] this [of 2] this [of 3] show ?thesis by (simp add: load_int_def)
qed

text \<open>Where the string that \<open>fetchstr\<close> finds ends.\<close>

lemma fetchstr_loop_Some:
  assumes "fetchstr_loop m pp ep s = Some len" "pp \<le> s"
  shows "pp \<le> pp + len \<and> s \<le> pp + len \<and> pp + len < ep \<and> m (pp + len) = 0 \<and> (\<forall>a. s \<le> a \<and> a < pp + len \<longrightarrow> m a \<noteq> 0)"
  using assms
proof (induction m pp ep s rule: fetchstr_loop.induct)
  case (1 m pp ep s)
  have less: "s < ep" using "1.prems"(1) by (subst (asm) fetchstr_loop.simps) (simp split: if_splits)
  show ?case
  proof (cases "m s = 0")
    case True
    then have "len = s - pp" using "1.prems"(1) less by (subst (asm) fetchstr_loop.simps) simp
    with True less "1.prems"(2) show ?thesis by auto
  next
    case False
    then have next1: "fetchstr_loop m pp ep (s + 1) = Some len" using "1.prems"(1) less by (subst (asm) fetchstr_loop.simps) simp
    have u: "unat (s + 1) = Suc (unat s)" using less by (rule unat_next)
    then have "pp \<le> s + 1" using "1.prems"(2) by (simp add: word_le_nat_alt)
    from "1.IH" [OF less False next1 this] u False show ?thesis
      by (auto simp: word_le_nat_alt word_less_nat_alt Suc_le_eq) (metis le_neq_implies_less word_eq_iff_unsigned not_less_eq_eq)
  qed
qed

lemma fetchstr_loop_None:
  assumes "fetchstr_loop m pp ep s = None" "s \<le> a" "a < ep"
  shows "m a \<noteq> 0"
  using assms
proof (induction m pp ep s rule: fetchstr_loop.induct)
  case (1 m pp ep s)
  have less: "s < ep" using "1.prems"(2,3) by simp
  have s0: "m s \<noteq> 0" and next1: "fetchstr_loop m pp ep (s + 1) = None"
    using "1.prems"(1) less by (subst (asm) fetchstr_loop.simps, simp split: if_splits)+
  show ?case
  proof (cases "a = s")
    case False
    then have "s < a" using "1.prems"(2) by simp
    then have "s + 1 \<le> a" using unat_next [OF less] by (simp add: word_le_nat_alt word_less_nat_alt)
    with "1.IH" [OF less s0 next1] "1.prems"(3) show ?thesis by simp
  qed (use s0 in simp)
qed

lemma fetchstr_loop_agree:
  assumes "agree ep m m'"
  shows "fetchstr_loop m pp ep s = fetchstr_loop m' pp ep s"
  using assms
proof (induction m pp ep s rule: fetchstr_loop.induct)
  case (1 m pp ep s)
  then show ?case by (subst (1 2) fetchstr_loop.simps) (auto simp: agree_def)
qed

section \<open>What a system call leaves alone\<close>

text \<open>Size, registers and tickets of a process.\<close>

definition kept :: "proc \<Rightarrow> proc \<Rightarrow> bool" where
  "kept p p' \<longleftrightarrow> p_sz p' = p_sz p \<and> p_tf p' = p_tf p \<and> p_tickets p' = p_tickets p"

definition same_but :: "nat set \<Rightarrow> kernel \<Rightarrow> kernel \<Rightarrow> bool" where
  "same_but S k k' \<longleftrightarrow> length (ptable k') = length (ptable k) \<and>
     (\<forall>j < length (ptable k). j \<notin> S \<longrightarrow> kept (ptable k ! j) (ptable k' ! j))"

named_theorems same_but_intros

lemma same_but_refl [same_but_intros]: "same_but S k k"
  by (simp add: same_but_def kept_def)

lemma same_but_trans: "same_but S k k' \<Longrightarrow> same_but S k' k'' \<Longrightarrow> same_but S k k''"
  by (auto simp: same_but_def kept_def)

lemma same_but_upd [same_but_intros]: "i \<in> S \<or> (\<forall>p. kept p (f p)) \<Longrightarrow> same_but S k (upd_proc i f k)"
  by (auto simp: same_but_def kept_def)

lemma same_but_wakeup1 [same_but_intros]: "same_but S k (wakeup1 c k)"
  by (auto simp: same_but_def kept_def)

lemma same_but_nextpid [same_but_intros]: "same_but S k (k'\<lparr>nextpid := n\<rparr>) = same_but S k k'"
  by (simp add: same_but_def)

lemma same_but_fold: "(\<And>x k. same_but S k (f x k)) \<Longrightarrow> same_but S k (fold f xs k)"
proof (induction xs arbitrary: k)
  case (Cons x xs)
  from same_but_trans [OF Cons.prems [of k x] Cons.IH [OF Cons.prems]] show ?case by simp
qed (simp add: same_but_refl)

lemma same_but_reparent1 [same_but_intros]: "same_but S k (reparent1 cur i k)"
proof -
  have "same_but S k (upd_proc i (\<lambda>p. p\<lparr>p_parent := Some (initproc k)\<rparr>) k)" by (rule same_but_upd) (simp add: kept_def)
  from same_but_trans [OF this same_but_wakeup1] this show ?thesis by (simp add: reparent1_def Let_def same_but_refl)
qed

lemma same_but_exit: "exit cur k = Some k' \<Longrightarrow> same_but S k k'"
  unfolding exit_def Let_def
  by (auto split: if_splits intro!: same_but_trans [OF _ same_but_upd] same_but_trans [OF _ same_but_fold]
      same_but_trans [OF _ same_but_wakeup1] same_but_upd same_but_reparent1 simp: kept_def)

lemma same_but_wait_scan: "wait_scan cur is h k = Inl (pid, k') \<Longrightarrow> same_but S k k'"
  by (induction "is" arbitrary: h) (auto simp: Let_def kept_def split: if_splits intro!: same_but_upd)

lemma same_but_wait: "same_but S k (snd (wait cur k))"
  by (auto simp: wait_def sleep_def kept_def split: sum.splits intro: same_but_wait_scan intro!: same_but_upd same_but_refl)

lemma same_but_kill: "same_but S k (snd (kill pid k))"
  by (auto simp: kill_def kept_def split: option.splits intro!: same_but_upd same_but_refl)

lemma same_but_growproc: "same_but {cur} k (snd (growproc cur n newsz k))"
  by (auto simp: growproc_def intro!: same_but_upd same_but_refl)

text \<open>\<open>settickets\<close> finds the caller by its identifier, which no other process has.\<close>

lemma same_but_settickets:
  assumes "kinv k" "running cur k"
  shows "same_but {cur} k (snd (sys_settickets cur n k))"
proof -
  have "i = cur" if slot: "find_slot (\<lambda>p. p_pid p = p_pid (ptable k ! cur)) (ptable k) 0 = Some i" for i
  proof -
    have "i < NPROC" "p_pid (ptable k ! i) = p_pid (ptable k ! cur)" using find_slot_0 [OF slot] kinv_len [OF assms(1)] by auto
    moreover have "cur < NPROC" "p_pid (ptable k ! cur) \<noteq> 0" using assms by (auto simp: kinv_def running_def)
    ultimately show ?thesis using assms(1) unfolding kinv_def by metis
  qed
  then show ?thesis by (auto simp: sys_settickets_def settickets_def split: option.splits intro!: same_but_upd same_but_refl)
qed

text \<open>\<open>fork\<close> fills a free slot.\<close>

lemma same_but_allocproc:
  assumes "allocproc ok k = (r, k')"
  shows "same_but {i. find_slot (\<lambda>p. p_state p = UNUSED) (ptable k) 0 = Some i} k k' \<and>
    (r \<noteq> None \<longrightarrow> ok \<and> r = find_slot (\<lambda>p. p_state p = UNUSED) (ptable k) 0)"
  using assms
  by (auto simp: allocproc_def Let_def split: option.splits if_splits
      intro!: same_but_refl same_but_trans [OF _ same_but_upd] simp: same_but_nextpid)

lemma same_but_mono: "same_but S k k' \<Longrightarrow> S \<subseteq> T \<Longrightarrow> same_but T k k'"
  by (auto simp: same_but_def)

abbreviation free_slots :: "kernel \<Rightarrow> nat set" where
  "free_slots k \<equiv> {i. find_slot (\<lambda>p. p_state p = UNUSED) (ptable k) 0 = Some i}"

lemma same_but_fork: "same_but (free_slots k) k (snd (fork cur a b k))"
proof -
  obtain r k1 where al: "allocproc a k = (r, k1)" by (cases "allocproc a k")
  note one = same_but_allocproc [OF al]
  have "same_but (free_slots k) k (upd_proc i f k1)" if "r = Some i" for i f
  proof -
    have "i \<in> free_slots k" using one that by simp
    then have "same_but (free_slots k) k1 (upd_proc i f k1)" by (intro same_but_upd disjI1)
    with one show ?thesis by (blast intro: same_but_trans)
  qed
  with one al show ?thesis by (auto simp: fork_def fork_copy_def Let_def split: option.splits)
qed

section \<open>The invariant\<close>

definition sizes_ok :: "kernel \<Rightarrow> bool" where
  "sizes_ok k \<longleftrightarrow> (\<forall>j < length (ptable k). p_sz (ptable k ! j) \<le> KERNBASE)"

lemma sizes_ok_same: "same_but {} k k' \<Longrightarrow> sizes_ok k \<Longrightarrow> sizes_ok k'"
  by (auto simp: sizes_ok_def same_but_def kept_def)

lemma sizes_ok_upd:
  "sizes_ok k \<Longrightarrow> (i < length (ptable k) \<Longrightarrow> p_sz (ptable k ! i) \<le> KERNBASE \<Longrightarrow> p_sz (f (ptable k ! i)) \<le> KERNBASE) \<Longrightarrow> sizes_ok (upd_proc i f k)"
  by (auto simp: sizes_ok_def)

lemma sizes_ok_nextpid [simp]: "sizes_ok (k\<lparr>nextpid := n\<rparr>) = sizes_ok k"
  by (simp add: sizes_ok_def)

lemma sizes_ok_allocproc: "allocproc ok k = (r, k') \<Longrightarrow> sizes_ok k \<Longrightarrow> sizes_ok k' \<and> length (ptable k') = length (ptable k)"
  by (auto simp: allocproc_def Let_def split: option.splits if_splits intro!: sizes_ok_upd)

lemma sizes_ok_fork:
  assumes "sizes_ok k" "cur < length (ptable k)"
  shows "sizes_ok (snd (fork cur a b k))"
proof -
  obtain r k1 where al: "allocproc a k = (r, k1)" by (cases "allocproc a k")
  note one = sizes_ok_allocproc [OF al assms(1)]
  with assms(2) have "p_sz (ptable k1 ! cur) \<le> KERNBASE" by (simp add: sizes_ok_def)
  with one al show ?thesis by (auto simp: fork_def fork_copy_def Let_def split: option.splits intro!: sizes_ok_upd)
qed

definition winv :: "world \<Rightarrow> bool" where
  "winv w \<longleftrightarrow> kinv (kern w) \<and> sizes_ok (kern w)"

lemma winv_kinv: "winv w \<Longrightarrow> kinv (kern w)"
  by (simp add: winv_def)

text \<open>A call of process \<open>cur\<close> keeps the invariant, and leaves the size, the registers, the tickets and the
  memory of every other process in use alone.\<close>

definition isolated :: "nat \<Rightarrow> world \<Rightarrow> world \<Rightarrow> bool" where
  "isolated cur w w' \<longleftrightarrow>
    (\<forall>j < NPROC. j \<noteq> cur \<and> p_state (proc_of j w) \<noteq> UNUSED \<longrightarrow> kept (proc_of j w) (proc_of j w') \<and> umem w' j = umem w j)"

definition call_ok :: "nat \<Rightarrow> world \<Rightarrow> world \<Rightarrow> bool" where
  "call_ok cur w w' \<longleftrightarrow> winv w' \<and> isolated cur w w'"

lemma isolated_kern:
  assumes "kinv (kern w)" "same_but S (kern w) (kern w')" "\<And>j. j \<in> S \<Longrightarrow> j = cur \<or> p_state (proc_of j w) = UNUSED"
    "\<And>j. j \<noteq> cur \<Longrightarrow> p_state (proc_of j w) \<noteq> UNUSED \<Longrightarrow> umem w' j = umem w j"
  shows "isolated cur w w'"
  using assms by (auto simp: isolated_def same_but_def kinv_len)

lemma call_ok_kern:
  assumes "winv w" "same_but {cur} (kern w) k" "kinv k" "sizes_ok k"
  shows "call_ok cur w (w\<lparr>kern := k\<rparr>)" "call_ok cur w (w\<lparr>kern := k, umem := (umem w)(cur := m)\<rparr>)"
  using assms by (auto simp: call_ok_def winv_def intro!: isolated_kern [where S = "{cur}"])

lemma call_ok_same:
  assumes "winv w" "same_but {} (kern w) k" "kinv k"
  shows "call_ok cur w (w\<lparr>kern := k\<rparr>)"
  using assms sizes_ok_same [of "kern w" k] by (intro call_ok_kern) (auto simp: winv_def intro: same_but_mono)

lemma call_ok_refl: "winv w \<Longrightarrow> call_ok cur w w"
  by (auto simp: call_ok_def isolated_def kept_def)

lemma call_ok_trans:
  assumes "call_ok cur w w1" "call_ok cur w1 w'" "\<And>j. j < NPROC \<Longrightarrow> j \<noteq> cur \<Longrightarrow> p_state (proc_of j w) \<noteq> UNUSED \<Longrightarrow> p_state (proc_of j w1) \<noteq> UNUSED"
  shows "call_ok cur w w'"
  using assms by (auto simp: call_ok_def isolated_def kept_def)

section \<open>The handlers keep it\<close>

text \<open>What the code relies on outside these files: \<open>allocuvm\<close> refuses to grow a process beyond the kernel base,
  \<open>deallocuvm\<close> does not grow it, and \<open>exec\<close> builds a process of at most that size.\<close>

definition vm_ok :: "vm \<Rightarrow> bool" where
  "vm_ok v \<longleftrightarrow> (\<forall>m old new. old \<le> KERNBASE \<longrightarrow> fst (allocuvm v m old new) \<le> KERNBASE) \<and> (\<forall>m old new. fst (deallocuvm v m old new) \<le> old)"

definition fs_ok :: "fs_handlers \<Rightarrow> bool" where
  "fs_ok fs \<longleftrightarrow> (\<forall>num cur w. fs_sz (fs num cur w) \<le> KERNBASE)"

lemma sys_fork_ok:
  assumes "winv w" "running cur (kern w)" "sys_fork v cur w = Some (r, w')" "nextpid (kern w) \<le> nextpid (kern w')"
  shows "call_ok cur w w'"
proof -
  let ?copy = "copyuvm v (umem w cur) (p_sz (proc_of cur w))"
  let ?k = "snd (fork cur (kalloc_ok v) (?copy \<noteq> None) (kern w))"
  have kw: "kern w' = ?k" and mem: "umem w' = umem w \<or> (\<exists>i \<in> free_slots (kern w). \<exists>m. umem w' = (umem w)(i := m))"
    using assms(3) by (auto simp: sys_fork_def Let_def split: prod.splits option.splits if_splits)
  have k: "kinv ?k" "sizes_ok ?k" using assms(1,2,4) kw
    by (auto simp: winv_def running_def kinv_len intro!: kinv_fork sizes_ok_fork)
  have "isolated cur w w'"
  proof (rule isolated_kern [where S = "free_slots (kern w)"])
    show "same_but (free_slots (kern w)) (kern w) (kern w')" using kw same_but_fork by simp
    show "j = cur \<or> p_state (proc_of j w) = UNUSED" if "j \<in> free_slots (kern w)" for j
      using that find_slot_0 by auto
    show "umem w' j = umem w j" if "j \<noteq> cur" "p_state (proc_of j w) \<noteq> UNUSED" for j
      using mem that(2) find_slot_0 by fastforce
  qed (use assms(1) in \<open>simp add: winv_def\<close>)
  with k kw show ?thesis by (simp add: call_ok_def winv_def)
qed

lemma sys_exit_ok: "winv w \<Longrightarrow> running cur (kern w) \<Longrightarrow> sys_exit cur w = Some (r, w') \<Longrightarrow> call_ok cur w w'"
  unfolding sys_exit_def by (clarsimp, rule call_ok_same) (auto intro: same_but_exit dest: kinv_exit [OF winv_kinv])

lemma sys_wait_ok:
  assumes "winv w" "running cur (kern w)" "sys_wait cur w = Some (r, w')"
  shows "call_ok cur w w'"
proof -
  have "w' = w\<lparr>kern := snd (wait cur (kern w))\<rparr>" using assms(3) by (auto simp: sys_wait_def split: prod.splits wait_result.splits)
  with assms(1,2) show ?thesis by (auto simp: winv_kinv intro!: call_ok_same kinv_wait same_but_wait)
qed

lemma sys_kill_ok: "winv w \<Longrightarrow> sys_kill cur w = Some (r, w') \<Longrightarrow> call_ok cur w w'"
  by (auto simp: sys_kill_def call_ok_refl case_prod_beta winv_kinv split: option.splits intro!: call_ok_same kinv_kill same_but_kill)

lemma sys_settickets_ok:
  assumes "winv w" "running cur (kern w)" "sys_settickets_call cur w = Some (r, w')"
  shows "call_ok cur w w'"
proof -
  have "sizes_ok (snd (sys_settickets cur n (kern w)))" for n
    using assms(1) by (auto simp: winv_def sys_settickets_def settickets_def split: option.splits intro!: sizes_ok_upd)
  with assms show ?thesis
    by (auto simp: sys_settickets_call_def call_ok_refl case_prod_beta winv_kinv split: option.splits
        intro!: call_ok_kern kinv_sys_settickets same_but_settickets)
qed

lemma kinv_sleep: "kinv k \<Longrightarrow> running cur k \<Longrightarrow> kinv (sleep cur c k)"
  using kinv_kstep [of k "KSleep cur c"] by (simp add: sleep_def)

lemma same_but_sleep: "same_but S k (sleep cur c k)"
  unfolding sleep_def by (rule same_but_upd) (simp add: kept_def)

lemma sleep_loop_ok: "winv w \<Longrightarrow> running cur (kern w) \<Longrightarrow> sleep_loop cur n t0 w = Some (r, w') \<Longrightarrow> call_ok cur w w'"
  by (auto simp: sleep_loop_def call_ok_refl winv_kinv intro!: call_ok_same kinv_sleep same_but_sleep split: if_splits)

lemma kinv_own:
  assumes "kinv k" "running cur k" "\<And>p. p_pid (f p) = p_pid p \<and> p_parent (f p) = p_parent p \<and> p_state (f p) = p_state p \<and> p_tickets (f p) = p_tickets p"
  shows "kinv (upd_proc cur f k) \<and> running cur (upd_proc cur f k)"
  using assms by (auto simp: running_def alive_def kinv_len kinv_tickets intro!: kinv_upd)

lemma sys_sbrk_ok:
  assumes w: "winv w" "running cur (kern w)" and v: "vm_ok v" and r: "sys_sbrk v cur w = Some (r, w')"
  shows "call_ok cur w w'"
proof (cases "argint cur 0 w")
  case None
  with r w show ?thesis by (simp add: sys_sbrk_def call_ok_refl)
next
  case (Some n)
  let ?sz = "p_sz (proc_of cur w)"
  have sz: "?sz \<le> KERNBASE" using w by (simp add: winv_def sizes_ok_def running_def kinv_len)
  have ok: "sizes_ok (snd (growproc cur i newsz (kern w)))" if "newsz \<le> KERNBASE" for i newsz
    using w(1) that by (auto simp: winv_def growproc_def intro!: sizes_ok_upd)
  have kinv: "kinv (snd (growproc cur i newsz (kern w)))" for i newsz
    using w kinv_kstep [of "kern w" "KGrow cur i newsz"] by (simp add: winv_def growproc_def)
  have al: "fst (allocuvm v m ?sz new) \<le> KERNBASE" and de: "fst (deallocuvm v m ?sz new) \<le> KERNBASE" for m new
    using v sz unfolding vm_ok_def by (blast intro: order_trans)+
  let ?x = "if 0 < sint n then allocuvm v (umem w cur) ?sz (?sz + n)
    else if sint n < 0 then deallocuvm v (umem w cur) ?sz (?sz + n) else (?sz, umem w cur)"
  have "w' = w\<lparr>kern := snd (growproc cur (sint n) (fst ?x) (kern w)), umem := (umem w)(cur := snd ?x)\<rparr>"
    using r by (simp only: sys_sbrk_def Some Let_def case_prod_beta option.case option.inject prod.inject fst_conv snd_conv)
  moreover have "fst ?x \<le> KERNBASE" using al de sz by simp
  ultimately show ?thesis using call_ok_kern(2) [OF w(1) same_but_growproc kinv ok] by simp
qed

lemma wakeups_ok: "kinv k \<and> running cur k \<and> sizes_ok k \<Longrightarrow> kinv (fold wakeup cs k) \<and> running cur (fold wakeup cs k) \<and> sizes_ok (fold wakeup cs k)"
proof (induction cs arbitrary: k)
  case (Cons c cs)
  have "kinv (wakeup c k) \<and> running cur (wakeup c k) \<and> sizes_ok (wakeup c k)"
    using Cons.prems kinv_wakeup1 [of k] sizes_ok_same [OF same_but_wakeup1, of k]
    by (auto simp: wakeup_def running_def kinv_len)
  from Cons.IH [OF this] show ?case by simp
qed simp

lemma sys_fs_ok:
  assumes w: "winv w" "running cur (kern w)" and fs: "fs_ok fs" and r: "sys_fs fs num cur w = Some (r, w')"
  shows "call_ok cur w w'"
proof -
  let ?e = "fs num cur w"
  let ?base = "upd_proc cur (\<lambda>p. p\<lparr>p_sz := fs_sz ?e, p_tf := fs_tf ?e, p_ofile := fs_ofile ?e, p_cwd := fs_cwd ?e, p_name := fs_name ?e\<rparr>) (kern w)"
  let ?k = "fold wakeup (fs_wakes ?e) ?base"
  have "kinv ?base \<and> running cur ?base" using w by (intro kinv_own) (auto simp: winv_def)
  moreover have "sizes_ok ?base" using w(1) fs by (auto simp: winv_def fs_ok_def intro!: sizes_ok_upd)
  ultimately have k: "kinv ?k" "running cur ?k" "sizes_ok ?k" using wakeups_ok [of ?base cur] by auto
  have "same_but {cur} (kern w) ?base" by (rule same_but_upd) simp
  moreover have "same_but {cur} ?base ?k" by (rule same_but_fold) (simp add: wakeup_def same_but_wakeup1)
  ultimately have sb: "same_but {cur} (kern w) ?k" by (rule same_but_trans)
  have sl: "call_ok cur w (w\<lparr>kern := sleep cur c ?k, umem := (umem w)(cur := fs_mem ?e)\<rparr>)" for c
    using k w sb by (intro call_ok_kern(2) kinv_sleep sizes_ok_same [OF same_but_sleep] same_but_trans [OF sb same_but_sleep]) auto
  have "call_ok cur w (w\<lparr>kern := ?k, umem := (umem w)(cur := fs_mem ?e)\<rparr>)"
    using k w sb by (intro call_ok_kern(2)) auto
  with r sl show ?thesis by (auto simp: sys_fs_def Let_def split: fs_end.splits)
qed

lemma sys_getpinfo_ok: "winv w \<Longrightarrow> sys_getpinfo cur w = Some (r, w') \<Longrightarrow> call_ok cur w w'"
  using call_ok_kern(2) [of w cur "kern w"]
  by (auto simp: sys_getpinfo_def call_ok_refl winv_def same_but_refl split: option.splits)

lemma sys_finish_ok:
  assumes "call_ok cur w w1" "sys_finish cur (Some (r, w1)) = Some w'" "cur < NPROC"
  shows "call_ok cur w w'"
proof -
  let ?f = "\<lambda>v. upd_proc cur (\<lambda>p. p\<lparr>p_tf := (p_tf p)(''eax'' := v)\<rparr>) (kern w1)"
  have inv: "kinv (kern w1)" "sizes_ok (kern w1)" using assms(1) by (auto simp: call_ok_def winv_def)
  have "kinv (?f v)" for v using inv assms(3) by (intro kinv_upd) (auto simp: alive_def kinv_tickets)
  moreover have "sizes_ok (?f v)" for v using inv by (auto intro!: sizes_ok_upd)
  moreover have "kept (proc_of j w) (ptable (?f v) ! j)" if "kept (proc_of j w) (proc_of j w1)" "j \<noteq> cur" "j < NPROC" for j v
    using that inv by (simp add: kinv_len)
  ultimately show ?thesis using assms(1,2)
    by (cases r) (auto simp: sys_finish_def call_ok_def winv_def isolated_def)
qed

lemma sys_finish_nextpid: "sys_finish cur (Some (r, w1)) = Some w' \<Longrightarrow> nextpid (kern w') = nextpid (kern w1)"
  by (cases r) (auto simp: sys_finish_def)

lemma syscalls_cases:
  "syscalls v fs num = Some h \<Longrightarrow>
    h \<in> {sys_fork v, sys_exit, sys_wait, sys_kill, sys_getpid, sys_sbrk v, sys_sleep, sys_uptime, sys_settickets_call, sys_getpinfo, sys_fs fs num}"
  unfolding syscalls_def by (simp split: if_splits)

lemma sys_sleep_ok: "winv w \<Longrightarrow> running cur (kern w) \<Longrightarrow> sys_sleep cur w = Some (r, w') \<Longrightarrow> call_ok cur w w'"
  by (auto simp: sys_sleep_def call_ok_refl intro: sleep_loop_ok split: option.splits)

lemma handler_ok:
  assumes "syscalls v fs num = Some h" "h cur w = Some (r, w')" "winv w" "running cur (kern w)" "vm_ok v" "fs_ok fs"
    "nextpid (kern w) \<le> nextpid (kern w')"
  shows "call_ok cur w w'"
proof -
  have get: "sys_getpid cur w = Some (r, w') \<Longrightarrow> call_ok cur w w'" "sys_uptime cur w = Some (r, w') \<Longrightarrow> call_ok cur w w'"
    using assms(3) by (auto simp: sys_getpid_def sys_uptime_def call_ok_refl)
  show ?thesis using syscalls_cases [OF assms(1)] assms(2-) get
    by (elim insertE emptyE; hypsubst; blast intro: sys_fork_ok sys_exit_ok sys_wait_ok sys_kill_ok sys_sbrk_ok sys_sleep_ok
        sys_settickets_ok sys_getpinfo_ok sys_fs_ok)
qed

lemma syscall_ok:
  assumes w: "winv w" "running cur (kern w)" and vm: "vm_ok v" "fs_ok fs" and s: "syscall v fs cur w = Some w'"
    and wrap: "nextpid (kern w) \<le> nextpid (kern w')"
  shows "call_ok cur w w'"
proof -
  have fin: "call_ok cur w w'" if "sys_finish cur x = Some w'" "\<And>r w1. x = Some (r, w1) \<Longrightarrow> nextpid (kern w) \<le> nextpid (kern w1) \<Longrightarrow> call_ok cur w w1" for x
    using that w(2) wrap sys_finish_nextpid [of cur _ _ w']
    by (cases x) (auto simp: sys_finish_def [of cur None] running_def intro: sys_finish_ok)
  let ?num = "nat (sint (p_tf (proc_of cur w) ''eax''))"
  have err: "call_ok cur w w'" if "sys_finish cur (Some (ret, w)) = Some w'" for ret
    using fin [OF that] w(1) by (simp add: call_ok_refl)
  show ?thesis
  proof (cases "syscalls v fs ?num")
    case None
    with s err show ?thesis by (auto simp: syscall_def Let_def split: if_splits)
  next
    case (Some h)
    from handler_ok [OF Some _ w vm]
    have "\<And>r w1. h cur w = Some (r, w1) \<Longrightarrow> nextpid (kern w) \<le> nextpid (kern w1) \<Longrightarrow> call_ok cur w w1" .
    with s err fin [of "h cur w"] Some show ?thesis by (auto simp: syscall_def Let_def split: if_splits)
  qed
qed

text \<open>A resumed call: \<open>sleep_return\<close> changes only the caller.\<close>

lemma sys_resume_ok:
  assumes w: "winv w" "running cur (kern w)" and fs: "fs_ok fs" and s: "sys_resume fs cur p w = Some w'"
  shows "call_ok cur w w'"
proof -
  let ?w = "w\<lparr>kern := sleep_return cur (kern w)\<rparr>"
  have k: "kinv (kern ?w)" "running cur (kern ?w)"
    using kinv_own [OF winv_kinv [OF w(1)] w(2), of "p_chan_update (\<lambda>_. None)"] by (auto simp: sleep_return_def)
  have sb: "same_but {} (kern w) (kern ?w)" by (auto simp: sleep_return_def kept_def intro!: same_but_upd)
  have one: "call_ok cur w ?w" using w sb k by (simp add: call_ok_same)
  then have w1: "winv ?w" by (simp add: call_ok_def)
  have states: "p_state (proc_of j ?w) \<noteq> UNUSED" if "j < NPROC" "j \<noteq> cur" "p_state (proc_of j w) \<noteq> UNUSED" for j
    using that w(1) by (simp add: sleep_return_def winv_def kinv_len)
  let ?x = "case p of InWait \<Rightarrow> sys_wait cur ?w | InSleep n ticks0 \<Rightarrow> sleep_loop cur n ticks0 ?w | InFs num \<Rightarrow> sys_fs fs num cur ?w"
  have "call_ok cur ?w w2" if "?x = Some (r, w2)" for r w2
    using that w1 k fs by (cases p) (auto intro: sys_wait_ok sleep_loop_ok sys_fs_ok)
  then have "call_ok cur w w2" if "?x = Some (r, w2)" for r w2
    using that one states by (blast intro: call_ok_trans)
  with s w(2) show ?thesis
    by (cases ?x) (auto simp: sys_resume_def Let_def sys_finish_def [of cur None] running_def intro: sys_finish_ok)
qed

section \<open>The statistics in user memory\<close>

lemma bytes_of_int:
  "ucast (ucast (v :: uint) :: 8 word) OR push_bit 8 (ucast (ucast (drop_bit 8 v) :: 8 word)) OR
   push_bit 16 (ucast (ucast (drop_bit 16 v) :: 8 word)) OR push_bit 24 (ucast (ucast (drop_bit 24 v) :: 8 word)) = v" (is "?l = v")
proof (rule bit_word_eqI)
  fix n assume "n < LENGTH(32)"
  then show "bit ?l n = bit v n"
    by (cases "n < 24"; cases "n < 16") (auto simp: bit_simps)
qed

lemma load_store_same: "load_int (store_int a v m) a = v"
  by (simp add: load_int_def store_int_def bytes_of_int)

lemma offset_inj: "x < 2 ^ 32 \<Longrightarrow> y < 2 ^ 32 \<Longrightarrow> ((p :: uint) + word_of_nat x = p + word_of_nat y) = (x = y)"
  by (simp add: word_of_nat_eq_iff take_bit_nat_eq_self)

text \<open>The \<open>c\<close>-th number of a block at \<open>p\<close>.\<close>

definition cell :: "uint \<Rightarrow> nat \<Rightarrow> uint" where
  "cell p c = p + word_of_nat (4 * c)"

lemma store_cell:
  assumes "c < 2 ^ 29" "x < 2 ^ 31" "x < 4 * c \<or> 4 * c + 3 < x"
  shows "store_int (cell p c) v m (p + word_of_nat x) = m (p + word_of_nat x)"
proof -
  have "p + word_of_nat x \<noteq> p + word_of_nat (4 * c + j)" if "j < 4" for j
    using offset_inj [of x "4 * c + j" p] assms that by auto
  from this [of 0] this [of 1] this [of 2] this [of 3] show ?thesis
    by (simp add: store_int_def cell_def ac_simps)
qed

lemma load_cell:
  "load_int m (cell p d) = ucast (m (p + word_of_nat (4 * d))) OR push_bit 8 (ucast (m (p + word_of_nat (4 * d + 1)))) OR
     push_bit 16 (ucast (m (p + word_of_nat (4 * d + 2)))) OR push_bit 24 (ucast (m (p + word_of_nat (4 * d + 3))))"
  by (simp add: load_int_def cell_def ac_simps)

lemma load_store_cell:
  assumes "c < 2 ^ 28" "d < 2 ^ 28"
  shows "load_int (store_int (cell p c) v m) (cell p d) = (if c = d then v else load_int m (cell p d))"
proof (cases "c = d")
  case False
  then have "store_int (cell p c) v m (p + word_of_nat (4 * d + j)) = m (p + word_of_nat (4 * d + j))" if "j < 4" for j
    using assms that by (intro store_cell) auto
  from this [of 0] this [of 1] this [of 2] this [of 3] False show ?thesis unfolding load_cell by simp
qed (simp add: load_store_same)

lemma pinfo_entry_cells:
  "pinfo_entry p k i m = store_int (cell p (192 + i)) (p_ticks (ptable k ! i)) (store_int (cell p (64 + i)) (p_tickets (ptable k ! i))
     (store_int (cell p (128 + i)) (word_of_int (p_pid (ptable k ! i))) (store_int (cell p i) (if p_state (ptable k ! i) = UNUSED then 0 else 1) m)))"
  by (simp add: pinfo_entry_def cell_def Let_def add.assoc)

text \<open>The number that belongs into a cell.\<close>

definition pstat_cell :: "kernel \<Rightarrow> nat \<Rightarrow> uint" where
  "pstat_cell k c = (let q = ptable k ! (c mod 64) in
     if c < 64 then if p_state q = UNUSED then 0 else 1 else if c < 128 then p_tickets q else if c < 192 then word_of_int (p_pid q) else p_ticks q)"

lemma pinfo_entry_load:
  assumes "i < 64" "c < 256"
  shows "load_int (pinfo_entry p k i m) (cell p c) = (if c mod 64 = i then pstat_cell k c else load_int m (cell p c))"
proof -
  have "c mod 64 = i \<longleftrightarrow> c = i \<or> c = 64 + i \<or> c = 128 + i \<or> c = 192 + i" using assms by (auto simp: mod_if)
  then show ?thesis using assms by (auto simp: pinfo_entry_cells load_store_cell pstat_cell_def Let_def)
qed

lemma getpinfo_fold_load:
  "n \<le> 64 \<Longrightarrow> c < 256 \<Longrightarrow> load_int (fold (pinfo_entry p k) [0..<n] m) (cell p c) =
     (if c mod 64 < n then pstat_cell k c else load_int m (cell p c))"
  by (induction n) (auto simp: pinfo_entry_load less_Suc_eq)

lemma getpinfo_into_load: "c < 256 \<Longrightarrow> load_int (getpinfo_into p k m) (cell p c) = pstat_cell k c"
  by (simp add: getpinfo_into_def NPROC_def getpinfo_fold_load)

lemma getpinfo_into_frame:
  assumes "1024 \<le> unat (a - p)"
  shows "getpinfo_into p k m a = m a"
proof -
  have st: "store_int (cell p c) v m a = m a" if "c < 256" for c v m
  proof -
    have "a \<noteq> p + word_of_nat (4 * c + j)" if "j < 4" for j
    proof
      assume "a = p + word_of_nat (4 * c + j)"
      then have "a - p = word_of_nat (4 * c + j)" by (simp del: of_nat_add)
      then have "unat (a - p) = 4 * c + j" using that \<open>c < 256\<close> by (simp add: unat_of_nat del: of_nat_add)
      with assms that \<open>c < 256\<close> show False by simp
    qed
    from this [of 0] this [of 1] this [of 2] this [of 3] show ?thesis by (simp add: store_int_def cell_def ac_simps)
  qed
  have "n \<le> 64 \<Longrightarrow> fold (pinfo_entry p k) [0..<n] m a = m a" for n
    by (induction n) (simp_all add: pinfo_entry_cells st)
  then show ?thesis by (simp add: getpinfo_into_def NPROC_def)
qed

text \<open>The structure that a user program reads back.\<close>

definition read_pstat :: "umemory \<Rightarrow> uint \<Rightarrow> pstat" where
  "read_pstat m p = \<lparr>ps_inuse = map (\<lambda>i. sint (load_int m (cell p i))) [0..<NPROC], ps_tickets = map (\<lambda>i. load_int m (cell p (64 + i))) [0..<NPROC],
     ps_pid = map (\<lambda>i. sint (load_int m (cell p (128 + i)))) [0..<NPROC], ps_ticks = map (\<lambda>i. load_int m (cell p (192 + i))) [0..<NPROC]\<rparr>"

lemma sint_of_small: "0 \<le> i \<Longrightarrow> i < 2 ^ 31 \<Longrightarrow> sint (word_of_int i :: uint) = i"
  by (simp add: signed_of_int signed_take_bit_int_eq_self)

lemma read_getpinfo:
  assumes "kinv k" "nextpid k \<le> 2 ^ 31"
  shows "read_pstat (getpinfo_into p k m) p = getpinfo k"
proof -
  have len: "length (ptable k) = NPROC" using assms(1) by (rule kinv_len)
  have map: "map f [0..<NPROC] = map g (ptable k)" if "\<And>i. i < 64 \<Longrightarrow> f i = g (ptable k ! i)" for f :: "nat \<Rightarrow> 'a" and g
    using that len by (intro nth_equalityI) (auto simp: NPROC_def)
  have "sint (word_of_int (p_pid (ptable k ! i)) :: uint) = p_pid (ptable k ! i)" if "i < 64" for i
  proof (rule sint_of_small)
    have "0 \<le> p_pid (ptable k ! i) \<and> p_pid (ptable k ! i) < nextpid k" using assms(1) that by (simp add: kinv_def NPROC_def)
    with assms(2) show "0 \<le> p_pid (ptable k ! i)" "p_pid (ptable k ! i) < 2 ^ 31" by linarith+
  qed
  moreover have "(64 + i) mod 64 = i" "(128 + i) mod 64 = i" "(192 + i) mod 64 = i" if "i < 64" for i :: nat
    using that by (simp_all add: mod_if)
  ultimately have "load_int (getpinfo_into p k m) (cell p i) = (if p_state (ptable k ! i) = UNUSED then 0 else 1)"
    "load_int (getpinfo_into p k m) (cell p (64 + i)) = p_tickets (ptable k ! i)"
    "sint (load_int (getpinfo_into p k m) (cell p (128 + i))) = p_pid (ptable k ! i)"
    "load_int (getpinfo_into p k m) (cell p (192 + i)) = p_ticks (ptable k ! i)" if "i < 64" for i
    using that by (simp_all add: getpinfo_into_load pstat_cell_def Let_def)
  then show ?thesis unfolding read_pstat_def getpinfo_def by (auto intro!: map)
qed

section \<open>Running processes\<close>

text \<open>The steps of the machine, a system call being one step up to where it sleeps: a user program changes its own memory and registers as it likes, makes a
  system call or goes on inside one; the timer interrupt counts and wakes the sleepers; processes are
  preempted and dispatched. The two critical sections of a \<open>fork\<close> also happen apart from each other, so that a system
  call can meet a process that is still being made. The runs end before the counter of process identifiers overflows.\<close>

inductive wstep :: "fs_handlers \<Rightarrow> world \<Rightarrow> world \<Rightarrow> bool" for fs where
  user: "running cur (kern w) \<Longrightarrow> inside w cur = None \<Longrightarrow>
    wstep fs w (w\<lparr>kern := upd_proc cur (\<lambda>p. p\<lparr>p_tf := tf\<rparr>) (kern w), umem := (umem w)(cur := m)\<rparr>)"
| call: "running cur (kern w) \<Longrightarrow> inside w cur = None \<Longrightarrow> vm_ok v \<Longrightarrow> syscall v fs cur w = Some w' \<Longrightarrow> wstep fs w w'"
| resume: "running cur (kern w) \<Longrightarrow> inside w cur = Some p \<Longrightarrow> sys_resume fs cur p w = Some w' \<Longrightarrow> wstep fs w w'"
| fork_alloc: "kstep (KAlloc cur a) (kern w) = Some k \<Longrightarrow> wstep fs w (w\<lparr>kern := k\<rparr>)"
| fork_copied: "kstep (KForkCopy cur np b) (kern w) = Some k \<Longrightarrow> wstep fs w (w\<lparr>kern := k, umem := (umem w)(np := m)\<rparr>)"
| tick: "wstep fs w (w\<lparr>ticks := ticks w + 1, kern := wakeup ticks_chan (kern w)\<rparr>)"
| preempt: "running cur (kern w) \<Longrightarrow> wstep fs w (w\<lparr>kern := yield cur (kern w)\<rparr>)"
| dispatch: "i < NPROC \<Longrightarrow> p_state (proc_of i w) = RUNNABLE \<Longrightarrow> wstep fs w (w\<lparr>kern := upd_proc i (\<lambda>p. p\<lparr>p_state := RUNNING\<rparr>) (kern w)\<rparr>)"

inductive wreach :: "fs_handlers \<Rightarrow> world \<Rightarrow> bool" for fs where
  wreach_boot: "userinit boot = Some k \<Longrightarrow> wreach fs \<lparr>kern = k, umem = m, ticks = 0, inside = (\<lambda>_. None)\<rparr>"
| wreach_step: "wreach fs w \<Longrightarrow> wstep fs w w' \<Longrightarrow> nextpid (kern w) \<le> nextpid (kern w') \<Longrightarrow> wreach fs w'"

lemma sizes_boot: "userinit boot = Some k \<Longrightarrow> sizes_ok k"
proof -
  assume u: "userinit boot = Some k"
  have "sizes_ok boot" by (auto simp: sizes_ok_def boot_def proc0_def)
  moreover have "(4096 :: uint) \<le> KERNBASE" by (simp add: KERNBASE_def)
  ultimately show ?thesis using u sizes_ok_allocproc [of True boot]
    by (auto simp: userinit_def split: prod.splits option.splits intro!: sizes_ok_upd) (simp_all add: sizes_ok_def)
qed

lemma wstep_winv:
  assumes "wstep fs w w'" "winv w" "fs_ok fs" "nextpid (kern w) \<le> nextpid (kern w')"
  shows "winv w'"
  using assms
proof (cases rule: wstep.cases)
  case (user cur m tf)
  with assms(2) kinv_own [of "kern w" cur "p_tf_update (\<lambda>_. tf)"] show ?thesis by (auto simp: winv_def intro!: sizes_ok_upd)
next
  case (call cur v)
  with assms syscall_ok [of w cur v fs w'] show ?thesis by (simp add: call_ok_def)
next
  case (resume cur p)
  with assms sys_resume_ok [of w cur fs p w'] show ?thesis by (simp add: call_ok_def)
next
  case (fork_alloc cur a k)
  then have "k = snd (allocproc a (kern w))" by (simp split: if_splits)
  then have "sizes_ok k" using assms(2) sizes_ok_allocproc [of a "kern w" "fst (allocproc a (kern w))" k] by (simp add: winv_def)
  with fork_alloc assms(2,4) kinv_kstep [of "kern w" "KAlloc cur a" k] show ?thesis by (simp add: winv_def)
next
  case (fork_copied cur np b k m)
  then have k: "k = snd (fork_copy cur np b (kern w))" "running cur (kern w)" by (simp_all split: if_splits)
  then have "p_sz (ptable (kern w) ! cur) \<le> KERNBASE" using assms(2) by (simp add: winv_def sizes_ok_def running_def kinv_len)
  then have "sizes_ok k" using assms(2) unfolding k(1) by (auto simp: winv_def fork_copy_def Let_def intro!: sizes_ok_upd)
  with fork_copied assms(2,4) kinv_kstep [of "kern w" "KForkCopy cur np b" k] show ?thesis by (simp add: winv_def)
next
  case tick
  with assms(2) sizes_ok_same [OF same_but_wakeup1] kinv_wakeup1 show ?thesis by (simp add: winv_def wakeup_def)
next
  case (preempt cur)
  with assms(2) kinv_kstep [of "kern w" "KYield cur"] show ?thesis by (auto simp: winv_def yield_def intro!: sizes_ok_upd)
next
  case (dispatch i)
  with assms(2) kinv_kstep [of "kern w" "KDispatch i"] show ?thesis by (auto simp: winv_def intro!: sizes_ok_upd)
qed

lemma wreach_winv: "wreach fs w \<Longrightarrow> fs_ok fs \<Longrightarrow> winv w"
proof (induction rule: wreach.induct)
  case (wreach_boot k m)
  then show ?case by (simp add: winv_def kinv_boot sizes_boot)
next
  case (wreach_step w w')
  then show ?case by (blast intro: wstep_winv)
qed

text \<open>The steps as functions, for concrete runs.\<close>

datatype wop = WUser nat umemory "string \<Rightarrow> uint" | WCall nat | WResume nat | WTick | WPreempt nat | WDispatch nat

fun wexec :: "vm \<Rightarrow> fs_handlers \<Rightarrow> wop \<Rightarrow> world \<Rightarrow> world option" where
  "wexec v fs (WUser cur m tf) w = (if running cur (kern w) \<and> Option.is_none (inside w cur)
     then Some (w\<lparr>kern := upd_proc cur (\<lambda>p. p\<lparr>p_tf := tf\<rparr>) (kern w), umem := (umem w)(cur := m)\<rparr>) else None)"
| "wexec v fs (WCall cur) w = (if running cur (kern w) \<and> Option.is_none (inside w cur) then syscall v fs cur w else None)"
| "wexec v fs (WResume cur) w = (case inside w cur of Some p \<Rightarrow> if running cur (kern w) then sys_resume fs cur p w else None | None \<Rightarrow> None)"
| "wexec v fs WTick w = Some (w\<lparr>ticks := ticks w + 1, kern := wakeup ticks_chan (kern w)\<rparr>)"
| "wexec v fs (WPreempt cur) w = (if running cur (kern w) then Some (w\<lparr>kern := yield cur (kern w)\<rparr>) else None)"
| "wexec v fs (WDispatch i) w = (if i < NPROC \<and> p_state (proc_of i w) = RUNNABLE
     then Some (w\<lparr>kern := upd_proc i (\<lambda>p. p\<lparr>p_state := RUNNING\<rparr>) (kern w)\<rparr>) else None)"

lemma wexec_wstep: "vm_ok v \<Longrightarrow> wexec v fs op w = Some w' \<Longrightarrow> wstep fs w w'"
  by (cases op) (auto simp: Option.is_none_def intro: wstep.intros split: if_splits option.splits)

definition wtry :: "vm \<Rightarrow> fs_handlers \<Rightarrow> wop \<Rightarrow> world \<Rightarrow> world option" where
  "wtry v fs op w = (case wexec v fs op w of None \<Rightarrow> None
     | Some w' \<Rightarrow> if nextpid (kern w) \<le> nextpid (kern w') then Some w' else None)"

lemma wreach_wtry: "wreach fs w \<Longrightarrow> vm_ok v \<Longrightarrow> wtry v fs op w = Some w' \<Longrightarrow> wreach fs w'"
  by (auto simp: wtry_def intro: wreach_step wexec_wstep split: option.splits if_splits)

definition wrun :: "vm \<Rightarrow> fs_handlers \<Rightarrow> wop list \<Rightarrow> world option" where
  "wrun v fs ops = fold (\<lambda>op w. Option.bind w (wtry v fs op)) ops
     (map_option (\<lambda>k. \<lparr>kern = k, umem = (\<lambda>_ _. 0), ticks = 0, inside = (\<lambda>_. None)\<rparr>) (userinit boot))"

lemma wreach_fold:
  "fold (\<lambda>op w. Option.bind w (wtry v fs op)) ops w0 = Some w \<Longrightarrow> vm_ok v \<Longrightarrow> (\<And>w. w0 = Some w \<Longrightarrow> wreach fs w) \<Longrightarrow> wreach fs w"
proof (induction ops arbitrary: w0)
  case (Cons op ops)
  show ?case
    using Cons.prems by (intro Cons.IH [of "Option.bind w0 (wtry v fs op)"])
      (auto simp: Option.bind_eq_Some_conv intro: wreach_wtry)
qed simp

lemma wrun_test:
  assumes "case wrun v fs ops of None \<Rightarrow> False | Some w \<Rightarrow> test w" "vm_ok v"
  obtains w where "wreach fs w" "test w"
  using assms wreach_fold [of v fs ops] unfolding wrun_def
  by (auto split: option.splits intro: wreach_boot)

section \<open>Properties\<close>

text \<open>C11:
  Whatever a user program has in its registers and in its memory when it makes a system call, in any
  state that the machine reaches from boot, and unless the call makes the 32-bit counter of process
  identifiers overflow: the process table keeps its invariant (unique identifiers,
  tickets, live parents), the process stays below the kernel base, and the memory, the size, the
  registers and the tickets of every other process in use are as they were. The virtual memory layer is
  assumed to respect the kernel base (\<open>vm_ok\<close>, \<open>fs_ok\<close>).
\<close>

theorem system_calls_isolate:
  assumes "wreach fs w" "fs_ok fs" "vm_ok v" "running cur (kern w)" "syscall v fs cur w = Some w'"
    and "nextpid (kern w) \<le> nextpid (kern w')"
  shows "kinv (kern w') \<and> p_sz (proc_of cur w') \<le> KERNBASE \<and>
    (\<forall>j < NPROC. j \<noteq> cur \<and> p_state (proc_of j w) \<noteq> UNUSED \<longrightarrow>
      umem w' j = umem w j \<and> p_sz (proc_of j w') = p_sz (proc_of j w) \<and>
      p_tf (proc_of j w') = p_tf (proc_of j w) \<and> p_tickets (proc_of j w') = p_tickets (proc_of j w))"
proof -
  have "winv w" using assms(1,2) by (rule wreach_winv)
  from syscall_ok [OF this assms(4,3,2,5,6)] have "winv w'" "isolated cur w w'" by (auto simp: call_ok_def)
  with assms(4) show ?thesis by (simp add: winv_def sizes_ok_def isolated_def kept_def running_def kinv_len)
qed

text \<open>A virtual memory layer with unlimited pages, and file system calls that do nothing.\<close>

definition vm_demo :: vm where
  "vm_demo = \<lparr>kalloc_ok = True, copyuvm = (\<lambda>m sz. Some m),
     allocuvm = (\<lambda>m old new. (if KERNBASE \<le> new then 0 else if new < old then old else new, m)),
     deallocuvm = (\<lambda>m old new. (if old \<le> new then old else new, m))\<rparr>"

definition fs_demo :: fs_handlers where
  "fs_demo num cur w = \<lparr>fs_end = FsRet 0, fs_mem = umem w cur, fs_sz = 4096, fs_tf = p_tf (proc_of cur w), fs_ofile = p_ofile (proc_of cur w),
     fs_cwd = p_cwd (proc_of cur w), fs_name = p_name (proc_of cur w), fs_wakes = []\<rparr>"

lemma vm_demo_ok: "vm_ok vm_demo"
  by (auto simp: vm_ok_def vm_demo_def)

lemma fs_demo_ok: "fs_ok fs_demo"
  by (simp add: fs_ok_def fs_demo_def KERNBASE_def)

text \<open>The first process forks and is about to call \<open>settickets(7)\<close>.\<close>

definition regs :: "uint \<Rightarrow> string \<Rightarrow> uint" where
  "regs num r = (if r = ''eax'' then num else 0)"

definition demo_ops :: "wop list" where
  "demo_ops = [WDispatch 0, WUser 0 (\<lambda>_. 0) (regs 1), WCall 0, WUser 0 ((\<lambda>_. 0)(4 := 7)) (regs 22)]"

theorem system_calls_isolate_witness:
  "\<exists>w w'. wreach fs_demo w \<and> syscall vm_demo fs_demo 0 w = Some w' \<and> p_tickets (proc_of 0 w') = 7 \<and> p_tickets (proc_of 1 w') = 1 \<and>
     p_state (proc_of 1 w') = RUNNABLE \<and> umem w' 1 = umem w 1"
proof -
  have "case wrun vm_demo fs_demo demo_ops of None \<Rightarrow> False
    | Some w \<Rightarrow> running 0 (kern w) \<and> p_state (proc_of 1 w) = RUNNABLE \<and> p_tickets (proc_of 1 w) = 1 \<and>
        (case syscall vm_demo fs_demo 0 w of None \<Rightarrow> False | Some w' \<Rightarrow> p_tickets (proc_of 0 w') = 7 \<and> p_state (proc_of 1 w') = RUNNABLE \<and> nextpid (kern w) \<le> nextpid (kern w'))"
    by code_simp
  then obtain w where w: "wreach fs_demo w" "running 0 (kern w)" "p_state (proc_of 1 w) = RUNNABLE" "p_tickets (proc_of 1 w) = 1"
      "case syscall vm_demo fs_demo 0 w of None \<Rightarrow> False
        | Some w' \<Rightarrow> p_tickets (proc_of 0 w') = 7 \<and> p_state (proc_of 1 w') = RUNNABLE \<and> nextpid (kern w) \<le> nextpid (kern w')"
    using vm_demo_ok by (auto elim!: wrun_test)
  then obtain w' where w': "syscall vm_demo fs_demo 0 w = Some w'" "p_tickets (proc_of 0 w') = 7" "p_state (proc_of 1 w') = RUNNABLE"
    "nextpid (kern w) \<le> nextpid (kern w')"
    by (auto split: option.splits)
  from system_calls_isolate [OF w(1) fs_demo_ok vm_demo_ok w(2) w'(1,4)] w(3,4)
  have "umem w' 1 = umem w 1" "p_tickets (proc_of 1 w') = 1" by (auto simp: NPROC_def)
  with w w' show ?thesis by blast
qed

text \<open>C12:
  The checks on system call arguments are enough, in every state that the machine reaches: a block
  that \<open>argptr\<close> accepts lies in the memory of the caller, without wrapping around; a string that
  \<open>argstr\<close> accepts ends with its first NUL byte inside that memory, and one is refused although its
  address is inside only if there is no NUL byte up to the end; and no answer depends on a byte
  outside.
\<close>

theorem arguments_stay_inside:
  assumes "wreach fs w" "fs_ok fs" "cur < NPROC"
  shows "(argptr cur n len w = Some p \<and> j < unat len \<longrightarrow>
      unat (p + word_of_nat j) = unat p + j \<and> p + word_of_nat j < p_sz (proc_of cur w)) \<and>
    (argstr cur n w = Some (a, l) \<longrightarrow> a \<le> a + l \<and> a + l < p_sz (proc_of cur w) \<and>
      umem w cur (a + l) = 0 \<and> (\<forall>x. a \<le> x \<and> x < a + l \<longrightarrow> umem w cur x \<noteq> 0)) \<and>
    (argint cur n w = Some a \<and> argstr cur n w = None \<longrightarrow> (\<forall>x. a \<le> x \<and> x < p_sz (proc_of cur w) \<longrightarrow> umem w cur x \<noteq> 0)) \<and>
    (agree (p_sz (proc_of cur w)) (umem w cur) m \<longrightarrow>
      argint cur n (w\<lparr>umem := (umem w)(cur := m)\<rparr>) = argint cur n w \<and>
      argptr cur n len (w\<lparr>umem := (umem w)(cur := m)\<rparr>) = argptr cur n len w \<and>
      argstr cur n (w\<lparr>umem := (umem w)(cur := m)\<rparr>) = argstr cur n w)"
proof -
  let ?sz = "p_sz (proc_of cur w)" and ?w = "w\<lparr>umem := (umem w)(cur := m)\<rparr>"
  have sz: "?sz \<le> KERNBASE" using wreach_winv [OF assms(1,2)] assms(3) by (simp add: winv_def sizes_ok_def kinv_len)
  have ptr: "unat (p + word_of_nat j) = unat p + j \<and> p + word_of_nat j < ?sz" if "argptr cur n len w = Some p" "j < unat len"
  proof -
    have "\<not> ?sz \<le> p" "\<not> ?sz < p + len" "\<not> sint len < 0" using that(1) by (auto simp: argptr_def Let_def split: option.splits if_splits)
    moreover from this(3) have "unat len < 2 ^ 31" by (rule unat_small_of_sint)
    ultimately show ?thesis using block_inside [OF sz _ _ _ that(2), of p] by (simp add: word_less_nat_alt)
  qed
  have str: "a \<le> a + l \<and> a + l < ?sz \<and> umem w cur (a + l) = 0 \<and> (\<forall>x. a \<le> x \<and> x < a + l \<longrightarrow> umem w cur x \<noteq> 0)"
    if s: "argstr cur n w = Some (a, l)"
    using s fetchstr_loop_Some [of "umem w cur" a ?sz a l]
    by (auto simp: argstr_def fetchstr_def Let_def split: option.splits if_splits)
  have none: "umem w cur x \<noteq> 0" if "argint cur n w = Some a" "argstr cur n w = None" "a \<le> x" "x < ?sz" for x
    using that fetchstr_loop_None [of "umem w cur" a ?sz a x] by (auto simp: argstr_def fetchstr_def Let_def split: if_splits)
  have same: "argint cur n ?w = argint cur n w" "argptr cur n len ?w = argptr cur n len w" "argstr cur n ?w = argstr cur n w"
    if ag: "agree ?sz (umem w cur) m"
  proof -
    have fetch: "fetchint cur x ?w = fetchint cur x w" for x
      using load_int_agree [OF ag sz, of x] by (auto simp: fetchint_def Let_def)
    then show i: "argint cur n ?w = argint cur n w" by (simp add: argint_def)
    show "argptr cur n len ?w = argptr cur n len w" unfolding argptr_def i by (simp split: option.split)
    show "argstr cur n ?w = argstr cur n w"
      unfolding argstr_def i by (simp add: fetchstr_def Let_def fetchstr_loop_agree [OF ag] split: option.split)
  qed
  show ?thesis using ptr str none same by blast
qed

text \<open>The first process passes the address of a string and the size 4.\<close>

definition demo_args :: "wop list" where
  "demo_args = [WDispatch 0, WUser 0 ((\<lambda>_. 0)(4 := 16, 16 := 104, 17 := 105)) (regs 15)]"

theorem arguments_stay_inside_witness:
  "\<exists>w. wreach fs_demo w \<and> argptr 0 0 4 w = Some 16 \<and> argstr 0 0 w = Some (16, 2) \<and> 16 + 3 < p_sz (proc_of 0 w) \<and> umem w 0 17 \<noteq> 0"
proof -
  have "case wrun vm_demo fs_demo demo_args of None \<Rightarrow> False | Some w \<Rightarrow> argptr 0 0 4 w = Some 16 \<and> argstr 0 0 w = Some (16, 2)"
    by code_simp
  then obtain w where w: "wreach fs_demo w" "argptr 0 0 4 w = Some 16" "argstr 0 0 w = Some (16, 2)"
    using vm_demo_ok by (auto elim!: wrun_test)
  note stay = arguments_stay_inside [OF w(1) fs_demo_ok, of 0]
  have "16 + 3 < p_sz (proc_of 0 w)" using stay [of 0 4 16 3] w(2) by (simp add: NPROC_def)
  moreover have "\<forall>x. 16 \<le> x \<and> x < (16 :: uint) + 2 \<longrightarrow> umem w 0 x \<noteq> 0" using stay [where a = 16 and l = 2 and n = 0] w(3) by (simp add: NPROC_def)
  then have "umem w 0 17 \<noteq> 0" by simp
  ultimately show ?thesis using w by blast
qed

text \<open>C13:
  \<open>getpinfo\<close> hands out the process table: as long as the process identifiers fit into an \<open>int\<close>, the
  structure that the caller reads back at the address it passed is the table at the time of the call,
  nothing else in its memory changes, and the whole structure lies inside its memory.
\<close>

theorem getpinfo_roundtrip:
  assumes "wreach fs w" "fs_ok fs" "running cur (kern w)" "nextpid (kern w) \<le> 2 ^ 31" "argptr cur 0 sizeof_pstat w = Some p"
  shows "\<exists>w'. sys_getpinfo cur w = Some (Ret 0, w') \<and> kern w' = kern w \<and> read_pstat (umem w' cur) p = getpinfo (kern w) \<and>
    (\<forall>a. 1024 \<le> unat (a - p) \<longrightarrow> umem w' cur a = umem w cur a) \<and> (\<forall>j < 1024. p + word_of_nat j < p_sz (proc_of cur w))"
proof -
  let ?w' = "w\<lparr>umem := (umem w)(cur := getpinfo_into p (kern w) (umem w cur))\<rparr>"
  have inv: "winv w" using assms(1,2) by (rule wreach_winv)
  have "sys_getpinfo cur w = Some (Ret 0, ?w')" by (simp add: sys_getpinfo_def assms(5))
  moreover have "read_pstat (umem ?w' cur) p = getpinfo (kern w)" using read_getpinfo [OF winv_kinv [OF inv] assms(4)] by simp
  moreover have "umem ?w' cur a = umem w cur a" if "1024 \<le> unat (a - p)" for a using getpinfo_into_frame [OF that] by simp
  moreover have "p + word_of_nat j < p_sz (proc_of cur w)" if "j < 1024" for j
  proof -
    have sz: "p_sz (proc_of cur w) \<le> KERNBASE" using inv assms(3) by (simp add: winv_def sizes_ok_def kinv_len running_def)
    have "\<not> p_sz (proc_of cur w) \<le> p" "\<not> p_sz (proc_of cur w) < p + 1024"
      using assms(5) by (auto simp: argptr_def sizeof_pstat_def Let_def split: option.splits if_splits)
    from block_inside [OF sz this, of j] that show ?thesis by (simp add: word_less_nat_alt)
  qed
  ultimately show ?thesis by (intro exI [of _ ?w']) auto
qed

definition demo_pinfo :: "wop list" where
  "demo_pinfo = [WDispatch 0, WUser 0 (\<lambda>_. 0) (regs 1), WCall 0, WUser 0 ((\<lambda>_. 0)(5 := 8)) (regs 23)]"

theorem getpinfo_roundtrip_witness:
  "\<exists>w w'. wreach fs_demo w \<and> sys_getpinfo 0 w = Some (Ret 0, w') \<and> take 3 (ps_inuse (read_pstat (umem w' 0) 2048)) = [1, 1, 0] \<and>
    take 3 (ps_pid (read_pstat (umem w' 0) 2048)) = [1, 2, 0]"
proof -
  have "case wrun vm_demo fs_demo demo_pinfo of None \<Rightarrow> False
    | Some w \<Rightarrow> running 0 (kern w) \<and> nextpid (kern w) = 3 \<and> argptr 0 0 sizeof_pstat w = Some 2048 \<and>
        take 3 (ps_inuse (getpinfo (kern w))) = [1, 1, 0] \<and> take 3 (ps_pid (getpinfo (kern w))) = [1, 2, 0]"
    by code_simp
  then obtain w where w: "wreach fs_demo w" "running 0 (kern w)" "nextpid (kern w) = 3" "argptr 0 0 sizeof_pstat w = Some 2048"
    "take 3 (ps_inuse (getpinfo (kern w))) = [1, 1, 0]" "take 3 (ps_pid (getpinfo (kern w))) = [1, 2, 0]"
    using vm_demo_ok by (auto elim!: wrun_test)
  from getpinfo_roundtrip [OF w(1) fs_demo_ok w(2) _ w(4)] w(3) obtain w' where
    "sys_getpinfo 0 w = Some (Ret 0, w')" "read_pstat (umem w' 0) 2048 = getpinfo (kern w)" by auto
  with w show ?thesis by auto
qed

end
