(* ===== verification/Checksum.thy ===== *)
theory Checksum
  imports Prelude "HOL-Library.Signed_Division"
begin

text \<open>
  The checksum programs of chapter 45: \<^verbatim>\<open>45/check-xor.c\<close>, \<^verbatim>\<open>45/check-fletcher.c\<close>,
  \<^verbatim>\<open>45/create-csum.c\<close> and \<^verbatim>\<open>45/check-csum.c\<close>. Files are byte lists in a map from path names; a
  program returns the message it fails with or its result. Reads of a regular file return as many
  bytes as are left, up to the size of the buffer. Timing output is left out.
\<close>

section \<open>Files\<close>

text \<open>\<open>write\<close> of one byte at an offset.\<close>

definition pwrite1 :: "nat \<Rightarrow> uchar \<Rightarrow> uchar list \<Rightarrow> uchar list" where
  "pwrite1 i x c = take i (c @ replicate (i - length c) 0) @ x # drop (i + 1) c"

section \<open>\<open>check-xor\<close>\<close>

definition xor_byte :: "uchar \<Rightarrow> uchar \<Rightarrow> uchar" where
  "xor_byte b x = (if b \<noteq> 10 then x XOR (b - 48) else x)"

definition check_xor :: "files \<Rightarrow> string list \<Rightarrow> string + uchar" where
  "check_xor fs argv =
    (if length argv \<noteq> 2 then Inl ''Usage''
     else case fs (argv ! 1) of None \<Rightarrow> Inl ''open'' | Some bs \<Rightarrow> Inr (fold xor_byte bs 0))"

section \<open>\<open>check-fletcher\<close>\<close>

text \<open>The buffer is of type \<open>char\<close>, which is signed, and \<open>%\<close> truncates towards zero.\<close>

definition fletcher_byte :: "uchar \<Rightarrow> int \<times> int \<Rightarrow> int \<times> int" where
  "fletcher_byte b = (\<lambda>(fletcher_a, fletcher_b).
    if b \<noteq> 10 then
      let fletcher_a = (sint b - 48 + fletcher_a) smod 255 in (fletcher_a, (fletcher_a + fletcher_b) smod 255)
    else (fletcher_a, fletcher_b))"

definition check_fletcher :: "files \<Rightarrow> string list \<Rightarrow> string + int \<times> int" where
  "check_fletcher fs argv =
    (if length argv \<noteq> 2 then Inl ''Usage''
     else case fs (argv ! 1) of None \<Rightarrow> Inl ''open'' | Some bs \<Rightarrow> Inr (fold fletcher_byte bs (0, 0)))"

section \<open>\<open>create-csum\<close> and \<open>check-csum\<close>\<close>

definition BUFFSIZE :: nat where "BUFFSIZE = 4096"

definition xor_block :: "uchar list \<Rightarrow> uchar \<Rightarrow> uchar" where
  "xor_block bs x = fold (\<lambda>b x. x XOR b) bs x"

text \<open>The loop of \<open>create-csum\<close> before block \<open>i\<close>; the two descriptors may be of the same file.\<close>

function create_loop :: "files \<Rightarrow> string \<Rightarrow> string \<Rightarrow> nat \<Rightarrow> uchar \<Rightarrow> files" where
  "create_loop fs r w i x =
    (let blk = take BUFFSIZE (drop (BUFFSIZE * i) (content fs r)) in
     if blk = [] then fs
     else let x = xor_block blk x in
       create_loop (fs(w \<mapsto> pwrite1 i x (content fs w))) r w (i + 1) x)"
  by pat_completeness auto

definition create_csum :: "files \<Rightarrow> string list \<Rightarrow> string + files" where
  "create_csum fs argv =
    (if length argv \<noteq> 3 then Inl ''Usage''
     else if fs (argv ! 1) = None then Inl ''open''
     else let fs = fs(argv ! 2 \<mapsto> content fs (argv ! 2)) in
       Inr (create_loop fs (argv ! 1) (argv ! 2) 0 0))"

text \<open>The loop of \<open>check-csum\<close>: at the end of the checksum file \<open>read\<close> leaves \<open>buff_b\<close> as it was.\<close>

function check_loop :: "uchar list \<Rightarrow> uchar list \<Rightarrow> uchar \<Rightarrow> uchar \<Rightarrow> bool" where
  "check_loop as bs x buff_b =
    (if as = [] then True
     else let x = xor_block (take BUFFSIZE as) x;
              buff_b = (if bs = [] then buff_b else hd bs) in
       if x \<noteq> buff_b then False else check_loop (drop BUFFSIZE as) (tl bs) x buff_b)"
  by pat_completeness auto

termination
  by (relation "measure (\<lambda>(as, _, _, _). length as)") (auto simp: BUFFSIZE_def)

declare check_loop.simps [simp del]

definition check_csum :: "files \<Rightarrow> string list \<Rightarrow> string + unit" where
  "check_csum fs argv =
    (if length argv \<noteq> 3 then Inl ''Usage''
     else case (fs (argv ! 1), fs (argv ! 2)) of
       (Some as, Some bs) \<Rightarrow> if check_loop as bs 0 0 then Inr () else Inl ''The file is corrupted!''
     | _ \<Rightarrow> Inl ''open'')"

section \<open>Termination of \<open>create-csum\<close>\<close>

text \<open>Also when a file is checksummed into itself: byte \<open>i\<close> is written after block \<open>i\<close> was read, so the
  file does not grow.\<close>

lemma length_pwrite1: "length (pwrite1 i x c) = max (length c) (i + 1)"
  by (auto simp: pwrite1_def)

lemma pwrite1_append: "length c = i \<Longrightarrow> pwrite1 i x (c @ d) = c @ x # tl d"
  by (simp add: pwrite1_def drop_Suc)

termination create_loop
proof (relation "measure (\<lambda>(fs, r, w, i, x). length (content fs r) - BUFFSIZE * i)", goal_cases)
  case 1
  then show ?case by simp
next
  case (2 fs r w i x blk x')
  then have i: "BUFFSIZE * i < length (content fs r)" by (auto simp: BUFFSIZE_def)
  then have "i + 1 \<le> length (content fs r)" by (simp add: BUFFSIZE_def)
  then have "length (content (fs(w \<mapsto> pwrite1 i x' (content fs w))) r) = length (content fs r)"
    by (auto simp: content_def length_pwrite1 split: option.splits)
  then show ?case using i by (simp add: BUFFSIZE_def)
qed

declare create_loop.simps [simp del]

section \<open>The checksums of the blocks\<close>

function csums :: "uchar list \<Rightarrow> uchar \<Rightarrow> uchar list" where
  "csums bs x = (if bs = [] then []
     else let x = xor_block (take BUFFSIZE bs) x in x # csums (drop BUFFSIZE bs) x)"
  by pat_completeness auto

termination
  by (relation "measure (\<lambda>(bs, _). length bs)") (auto simp: BUFFSIZE_def)

declare csums.simps [simp del]

lemma csums_Nil [simp]: "csums [] x = []"
  by (simp add: csums.simps)

lemma create_loop_csums:
  assumes "r \<noteq> w" and "content fs w = c @ d" and "length c = i"
  shows "create_loop fs r w i x =
    (let cs = csums (drop (BUFFSIZE * i) (content fs r)) x in
     if cs = [] then fs else fs(w \<mapsto> c @ cs @ drop (length cs) d))"
  using assms(2,3)
proof (induction "length (content fs r) - BUFFSIZE * i" arbitrary: fs i c d x rule: less_induct)
  case less
  let ?bs = "drop (BUFFSIZE * i) (content fs r)"
  show ?case
  proof (cases "?bs = []")
    case True
    then show ?thesis by (simp add: create_loop.simps [of fs])
  next
    case False
    define x' where "x' = xor_block (take BUFFSIZE ?bs) x"
    define fs' where "fs' = fs(w \<mapsto> pwrite1 i x' (content fs w))"
    have r: "content fs' r = content fs r" using assms(1) by (simp add: fs'_def content_def)
    have w: "content fs' w = (c @ [x']) @ tl d"
      using less.prems by (simp add: fs'_def content_def pwrite1_append split: option.splits)
    have cs: "csums ?bs x = x' # csums (drop (BUFFSIZE * (i + 1)) (content fs r)) x'"
      using False by (subst csums.simps) (simp add: x'_def Let_def add.commute)
    have "create_loop fs r w i x = create_loop fs' r w (i + 1) x'"
      using False by (subst create_loop.simps) (simp add: x'_def fs'_def Let_def BUFFSIZE_def)
    also have "\<dots> = (let cs = csums (drop (BUFFSIZE * (i + 1)) (content fs' r)) x' in
        if cs = [] then fs' else fs'(w \<mapsto> (c @ [x']) @ cs @ drop (length cs) (tl d)))"
    proof (rule less.hyps [OF _ w])
      show "length (content fs' r) - BUFFSIZE * (i + 1) < length (content fs r) - BUFFSIZE * i"
        using False by (simp add: r BUFFSIZE_def)
    qed (use less.prems in simp)
    also have "\<dots> = (let cs = csums ?bs x in if cs = [] then fs else fs(w \<mapsto> c @ cs @ drop (length cs) d))"
      using less.prems unfolding r cs by (auto simp: Let_def fs'_def pwrite1_append drop_Suc)
    finally show ?thesis .
  qed
qed

lemma create_csum_content:
  assumes "r \<noteq> w" and "fs r = Some bs"
  shows "\<exists>tail. create_csum fs [p, r, w] = Inr (fs(w \<mapsto> csums bs 0 @ tail))"
proof -
  let ?fs = "fs(w \<mapsto> content fs w)"
  have "content ?fs r = bs" using assms by (simp add: content_def)
  then have "create_csum fs [p, r, w] = Inr (fs(w \<mapsto> csums bs 0 @ drop (length (csums bs 0)) (content fs w)))"
    using assms create_loop_csums [OF assms(1), of ?fs "[]" "content fs w" 0 0]
    by (simp add: create_csum_def content_def Let_def)
  then show ?thesis by blast
qed

lemma check_loop_prefix: "check_loop bs (csums bs x @ tail) x b"
proof (induction bs x arbitrary: b rule: csums.induct)
  case (1 bs x)
  show ?case
  proof (cases "bs = []")
    case False
    then show ?thesis using 1 by (subst csums.simps, subst check_loop.simps) (simp add: Let_def)
  qed (simp add: check_loop.simps)
qed

lemma xor_block_append: "xor_block (as @ bs) x = xor_block bs (xor_block as x)"
  by (simp add: xor_block_def)

lemma xor_block_init: "xor_block bs x = x XOR xor_block bs 0"
proof (induction bs arbitrary: x)
  case Nil
  then show ?case by (simp add: xor_block_def)
next
  case (Cons b bs)
  have "xor_block (b # bs) x = xor_block bs (x XOR b)" for x by (simp add: xor_block_def)
  then show ?case using Cons [of "x XOR b"] Cons [of "0 XOR b"] by (simp add: xor.assoc)
qed

lemma xor_cancel:
  fixes a b c :: "'a::len word"
  shows "a XOR c = b XOR c \<longleftrightarrow> a = b" "c XOR a = c XOR b \<longleftrightarrow> a = b"
proof -
  have "a = b" if "a XOR c = b XOR c"
  proof -
    from that have "(a XOR c) XOR c = (b XOR c) XOR c" by simp
    then show ?thesis by (simp add: xor.assoc)
  qed
  then show "a XOR c = b XOR c \<longleftrightarrow> a = b" by blast
  then show "c XOR a = c XOR b \<longleftrightarrow> a = b" by (simp add: xor.commute)
qed

lemma xor_block_changed:
  assumes "i < length bs" and "b \<noteq> bs ! i"
  shows "xor_block (bs[i := b]) x \<noteq> xor_block bs x"
proof -
  let ?p = "xor_block (take i bs) x" and ?s = "xor_block (drop (Suc i) bs) 0"
  have split: "xor_block (take i bs @ c # drop (Suc i) bs) x = (?p XOR c) XOR ?s" for c
    using xor_block_init [of "drop (Suc i) bs" "?p XOR c"]
    by (simp add: xor_block_append) (simp add: xor_block_def)
  have "bs = take i bs @ bs ! i # drop (Suc i) bs" using assms(1) by (rule id_take_nth_drop)
  then have "xor_block bs x = (?p XOR bs ! i) XOR ?s" using split by metis
  moreover have "xor_block (bs[i := b]) x = (?p XOR b) XOR ?s"
    using assms(1) split by (simp add: upd_conv_take_nth_drop)
  ultimately show ?thesis using assms(2) by (simp add: xor_cancel)
qed

lemma check_loop_changed:
  assumes "i < length bs" and "b \<noteq> bs ! i"
  shows "\<not> check_loop (bs[i := b]) (csums bs x @ tail) x c"
  using assms
proof (induction bs x arbitrary: c i rule: csums.induct)
  case (1 bs x)
  then have ne: "bs \<noteq> []" by auto
  let ?x = "xor_block (take BUFFSIZE bs) x"
  have cs: "csums bs x = ?x # csums (drop BUFFSIZE bs) ?x" using ne by (subst csums.simps) (simp add: Let_def)
  show ?case
  proof (cases "i < BUFFSIZE")
    case True
    then have "xor_block ((take BUFFSIZE bs)[i := b]) x \<noteq> ?x"
      using 1 by (intro xor_block_changed) auto
    then show ?thesis using ne by (subst check_loop.simps) (simp add: cs take_update_swap Let_def)
  next
    case False
    have "\<not> check_loop ((drop BUFFSIZE bs)[i - BUFFSIZE := b]) (csums (drop BUFFSIZE bs) ?x @ tail) ?x ?x"
      using 1 False ne by (intro 1) (auto simp: Let_def)
    then show ?thesis using False ne
      by (subst check_loop.simps) (simp add: cs Let_def drop_update_swap)
  qed
qed

lemma csums_take: "\<exists>tail. csums bs x = csums (take (BUFFSIZE * k) bs) x @ tail"
proof (induction k arbitrary: bs x)
  case 0
  then show ?case by (simp add: csums_Nil)
next
  case (Suc k)
  show ?case
  proof (cases "bs = []")
    case False
    let ?x = "xor_block (take BUFFSIZE bs) x"
    have "csums bs x = ?x # csums (drop BUFFSIZE bs) ?x" using False by (subst csums.simps) (simp add: Let_def)
    moreover have "csums (take (BUFFSIZE * Suc k) bs) x = ?x # csums (take (BUFFSIZE * k) (drop BUFFSIZE bs)) ?x"
      using False by (subst csums.simps) (simp add: Let_def BUFFSIZE_def drop_take min_def)
    ultimately show ?thesis using Suc.IH [of "drop BUFFSIZE bs" ?x] by auto
  qed (simp add: csums_Nil)
qed

section \<open>The Fletcher sums\<close>

text \<open>The digits that are summed, and the sum of the prefix sums.\<close>

definition digits :: "uchar list \<Rightarrow> int list" where
  "digits bs = map (\<lambda>b. sint b - 48) (filter (\<lambda>b. b \<noteq> 10) bs)"

definition weighted :: "int list \<Rightarrow> int" where
  "weighted ds = (\<Sum>i < length ds. int (length ds - i) * ds ! i)"

lemma weighted_snoc: "weighted (ds @ [d]) = weighted ds + sum_list (ds @ [d])"
proof -
  have "(\<Sum>i < length ds. int (length ds + 1 - i) * ds ! i) = (\<Sum>i < length ds. int (length ds - i) * ds ! i + ds ! i)"
    by (intro sum.cong) (auto simp: Suc_diff_le algebra_simps)
  also have "\<dots> = weighted ds + sum_list ds"
    by (simp add: weighted_def sum.distrib sum_list_sum_nth atLeast0LessThan)
  finally show ?thesis by (simp add: weighted_def nth_append)
qed

lemma smod_255: "\<bar>a smod 255\<bar> < 255" "(a smod 255) mod 255 = a mod (255::int)"
proof -
  have "a mod 255 = (255 * (a sdiv 255) + a smod 255) mod 255" by (simp only: mult_sdiv_smod_eq)
  then show "(a smod 255) mod 255 = a mod (255::int)" by simp
  show "\<bar>a smod 255\<bar> < 255" by (simp add: smod_int_alt_def abs_mult abs_sgn_eq)
qed

lemma fletcher_fold:
  fixes bs
  defines "ab \<equiv> fold fletcher_byte bs (0, 0)"
  shows "\<bar>fst ab\<bar> < 255 \<and> \<bar>snd ab\<bar> < 255 \<and> fst ab mod 255 = sum_list (digits bs) mod 255 \<and>
    snd ab mod 255 = weighted (digits bs) mod 255"
  unfolding ab_def
proof (induction bs rule: rev_induct)
  case Nil
  then show ?case by (simp add: digits_def weighted_def)
next
  case (snoc b bs)
  obtain a c where ac: "fold fletcher_byte bs (0, 0) = (a, c)" by fastforce
  show ?case
  proof (cases "b = 10")
    case True
    with snoc ac show ?thesis by (simp add: fletcher_byte_def digits_def)
  next
    case False
    let ?d = "sint b - 48"
    have ds: "digits (bs @ [b]) = digits bs @ [?d]" using False by (simp add: digits_def)
    have a: "(?d + a) mod 255 = sum_list (digits (bs @ [b])) mod 255"
      using snoc ac by (simp add: ds) (metis add.commute mod_add_cong)
    have "((?d + a) smod 255 + c) mod 255 = (sum_list (digits (bs @ [b])) + weighted (digits bs)) mod 255"
      using snoc ac a by (intro mod_add_cong) (simp_all add: smod_255)
    moreover have "fold fletcher_byte (bs @ [b]) (0, 0) = ((?d + a) smod 255, ((?d + a) smod 255 + c) smod 255)"
      using False ac by (simp add: Let_def) (simp add: fletcher_byte_def Let_def)
    moreover have "weighted (digits (bs @ [b])) = sum_list (digits (bs @ [b])) + weighted (digits bs)"
      by (simp add: ds weighted_snoc)
    ultimately show ?thesis using a by (simp only: fst_conv snd_conv smod_255)
  qed
qed

section \<open>Properties\<close>

text \<open>
  Round trip of \<open>create-csum\<close> and \<open>check-csum\<close>: the checksum file that was created for a file,
  over whatever the checksum file held before, is accepted for it; and after any one byte of the
  file has changed it is rejected.
\<close>

theorem csum_roundtrip:
  assumes "r \<noteq> w" and "fs r = Some bs"
  shows "\<exists>fs'. create_csum fs [p, r, w] = Inr fs' \<and> fs' r = Some bs \<and> check_csum fs' [q, r, w] = Inr () \<and>
    (\<forall>i < length bs. \<forall>b. b \<noteq> bs ! i \<longrightarrow>
       check_csum (fs'(r \<mapsto> bs[i := b])) [q, r, w] = Inl ''The file is corrupted!'')"
proof -
  obtain tail where fs': "create_csum fs [p, r, w] = Inr (fs(w \<mapsto> csums bs 0 @ tail))"
    using create_csum_content [of r w fs bs p] assms by blast
  show ?thesis
    using assms check_loop_prefix [of bs 0 tail] check_loop_changed [of _ bs _ 0 tail 0]
    by (intro exI [of _ "fs(w \<mapsto> csums bs 0 @ tail)"]) (simp add: fs' check_csum_def)
qed

theorem csum_roundtrip_witness:
  "\<exists>fs'. create_csum [''f'' \<mapsto> [1, 2, 4]] [''create'', ''f'', ''c''] = Inr fs' \<and>
     check_csum fs' [''check'', ''f'', ''c''] = Inr () \<and>
     check_csum (fs'(''f'' \<mapsto> [1, 2, 4][1 := 3])) [''check'', ''f'', ''c''] = Inl ''The file is corrupted!''"
proof -
  let ?fs = "[''f'' \<mapsto> [1, 2, 4 :: uchar]]" and ?i = "1 :: nat"
  obtain fs' where fs': "create_csum ?fs [''create'', ''f'', ''c''] = Inr fs'" "check_csum fs' [''check'', ''f'', ''c''] = Inr ()"
    and changed: "\<And>i b. i < length [1, 2, 4 :: uchar] \<Longrightarrow> b \<noteq> [1, 2, 4] ! i \<Longrightarrow>
      check_csum (fs'(''f'' \<mapsto> [1, 2, 4][i := b])) [''check'', ''f'', ''c''] = Inl ''The file is corrupted!''"
    using csum_roundtrip [of "''f''" "''c''" ?fs "[1, 2, 4]" "''create''" "''check''"] by fastforce
  moreover have "check_csum (fs'(''f'' \<mapsto> [1, 2, 4][?i := 3])) [''check'', ''f'', ''c''] = Inl ''The file is corrupted!''"
    by (rule changed) simp_all
  ultimately show ?thesis by blast
qed

text \<open>
  What the pair does not notice: the checksum file of a file is also accepted for every prefix of
  whole blocks of it, since \<open>check-csum\<close> stops at the end of the data and ignores checksums that are
  left over.
\<close>

theorem csum_truncation_unnoticed:
  assumes "r \<noteq> w" and "fs r = Some bs" and "create_csum fs [p, r, w] = Inr fs'"
  shows "check_csum (fs'(r \<mapsto> take (4096 * k) bs)) [q, r, w] = Inr ()"
proof -
  obtain tail where fs': "fs' = fs(w \<mapsto> csums bs 0 @ tail)"
    using create_csum_content [of r w fs bs p] assms by (metis sum.inject(2))
  obtain more where "csums bs 0 = csums (take (BUFFSIZE * k) bs) 0 @ more" using csums_take by blast
  then show ?thesis
    using assms(1) check_loop_prefix [of "take (BUFFSIZE * k) bs" 0 "more @ tail"]
    by (simp add: fs' check_csum_def BUFFSIZE_def)
qed

theorem csum_truncation_unnoticed_witness:
  "\<exists>fs'. create_csum [''f'' \<mapsto> [1, 2, 4]] [''create'', ''f'', ''c''] = Inr fs' \<and>
     check_csum (fs'(''f'' \<mapsto> [])) [''check'', ''f'', ''c''] = Inr ()"
proof -
  let ?fs = "[''f'' \<mapsto> [1, 2, 4 :: uchar]]"
  obtain fs' where "create_csum ?fs [''create'', ''f'', ''c''] = Inr fs'"
    using create_csum_content [of "''f''" "''c''" ?fs "[1, 2, 4]" "''create''"] by auto
  then show ?thesis
    using csum_truncation_unnoticed [of "''f''" "''c''" ?fs "[1, 2, 4]" "''create''" fs' 0 "''check''"] by simp
qed

text \<open>
  \<open>check-fletcher\<close> computes the Fletcher sums: both counters stay between \<open>-254\<close> and \<open>254\<close>, so that
  nothing overflows, the first is congruent to the sum of the digits and the second to the sum of
  its prefix sums, in which the i-th digit has the weight of its distance from the end, for every
  file, also one with characters below \<open>0\<close> where C's remainder is negative.
\<close>

theorem check_fletcher_sums:
  "\<exists>a b. check_fletcher (fs(f \<mapsto> bs)) [p, f] = Inr (a, b) \<and> \<bar>a\<bar> < 255 \<and> \<bar>b\<bar> < 255 \<and>
     (let ds = digits bs in a mod 255 = sum_list ds mod 255 \<and>
        b mod 255 = (\<Sum>i < length ds. int (length ds - i) * ds ! i) mod 255)"
  using fletcher_fold [of bs] by (cases "fold fletcher_byte bs (0, 0)") (simp add: check_fletcher_def Let_def weighted_def)

end
