(* ===== verification/Crc.thy ===== *)
theory Crc
  imports Checksum
begin

text \<open>
  The CRC programs of chapter 45: \<^verbatim>\<open>45/crc.c\<close> in both of its configurations and the demonstration
  \<^verbatim>\<open>45/crc_orig.c\<close> with its variant \<^verbatim>\<open>45/crc_orig_mod.c\<close>, which compare a CRC-CCITT that appends the
  message bit by bit (``good'') with one that mixes the message in at the top (``bad'').
\<close>

section \<open>\<open>crc.c\<close>\<close>

text \<open>
  The inner loop over the bits of one character. The register and the character have the width the
  configuration gives them: 16 bits and the polynomial \<open>0x1021\<close>, or with \<open>srecord_log\<close> 32 bits and
  \<open>0x11021\<close>. Only the low byte of \<open>ch\<close> is set by \<open>read\<close> and tested by \<open>v\<close>.
\<close>

fun crc_bits :: "nat \<Rightarrow> 'a::len word \<Rightarrow> uchar \<Rightarrow> uchar \<Rightarrow> 'a word \<Rightarrow> 'a word" where
  "crc_bits 0 POLY ch v crc = crc"
| "crc_bits (Suc n) POLY ch v crc =
    (let xor_flag = (crc AND 0x8000 \<noteq> 0);
         crc = push_bit 1 crc;
         crc = (if ch AND v \<noteq> 0 then crc + 1 else crc);
         crc = (if xor_flag then crc XOR POLY else crc)
     in crc_bits n POLY ch (drop_bit 1 v) crc)"

fun crc_augment :: "nat \<Rightarrow> 'a::len word \<Rightarrow> 'a word \<Rightarrow> 'a word" where
  "crc_augment 0 POLY crc = crc"
| "crc_augment (Suc n) POLY crc =
    (let xor_flag = (crc AND 0x8000 \<noteq> 0);
         crc = push_bit 1 crc;
         crc = (if xor_flag then crc XOR POLY else crc)
     in crc_augment n POLY crc)"

definition crc_file :: "'a::len word \<Rightarrow> uchar list \<Rightarrow> 'a word" where
  "crc_file POLY bs = crc_augment 16 POLY (fold (\<lambda>ch. crc_bits 8 POLY ch 0x80) bs 0xffff)"

text \<open>\<open>main\<close>, without and with \<open>srecord_log\<close>.\<close>

definition crc_main :: "files \<Rightarrow> string list \<Rightarrow> string + ushort" where
  "crc_main fs argv =
    (if length argv \<noteq> 2 then Inl ''Usage''
     else case fs (argv ! 1) of None \<Rightarrow> Inl ''open'' | Some bs \<Rightarrow> Inr (crc_file 0x1021 bs))"

definition crc_main_srecord :: "files \<Rightarrow> string list \<Rightarrow> string + uint" where
  "crc_main_srecord fs argv =
    (if length argv \<noteq> 2 then Inl ''Usage''
     else case fs (argv ! 1) of None \<Rightarrow> Inl ''open'' | Some bs \<Rightarrow> Inr (crc_file 0x11021 bs))"

section \<open>\<open>crc_orig.c\<close>\<close>

definition poly :: ushort where "poly = 0x1021"

text \<open>The global variables.\<close>

record crc_globals =
  text_buf :: "uchar list"
  good_crc :: ushort
  bad_crc :: ushort
  text_length :: ushort

fun good_loop :: "nat \<Rightarrow> ushort \<Rightarrow> ushort \<Rightarrow> ushort \<Rightarrow> ushort" where
  "good_loop 0 ch v crc = crc"
| "good_loop (Suc n) ch v crc =
    (let xor_flag = (crc AND 0x8000 \<noteq> 0);
         crc = push_bit 1 crc;
         crc = (if ch AND v \<noteq> 0 then crc + 1 else crc);
         crc = (if xor_flag then crc XOR poly else crc)
     in good_loop n ch (drop_bit 1 v) crc)"

definition update_good_crc :: "ushort \<Rightarrow> crc_globals \<Rightarrow> crc_globals" where
  "update_good_crc ch g = g\<lparr>good_crc := good_loop 8 ch 0x80 (good_crc g)\<rparr>"

fun augment_loop :: "nat \<Rightarrow> ushort \<Rightarrow> ushort" where
  "augment_loop 0 crc = crc"
| "augment_loop (Suc n) crc =
    (let xor_flag = (crc AND 0x8000 \<noteq> 0);
         crc = push_bit 1 crc;
         crc = (if xor_flag then crc XOR poly else crc)
     in augment_loop n crc)"

definition augment_message_for_good_crc :: "crc_globals \<Rightarrow> crc_globals" where
  "augment_message_for_good_crc g = g\<lparr>good_crc := augment_loop 16 (good_crc g)\<rparr>"

fun bad_loop :: "nat \<Rightarrow> ushort \<Rightarrow> ushort \<Rightarrow> ushort" where
  "bad_loop 0 ch crc = crc"
| "bad_loop (Suc n) ch crc =
    (let xor_flag = ((crc XOR ch) AND 0x8000 \<noteq> 0);
         crc = push_bit 1 crc;
         crc = (if xor_flag then crc XOR poly else crc)
     in bad_loop n (push_bit 1 ch) crc)"

definition update_bad_crc :: "ushort \<Rightarrow> crc_globals \<Rightarrow> crc_globals" where
  "update_bad_crc ch g = g\<lparr>bad_crc := bad_loop 8 (push_bit 8 ch) (bad_crc g)\<rparr>"

text \<open>The loop of \<open>go\<close> from index \<open>i\<close>, up to the terminating zero; \<open>None\<close> is a read past the array.
  \<open>text\<close> has type \<open>char\<close>, which is sign extended into \<open>ch\<close>.\<close>

fun go_loop :: "uchar list \<Rightarrow> crc_globals \<Rightarrow> crc_globals option" where
  "go_loop [] g = None"
| "go_loop (c # cs) g =
    (let ch = scast c in
     if ch = (0::ushort) then Some g
     else go_loop cs ((update_bad_crc ch (update_good_crc ch g))\<lparr>text_length := text_length g + 1\<rparr>))"

text \<open>The line printed by \<open>go\<close>: both values and the length.\<close>

definition go :: "crc_globals \<Rightarrow> (crc_globals \<times> (ushort \<times> ushort \<times> ushort)) option" where
  "go g =
    (case go_loop (text_buf g) (g\<lparr>good_crc := 0xffff, bad_crc := 0xffff, text_length := 0\<rparr>) of
       None \<Rightarrow> None
     | Some g1 \<Rightarrow> let g2 = augment_message_for_good_crc g1 in
         Some (g2, (good_crc g2, bad_crc g2, text_length g2)))"

text \<open>\<open>sprintf\<close> into the array, and the loop of \<open>repeat_character\<close>; \<open>None\<close> is a write past the array.\<close>

definition set_text :: "uchar list \<Rightarrow> crc_globals \<Rightarrow> crc_globals option" where
  "set_text cs g = (if length cs < length (text_buf g)
     then Some (g\<lparr>text_buf := cs @ 0 # drop (length cs + 1) (text_buf g)\<rparr>) else None)"

definition repeat_character :: "uchar \<Rightarrow> ushort \<Rightarrow> crc_globals \<Rightarrow> crc_globals option" where
  "repeat_character ch n g =
    (let t = fold (\<lambda>i t. t[i := ch]) [0..<unat n] (text_buf g) in
     if unat n < length t then Some (g\<lparr>text_buf := t[unat n := 0]\<rparr>) else None)"

definition globals0 :: crc_globals where
  "globals0 = \<lparr>text_buf = replicate 1000 0, good_crc = 0, bad_crc = 0, text_length = 0\<rparr>"

definition then_go ::
  "(crc_globals \<Rightarrow> crc_globals option) \<Rightarrow> (crc_globals \<times> (ushort \<times> ushort \<times> ushort) list) option \<Rightarrow>
   (crc_globals \<times> (ushort \<times> ushort \<times> ushort) list) option" where
  "then_go f r =
    (case r of None \<Rightarrow> None | Some (g, out) \<Rightarrow>
      (case f g of None \<Rightarrow> None | Some g1 \<Rightarrow>
        (case go g1 of None \<Rightarrow> None | Some (g2, line) \<Rightarrow> Some (g2, out @ [line]))))"

definition crc_orig_main :: "(ushort \<times> ushort \<times> ushort) list option" where
  "crc_orig_main = map_option snd
    (then_go (repeat_character 65 256)
      (then_go (set_text (bytes ''123456789''))
        (then_go (set_text (bytes ''A''))
          (then_go (set_text (bytes ''''))
            (Some (globals0, []))))))"

text \<open>\<open>crc_orig_mod.c\<close> also prints the values before the augmentation and leaves the long text out.\<close>

definition mod_go :: "crc_globals \<Rightarrow> (crc_globals \<times> (ushort \<times> ushort \<times> ushort) list) option" where
  "mod_go g =
    (case go_loop (text_buf g) (g\<lparr>good_crc := 0xffff, bad_crc := 0xffff, text_length := 0\<rparr>) of
       None \<Rightarrow> None
     | Some g1 \<Rightarrow> let g2 = augment_message_for_good_crc g1 in
         Some (g2, [(good_crc g1, bad_crc g1, text_length g1), (good_crc g2, bad_crc g2, text_length g2)]))"

definition crc_orig_mod_main :: "(ushort \<times> ushort \<times> ushort) list option" where
  "crc_orig_mod_main = map_option snd
    (fold (\<lambda>cs r. case r of None \<Rightarrow> None | Some (g, out) \<Rightarrow>
        (case set_text cs g of None \<Rightarrow> None | Some g1 \<Rightarrow>
          (case mod_go g1 of None \<Rightarrow> None | Some (g2, lines) \<Rightarrow> Some (g2, out @ lines))))
      [bytes '''', bytes ''A'', bytes ''123456789''] (Some (globals0, [])))"

section \<open>The register as a linear map\<close>

declare push_bit_Suc [simp del] fold_replicate [simp del]

text \<open>One step of the register: shift, reduce by the polynomial, append a bit of the message.\<close>

definition crc_step :: "bool \<Rightarrow> ushort \<Rightarrow> ushort" where
  "crc_step b c = push_bit 1 c XOR (if bit c 15 then 0x1021 else 0) XOR (if b then 1 else 0)"

abbreviation crc_run :: "bool list \<Rightarrow> ushort \<Rightarrow> ushort" where
  "crc_run \<equiv> fold crc_step"

definition byte_bits :: "uchar \<Rightarrow> bool list" where
  "byte_bits b = map (bit b) (rev [0..<8])"

definition msg_bits :: "uchar list \<Rightarrow> bool list" where
  "msg_bits bs = concat (map byte_bits bs)"

lemma upt_8: "[0..<8] = [0, 1, 2, 3, 4, 5, 6, 7]"
  by code_simp

lemma upt_16: "[0..<16] = [0, 1, 2, 3, 4, 5, 6, 7, 8, 9, 10, 11, 12, 13, 14, 15]"
  by code_simp

lemma word_0_iff: "(w :: 'a::len word) = 0 \<longleftrightarrow> (\<forall>n. \<not> bit w n)"
proof
  assume "\<forall>n. \<not> bit w n"
  then show "w = 0" by (intro bit_word_eqI) simp
qed simp

lemma top_bit: "c AND 0x8000 \<noteq> 0 \<longleftrightarrow> bit (c :: ushort) 15" "d AND 0x8000 \<noteq> 0 \<longleftrightarrow> bit (d :: uint) 15"
  using and_exp_eq_0_iff_not_bit [of c 15] and_exp_eq_0_iff_not_bit [of d 15] by simp_all

lemma push_bit_add_1: "push_bit 1 c + 1 = push_bit 1 c XOR (1 :: 'a::len word)"
proof -
  have "push_bit 1 c AND (1 :: 'a word) = 0"
    by (rule bit_word_eqI) (auto simp: bit_simps)
  then show ?thesis by (simp add: disjunctive_add_eq_xor)
qed

lemma crc_step_eq:
  "(if c AND 0x8000 \<noteq> 0 then (if b then push_bit 1 c + 1 else push_bit 1 c) XOR 0x1021
    else if b then push_bit 1 c + 1 else push_bit 1 c) = crc_step b c"
  unfolding push_bit_add_1 top_bit crc_step_def
  by (cases b; cases "bit c 15") (simp_all only: if_True if_False xor.right_neutral xor.left_neutral ac_simps)

lemma crc_augment_run: "crc_augment n 0x1021 c = crc_run (replicate n False) c"
proof (induction n arbitrary: c)
  case (Suc n)
  show ?case by (simp only: crc_augment.simps Let_def Suc crc_step_eq [where b = False, unfolded if_False] replicate.simps fold_simps)
qed simp

lemma crc_bits_run:
  "n \<le> 8 \<Longrightarrow> v = (if n = 0 then v else 2 ^ (n - 1)) \<Longrightarrow>
   crc_bits n 0x1021 ch v c = crc_run (map (bit ch) (rev [0..<n])) c"
proof (induction n arbitrary: v c)
  case (Suc n)
  then have v: "v = 2 ^ n" "ch AND v \<noteq> 0 \<longleftrightarrow> bit ch n" using and_exp_eq_0_iff_not_bit [of ch n] by auto
  have d: "n \<noteq> 0 \<Longrightarrow> drop_bit 1 v = 2 ^ (n - 1)"
    using v Suc.prems drop_bit_exp_eq [where 'a = uchar, of 1 n] by simp
  have "crc_bits (Suc n) 0x1021 ch v c = crc_bits n 0x1021 ch (drop_bit 1 v) (crc_step (bit ch n) c)"
    by (simp only: crc_bits.simps Let_def v(2) crc_step_eq)
  also have "\<dots> = crc_run (map (bit ch) (rev [0..<n])) (crc_step (bit ch n) c)"
    using Suc.prems d by (intro Suc.IH) auto
  finally show ?case by simp
qed simp

lemma crc_byte_run: "crc_bits 8 0x1021 ch 0x80 c = crc_run (byte_bits ch) c"
  unfolding byte_bits_def by (rule crc_bits_run) simp_all

lemma crc_fold_run: "fold (\<lambda>ch. crc_bits 8 0x1021 ch 0x80) bs c = crc_run (msg_bits bs) c"
  by (induction bs arbitrary: c) (simp_all add: msg_bits_def crc_byte_run)

lemma crc_file_run: "crc_file 0x1021 bs = crc_run (msg_bits bs @ replicate 16 False) 0xffff"
  by (simp add: crc_file_def crc_augment_run crc_fold_run)

lemma crc_step_xor: "crc_step (a \<noteq> b) (c XOR d) = crc_step a c XOR crc_step b d"
  by (rule bit_word_eqI) (auto simp: crc_step_def bit_simps)

lemma crc_run_xor:
  "length xs = length ys \<Longrightarrow> crc_run (map2 (\<noteq>) xs ys) (c XOR d) = crc_run xs c XOR crc_run ys d"
proof (induction xs ys arbitrary: c d rule: list_induct2)
  case (Cons x xs y ys)
  show ?case using Cons.IH [of "crc_step x c" "crc_step y d"] crc_step_xor [of x y c d] by simp
qed simp

lemma crc_step_False_0: "crc_step False c = 0 \<longleftrightarrow> c = 0"
proof
  assume z: "crc_step False c = 0"
  show "c = 0"
  proof (cases "bit c 15")
    case True
    then have "bit (crc_step False c) 0" by (simp add: crc_step_def bit_simps)
    with z show ?thesis by simp
  next
    case False
    show ?thesis
    proof (rule bit_word_eqI)
      fix n assume n: "n < LENGTH(16)"
      show "bit c n = bit 0 n"
      proof (cases "n = 15")
        case True
        with False show ?thesis by simp
      next
        case ne: False
        then have "bit (crc_step False c) (n + 1) = bit c n" using False n by (simp add: crc_step_def bit_simps)
        then show ?thesis using z by simp
      qed
    qed
  qed
qed (simp add: crc_step_def)

lemma crc_run_zeros_0: "crc_run (replicate n False) c = 0 \<longleftrightarrow> c = 0"
  by (induction n arbitrary: c) (simp_all add: crc_step_False_0)

text \<open>Sixteen bits fit into an empty register unreduced.\<close>

lemma crc_run_short:
  "length xs \<le> 16 \<Longrightarrow> n < 16 \<Longrightarrow> bit (crc_run xs 0) n \<longleftrightarrow> n < length xs \<and> rev xs ! n"
proof (induction xs arbitrary: n rule: rev_induct)
  case (snoc x xs)
  let ?c = "crc_run xs 0"
  have "\<not> bit ?c 15" using snoc.prems snoc.IH [of 15] by simp
  then have "bit (crc_run (xs @ [x]) 0) n \<longleftrightarrow> (if n = 0 then x else bit ?c (n - 1))"
    using snoc.prems by (auto simp: crc_step_def bit_simps)
  then show ?case using snoc by (auto simp: nth_Cons' rev_nth)
qed simp

lemma crc_run_short_0: "length xs \<le> 16 \<Longrightarrow> crc_run xs 0 = 0 \<longleftrightarrow> True \<notin> set xs"
proof
  assume le: "length xs \<le> 16" and z: "crc_run xs 0 = 0"
  show "True \<notin> set xs"
  proof
    assume "True \<in> set xs"
    then have "True \<in> set (rev xs)" by simp
    then obtain n where "n < length xs" "rev xs ! n" by (metis in_set_conv_nth length_rev)
    then show False using crc_run_short [OF le, of n] le z by simp
  qed
next
  assume "True \<notin> set xs"
  then have "xs = replicate (length xs) False" by (metis (full_types) replicate_eqI)
  then show "crc_run xs 0 = 0" by (metis crc_run_zeros_0)
qed

lemma byte_bits_inj: "byte_bits a = byte_bits b \<Longrightarrow> a = b"
  by (rule bit_word_eqI) (auto simp: byte_bits_def)

lemma msg_bits_inj: "length as = length bs \<Longrightarrow> msg_bits as = msg_bits bs \<longleftrightarrow> as = bs"
proof (induction as bs rule: list_induct2)
  case (Cons a as b bs)
  have "length (byte_bits a) = length (byte_bits b)" by (simp add: byte_bits_def)
  with Cons show ?case by (auto simp: msg_bits_def dest: byte_bits_inj)
qed simp

lemma zero_outside:
  assumes "\<And>i. i < length d \<Longrightarrow> i < p \<or> p + k \<le> i \<Longrightarrow> \<not> d ! i"
  shows "\<exists>m n w. d = replicate m False @ w @ replicate n False \<and> length w \<le> k"
proof -
  have "take p d = replicate (length (take p d)) False"
    using assms by (intro replicate_eqI) (auto simp: in_set_conv_nth)
  moreover have "drop (p + k) d = replicate (length (drop (p + k) d)) False"
  proof (intro replicate_eqI refl)
    fix y assume "y \<in> set (drop (p + k) d)"
    then obtain j where "j < length d - (p + k)" "y = d ! (p + k + j)" by (auto simp: in_set_conv_nth)
    then show "y = False" using assms [of "p + k + j"] by auto
  qed
  moreover have "d = take p d @ take k (drop p d) @ drop (p + k) d"
    by (metis append_take_drop_id drop_drop add.commute)
  ultimately show ?thesis by (metis length_take min.cobounded2)
qed

section \<open>The other configuration and the ``bad'' update\<close>

lemma crc_bits_srecord:
  fixes c :: ushort
  shows "crc_bits n 0x11021 ch v (ucast c :: uint) = ucast (crc_bits n 0x1021 ch v c)"
  "crc_augment n 0x11021 (ucast c :: uint) = ucast (crc_augment n 0x1021 c)"
proof -
  have shift: "push_bit 1 (ucast c :: uint) = ucast (push_bit 1 c) XOR (if bit c 15 then 0x10000 else 0)" for c :: ushort
  proof (rule bit_word_eqI)
    fix k assume "k < LENGTH(32)"
    moreover have "bit (0x10000 :: uint) k \<longleftrightarrow> k = 16" if "k < 32"
      using that bit_exp_iff [where 'a = uint, of 16 k] by simp
    ultimately show "bit (push_bit 1 (ucast c :: uint)) k =
        bit (ucast (push_bit 1 c) XOR (if bit c 15 then 0x10000 else 0 :: uint)) k"
      by (cases "k = 16") (auto simp: bit_simps dest: bit_imp_le_length)
  qed
  have xor: "ucast (a XOR b) = (ucast a XOR ucast b :: uint)" for a b :: ushort
    by (rule bit_word_eqI) (simp add: bit_simps)
  have lits: "ucast (0x1021 :: ushort) = (0x1021 :: uint)" "ucast (1 :: ushort) = (1 :: uint)"
    "0x11021 = 0x10000 XOR (0x1021 :: uint)" by simp_all
  have self: "a XOR (a XOR d) = d" for a d :: uint by (simp flip: xor.assoc)
  have flag: "ucast c AND (0x8000 :: uint) \<noteq> 0 \<longleftrightarrow> bit c 15" for c :: ushort
    unfolding top_bit by (simp add: bit_simps)
  have step: "(let xor_flag = ((ucast c :: uint) AND 0x8000 \<noteq> 0); d = push_bit 1 (ucast c :: uint); d = (if b then d + 1 else d) in
      (if xor_flag then d XOR 0x11021 else d)) = ucast (crc_step b c)" for b c
    unfolding Let_def flag push_bit_add_1 crc_step_def
    by (cases b; cases "bit c 15")
      (simp_all only: if_True if_False shift xor lits xor.right_neutral xor.left_neutral ucast_0 ac_simps self xor_self_eq)
  show "crc_bits n 0x11021 ch v (ucast c :: uint) = ucast (crc_bits n 0x1021 ch v c)"
  proof (induction n arbitrary: v c)
    case (Suc n)
    show ?case
      by (simp only: crc_bits.simps Let_def step [unfolded Let_def] crc_step_eq Suc)
  qed simp
  show "crc_augment n 0x11021 (ucast c :: uint) = ucast (crc_augment n 0x1021 c)"
  proof (induction n arbitrary: c)
    case (Suc n)
    show ?case
      by (simp only: crc_augment.simps Let_def step [where b = False, unfolded Let_def if_False]
          crc_step_eq [where b = False, unfolded if_False] Suc)
  qed simp
qed

text \<open>The ``bad'' update mixes the message bit into the top of the register.\<close>

lemma bad_step:
  "(if (d XOR ch) AND 0x8000 \<noteq> 0 then push_bit 1 d XOR poly else push_bit 1 d) =
   crc_step False d XOR (if bit ch 15 then 0x1021 else 0)"
  unfolding top_bit(1) poly_def crc_step_def
  by (cases "bit d 15"; cases "bit ch 15") (simp_all add: bit_xor_iff xor.assoc)

lemma run_16_1: "crc_run (replicate 16 False) 1 = 0x1021"
  unfolding crc_augment_run [symmetric] by code_simp

lemma zeros_xor: "crc_run (replicate n False) (c XOR d) = crc_run (replicate n False) c XOR crc_run (replicate n False) d"
  using crc_run_xor [of "replicate n False" "replicate n False" c d]
  by (simp add: map2_map_map [symmetric] zip_replicate)

lemma bad_zeros:
  "crc_step False (crc_run (replicate 16 False) c) XOR (if b then 0x1021 else 0) =
   crc_run (replicate 16 False) (crc_step b c)"
proof -
  have "crc_step b c = crc_step False c XOR (if b then 1 else 0)"
    unfolding crc_step_def by (simp only: if_False xor.right_neutral xor.assoc)
  moreover have "crc_step False (crc_run (replicate n False) c) = crc_run (replicate n False) (crc_step False c)" for n
    by (induction n arbitrary: c) simp_all
  ultimately show ?thesis using run_16_1 crc_run_zeros_0 [of 16 0] by (simp add: zeros_xor)
qed

lemma bad_loop_run:
  "n \<le> 8 \<Longrightarrow> bad_loop n ch (crc_run (replicate 16 False) c) =
   crc_run (replicate 16 False) (crc_run (map (\<lambda>i. bit ch (15 - i)) [0..<n]) c)"
proof (induction n arbitrary: ch c)
  case (Suc n)
  have bits: "map (\<lambda>i. bit ch (15 - i)) [0..<Suc n] = bit ch 15 # map (\<lambda>i. bit (push_bit 1 ch) (15 - i)) [0..<n]"
    using Suc.prems by (auto simp: upt_conv_Cons map_Suc_upt [symmetric] bit_simps simp del: upt_Suc)
  have "bad_loop (Suc n) ch (crc_run (replicate 16 False) c) =
      bad_loop n (push_bit 1 ch) (crc_run (replicate 16 False) (crc_step (bit ch 15) c))"
    by (simp only: bad_loop.simps Let_def bad_step bad_zeros)
  also have "\<dots> = crc_run (replicate 16 False) (crc_run (map (\<lambda>i. bit ch (15 - i)) [0..<Suc n]) c)"
    unfolding bits using Suc by simp
  finally show ?case .
qed simp

lemma bad_byte_run:
  "bad_loop 8 (push_bit 8 (scast ch)) (crc_run (replicate 16 False) c) =
   crc_run (replicate 16 False) (crc_run (byte_bits ch) c)"
proof -
  have "map (\<lambda>i. bit (push_bit 8 (scast ch :: ushort)) (15 - i)) [0..<8] = byte_bits ch"
    by (simp add: byte_bits_def upt_8 bit_simps)
  then show ?thesis using bad_loop_run [of 8 "push_bit 8 (scast ch)" c] by simp
qed

lemma good_byte_run: "good_loop 8 (scast ch) 0x80 c = crc_run (byte_bits ch) c"
proof -
  have "good_loop n (scast ch) v' c = crc_bits n 0x1021 ch v c" if "n \<le> 8" "v' = ucast v" for n v v' c
    using that
  proof (induction n arbitrary: v v' c)
    case (Suc n)
    have v: "bit v n \<Longrightarrow> n < 8" for n using bit_imp_le_length [of v n] by simp
    have "bit (scast ch AND v' :: ushort) n \<longleftrightarrow> bit (ch AND v) n" for n
      using v [of n] by (cases "n < 8") (auto simp: Suc.prems(2) bit_simps min_absorb2)
    then have "scast ch AND v' \<noteq> (0 :: ushort) \<longleftrightarrow> ch AND v \<noteq> 0" by (simp only: word_0_iff)
    moreover have "drop_bit 1 v' = ucast (drop_bit 1 v)"
      unfolding Suc.prems(2) by (rule bit_word_eqI) (auto simp: bit_simps dest: bit_imp_le_length)
    ultimately show ?case
      using Suc.prems by (simp only: good_loop.simps crc_bits.simps Let_def poly_def) (intro Suc.IH; simp)
  qed simp
  from this [of 8 "0x80" "0x80" c] show ?thesis by (simp add: crc_byte_run)
qed

lemma augment_loop_run: "augment_loop n c = crc_run (replicate n False) c"
proof -
  have "augment_loop n c = crc_augment n 0x1021 c"
    by (induction n arbitrary: c) (simp_all add: poly_def Let_def)
  then show ?thesis by (simp only: crc_augment_run)
qed

lemma scast_0: "scast c = (0 :: ushort) \<longleftrightarrow> c = (0 :: uchar)"
proof
  assume z: "scast c = (0 :: ushort)"
  show "c = 0"
  proof (rule bit_word_eqI)
    fix n assume "n < LENGTH(8)"
    then have "bit c n = bit (scast c :: ushort) n" by (auto simp: bit_simps)
    with z show "bit c n = bit 0 n" by simp
  qed
qed simp

lemma go_loop_run:
  assumes "0 \<notin> set cs" and "bad_crc g = crc_run (replicate 16 False) d"
  shows "go_loop (cs @ 0 # rest) g =
    Some (g\<lparr>good_crc := crc_run (msg_bits cs) (good_crc g),
      bad_crc := crc_run (replicate 16 False) (crc_run (msg_bits cs) d), text_length := text_length g + of_nat (length cs)\<rparr>)"
  using assms
proof (induction cs arbitrary: g d)
  case Nil
  then show ?case by (simp add: msg_bits_def)
next
  case (Cons ch cs)
  let ?g = "g\<lparr>good_crc := crc_run (byte_bits ch) (good_crc g),
    bad_crc := crc_run (replicate 16 False) (crc_run (byte_bits ch) d), text_length := text_length g + 1\<rparr>"
  have "go_loop ((ch # cs) @ 0 # rest) g = go_loop (cs @ 0 # rest) ?g"
    using Cons.prems by (simp add: scast_0 update_good_crc_def update_bad_crc_def good_byte_run bad_byte_run)
  also have "\<dots> = Some (?g\<lparr>good_crc := crc_run (msg_bits cs) (good_crc ?g),
      bad_crc := crc_run (replicate 16 False) (crc_run (msg_bits cs) (crc_run (byte_bits ch) d)),
      text_length := text_length ?g + of_nat (length cs)\<rparr>)"
    using Cons.prems by (intro Cons.IH) simp_all
  finally show ?case by (simp add: msg_bits_def)
qed

section \<open>Properties\<close>

text \<open>
  The CRC program of \<^verbatim>\<open>crc.c\<close> and the ``good'' CRC of \<^verbatim>\<open>crc_orig.c\<close> are the same function of every
  text without a zero byte, and the ``bad'' one is that function with another starting value, \<open>0x84CF\<close>
  in place of \<open>0xFFFF\<close>: moving the message to the top of the register is a change of the initial
  value and not of the polynomial.
\<close>

theorem go_good_and_bad:
  assumes "0 \<notin> set cs" and "text_buf g = cs @ 0 # rest"
  shows "map_option snd (go g) = Some
    (crc_file 0x1021 cs, crc_augment 16 0x1021 (fold (\<lambda>ch. crc_bits 8 0x1021 ch 0x80) cs 0x84CF), of_nat (length cs))"
proof -
  have "crc_run (replicate 16 False) 0x84CF = 0xffff"
    unfolding crc_augment_run [symmetric] by code_simp
  then show ?thesis
    using go_loop_run [OF assms(1), of "g\<lparr>good_crc := 0xffff, bad_crc := 0xffff, text_length := 0\<rparr>" "0x84CF" rest] assms(2)
    by (simp add: go_def crc_file_run crc_augment_run crc_fold_run augment_message_for_good_crc_def augment_loop_run Let_def)
qed

theorem go_good_and_bad_witness:
  "\<exists>g. set_text (bytes ''A'') globals0 = Some g \<and> map_option snd (go g) = Some (0x9479, 0xB915, 1) \<and>
     crc_file 0x1021 (bytes ''A'') = (0x9479 :: ushort)"
proof -
  have "set_text (bytes ''A'') globals0 = Some (globals0\<lparr>text_buf := [65] @ 0 # replicate 998 0\<rparr>)"
    by (simp add: set_text_def globals0_def bytes_def)
  moreover have "crc_file 0x1021 (bytes ''A'') = (0x9479 :: ushort)" by code_simp
  moreover have "crc_augment 16 0x1021 (fold (\<lambda>ch. crc_bits 8 0x1021 ch 0x80) (bytes ''A'') 0x84CF) = (0xB915 :: ushort)"
    by code_simp
  ultimately show ?thesis
    using go_good_and_bad [of "[65]" "globals0\<lparr>text_buf := [65] @ 0 # replicate 998 0\<rparr>" "replicate 998 0"]
    by (simp add: bytes_def)
qed

text \<open>
  The two configurations of \<^verbatim>\<open>crc.c\<close> agree, as the comment on \<open>srecord_log\<close> claims: the 32-bit
  register with the 17-bit polynomial \<open>0x11021\<close> computes the value of the 16-bit register with
  \<open>0x1021\<close>, for every command line and every file.
\<close>

theorem crc_configurations_agree:
  "crc_main_srecord fs argv = (case crc_main fs argv of Inl e \<Rightarrow> Inl e | Inr c \<Rightarrow> Inr (ucast c))"
proof -
  have "fold (\<lambda>ch. crc_bits 8 0x11021 ch 0x80) bs (ucast c :: uint) = ucast (fold (\<lambda>ch. crc_bits 8 0x1021 ch 0x80) bs (c :: ushort))"
    for bs c by (induction bs arbitrary: c) (simp_all only: fold_simps crc_bits_srecord)
  from this [of _ "0xffff"] have "crc_file 0x11021 bs = (ucast (crc_file 0x1021 bs :: ushort) :: uint)" for bs
    by (simp add: crc_file_def crc_bits_srecord)
  then show ?thesis by (simp add: crc_main_def crc_main_srecord_def split: option.splits)
qed

text \<open>
  A received message is checked by running the CRC over it with its CRC appended: the result is
  0 for every message, the property that makes the value a checksum.
\<close>

theorem crc_of_codeword:
  "crc_main (fs(f \<mapsto> bs @ [ucast (drop_bit 8 c), ucast c])) [p, f] = Inr 0 \<longleftrightarrow>
   crc_main (fs(f \<mapsto> bs)) [p, f] = Inr c"
proof -
  have len: "length (msg_bits [ucast (drop_bit 8 c), ucast c]) = 16" by (simp add: msg_bits_def byte_bits_def)
  have "crc_run (msg_bits [ucast (drop_bit 8 c), ucast c]) 0 = c"
  proof (rule bit_word_eqI)
    fix n assume "n < LENGTH(16)"
    then have n: "n < 16" by simp
    have bits: "rev (msg_bits [ucast (drop_bit 8 c), ucast c]) = map (bit c) [0..<16]"
      by (simp add: msg_bits_def byte_bits_def upt_8 upt_16 bit_simps)
    show "bit (crc_run (msg_bits [ucast (drop_bit 8 c), ucast c]) 0) n = bit c n"
      unfolding crc_run_short [OF eq_refl [OF len] n] bits len using n by (simp add: len)
  qed
  moreover have "crc_run (msg_bits [ucast (drop_bit 8 c), ucast c]) d =
      crc_run (msg_bits [ucast (drop_bit 8 c), ucast c]) 0 XOR crc_run (replicate 16 False) d" for d
  proof -
    have z: "map2 (\<noteq>) xs (replicate (length xs) False) = xs" for xs :: "bool list"
      by (induction xs) simp_all
    show ?thesis
      using crc_run_xor [of "msg_bits [ucast (drop_bit 8 c), ucast c]" "replicate 16 False" 0 d] len
        z [of "msg_bits [ucast (drop_bit 8 c), ucast c]"] by (simp only: length_replicate xor.left_neutral)
  qed
  ultimately have run: "crc_run (msg_bits [ucast (drop_bit 8 c), ucast c]) d = c XOR crc_run (replicate 16 False) d" for d
    by metis
  have app: "msg_bits (bs @ cs) = msg_bits bs @ msg_bits cs" for cs by (simp add: msg_bits_def)
  have "crc_file 0x1021 (bs @ [ucast (drop_bit 8 c), ucast c]) = crc_run (replicate 16 False) (c XOR crc_file 0x1021 bs)"
    by (simp only: crc_file_run app fold_append comp_apply run)
  moreover have "c XOR e = 0 \<longleftrightarrow> e = c" for e :: ushort using xor_cancel(2) [of c e c] by simp
  ultimately have "crc_file 0x1021 (bs @ [ucast (drop_bit 8 c), ucast c]) = (0 :: ushort) \<longleftrightarrow> crc_file 0x1021 bs = c"
    by (simp only: crc_run_zeros_0)
  then show ?thesis by (simp add: crc_main_def)
qed

text \<open>
  C37: Error detection: two files of the same length that differ only within some window of sixteen
  bits have different CRCs, so that every burst of up to sixteen flipped bits is noticed.
\<close>

theorem crc_detects_bursts:
  assumes "length as = length bs" and "as \<noteq> bs"
    and "\<And>i. i < 8 * length bs \<Longrightarrow> msg_bits as ! i \<noteq> msg_bits bs ! i \<Longrightarrow> p \<le> i \<and> i < p + 16"
  shows "crc_main (fs(f \<mapsto> as)) [q, f] \<noteq> crc_main (fs(f \<mapsto> bs)) [q, f]"
proof -
  let ?d = "map2 (\<noteq>) (msg_bits as) (msg_bits bs)"
  have len: "length (msg_bits cs) = 8 * length cs" for cs
    by (induction cs) (simp_all add: msg_bits_def byte_bits_def)
  have zero: "\<not> ?d ! i" if "i < length ?d" "i < p \<or> p + 16 \<le> i" for i
  proof -
    have i: "i < 8 * length bs" using that(1) assms(1) by (simp add: len)
    have "msg_bits as ! i = msg_bits bs ! i" using assms(3) [OF i] that(2) by fastforce
    then show ?thesis using i assms(1) by (simp add: len)
  qed
  obtain m n w where d: "?d = replicate m False @ w @ replicate n False" and w: "length w \<le> 16"
    using zero_outside [of ?d p 16] zero by blast
  have "True \<in> set ?d"
  proof -
    have "msg_bits as \<noteq> msg_bits bs" using assms(1,2) by (simp add: msg_bits_inj)
    then obtain i where "i < 8 * length bs" "msg_bits as ! i \<noteq> msg_bits bs ! i"
      using assms(1) by (auto simp: list_eq_iff_nth_eq len)
    then show ?thesis using assms(1) by (force simp: set_conv_nth len)
  qed
  then have "True \<in> set w" unfolding d by auto
  then have "crc_run w 0 \<noteq> 0" using crc_run_short_0 [OF w] by simp
  then have "crc_run (?d @ replicate 16 False) 0 \<noteq> 0"
    unfolding d by (simp add: crc_run_zeros_0 crc_run_zeros_0 [of m 0, THEN iffD2, OF refl])
  moreover have "crc_run (?d @ replicate 16 False) 0 = crc_file 0x1021 as XOR crc_file 0x1021 bs"
    using crc_run_xor [of "msg_bits as" "msg_bits bs" "0xffff" "0xffff"] assms(1)
    by (simp add: crc_file_run len zeros_xor)
  ultimately show ?thesis by (auto simp: crc_main_def)
qed

theorem crc_detects_bursts_witness:
  "crc_main [''f'' \<mapsto> [65, 66, 67]] [''crc'', ''f''] \<noteq> crc_main [''f'' \<mapsto> [65, 99, 67]] [''crc'', ''f'']"
proof (rule crc_detects_bursts [of "[65, 66, 67]" "[65, 99, 67]" 8])
  fix i :: nat
  assume "i < 8 * length [65 :: uchar, 99, 67]" and d: "msg_bits [65, 66, 67] ! i \<noteq> msg_bits [65, 99, 67] ! i"
  then have i: "i \<in> set [0..<24]" by simp
  have "list_all (\<lambda>i. msg_bits [65, 66, 67] ! i = msg_bits [65, 99, 67] ! i \<or> 8 \<le> i \<and> i < 8 + 16) [0..<24]"
    by code_simp
  then show "8 \<le> i \<and> i < 8 + 16" using d i unfolding list_all_iff by blast
qed simp_all

text \<open>
  The values that the demonstration prints, before and after the augmentation, for the empty
  text, ``A'' and ``123456789'': \<open>0xE5CC\<close> is the correct check value of the last one and \<open>0x29B1\<close> the
  commonly reported one, as the header of the program says.
\<close>

theorem crc_orig_mod_prints:
  "crc_orig_mod_main = Some
    [(0xFFFF, 0xFFFF, 0), (0x1D0F, 0xFFFF, 0), (0xE1B1, 0xB915, 1), (0x9479, 0xB915, 1),
     (0xA69D, 0x29B1, 9), (0xE5CC, 0x29B1, 9)]"
  by code_simp

end
