(* ===== verification/Pzip.thy ===== *)
theory Pzip
  imports Semaphore
begin

text \<open>
  The parallel compressor \<^verbatim>\<open>projects/concurrency-pzip/pzip.c\<close>, as it is compiled with
  \<open>ALLOW_MULTIPLE_JOBS\<close>. The files are cut into pages, worker threads compress the pages, and the
  main thread joins the runs at the page boundaries. The output is the list of runs handed to
  \<open>writeFile\<close> and of the messages that are printed between them. Counts are 32-bit integers.
\<close>

section \<open>Compressing a page\<close>

type_synonym result = "int \<times> uchar"

text \<open>The loop of \<open>compress\<close> over a page; the linked list of results is built at its end.\<close>

fun compress_loop :: "uchar list \<Rightarrow> result list \<Rightarrow> uchar \<Rightarrow> int \<Rightarrow> result list" where
  "compress_loop [] results previous_character previous_count = results @ [(previous_count, previous_character)]"
| "compress_loop (character # cs) results previous_character previous_count =
    (if character = previous_character then compress_loop cs results previous_character (int32 (previous_count + 1))
     else compress_loop cs
       (if previous_count \<noteq> 0 then results @ [(previous_count, previous_character)] else results) character 1)"

definition compress_page :: "uchar list \<Rightarrow> result list" where
  "compress_page addr = compress_loop addr [] 0 0"

section \<open>The jobs\<close>

text \<open>The loop over the offsets of a file, and the number of work slots allocated for it.\<close>

function pages :: "nat \<Rightarrow> uchar list \<Rightarrow> uchar list list" where
  "pages page_size bs = (if bs = [] \<or> page_size = 0 then [] else take page_size bs # pages page_size (drop page_size bs))"
  by pat_completeness auto

termination
  by (relation "measure (\<lambda>(_, bs). length bs)") auto

declare pages.simps [simp del]

definition jobs :: "nat \<Rightarrow> uchar list list \<Rightarrow> uchar list list" where
  "jobs page_size contents = concat (map (pages page_size) contents)"

definition chunks :: "nat \<Rightarrow> uchar list list \<Rightarrow> nat" where
  "chunks page_size contents = sum_list (map (\<lambda>bs. length bs div page_size + 1) contents)"

text \<open>A slot of the array \<open>works\<close>: as \<open>malloc\<close> left it, or filled with a page and perhaps its results.\<close>

datatype work = Uninit | Work (work_addr: "uchar list") (work_results: "result list option")

section \<open>The final compression\<close>

text \<open>What is printed: a run, and the messages of \<open>compress\<close>, of the loop that makes the jobs, and of the final one.\<close>

datatype pz_print = Run result | UsePtr nat | JobMsg nat nat nat | Connected uchar

definition runs :: "pz_print list \<Rightarrow> result list" where
  "runs ps = concat (map (\<lambda>p. case p of Run r \<Rightarrow> [r] | _ \<Rightarrow> []) ps)"

text \<open>
  One result of slot \<open>i\<close>: \<open>first\<close> tells whether it is the head of the slot's list and \<open>lst\<close> whether it
  ends it, \<open>last_chunk\<close> whether the slot is the last one. The state is \<open>last_count\<close>,
  \<open>last_character\<close> and the runs written so far.
\<close>

definition final_result :: "bool \<Rightarrow> bool \<Rightarrow> bool \<Rightarrow> result \<Rightarrow> int \<times> uchar \<times> pz_print list \<Rightarrow> int \<times> uchar \<times> pz_print list" where
  "final_result last_chunk first lst result = (\<lambda>(last_count, last_character, out).
    let (count, character) = result;
        flushed = (if last_count > 0 then out @ [Run (last_count, last_character)] else out) in
    if first \<and> \<not> lst then
      (if character = last_character then
         (last_count, last_character, out @ [Connected character, Run (int32 (count + last_count), character)])
       else (last_count, last_character, flushed @ [Run (count, character)]))
    else if lst then
      (if \<not> first then
         (if last_chunk then (last_count, last_character, out @ [Run (count, character)]) else (count, character, out))
       else if character = last_character then
         (if \<not> last_chunk then (int32 (last_count + count), last_character, out)
          else (last_count, last_character, out @ [Run (int32 (count + last_count), character)]))
       else
         (if \<not> last_chunk then (count, character, flushed)
          else (last_count, last_character, flushed @ [Run (count, character)])))
    else (last_count, last_character, out @ [Run (count, character)]))"

fun final_slot :: "bool \<Rightarrow> bool \<Rightarrow> result list \<Rightarrow> int \<times> uchar \<times> pz_print list \<Rightarrow> int \<times> uchar \<times> pz_print list" where
  "final_slot last_chunk first [] s = s"
| "final_slot last_chunk first (r # rs) s =
    final_slot last_chunk False rs (final_result last_chunk first (rs = []) r s)"

text \<open>The loop over the slots; \<open>None\<close> is the read of an uninitialised slot.\<close>

fun final_loop :: "work list \<Rightarrow> int \<times> uchar \<times> pz_print list \<Rightarrow> (int \<times> uchar \<times> pz_print list) option" where
  "final_loop [] s = Some s"
| "final_loop (Uninit # ws) s = None"
| "final_loop (Work addr results # ws) s =
    final_loop ws (final_slot (ws = []) True (case results of None \<Rightarrow> [] | Some rs \<Rightarrow> rs) s)"

definition final_compress :: "work list \<Rightarrow> pz_print list option" where
  "final_compress works = map_option (\<lambda>(_, _, out). out) (final_loop works (0, 0, []))"

text \<open>The array \<open>works\<close> when the workers have compressed every page.\<close>

definition finished_works :: "nat \<Rightarrow> uchar list list \<Rightarrow> work list" where
  "finished_works page_size contents =
    (let js = jobs page_size contents in
     map (\<lambda>j. Work j (Some (compress_page j))) js @ replicate (chunks page_size contents - length js) Uninit)"

section \<open>Run-length encoding\<close>

fun rle :: "uchar list \<Rightarrow> result list" where
  "rle [] = []"
| "rle (c # cs) = (case rle cs of [] \<Rightarrow> [(1, c)]
     | (n, d) # rs \<Rightarrow> if c = d then (n + 1, d) # rs else (1, c) # (n, d) # rs)"

lemma rle_Nil_iff [simp]: "rle cs = [] \<longleftrightarrow> cs = []"
  by (cases cs) (auto split: list.splits)

lemma rle_pos: "r \<in> set (rle cs) \<Longrightarrow> 1 \<le> fst r"
proof (induction cs arbitrary: r)
  case (Cons c cs)
  show ?case
  proof (cases "rle cs")
    case (Cons a rs)
    then show ?thesis using Cons.prems Cons.IH [of a] Cons.IH [of r] by (cases a) (auto split: if_splits)
  qed (use Cons.prems in auto)
qed simp

lemma rle_le: "r \<in> set (rle cs) \<Longrightarrow> fst r \<le> int (length cs)"
proof (induction cs arbitrary: r)
  case (Cons c cs)
  show ?case
  proof (cases "rle cs")
    case (Cons a rs)
    then show ?thesis using Cons.prems Cons.IH [of a] Cons.IH [of r] by (cases a) (auto split: if_splits)
  qed (use Cons.prems in auto)
qed simp

lemma runs_simps [simp]:
  "runs [] = []" "runs (Run r # ps) = r # runs ps" "runs (UsePtr n # ps) = runs ps" "runs (JobMsg i j k # ps) = runs ps"
  "runs (Connected c # ps) = runs ps" "runs (ps @ qs) = runs ps @ runs qs" "runs (map Run rs) = rs"
  by (simp_all add: runs_def comp_def)

text \<open>Joining two encodings.\<close>

definition join :: "result list \<Rightarrow> result list \<Rightarrow> result list" where
  "join as bs = (if as \<noteq> [] \<and> bs \<noteq> [] \<and> snd (last as) = snd (hd bs)
     then butlast as @ (fst (last as) + fst (hd bs), snd (hd bs)) # tl bs else as @ bs)"

lemma join_Cons: "as \<noteq> [] \<Longrightarrow> join (a # as) bs = a # join as bs"
  by (simp add: join_def)

lemma join_assoc: "join (join as bs) cs = join as (join bs cs)"
proof (cases bs)
  case (Cons b bs')
  then show ?thesis
    by (cases as rule: rev_cases; cases bs' rule: rev_cases; cases cs) (auto simp: join_def butlast_append)
qed (simp add: join_def)

lemma rle_append: "rle (as @ bs) = join (rle as) (rle bs)"
proof (induction as)
  case Nil
  then show ?case by (simp add: join_def)
next
  case (Cons a as)
  show ?case
  proof (cases "as = []")
    case True
    then show ?thesis by (auto simp: join_def split: list.splits)
  next
    case False
    then obtain n d rs where r: "rle as = (n, d) # rs" by (metis list.exhaust rle_Nil_iff surj_pair)
    show ?thesis
    proof (cases "rs = []")
      case True
      then show ?thesis using Cons r by (auto simp: join_def)
    next
      case rs: False
      then have "join ((k, e) # rs) (rle bs) = (k, e) # join rs (rle bs)" for k e by (rule join_Cons)
      then show ?thesis using Cons r rs by (simp add: join_Cons)
    qed
  qed
qed

lemma rle_replicate: "0 < n \<Longrightarrow> rle (replicate n c) = [(int n, c)]"
proof (induction n)
  case (Suc n)
  then show ?case by (cases n) simp_all
qed simp

lemma compress_loop_rle:
  "0 < n \<Longrightarrow> n + length cs < 2 ^ 31 \<Longrightarrow> compress_loop cs results c (int n) = results @ rle (replicate n c @ cs)"
proof (induction cs arbitrary: results c n)
  case Nil
  then show ?case by (simp add: rle_replicate)
next
  case (Cons d cs)
  show ?case
  proof (cases "d = c")
    case True
    have "int32 (int n + 1) = int n + 1" using Cons.prems(2) by (intro int32_id) auto
    then show ?thesis using True Cons.prems Cons.IH [of "Suc n" results c] by (simp add: add.commute replicate_app_Cons_same)
  next
    case False
    have "rle (replicate n c @ d # cs) = (int n, c) # rle (d # cs)"
      using False Cons.prems by (simp add: rle_append rle_replicate join_def split: list.splits)
    then show ?thesis using False Cons.prems Cons.IH [of 1 "results @ [(int n, c)]" d] by simp
  qed
qed

lemma compress_page_rle: "bs \<noteq> [] \<Longrightarrow> length bs < 2 ^ 31 \<Longrightarrow> compress_page bs = rle bs"
  using compress_loop_rle [of 1 "tl bs" "[]" "hd bs"] by (cases bs) (auto simp: compress_page_def int32_def)

section \<open>Joining at the page boundaries\<close>

text \<open>What the state of the final loop stands for: the runs written and the pending one.\<close>

definition pending :: "int \<times> uchar \<times> pz_print list \<Rightarrow> result list" where
  "pending = (\<lambda>(n, c, out). if n > 0 then runs out @ [(n, c)] else runs out)"

definition final_ok :: "int \<times> uchar \<times> pz_print list \<Rightarrow> bool" where
  "final_ok = (\<lambda>(n, c, out). 0 \<le> n \<and> (n = 0 \<longrightarrow> out = []))"

lemma final_slot_rest:
  "rs \<noteq> [] \<Longrightarrow> final_slot last_chunk False rs (n, c, out) =
   (if last_chunk then (n, c, out @ map Run rs) else (fst (last rs), snd (last rs), out @ map Run (butlast rs)))"
  by (induction rs arbitrary: n c out) (auto simp: final_result_def Let_def)

lemma final_slot_join:
  assumes "final_ok s" and "rs = rle cs" and "cs \<noteq> []" and "fst s + int (length cs) < 2 ^ 31"
  shows "final_ok (final_slot False True rs s)" "pending (final_slot False True rs s) = join (pending s) rs"
    "runs (snd (snd (final_slot True True rs s))) = join (pending s) rs"
    "fst (final_slot False True rs s) \<le> fst s + int (length cs)"
proof -
  obtain n c out where s: "s = (n, c, out)" by (cases s)
  obtain m d rs' where rs: "rs = (m, d) # rs'" using assms(2,3) by (metis list.exhaust rle_Nil_iff surj_pair)
  have mem: "(m, d) \<in> set (rle cs)" "rs' \<noteq> [] \<Longrightarrow> last rs' \<in> set (rle cs)" using assms(2) rs by (metis last_in_set list.set_intros)+
  have m: "1 \<le> m" "m \<le> int (length cs)" using rle_pos [OF mem(1)] rle_le [OF mem(1)] by auto
  have last: "rs' \<noteq> [] \<Longrightarrow> 1 \<le> fst (last rs') \<and> fst (last rs') \<le> int (length cs)"
    using rle_pos [OF mem(2)] rle_le [OF mem(2)] by auto
  have n: "0 \<le> n" "n = 0 \<Longrightarrow> out = []" using assms(1) by (auto simp: final_ok_def s)
  have add: "int32 (m + n) = m + n" "int32 (n + m) = n + m" "int32 m = m" using m n assms(4) by (auto simp: s intro!: int32_id)
  have "final_ok (final_slot False True rs s) \<and> pending (final_slot False True rs s) = join (pending s) rs \<and>
        runs (snd (snd (final_slot True True rs s))) = join (pending s) rs \<and> fst (final_slot False True rs s) \<le> fst s + int (length cs)"
  proof (cases "rs' = []")
    case True
    with m n show ?thesis
      by (simp add: rs s add final_result_def Let_def final_ok_def pending_def join_def)
  next
    case False
    then obtain k e ks where k: "rs' = ks @ [(k, e)]" by (metis rev_exhaust surj_pair)
    with last have "1 \<le> k" "k \<le> int (length cs)" by auto
    with False m n show ?thesis
      by (simp add: rs s k add final_result_def Let_def final_slot_rest final_ok_def pending_def join_def)
  qed
  then show "final_ok (final_slot False True rs s)" "pending (final_slot False True rs s) = join (pending s) rs"
    "runs (snd (snd (final_slot True True rs s))) = join (pending s) rs"
    "fst (final_slot False True rs s) \<le> fst s + int (length cs)" by auto
qed

lemma final_loop_works:
  assumes "final_ok s" and "\<And>j. j \<in> set js \<Longrightarrow> j \<noteq> []" and "js \<noteq> []" and "fst s + int (length (concat js)) < 2 ^ 31"
  shows "map_option (\<lambda>(_, _, out). runs out) (final_loop (map (\<lambda>j. Work j (Some (compress_page j))) js) s) =
    Some (join (pending s) (rle (concat js)))"
  using assms
proof (induction js arbitrary: s)
  case (Cons j js)
  have "0 \<le> fst s" using Cons.prems(1) by (auto simp: final_ok_def)
  then have small: "fst s + int (length j) < 2 ^ 31" "length j < 2 ^ 31" using Cons.prems(4) by auto
  have j: "j \<noteq> []" "compress_page j = rle j" using Cons.prems small by (simp_all add: compress_page_rle)
  note f = final_slot_join [OF Cons.prems(1) refl j(1) small(1)]
  show ?case
  proof (cases "js = []")
    case True
    then show ?thesis using f(3) j by (cases "final_slot True True (rle j) s") simp
  next
    case False
    have "map_option (\<lambda>(_, _, out). runs out) (final_loop (map (\<lambda>j. Work j (Some (compress_page j))) js) (final_slot False True (rle j) s)) =
        Some (join (pending (final_slot False True (rle j) s)) (rle (concat js)))"
      using Cons False f(1,4) by (intro Cons.IH) auto
    then show ?thesis using f(2) j False by (simp add: rle_append join_assoc)
  qed
qed simp

lemma pages_props:
  assumes "0 < p"
  shows "concat (pages p bs) = bs" "j \<in> set (pages p bs) \<Longrightarrow> j \<noteq> []"
    "length (pages p bs) = (if length bs mod p = 0 then length bs div p else length bs div p + 1)"
proof -
  have "concat (pages p bs) = bs \<and> (\<forall>j \<in> set (pages p bs). j \<noteq> []) \<and>
      length (pages p bs) = (if length bs mod p = 0 then length bs div p else length bs div p + 1)"
    using assms
  proof (induction p bs rule: pages.induct)
    case (1 p bs)
    show ?case
    proof (cases "bs = []")
      case False
      have "length bs div p = Suc ((length bs - p) div p)" "length bs mod p = (length bs - p) mod p" if "p \<le> length bs"
        using that 1(2) by (simp_all add: le_div_geq le_mod_geq)
      moreover have "length bs div p = 0" "length bs mod p \<noteq> 0" if "length bs < p" using that False by auto
      ultimately show ?thesis
        using 1 False by (subst (1 2 3) pages.simps) (cases "p \<le> length bs"; simp)
    qed (simp add: pages.simps)
  qed
  then show "concat (pages p bs) = bs" "j \<in> set (pages p bs) \<Longrightarrow> j \<noteq> []"
    "length (pages p bs) = (if length bs mod p = 0 then length bs div p else length bs div p + 1)" by auto
qed

lemma jobs_chunks:
  assumes "0 < p"
  shows "length (jobs p contents) \<le> chunks p contents"
    "length (jobs p contents) = chunks p contents \<longleftrightarrow> (\<forall>bs \<in> set contents. length bs mod p \<noteq> 0)"
    "concat (jobs p contents) = concat contents" "j \<in> set (jobs p contents) \<Longrightarrow> j \<noteq> []"
proof -
  have "length (jobs p contents) \<le> chunks p contents \<and>
    (length (jobs p contents) = chunks p contents \<longleftrightarrow> (\<forall>bs \<in> set contents. length bs mod p \<noteq> 0))"
    by (induction contents) (auto simp: jobs_def chunks_def pages_props(3) [OF assms])
  then show "length (jobs p contents) \<le> chunks p contents"
    "length (jobs p contents) = chunks p contents \<longleftrightarrow> (\<forall>bs \<in> set contents. length bs mod p \<noteq> 0)" by auto
  show "concat (jobs p contents) = concat contents"
    by (induction contents) (simp_all add: jobs_def pages_props(1) [OF assms])
  show "j \<in> set (jobs p contents) \<Longrightarrow> j \<noteq> []" using pages_props(2) [OF assms] by (auto simp: jobs_def)
qed

lemma final_loop_uninit: "final_loop (map (\<lambda>j. Work j (r j)) js @ Uninit # ws) s = None"
  by (induction js arbitrary: s) simp_all

lemma pzip_done:
  assumes "0 < page_size" and "contents \<noteq> []" and "\<forall>bs \<in> set contents. length bs mod page_size \<noteq> 0"
    and "length (concat contents) < 2 ^ 31"
  shows "map_option runs (final_compress (finished_works page_size contents)) = Some (rle (concat contents))"
proof -
  note j = jobs_chunks [OF assms(1), where contents = contents]
  have len: "length (jobs page_size contents) = chunks page_size contents" using assms(3) j(2) by blast
  then have "jobs page_size contents \<noteq> []" using assms(2) by (cases contents) (auto simp: chunks_def)
  then have "map_option (\<lambda>(_, _, out). runs out)
      (final_loop (map (\<lambda>j. Work j (Some (compress_page j))) (jobs page_size contents)) (0, 0, [])) =
      Some (join (pending (0, 0, [])) (rle (concat (jobs page_size contents))))"
    using assms(4) j(3) by (intro final_loop_works) (auto simp: final_ok_def dest: j(4))
  then show ?thesis
    by (auto simp: final_compress_def finished_works_def Let_def len j(3) pending_def join_def split: prod.splits)
qed

section \<open>Properties\<close>

text \<open>
  C34: Compressing page by page is compressing the whole, for files of less than \<open>2 ^ 31\<close> bytes together. When
  all pages have been compressed, the runs that the final loop writes, between its messages, are exactly
  the run-length encoding of the concatenated files, with runs joined across page and file boundaries,
  provided that no file's size is a multiple of the page size; if one is (an empty file for instance),
  fewer pages are made than slots were allocated and the loop reads an uninitialised slot.
\<close>

theorem pzip_encodes:
  assumes "0 < page_size" and "contents \<noteq> []" and "length (concat contents) < 2 ^ 31"
  shows "map_option runs (final_compress (finished_works page_size contents)) =
    (if \<forall>bs \<in> set contents. length bs mod page_size \<noteq> 0 then Some (rle (concat contents)) else None)"
proof (cases "\<forall>bs \<in> set contents. length bs mod page_size \<noteq> 0")
  case True
  then show ?thesis using pzip_done [OF assms(1,2) _ assms(3)] by simp
next
  case False
  note j = jobs_chunks [OF assms(1), where contents = contents]
  have "length (jobs page_size contents) < chunks page_size contents" using False j(1,2) by linarith
  then obtain n where "chunks page_size contents - length (jobs page_size contents) = Suc n" by (metis Suc_diff_Suc)
  with False show ?thesis
    by (simp add: final_compress_def finished_works_def Let_def final_loop_uninit)
qed

theorem pzip_encodes_witness:
  "map_option runs (final_compress (finished_works 4 [[97, 97, 97, 97, 97, 98], [98]])) = Some (rle [97, 97, 97, 97, 97, 98, 98]) \<and>
   map_option runs (final_compress (finished_works 2 [[97, 98]])) = None"
  using pzip_encodes [of 4 "[[97, 97, 97, 97, 97, 98], [98]]"] pzip_encodes [of 2 "[[97, 98]]"] by simp

end
