(* ===== verification/Pzip_Threads.thy ===== *)
theory Pzip_Threads
  imports Pzip
begin

text \<open>
  The threads of \<^verbatim>\<open>projects/concurrency-pzip/pzip.c\<close>: thread 0 is \<open>main\<close>, which fills the array of work
  slots, cancels and joins the workers and runs the final compression; threads \<open>1 .. np\<close> run
  \<open>compress\<close>. Semaphores are those of \<open>thread_helper.h\<close>, \<open>sem_wait\<close> is a cancellation point,
  and so is the \<open>printf\<close> in the critical section of \<open>compress\<close> when it writes out its buffer, which \<open>flush\<close> tells from
  what has been printed.
\<close>

datatype pzpc =
  MWaitMutex | MFill | MPostMutex | MPostFull | MCancel nat | MJoin nat | MWaitFinal | MFinal | MDone
| WWaitFull | WWaitMutex | WPrintUse | WWork | WPostMutex | WCancelled | WKilled

record pz_state =
  pz_works :: "work list"
  pz_use :: nat
  pz_fill :: nat
  pz_mutex :: nat
  pz_full :: nat
  pz_jobs :: "uchar list list"
  pz_labels :: "(nat \<times> nat) list"
  pz_printed :: "pz_print list"
  pz_cancel :: "tid \<Rightarrow> bool"
  pz_pc :: "tid \<Rightarrow> pzpc"
  pz_out :: "pz_print list option"

definition pz_goto :: "tid \<Rightarrow> pzpc \<Rightarrow> pz_state \<Rightarrow> pz_state" where
  "pz_goto t p s = s\<lparr>pz_pc := (pz_pc s)(t := p)\<rparr>"

definition MNext :: "pz_state \<Rightarrow> pzpc" where
  "MNext s = (if pz_jobs s = [] then MCancel 0 else MWaitMutex)"

text \<open>The number of the file and the offset of each job, which are printed.\<close>

definition job_labels :: "nat \<Rightarrow> uchar list list \<Rightarrow> (nat \<times> nat) list" where
  "job_labels page_size contents =
    concat (map (\<lambda>i. map (\<lambda>j. (i, j * page_size)) [0..<length (pages page_size (contents ! i))]) [0..<length contents])"

text \<open>The semaphores, the array and the threads as \<open>main\<close> sets them up.\<close>

definition pz_main :: "nat \<Rightarrow> uchar list list \<Rightarrow> pz_state" where
  "pz_main page_size contents =
    (let js = jobs page_size contents in
     \<lparr>pz_works = replicate (chunks page_size contents) Uninit, pz_use = 0, pz_fill = 0, pz_mutex = 1, pz_full = 0,
      pz_jobs = js, pz_labels = job_labels page_size contents, pz_printed = [], pz_cancel = (\<lambda>_. False),
      pz_pc = (\<lambda>_. WWaitFull)(0 := if js = [] then MCancel 0 else MWaitMutex), pz_out = None\<rparr>)"

text \<open>A worker that is cancelled in its critical section (\<open>WKilled\<close>) takes the mutex with it.\<close>

definition compress_step :: "(pz_print list \<Rightarrow> bool) \<Rightarrow> tid \<Rightarrow> pz_state \<Rightarrow> pz_state option" where
  "compress_step flush t s =
    (case pz_pc s t of
       WWaitFull \<Rightarrow>
         if pz_cancel s t then Some (pz_goto t WCancelled s)
         else (case Sem_wait (pz_full s) of None \<Rightarrow> None | Some v \<Rightarrow> Some (pz_goto t WWaitMutex (s\<lparr>pz_full := v\<rparr>)))
     | WWaitMutex \<Rightarrow>
         if pz_cancel s t then Some (pz_goto t WCancelled s)
         else (case Sem_wait (pz_mutex s) of None \<Rightarrow> None | Some v \<Rightarrow> Some (pz_goto t WPrintUse (s\<lparr>pz_mutex := v\<rparr>)))
     | WPrintUse \<Rightarrow>
         if pz_cancel s t \<and> flush (pz_printed s) then Some (pz_goto t WKilled s)
         else Some (pz_goto t WWork (s\<lparr>pz_printed := pz_printed s @ [UsePtr (pz_use s)]\<rparr>))
     | WWork \<Rightarrow>
         (case pz_works s ! pz_use s of
            Uninit \<Rightarrow> None
          | Work addr _ \<Rightarrow> Some (pz_goto t WPostMutex
              (s\<lparr>pz_works := (pz_works s)[pz_use s := Work addr (Some (compress_page addr))],
                 pz_use := (pz_use s + 1) mod length (pz_works s)\<rparr>)))
     | WPostMutex \<Rightarrow> Some (pz_goto t WWaitFull (s\<lparr>pz_mutex := Sem_post (pz_mutex s)\<rparr>))
     | _ \<Rightarrow> None)"

definition pz_main_step :: "nat \<Rightarrow> pz_state \<Rightarrow> pz_state option" where
  "pz_main_step np s =
    (case pz_pc s 0 of
       MWaitMutex \<Rightarrow> (case Sem_wait (pz_mutex s) of None \<Rightarrow> None | Some v \<Rightarrow> Some (pz_goto 0 MFill (s\<lparr>pz_mutex := v\<rparr>)))
     | MFill \<Rightarrow> Some (pz_goto 0 MPostMutex
         (s\<lparr>pz_works := (pz_works s)[pz_fill s := Work (hd (pz_jobs s)) None],
            pz_fill := (pz_fill s + 1) mod length (pz_works s), pz_jobs := tl (pz_jobs s), pz_labels := tl (pz_labels s),
            pz_printed := pz_printed s @ [JobMsg (fst (hd (pz_labels s))) (snd (hd (pz_labels s))) (pz_fill s)]\<rparr>))
     | MPostMutex \<Rightarrow> Some (pz_goto 0 MPostFull (s\<lparr>pz_mutex := Sem_post (pz_mutex s)\<rparr>))
     | MPostFull \<Rightarrow> Some (pz_goto 0 (MNext s) (s\<lparr>pz_full := Sem_post (pz_full s)\<rparr>))
     | MCancel i \<Rightarrow> if i < np then Some (pz_goto 0 (MJoin i) (s\<lparr>pz_cancel := (pz_cancel s)(Suc i := True)\<rparr>))
         else Some (pz_goto 0 MWaitFinal s)
     | MJoin i \<Rightarrow> if pz_pc s (Suc i) \<in> {WCancelled, WKilled} then Some (pz_goto 0 (MCancel (Suc i)) s) else None
     | MWaitFinal \<Rightarrow> (case Sem_wait (pz_mutex s) of None \<Rightarrow> None | Some v \<Rightarrow> Some (pz_goto 0 MFinal (s\<lparr>pz_mutex := v\<rparr>)))
     | MFinal \<Rightarrow> Some (pz_goto 0 MDone (s\<lparr>pz_out := map_option ((@) (pz_printed s)) (final_compress (pz_works s))\<rparr>))
     | _ \<Rightarrow> None)"

definition pz_step :: "(pz_print list \<Rightarrow> bool) \<Rightarrow> nat \<Rightarrow> tid \<Rightarrow> pz_state \<Rightarrow> pz_state option" where
  "pz_step flush np t s = (if t = 0 then pz_main_step np s else compress_step flush t s)"

lemmas pz_step_defs = pz_step_def pz_main_step_def compress_step_def pz_goto_def sem_defs MNext_def

section \<open>The invariant\<close>

definition pz_holds :: "pzpc \<Rightarrow> bool" where
  "pz_holds p \<longleftrightarrow> p \<in> {MFill, MPostMutex, MFinal, MDone, WPrintUse, WWork, WPostMutex, WKilled}"

definition pz_owes :: "pzpc \<Rightarrow> bool" where
  "pz_owes p \<longleftrightarrow> p \<in> {MPostMutex, MPostFull}"

definition pz_taken :: "pzpc \<Rightarrow> bool" where
  "pz_taken p \<longleftrightarrow> p \<in> {WWaitMutex, WPrintUse, WWork}"

definition pz_worker :: "pzpc \<Rightarrow> bool" where
  "pz_worker p \<longleftrightarrow> p \<in> {WWaitFull, WWaitMutex, WPrintUse, WWork, WPostMutex, WCancelled, WKilled}"

lemmas pz_classes = pz_holds_def pz_owes_def pz_taken_def pz_worker_def

text \<open>The array after \<open>f\<close> jobs have been filled in and \<open>u\<close> of them compressed.\<close>

definition works_at :: "uchar list list \<Rightarrow> nat \<Rightarrow> nat \<Rightarrow> nat \<Rightarrow> work list" where
  "works_at js m u f = map (\<lambda>i. if i < u then Work (js ! i) (Some (compress_page (js ! i)))
     else if i < f then Work (js ! i) None else Uninit) [0..<m]"

definition pz_inv_at :: "nat \<Rightarrow> uchar list list \<Rightarrow> nat \<Rightarrow> nat \<Rightarrow> nat \<Rightarrow> pz_state \<Rightarrow> bool" where
  "pz_inv_at n js m u f s \<longleftrightarrow>
    pz_mutex s + cnt n (pz_pc s) pz_holds = 1 \<and>
    (\<forall>t < n. 0 < t \<longrightarrow> pz_worker (pz_pc s t)) \<and> \<not> pz_worker (pz_pc s 0) \<and>
    (pz_pc s 0 \<in> {MWaitMutex, MFill} \<longrightarrow> f < length js) \<and>
    (pz_pc s 0 = MDone \<longrightarrow> map_option runs (pz_out s) = map_option runs (final_compress (pz_works s))) \<and>
    runs (pz_printed s) = [] \<and>
    pz_works s = works_at js m u f \<and> f \<le> length js \<and> pz_jobs s = drop f js \<and>
    pz_use s = u mod m \<and> pz_fill s = f mod m \<and>
    u + cnt n (pz_pc s) pz_taken + pz_full s + cnt n (pz_pc s) pz_owes \<le> f"

definition pz_inv :: "nat \<Rightarrow> uchar list list \<Rightarrow> nat \<Rightarrow> pz_state \<Rightarrow> bool" where
  "pz_inv n js m s \<longleftrightarrow> (\<exists>u f. pz_inv_at n js m u f s)"

lemma length_works_at [simp]: "length (works_at js m u f) = m"
  by (simp add: works_at_def)

lemma works_at_fill:
  "f < m \<Longrightarrow> u \<le> f \<Longrightarrow> (works_at js m u f)[f mod m := Work (js ! f) None] = works_at js m u (Suc f)"
  by (rule nth_equalityI) (auto simp: works_at_def nth_list_update)

lemma works_at_work:
  assumes "u < f" "f \<le> m"
  shows "works_at js m u f ! (u mod m) = Work (js ! u) None"
    "(works_at js m u f)[u mod m := Work (js ! u) (Some (compress_page (js ! u)))] = works_at js m (Suc u) f"
proof -
  show "works_at js m u f ! (u mod m) = Work (js ! u) None" using assms by (simp add: works_at_def)
  show "(works_at js m u f)[u mod m := Work (js ! u) (Some (compress_page (js ! u)))] = works_at js m (Suc u) f"
    using assms by (intro nth_equalityI) (auto simp: works_at_def nth_list_update)
qed

lemma mod_Suc_step: "(u mod m + 1) mod m = Suc u mod m"
  by (simp add: mod_Suc_eq)

lemma pz_inv_worker:
  assumes inv: "pz_inv_at n js m u f s" and t: "t < n" "t \<noteq> 0" and st: "compress_step flush t s = Some s'" and m: "length js \<le> m"
  shows "pz_inv n js m s'"
proof -
  note pos = cnt_pos [where pc = "pz_pc s", OF t(1)]
  show ?thesis
  proof (cases "pz_pc s t = WWork")
    case True
    have u: "u < f" "f \<le> m" using inv pos [of pz_taken] True m by (auto simp: pz_inv_at_def pz_classes)
    have s': "s' = pz_goto t WPostMutex (s\<lparr>pz_works := works_at js m (Suc u) f, pz_use := Suc u mod m\<rparr>)"
      using st True inv works_at_work [OF u, of js] mod_Suc_step [of u m]
      by (simp add: compress_step_def pz_inv_at_def)
    have "0 \<noteq> t" using t by simp
    moreover have "\<forall>i < n. 0 < i \<longrightarrow> pz_worker (pz_pc s' i)"
      using inv by (auto simp: s' pz_goto_def pz_inv_at_def pz_classes)
    moreover have "pz_pc s 0 = MDone \<Longrightarrow> False"
      using inv t True cnt_two [of 0 n t pz_holds "pz_pc s"] by (auto simp: pz_inv_at_def pz_classes)
    ultimately have "pz_inv_at n js m (Suc u) f s'"
      using inv pos [of pz_taken] pos [of pz_holds] t True
      by (auto simp: s' pz_goto_def pz_inv_at_def pz_classes count_simps)
    then show ?thesis by (auto simp: pz_inv_def)
  next
    case False
    have "pz_inv_at n js m u f s'"
      using st False
      apply (cases "pz_pc s t")
      apply (simp_all add: compress_step_def sem_defs pz_goto_def split: if_splits)
      apply safe
      apply (insert inv pos [of pz_taken] pos [of pz_holds] t)
      apply (simp_all add: pz_inv_at_def pz_classes count_simps)
      apply linarith+
      done
    then show ?thesis by (auto simp: pz_inv_def)
  qed
qed

lemma pz_inv_main:
  assumes inv: "pz_inv_at n js m u f s" and n: "0 < n" and st: "pz_main_step np s = Some s'" and m: "length js \<le> m"
  shows "pz_inv n js m s'"
proof -
  note pos = cnt_pos [where pc = "pz_pc s", OF n]
  show ?thesis
  proof (cases "pz_pc s 0 = MFill")
    case True
    have f: "f < length js" using inv True by (auto simp: pz_inv_at_def)
    have u: "u \<le> f" using inv by (simp add: pz_inv_at_def)
    have s': "s' = pz_goto 0 MPostMutex
        (s\<lparr>pz_works := works_at js m u (Suc f), pz_fill := Suc f mod m, pz_jobs := drop (Suc f) js, pz_labels := tl (pz_labels s),
           pz_printed := pz_printed s @ [JobMsg (fst (hd (pz_labels s))) (snd (hd (pz_labels s))) (pz_fill s)]\<rparr>)"
      using st True inv f u m works_at_fill [of f m u js] mod_Suc_step [of f m]
      by (simp add: pz_main_step_def pz_inv_at_def hd_drop_conv_nth tl_drop drop_Suc)
    have "pz_inv_at n js m u (Suc f) s'"
      using inv pos [of pz_holds] n True f
      by (auto simp: s' pz_goto_def pz_inv_at_def pz_classes count_simps)
    then show ?thesis by (auto simp: pz_inv_def)
  next
    case False
    have "pz_inv_at n js m u f s'"
      using st False
      apply (cases "pz_pc s 0")
      apply (simp_all add: pz_main_step_def sem_defs pz_goto_def MNext_def split: if_splits)
      apply safe
      apply (insert inv pos [of pz_owes] pos [of pz_holds] n)
      apply (simp_all add: pz_inv_at_def pz_classes count_simps option.map_comp comp_def)
      done
    then show ?thesis by (auto simp: pz_inv_def)
  qed
qed

lemma pz_inv_step:
  assumes "pz_inv (Suc np) js m s" and "t < Suc np" and "pz_step flush np t s = Some s'" and "length js \<le> m"
  shows "pz_inv (Suc np) js m s'"
  using assms pz_inv_main [of "Suc np"] pz_inv_worker [of "Suc np"]
  by (auto simp: pz_inv_def [of _ _ _ s] pz_step_def split: if_splits)

lemma pz_inv_init:
  assumes "0 < page_size"
  shows "pz_inv (Suc np) (jobs page_size contents) (chunks page_size contents) (pz_main page_size contents)"
proof -
  let ?js = "jobs page_size contents" and ?s = "pz_main page_size contents"
  have c: "cnt (Suc np) (pz_pc ?s) pz_holds = 0" "cnt (Suc np) (pz_pc ?s) pz_taken = 0" "cnt (Suc np) (pz_pc ?s) pz_owes = 0"
    unfolding cnt_zero_iff by (simp_all add: pz_main_def Let_def pz_classes)
  have "works_at ?js m 0 0 = replicate m Uninit" for m
    by (rule nth_equalityI) (simp_all add: works_at_def)
  then have "pz_inv_at (Suc np) ?js (chunks page_size contents) 0 0 ?s"
    unfolding pz_inv_at_def c by (auto simp: pz_main_def Let_def pz_worker_def)
  then show ?thesis by (auto simp: pz_inv_def)
qed

interpretation pz: thread_system "pz_step flush np" "Suc np" "pz_main (Suc p) contents"
  "pz_inv (Suc np) (jobs (Suc p) contents) (chunks (Suc p) contents)" for flush np p contents
  by unfold_locales
    (use pz_inv_init pz_inv_step jobs_chunks(1) in \<open>blast intro: zero_less_Suc\<close>)+

section \<open>Properties\<close>

text \<open>
  C35: Integrity of the parallel run, for files of less than \<open>2 ^ 31\<close> bytes together: whatever the interleaving of
  \<open>main\<close> and any number of workers, and wherever the cancellation strikes, every result list that is attached to a slot is the encoding of the page that was put there, at
  most one thread is in the critical section, and if \<open>main\<close> finishes after all slots have been
  compressed the runs in its output, between the messages, are the run-length encoding of the concatenated
  files.
\<close>

theorem pzip_threads:
  assumes "0 < page_size" and "contents \<noteq> []" and "reach (pz_step flush np) (Suc np) (pz_main page_size contents) s"
    and "length (concat contents) < 2 ^ 31"
  shows "(\<forall>i < length (pz_works s). \<forall>addr rs. pz_works s ! i = Work addr (Some rs) \<longrightarrow>
      addr = jobs page_size contents ! i \<and> rs = rle addr) \<and>
    (\<forall>i \<le> np. \<forall>j \<le> np. pz_holds (pz_pc s i) \<longrightarrow> pz_holds (pz_pc s j) \<longrightarrow> i = j) \<and>
    (pz_pc s 0 = MDone \<longrightarrow> (\<forall>w \<in> set (pz_works s). w \<noteq> Uninit \<and> work_results w \<noteq> None) \<longrightarrow>
      map_option runs (pz_out s) = Some (rle (concat contents)))"
proof -
  obtain p where p: "page_size = Suc p" using assms(1) by (cases page_size) auto
  let ?js = "jobs page_size contents" and ?m = "chunks page_size contents"
  note j = jobs_chunks [OF assms(1), where contents = contents]
  obtain u f where inv: "pz_inv_at (Suc np) ?js ?m u f s"
    using pz.reach_inv assms(3) unfolding p pz_inv_def by blast
  have w: "pz_works s = works_at ?js ?m u f" "f \<le> length ?js" "u \<le> f" using inv by (auto simp: pz_inv_at_def)
  have "addr = ?js ! i \<and> rs = rle addr" if "i < ?m" "works_at ?js ?m u f ! i = Work addr (Some rs)" for i addr rs
  proof -
    have "i < u" "addr = ?js ! i" "rs = compress_page addr" using that by (auto simp: works_at_def split: if_splits)
    moreover from this w have a: "addr \<in> set ?js" by auto
    then have "length addr \<le> length (concat ?js)" by (auto simp: length_concat intro: member_le_sum_list)
    ultimately show ?thesis using j(3,4) a assms(4) by (simp add: compress_page_rle)
  qed
  moreover have "i = k" if "i \<le> np" "k \<le> np" "pz_holds (pz_pc s i)" "pz_holds (pz_pc s k)" for i k
    using inv that cnt_two [of i "Suc np" k pz_holds "pz_pc s"] by (force simp: pz_inv_at_def)
  moreover have "map_option runs (pz_out s) = Some (rle (concat contents))"
    if d: "pz_pc s 0 = MDone" and all: "\<forall>w \<in> set (pz_works s). w \<noteq> Uninit \<and> work_results w \<noteq> None"
  proof -
    have "u = ?m"
    proof (rule ccontr)
      assume "u \<noteq> ?m"
      then have "u < ?m" using w j(1) by simp
      then have "works_at ?js ?m u f ! u \<in> set (pz_works s)" by (simp add: w(1))
      then have "works_at ?js ?m u f ! u \<noteq> Uninit \<and> work_results (works_at ?js ?m u f ! u) \<noteq> None" using all by blast
      then show False using \<open>u < ?m\<close> by (simp add: works_at_def split: if_splits)
    qed
    then have m: "length ?js = ?m" using w j(1) by simp
    then have "works_at ?js ?m u f = finished_works page_size contents"
      using \<open>u = ?m\<close> by (intro nth_equalityI) (auto simp: works_at_def finished_works_def Let_def)
    moreover have "\<forall>bs \<in> set contents. length bs mod page_size \<noteq> 0" using m j(2) by blast
    ultimately have "map_option runs (final_compress (works_at ?js ?m u f)) = Some (rle (concat contents))"
      using pzip_done [OF assms(1,2) _ assms(4)] by simp
    then show ?thesis using inv d by (simp add: pz_inv_at_def)
  qed
  ultimately show ?thesis using w(1) by simp
qed

theorem pzip_threads_witness:
  "\<exists>s. reach (pz_step (\<lambda>_. False) 1) (Suc 1) (pz_main 2 [[97, 97, 98]]) s \<and> pz_pc s 0 = MDone \<and>
     map_option runs (pz_out s) = Some (rle [97, 97, 98])"
proof -
  let ?is = "replicate 8 0 @ replicate 10 1 @ [0, 1] @ replicate 4 (0 :: tid)"
  let ?test = "\<lambda>s. pz_pc s 0 = MDone \<and> list_all (\<lambda>w. w \<noteq> Uninit \<and> work_results w \<noteq> None) (pz_works s)"
  have "case run_sched (pz_step (\<lambda>_. False) 1) ?is (pz_main 2 [[97, 97, 98]]) of None \<Rightarrow> False | Some s \<Rightarrow> ?test s"
    by code_simp
  then obtain s where s: "run_sched (pz_step (\<lambda>_. False) 1) ?is (pz_main 2 [[97, 97, 98]]) = Some s" "?test s"
    by (rule run_sched_test)
  have r: "reach (pz_step (\<lambda>_. False) 1) (Suc 1) (pz_main 2 [[97, 97, 98]]) s" by (rule run_sched_reach [OF s(1)]) auto
  then show ?thesis using pzip_threads [OF _ _ r] s(2) by (auto simp: list_all_iff)
qed

text \<open>
  The cancellation races with the work: \<open>main\<close> cancels the workers as soon as it has posted the
  jobs, and a worker that is cancelled in \<open>sem_wait\<close> leaves its page uncompressed. There is a
  schedule in which the program finishes and writes no run for a file of three bytes.
\<close>

theorem pzip_cancels_too_early:
  "\<exists>is s. run_sched (pz_step flush 1) is (pz_main 2 [[97, 97, 98]]) = Some s \<and> pz_pc s 0 = MDone \<and> map_option runs (pz_out s) = Some []"
proof -
  let ?is = "replicate 9 0 @ [1] @ replicate 4 (0 :: tid)"
  have "case run_sched (pz_step flush 1) ?is (pz_main 2 [[97, 97, 98]]) of None \<Rightarrow> False
      | Some s \<Rightarrow> pz_pc s 0 = MDone \<and> map_option runs (pz_out s) = Some []" by code_simp
  then obtain s where "run_sched (pz_step flush 1) ?is (pz_main 2 [[97, 97, 98]]) = Some s"
    "pz_pc s 0 = MDone \<and> map_option runs (pz_out s) = Some []" by (rule run_sched_test)
  then show ?thesis by blast
qed

text \<open>A worker that is cancelled while it prints holds the mutex for good, and \<open>main\<close> waits for it without end.\<close>

theorem pzip_cancel_deadlock:
  "\<exists>is s. run_sched (pz_step (\<lambda>_. True) 1) is (pz_main 4 [[97, 97, 98]]) = Some s \<and> pz_pc s 0 = MWaitFinal \<and>
     pz_step (\<lambda>_. True) 1 0 s = None \<and> pz_step (\<lambda>_. True) 1 1 s = None"
proof -
  let ?is = "replicate 4 0 @ [1, 1, 0, 1, 0, 0 :: tid]"
  have "case run_sched (pz_step (\<lambda>_. True) 1) ?is (pz_main 4 [[97, 97, 98]]) of None \<Rightarrow> False
      | Some s \<Rightarrow> pz_pc s 0 = MWaitFinal \<and> Option.is_none (pz_step (\<lambda>_. True) 1 0 s) \<and> Option.is_none (pz_step (\<lambda>_. True) 1 1 s)"
    by code_simp
  then obtain s where "run_sched (pz_step (\<lambda>_. True) 1) ?is (pz_main 4 [[97, 97, 98]]) = Some s"
    "pz_pc s 0 = MWaitFinal \<and> Option.is_none (pz_step (\<lambda>_. True) 1 0 s) \<and> Option.is_none (pz_step (\<lambda>_. True) 1 1 s)"
    by (rule run_sched_test)
  then show ?thesis unfolding Option.is_none_def by blast
qed

end
