(* ===== verification/Btree.thy ===== *)
theory Btree
  imports Prelude "HOL-Library.List_Lexorder" "HOL-Library.Char_ord" "HOL-Library.Multiset"
begin

text \<open>
  The B-tree of \<^verbatim>\<open>29/btree.c\<close>. A node is the list of its first \<open>m\<close> children; \<open>insert\<close> returns the
  node as it is after the call together with what \<open>insert_ret\<close> holds. Strings are compared by
  \<open>strcmp\<close>, which is the lexicographic order. Freeing memory is left out.
\<close>

section \<open>Nodes and trees\<close>

definition btM :: nat where "btM = 4"

datatype node = Node (children: "entry list")
  and entry = Entry (key: string) (vl: "string option") (nxt: "node option")

record btree =
  root :: node
  height :: nat
  n_pairs :: int

definition initBtree :: btree where
  "initBtree = \<lparr>root = Node [], height = 0, n_pairs = 0\<rparr>"

definition with_key :: "string \<Rightarrow> entry \<Rightarrow> entry" where
  "with_key k e = Entry k (vl e) (nxt e)"

definition with_nxt :: "node \<Rightarrow> entry \<Rightarrow> entry" where
  "with_nxt h e = Entry (key e) (vl e) (Some h)"

section \<open>Insertion\<close>

text \<open>The loop over the children of an external node from index \<open>j\<close>.\<close>

function leaf_pos :: "string \<Rightarrow> nat \<Rightarrow> entry list \<Rightarrow> nat" where
  "leaf_pos k j es = (if j < length es \<and> \<not> k < key (es ! j) then leaf_pos k (j + 1) es else j)"
  by pat_completeness auto

termination
  by (relation "measure (\<lambda>(_, j, es). length es - j)") auto

declare leaf_pos.simps [simp del]

text \<open>The loop over the children of an internal node: the first child after which the key is smaller
  than the next one, or the last child.\<close>

function child_pos :: "string \<Rightarrow> nat \<Rightarrow> entry list \<Rightarrow> nat" where
  "child_pos k j es =
    (if j + 1 < length es \<and> \<not> k < key (es ! (j + 1)) then child_pos k (j + 1) es else j)"
  by pat_completeness auto

termination
  by (relation "measure (\<lambda>(_, j, es). length es - j)") auto

declare child_pos.simps [simp del]

definition bt_split :: "entry list \<Rightarrow> node \<times> node" where
  "bt_split es = (Node (take (btM div 2) es), Node (drop (btM div 2) es))"

text \<open>The end of \<open>insert\<close>: shift the children behind \<open>j\<close>, store \<open>t\<close>, split a full node.\<close>

definition insert_node :: "entry list \<Rightarrow> nat \<Rightarrow> entry \<Rightarrow> node \<times> node option" where
  "insert_node es j t =
    (let es' = take j es @ t # drop j es in
     if length es' < btM then (Node es', None) else let (h, r) = bt_split es' in (h, Some r))"

fun bt_insert :: "nat \<Rightarrow> node \<Rightarrow> string \<Rightarrow> string option \<Rightarrow> (node \<times> node option \<times> bool) option" where
  "bt_insert 0 (Node es) k v =
    (let t = Entry k v None;
         mod_parent = (es \<noteq> [] \<and> k \<noteq> '''' \<and> k < key (es ! 0));
         j = (if es = [] \<or> mod_parent then 0 else leaf_pos k 1 es);
         (h, r) = insert_node es j t
     in Some (h, r, mod_parent))"
| "bt_insert (Suc ht) (Node es) k v =
    (let j = child_pos k 0 es in
     if es = [] then None
     else case nxt (es ! j) of
       None \<Rightarrow> None
     | Some c \<Rightarrow>
        (case bt_insert ht c k v of
           None \<Rightarrow> None
         | Some (c', u, mod_parent) \<Rightarrow>
            let e = with_nxt c' (es ! j);
                e = (if mod_parent then with_key k e else e);
                es = es[j := e] in
            (case u of
               None \<Rightarrow> Some (Node es, None, mod_parent)
             | Some r \<Rightarrow>
                let (h, r') = insert_node es (j + 1) (Entry (key (children r ! 0)) v (Some r))
                in Some (h, r', False))))"

definition set_first_key :: "string \<Rightarrow> node \<Rightarrow> node" where
  "set_first_key k h = Node ((children h)[0 := with_key k (children h ! 0)])"

definition put :: "btree \<Rightarrow> string \<Rightarrow> string option \<Rightarrow> btree option" where
  "put b k v =
    (case bt_insert (height b) (root b) k v of
       None \<Rightarrow> None
     | Some (h, u, mod_parent) \<Rightarrow>
        let h = (if mod_parent then set_first_key k h else h);
            b = b\<lparr>root := h, n_pairs := int32 (n_pairs b + 1)\<rparr> in
        (case u of
           None \<Rightarrow> Some b
         | Some r \<Rightarrow> Some (b\<lparr>root := Node [Entry (key (children h ! 0)) None (Some h),
                                          Entry (key (children r ! 0)) None (Some r)],
                              height := height b + 1\<rparr>)))"

section \<open>Printing, threads\<close>

fun toStringHelper :: "nat \<Rightarrow> node \<Rightarrow> string \<Rightarrow> string" where
  "toStringHelper 0 (Node es) indent =
    concat (map (\<lambda>e. indent @ key e @ '' '' @ (case vl e of None \<Rightarrow> ''null'' | Some v \<Rightarrow> v) @ ''\<newline>'') es)"
| "toStringHelper (Suc ht) (Node es) indent =
    concat (map (\<lambda>e. indent @ ''('' @ key e @ '')\<newline>'' @
      (case nxt e of None \<Rightarrow> [] | Some c \<Rightarrow> toStringHelper ht c (indent @ ''     ''))) es)"

definition toString :: "btree \<Rightarrow> string" where
  "toString b = toStringHelper (height b) (root b) ''''"

definition urls :: "string list" where
  "urls = [''www.cs.princeton.edu'', ''www.princeton.edu'', ''www.yale.edu'', ''www.simpsons.com'', ''www.apple.com'',
    ''www.amazon.com'', ''www.ebay.com'', ''www.cnn.com'', ''www.google.com'', ''www.nytimes.com'', ''www.microsoft.com'']"

definition puts :: "(string \<times> string option) list \<Rightarrow> btree \<Rightarrow> btree option" where
  "puts kvs b = fold (\<lambda>(k, v) m. Option.bind m (\<lambda>b. put b k v)) kvs (Some b)"

text \<open>A thread holds the lock of the tree during all its insertions, so the threads run one after the
  other.\<close>

definition thread_function :: "nat \<Rightarrow> btree \<Rightarrow> btree option" where
  "thread_function threads b = puts (map (\<lambda>i. (urls ! (i mod 11), Some ''128.112.136.12'')) [0..<100 div threads]) b"

definition run_threads :: "nat \<Rightarrow> btree option" where
  "run_threads i = ((\<lambda>m. Option.bind m (thread_function i)) ^^ i) (Some initBtree)"

section \<open>The abstract table: an association list kept in order\<close>

type_synonym pairs = "(string \<times> string option) list"

text \<open>A pair is put behind all pairs with a key that is not larger.\<close>

fun ins_pair :: "string \<Rightarrow> string option \<Rightarrow> pairs \<Rightarrow> pairs" where
  "ins_pair k v [] = [(k, v)]"
| "ins_pair k v ((k', v') # ps) = (if k < k' then (k, v) # (k', v') # ps else (k', v') # ins_pair k v ps)"

abbreviation ordered :: "pairs \<Rightarrow> bool" where
  "ordered ps \<equiv> sorted (map fst ps)"

lemma ins_pair_le: "(\<And>p. p \<in> set ps \<Longrightarrow> fst p \<le> k) \<Longrightarrow> ins_pair k v (ps @ qs) = ps @ ins_pair k v qs"
proof (induction ps)
  case (Cons p ps)
  obtain a b where p: "p = (a, b)" by (cases p)
  have "\<not> k < a" using Cons.prems [of p] p by (simp add: not_less)
  with Cons p show ?case by simp
qed simp

lemma ins_pair_less: "qs = [] \<or> k < fst (hd qs) \<Longrightarrow> ins_pair k v (ps @ qs) = ins_pair k v ps @ qs"
proof (induction ps)
  case Nil
  then show ?case by (cases qs) auto
qed auto

lemma set_ins_pair: "set (ins_pair k v ps) = {(k, v)} \<union> set ps"
  by (induction ps) (auto split: if_splits)

lemma ordered_ins_pair: "ordered ps \<Longrightarrow> ordered (ins_pair k v ps)"
proof (induction ps)
  case (Cons p ps)
  obtain a b where p: "p = (a, b)" by (cases p)
  show ?case
  proof (cases "k < a")
    case True
    then have "k \<le> a" by (rule less_imp_le)
    then show ?thesis using Cons.prems p True by (auto intro: order.trans)
  next
    case False
    then have "a \<le> k" by (simp add: not_less)
    then show ?thesis using Cons p False by (auto simp: set_ins_pair)
  qed
qed simp

lemma ordered_before: "ordered (ps @ q # qs) \<Longrightarrow> p \<in> set ps \<Longrightarrow> fst p \<le> fst q"
  by (auto simp: sorted_append)

lemma length_ins_pair [simp]: "length (ins_pair k v ps) = Suc (length ps)"
  by (induction ps) auto

lemma ins_pair_ne [simp]: "ins_pair k v ps \<noteq> []"
  using length_ins_pair [of k v ps] by (metis list.size(3) nat.distinct(1))

lemma hd_ins_pair: "ps \<noteq> [] \<Longrightarrow> \<not> k < fst (hd ps) \<Longrightarrow> hd (ins_pair k v ps) = hd ps"
  by (cases ps) auto

section \<open>Abstraction and invariant\<close>

fun leaves :: "nat \<Rightarrow> node \<Rightarrow> pairs" where
  "leaves 0 (Node es) = map (\<lambda>e. (key e, vl e)) es"
| "leaves (Suc ht) (Node es) = concat (map (\<lambda>e. case nxt e of None \<Rightarrow> [] | Some c \<Rightarrow> leaves ht c) es)"

abbreviation sub_leaves :: "nat \<Rightarrow> entry \<Rightarrow> pairs" where
  "sub_leaves ht e \<equiv> (case nxt e of None \<Rightarrow> [] | Some c \<Rightarrow> leaves ht c)"

text \<open>
  The shape: all leaves at the same depth, two or three children below the root. The keys of an
  internal node, apart from the first, are the smallest keys of their subtrees.
\<close>

definition exact :: "nat \<Rightarrow> entry list \<Rightarrow> bool" where
  "exact ht es \<longleftrightarrow> (\<forall>e \<in> set es. sub_leaves ht e \<noteq> [] \<and> key e = fst (hd (sub_leaves ht e)))"

fun bt_inv :: "nat \<Rightarrow> node \<Rightarrow> bool" where
  "bt_inv 0 (Node es) \<longleftrightarrow> (\<forall>e \<in> set es. nxt e = None)"
| "bt_inv (Suc ht) (Node es) \<longleftrightarrow> es \<noteq> [] \<and> exact ht (tl es) \<and>
    (\<forall>e \<in> set es. case nxt e of None \<Rightarrow> False | Some c \<Rightarrow> bt_inv ht c \<and> 2 \<le> length (children c) \<and> length (children c) \<le> 3)"

definition btree_ok :: "btree \<Rightarrow> bool" where
  "btree_ok b \<longleftrightarrow> bt_inv (height b) (root b) \<and> length (children (root b)) \<le> 3 \<and>
     (0 < height b \<longrightarrow> 2 \<le> length (children (root b))) \<and>
     ordered (leaves (height b) (root b)) \<and> (\<forall>p \<in> set (leaves (height b) (root b)). fst p \<noteq> '''') \<and>
     n_pairs b = int32 (int (length (leaves (height b) (root b))))"

lemma leaves_ne: "bt_inv ht h \<Longrightarrow> 2 \<le> length (children h) \<Longrightarrow> leaves ht h \<noteq> []"
proof (induction ht h rule: bt_inv.induct)
  case (2 ht es)
  then obtain e es' c where "es = e # es'" "nxt e = Some c" by (cases es) (auto split: option.splits)
  with 2 show ?case by auto
qed auto

lemma bt_inv_child:
  assumes "bt_inv (Suc ht) (Node es)" and "e \<in> set es"
  obtains c where "nxt e = Some c" "bt_inv ht c" "2 \<le> length (children c)" "length (children c) \<le> 3" "leaves ht c \<noteq> []"
  using assms leaves_ne by (fastforce split: option.splits)

section \<open>Positions\<close>

lemma leaf_pos_split:
  "j \<le> length es \<Longrightarrow> j \<le> leaf_pos k j es \<and> leaf_pos k j es \<le> length es \<and>
    (\<forall>i. j \<le> i \<longrightarrow> i < leaf_pos k j es \<longrightarrow> key (es ! i) \<le> k) \<and>
    (leaf_pos k j es < length es \<longrightarrow> k < key (es ! leaf_pos k j es))"
proof (induction k j es rule: leaf_pos.induct)
  case (1 k j es)
  show ?case
  proof (cases "j < length es \<and> \<not> k < key (es ! j)")
    case True
    then have eq: "leaf_pos k j es = leaf_pos k (Suc j) es" by (subst leaf_pos.simps) simp
    have j: "key (es ! j) \<le> k" using True by (simp add: not_less)
    have "key (es ! i) \<le> k" if "j \<le> i" "i < leaf_pos k (Suc j) es" for i
      using that j 1 True by (cases "i = j") auto
    then show ?thesis using 1 True unfolding eq by auto
  next
    case False
    then have "leaf_pos k j es = j" by (subst leaf_pos.simps) auto
    then show ?thesis using 1 False by auto
  qed
qed

lemma child_pos_split:
  "j < length es \<Longrightarrow> j \<le> child_pos k j es \<and> child_pos k j es < length es \<and>
    (\<forall>i. j < i \<longrightarrow> i \<le> child_pos k j es \<longrightarrow> key (es ! i) \<le> k) \<and>
    (child_pos k j es + 1 < length es \<longrightarrow> k < key (es ! (child_pos k j es + 1)))"
proof (induction k j es rule: child_pos.induct)
  case (1 k j es)
  show ?case
  proof (cases "j + 1 < length es \<and> \<not> k < key (es ! (j + 1))")
    case True
    then have eq: "child_pos k j es = child_pos k (Suc j) es" by (subst child_pos.simps) simp
    have j: "key (es ! Suc j) \<le> k" using True by (simp add: not_less)
    have "key (es ! i) \<le> k" if "j < i" "i \<le> child_pos k (Suc j) es" for i
      using that j 1 True by (cases "i = Suc j") auto
    then show ?thesis using 1 True unfolding eq by auto
  next
    case False
    then have "child_pos k j es = j" by (subst child_pos.simps) auto
    then show ?thesis using 1 False by auto
  qed
qed

text \<open>The chosen child with what is before and behind it.\<close>

lemma child_pos_around:
  assumes "es \<noteq> []"
  obtains pre e post where "es = pre @ e # post" "child_pos k 0 es = length pre"
    "pre = [] \<or> key e \<le> k" "post = [] \<or> k < key (hd post)"
proof -
  let ?j = "child_pos k 0 es"
  have j: "?j < length es" "\<And>i. 0 < i \<Longrightarrow> i \<le> ?j \<Longrightarrow> key (es ! i) \<le> k" "?j + 1 < length es \<Longrightarrow> k < key (es ! (?j + 1))"
    using child_pos_split [of 0 es k] assms by auto
  show ?thesis
  proof (rule that [of "take ?j es" "es ! ?j" "drop (Suc ?j) es"])
    show "es = take ?j es @ es ! ?j # drop (Suc ?j) es" using j(1) by (rule id_take_nth_drop)
    show "take ?j es = [] \<or> key (es ! ?j) \<le> k" using j(2) [of ?j] by (cases "?j = 0") auto
    show "drop (Suc ?j) es = [] \<or> k < key (hd (drop (Suc ?j) es))"
      using j(3) by (cases "Suc ?j < length es") (auto simp: hd_drop_conv_nth)
  qed (use j(1) in simp)
qed

section \<open>Correctness of the insertion\<close>

lemma leaf_insert_sorted:
  assumes "k \<noteq> ''''"
    and j: "j = (if es = [] \<or> (es \<noteq> [] \<and> k \<noteq> '''' \<and> k < key (es ! 0)) then 0 else leaf_pos k 1 es)"
  shows "map (\<lambda>e. (key e, vl e)) (take j es @ Entry k v None # drop j es) = ins_pair k v (map (\<lambda>e. (key e, vl e)) es)"
    (is "?p (take j es @ ?t # drop j es) = _")
proof -
  have at: "(\<forall>i < j. key (es ! i) \<le> k) \<and> j \<le> length es \<and> (j < length es \<longrightarrow> k < key (es ! j))"
  proof (cases "es = [] \<or> (es \<noteq> [] \<and> k \<noteq> '''' \<and> k < key (es ! 0))")
    case True
    then show ?thesis using j by auto
  next
    case False
    then have 0: "key (es ! 0) \<le> k" "1 \<le> length es" "j = leaf_pos k 1 es" using assms(1) j by (auto simp: not_less Suc_le_eq)
    have "key (es ! i) \<le> k" if "i < j" for i
      using that 0 leaf_pos_split [of 1 es k] by (cases "i = 0") auto
    then show ?thesis using 0 leaf_pos_split [of 1 es k] by auto
  qed
  then have le: "\<forall>e \<in> set (take j es). key e \<le> k" by (auto simp: in_set_conv_nth)
  have less: "drop j es = [] \<or> k < key (hd (drop j es))"
    using at by (cases "j < length es") (auto simp: hd_drop_conv_nth)
  have "ins_pair k v (?p (take j es) @ ?p (drop j es)) = ?p (take j es) @ ins_pair k v (?p (drop j es))"
    using le by (intro ins_pair_le) auto
  also have "ins_pair k v (?p (drop j es)) = (k, v) # ?p (drop j es)"
    using less by (cases "drop j es") auto
  finally have "ins_pair k v (?p es) = ?p (take j es) @ (k, v) # ?p (drop j es)" by (simp flip: map_append)
  then show ?thesis by simp
qed

lemma leaves_append: "leaves ht (Node (xs @ ys)) = leaves ht (Node xs) @ leaves ht (Node ys)"
  by (cases ht) simp_all

lemma insert_node_cases:
  assumes "length es \<le> 3" "j \<le> length es" "es' = take j es @ t # drop j es"
  shows "length es' \<le> 3 \<and> insert_node es j t = (Node es', None) \<or>
    length es' = 4 \<and> insert_node es j t = (Node (take 2 es'), Some (Node (drop 2 es')))"
proof -
  have "length es' = Suc (length es)" using assms(2,3) by simp
  moreover have "insert_node es j t = (if length es' < 4 then (Node es', None) else (Node (take 2 es'), Some (Node (drop 2 es'))))"
    by (simp add: insert_node_def bt_split_def btM_def assms(3) Let_def)
  ultimately show ?thesis using assms(1) by auto
qed

text \<open>What an insertion below node \<open>h\<close> achieves.\<close>

definition inserted :: "nat \<Rightarrow> node \<Rightarrow> string \<Rightarrow> string option \<Rightarrow> node \<Rightarrow> node option \<Rightarrow> bool \<Rightarrow> bool" where
  "inserted ht h k v h' u mp \<longleftrightarrow> bt_inv ht h' \<and>
    (mp \<longrightarrow> leaves ht h \<noteq> [] \<and> k < fst (hd (leaves ht h))) \<and>
    (case u of
       None \<Rightarrow> leaves ht h' = ins_pair k v (leaves ht h) \<and> length (children h) \<le> length (children h') \<and> length (children h') \<le> 3 \<and> children h' \<noteq> []
     | Some r \<Rightarrow> leaves ht h' @ leaves ht r = ins_pair k v (leaves ht h) \<and> bt_inv ht r \<and>
         length (children h') = 2 \<and> length (children r) = 2 \<and> key (children r ! 0) = fst (hd (leaves ht r)))"

lemma insert_leaf:
  assumes "bt_inv 0 (Node es)" "length es \<le> 3" "k \<noteq> ''''"
  shows "\<exists>h' u mp. bt_insert 0 (Node es) k v = Some (h', u, mp) \<and> inserted 0 (Node es) k v h' u mp"
proof -
  define j where "j = (if es = [] \<or> (es \<noteq> [] \<and> k \<noteq> '''' \<and> k < key (es ! 0)) then 0 else leaf_pos k 1 es)"
  define es' where "es' = take j es @ Entry k v None # drop j es"
  let ?mp = "es \<noteq> [] \<and> k \<noteq> '''' \<and> k < key (es ! 0)"
  have ins: "map (\<lambda>e. (key e, vl e)) es' = ins_pair k v (map (\<lambda>e. (key e, vl e)) es)"
    unfolding es'_def by (rule leaf_insert_sorted [OF assms(3) j_def])
  have j: "j \<le> length es" using leaf_pos_split [of 1 es k] by (cases es) (auto simp: j_def)
  have none: "\<forall>e \<in> set es'. nxt e = None" using assms(1) by (auto simp: es'_def dest: in_set_takeD in_set_dropD)
  have mp: "?mp \<longrightarrow> leaves 0 (Node es) \<noteq> [] \<and> k < fst (hd (leaves 0 (Node es)))" by (cases es) auto
  have bt: "bt_insert 0 (Node es) k v = Some (fst (insert_node es j (Entry k v None)), snd (insert_node es j (Entry k v None)), ?mp)"
    by (simp add: j_def Let_def case_prod_unfold)
  consider "length es' \<le> 3" "insert_node es j (Entry k v None) = (Node es', None)"
    | "length es' = 4" "insert_node es j (Entry k v None) = (Node (take 2 es'), Some (Node (drop 2 es')))"
    using insert_node_cases [OF assms(2) j es'_def] by blast
  then show ?thesis
  proof cases
    case 1
    have "length es' = Suc (length es)" using j by (simp add: es'_def)
    then have "inserted 0 (Node es) k v (Node es') None ?mp" using 1 none mp ins by (auto simp: inserted_def)
    then show ?thesis unfolding bt 1(2) by auto
  next
    case 2
    have "leaves 0 (Node (take 2 es')) @ leaves 0 (Node (drop 2 es')) = ins_pair k v (leaves 0 (Node es))"
      using ins by (simp flip: map_append)
    moreover have "key (drop 2 es' ! 0) = fst (hd (leaves 0 (Node (drop 2 es'))))"
      using 2(1) by (cases "drop 2 es'") auto
    ultimately have "inserted 0 (Node es) k v (Node (take 2 es')) (Some (Node (drop 2 es'))) ?mp"
      using 2 none mp by (auto simp: inserted_def dest: in_set_takeD in_set_dropD)
    then show ?thesis unfolding bt 2(2) by auto
  qed
qed

text \<open>The leaves around the chosen child of an internal node.\<close>

lemma around_child:
  assumes inv: "bt_inv (Suc ht) (Node (pre @ e # post))" and ord: "ordered (leaves (Suc ht) (Node (pre @ e # post)))"
    and e: "pre = [] \<or> key e \<le> k" and post: "post = [] \<or> k < key (hd post)" and c: "nxt e = Some c"
  shows "ins_pair k v (leaves (Suc ht) (Node (pre @ e # post))) =
      leaves (Suc ht) (Node pre) @ ins_pair k v (leaves ht c) @ leaves (Suc ht) (Node post)"
    and "pre \<noteq> [] \<Longrightarrow> leaves ht c \<noteq> [] \<and> \<not> k < fst (hd (leaves ht c)) \<and> key e = fst (hd (leaves ht c))"
proof -
  let ?P = "leaves (Suc ht) (Node pre)" and ?Q = "leaves (Suc ht) (Node post)"
  have split: "leaves (Suc ht) (Node (pre @ e # post)) = ?P @ leaves ht c @ ?Q" using c by simp
  have ex: "exact ht (tl (pre @ e # post))" using inv by simp
  show first: "leaves ht c \<noteq> [] \<and> \<not> k < fst (hd (leaves ht c)) \<and> key e = fst (hd (leaves ht c))" if "pre \<noteq> []"
  proof -
    have "e \<in> set (tl (pre @ e # post))" using that by (cases pre) auto
    then have "leaves ht c \<noteq> [] \<and> key e = fst (hd (leaves ht c))" using ex c by (force simp: exact_def)
    then show ?thesis using that e by (simp add: not_less)
  qed
  have P: "fst p \<le> k" if "p \<in> set ?P" for p
  proof -
    have pre: "pre \<noteq> []" using that by auto
    then obtain q C where "leaves ht c = q # C" "fst q \<le> k" using first by (cases "leaves ht c") (auto simp: not_less)
    moreover from this have "fst p \<le> fst q" using ordered_before [of ?P q "C @ ?Q" p] ord that unfolding split by simp
    ultimately show ?thesis by simp
  qed
  have Q: "?Q = [] \<or> k < fst (hd ?Q)"
  proof (cases post)
    case (Cons f post')
    then have "f \<in> set (tl (pre @ e # post))" by (cases pre) auto
    then have "sub_leaves ht f \<noteq> [] \<and> key f = fst (hd (sub_leaves ht f))" using ex by (auto simp: exact_def)
    then show ?thesis using post Cons by (simp add: hd_append)
  qed simp
  show "ins_pair k v (leaves (Suc ht) (Node (pre @ e # post))) = ?P @ ins_pair k v (leaves ht c) @ ?Q"
    unfolding split using ins_pair_le [of ?P k v "leaves ht c @ ?Q", OF P] ins_pair_less [OF Q, of v "leaves ht c"]
    by (simp only:)
qed

lemma insert_inner:
  assumes inv: "bt_inv (Suc ht) (Node es)" and ord: "ordered (leaves (Suc ht) (Node es))" and len: "length es \<le> 3"
    and IH: "\<And>c. bt_inv ht c \<Longrightarrow> ordered (leaves ht c) \<Longrightarrow> length (children c) \<le> 3 \<Longrightarrow>
      \<exists>h' u mp. bt_insert ht c k v = Some (h', u, mp) \<and> inserted ht c k v h' u mp"
  shows "\<exists>h' u mp. bt_insert (Suc ht) (Node es) k v = Some (h', u, mp) \<and> inserted (Suc ht) (Node es) k v h' u mp"
proof -
  have ne: "es \<noteq> []" using inv by simp
  obtain pre e post where es: "es = pre @ e # post" and j: "child_pos k 0 es = length pre"
    and e: "pre = [] \<or> key e \<le> k" and post: "post = [] \<or> k < key (hd post)"
    using child_pos_around [OF ne, of k] by metis
  obtain c where c: "nxt e = Some c" "bt_inv ht c" "2 \<le> length (children c)" "length (children c) \<le> 3" "leaves ht c \<noteq> []"
    using bt_inv_child [OF inv, of e] es by auto
  note around = around_child [OF inv [unfolded es] ord [unfolded es] e post c(1)]
  have "ordered (leaves ht c)" using ord c(1) unfolding es by (simp add: sorted_append)
  then obtain c' u mp where ci: "bt_insert ht c k v = Some (c', u, mp)" "inserted ht c k v c' u mp"
    using IH c by blast
  define e' where "e' = (if mp then with_key k (with_nxt c' e) else with_nxt c' e)"
  have e': "nxt e' = Some c'" "\<not> mp \<Longrightarrow> key e' = key e" by (auto simp: e'_def with_key_def with_nxt_def)
  have mp: "mp \<Longrightarrow> pre = []" using around(2) ci(2) by (auto simp: inserted_def)
  have mp': "mp \<longrightarrow> leaves (Suc ht) (Node es) \<noteq> [] \<and> k < fst (hd (leaves (Suc ht) (Node es)))"
    using ci(2) c(1,5) mp by (auto simp: inserted_def es hd_append)
  have ex: "exact ht (tl es)" and kids: "\<forall>f \<in> set es. case nxt f of None \<Rightarrow> False
      | Some c \<Rightarrow> bt_inv ht c \<and> 2 \<le> length (children c) \<and> length (children c) \<le> 3" using inv by auto
  have c': "bt_inv ht c'" "2 \<le> length (children c')" "length (children c') \<le> 3" "leaves ht c' \<noteq> []"
    "\<not> k < fst (hd (leaves ht c)) \<Longrightarrow> hd (leaves ht c') = hd (leaves ht c)"
  proof -
    show "bt_inv ht c'" "2 \<le> length (children c')" "length (children c') \<le> 3"
      using ci(2) c(3) by (auto simp: inserted_def split: option.splits)
    then show ne': "leaves ht c' \<noteq> []" by (intro leaves_ne)
    show "hd (leaves ht c') = hd (leaves ht c)" if "\<not> k < fst (hd (leaves ht c))"
    proof -
      obtain X where "ins_pair k v (leaves ht c) = leaves ht c' @ X"
        using ci(2) by (cases u) (auto simp: inserted_def dest: sym)
      then show ?thesis using hd_ins_pair [OF c(5) that, of v] ne' by simp
    qed
  qed
  have ex': "exact ht (tl (pre @ e' # post))"
    using ex c' e' mp around(2) unfolding es by (cases pre) (auto simp: exact_def)
  have upd: "es[length pre := e'] = pre @ e' # post" by (simp add: es list_update_append)
  have call: "bt_insert (Suc ht) (Node es) k v = (case u of
      None \<Rightarrow> Some (Node (pre @ e' # post), None, mp)
    | Some r \<Rightarrow> (let (h, r') = insert_node (pre @ e' # post) (length pre + 1) (Entry (key (children r ! 0)) v (Some r))
        in Some (h, r', False)))"
  proof -
    have "es ! length pre = e" by (simp add: es)
    then show ?thesis using ne ci(1) c(1) upd by (cases mp; cases u; simp add: j Let_def e'_def)
  qed
  show ?thesis
  proof (cases u)
    case None
    have "inserted (Suc ht) (Node es) k v (Node (pre @ e' # post)) None mp"
      using ci(2) None ex' kids c' e' len mp' around(1) [of v] unfolding es by (auto simp: inserted_def)
    then show ?thesis using call None by auto
  next
    case (Some r)
    define t where "t = Entry (key (children r ! 0)) v (Some r)"
    define es' where "es' = pre @ e' # t # post"
    have r: "leaves ht c' @ leaves ht r = ins_pair k v (leaves ht c)" "bt_inv ht r" "length (children c') = 2" "length (children r) = 2"
      "key (children r ! 0) = fst (hd (leaves ht r))" "leaves ht r \<noteq> []"
      using ci(2) Some leaves_ne [of ht r] by (auto simp: inserted_def)
    have shift: "es' = take (length pre + 1) (pre @ e' # post) @ t # drop (length pre + 1) (pre @ e' # post)"
      by (simp add: es'_def)
    have lv: "leaves (Suc ht) (Node es') = ins_pair k v (leaves (Suc ht) (Node es))"
      unfolding around(1) es using r(1) e'(1) by (simp add: es'_def t_def)
    have exs: "exact ht (tl es')" using ex' r(5,6) unfolding es'_def by (cases pre) (auto simp: exact_def t_def)
    have kids': "\<forall>f \<in> set es'. case nxt f of None \<Rightarrow> False
        | Some c \<Rightarrow> bt_inv ht c \<and> 2 \<le> length (children c) \<and> length (children c) \<le> 3"
      using kids c' r e' by (auto simp: es'_def es t_def)
    have call': "bt_insert (Suc ht) (Node es) k v = Some (fst (insert_node (pre @ e' # post) (length pre + 1) t),
        snd (insert_node (pre @ e' # post) (length pre + 1) t), False)"
      unfolding call Some by (simp add: t_def case_prod_unfold Let_def)
    have len': "length (pre @ e' # post) \<le> 3" using len es by simp
    consider "length es' \<le> 3" "insert_node (pre @ e' # post) (length pre + 1) t = (Node es', None)"
      | "length es' = 4" "insert_node (pre @ e' # post) (length pre + 1) t = (Node (take 2 es'), Some (Node (drop 2 es')))"
      using insert_node_cases [OF len' _ shift] by auto
    then show ?thesis
    proof cases
      case 1
      have "inserted (Suc ht) (Node es) k v (Node es') None False"
        using 1(1) lv exs kids' by (auto simp: inserted_def es es'_def)
      then show ?thesis unfolding call' 1(2) by auto
    next
      case 2
      obtain f f' es'' where es'': "es' = f # f' # es''" "length es'' = 2"
        using 2(1) by (metis (no_types, lifting) Suc_length_conv numeral_2_eq_2 numeral_3_eq_3 eval_nat_numeral(2) semiring_norm(26,27))
      obtain g gs where g: "es'' = g # gs" using es''(2) by (cases es'') auto
      have exg: "exact ht es''" using exs es'' by (auto simp: exact_def)
      have "inserted (Suc ht) (Node es) k v (Node [f, f']) (Some (Node es'')) False"
        using lv exs kids' es'' exg unfolding inserted_def g by (auto simp: exact_def hd_append)
      then show ?thesis unfolding call' 2(2) by (auto simp: es'')
    qed
  qed
qed

lemma insert_correct:
  "bt_inv ht h \<Longrightarrow> ordered (leaves ht h) \<Longrightarrow> length (children h) \<le> 3 \<Longrightarrow> k \<noteq> '''' \<Longrightarrow>
   \<exists>h' u mp. bt_insert ht h k v = Some (h', u, mp) \<and> inserted ht h k v h' u mp"
proof (induction ht arbitrary: h)
  case 0
  then show ?case using insert_leaf by (cases h) simp
next
  case (Suc ht)
  then show ?case using insert_inner [of ht "children h" k v] by (cases h) simp
qed

lemma leaves_set_first_key:
  assumes "bt_inv ht h" "ht = 0 \<longrightarrow> children h \<noteq> [] \<and> key (children h ! 0) = k"
  shows "leaves ht (set_first_key k h) = leaves ht h" "bt_inv ht (set_first_key k h)"
    "length (children (set_first_key k h)) = length (children h)"
proof -
  obtain es where h: "h = Node es" by (cases h)
  show "leaves ht (set_first_key k h) = leaves ht h" "bt_inv ht (set_first_key k h)"
    "length (children (set_first_key k h)) = length (children h)"
    using assms unfolding h
    by (cases ht; cases es; auto simp: set_first_key_def with_key_def exact_def)+
qed

definition pairs_of :: "btree \<Rightarrow> pairs" where
  "pairs_of b = leaves (height b) (root b)"

lemma put_correct:
  assumes ok: "btree_ok b" and k: "k \<noteq> ''''"
  shows "\<exists>b'. put b k v = Some b' \<and> btree_ok b' \<and> pairs_of b' = ins_pair k v (pairs_of b)"
proof -
  have inv: "bt_inv (height b) (root b)" "ordered (leaves (height b) (root b))" "length (children (root b)) \<le> 3"
    using ok by (auto simp: btree_ok_def)
  obtain h u mp where i: "bt_insert (height b) (root b) k v = Some (h, u, mp)" "inserted (height b) (root b) k v h u mp"
    using insert_correct [OF inv k] by blast
  define h' where "h' = (if mp then set_first_key k h else h)"
  have first: "key (children h ! 0) = k" "children h \<noteq> []" if "height b = 0" "mp"
  proof -
    have "\<exists>X. ins_pair k v (leaves 0 (root b)) = leaves 0 h @ X"
    proof (cases u)
      case None
      then show ?thesis using i(2) that(1) by (intro exI [of _ "[]"]) (simp add: inserted_def)
    next
      case (Some r)
      then show ?thesis using i(2) that(1) by (intro exI [of _ "leaves 0 r"]) (simp add: inserted_def)
    qed
    then obtain X where X: "ins_pair k v (leaves 0 (root b)) = leaves 0 h @ X" by blast
    have ne: "children h \<noteq> []" using i(2) by (cases u) (auto simp: inserted_def)
    have "k < fst (hd (leaves 0 (root b)))" using i(2) that by (auto simp: inserted_def)
    then have "hd (ins_pair k v (leaves 0 (root b))) = (k, v)" by (cases "leaves 0 (root b)") auto
    then show "key (children h ! 0) = k" "children h \<noteq> []" using X ne by (cases h; cases "children h"; auto)+
  qed
  have "bt_inv (height b) h" using i(2) by (simp add: inserted_def)
  then have h': "leaves (height b) h' = leaves (height b) h" "bt_inv (height b) h'" "length (children h') = length (children h)"
    using leaves_set_first_key [of "height b" h k] first unfolding h'_def by auto
  have new: "ordered (ins_pair k v (leaves (height b) (root b)))" "\<forall>p \<in> set (ins_pair k v (leaves (height b) (root b))). fst p \<noteq> ''''"
    "int32 (n_pairs b + 1) = int32 (int (length (ins_pair k v (leaves (height b) (root b)))))"
    using ok k by (auto simp: btree_ok_def ordered_ins_pair set_ins_pair int32_add_right add.commute)
  show ?thesis
  proof (cases u)
    case None
    then have "put b k v = Some (b\<lparr>root := h', n_pairs := int32 (n_pairs b + 1)\<rparr>)" using i(1) by (simp add: put_def h'_def Let_def)
    moreover have "leaves (height b) h' = ins_pair k v (leaves (height b) (root b))" "length (children h') \<le> 3"
      "length (children (root b)) \<le> length (children h')" using i(2) None h' by (auto simp: inserted_def)
    ultimately show ?thesis using ok h'(2) new by (auto simp: btree_ok_def pairs_of_def)
  next
    case (Some r)
    let ?t = "Node [Entry (key (children h' ! 0)) None (Some h'), Entry (key (children r ! 0)) None (Some r)]"
    have put: "put b k v = Some (b\<lparr>root := ?t, n_pairs := int32 (n_pairs b + 1), height := height b + 1\<rparr>)"
      using i(1) Some by (simp add: put_def h'_def Let_def)
    have r: "leaves (height b) h' @ leaves (height b) r = ins_pair k v (leaves (height b) (root b))" "bt_inv (height b) r"
      "length (children h') = 2" "length (children r) = 2" "key (children r ! 0) = fst (hd (leaves (height b) r))"
      using i(2) Some h' by (auto simp: inserted_def)
    have "bt_inv (Suc (height b)) ?t" using r h'(2) leaves_ne [OF r(2)] by (simp add: exact_def)
    moreover have "leaves (Suc (height b)) ?t = ins_pair k v (leaves (height b) (root b))" using r(1) by simp
    ultimately show ?thesis using put new by (simp add: btree_ok_def pairs_of_def)
  qed
qed

lemma btree_ok_init: "btree_ok initBtree" "pairs_of initBtree = []"
  by (simp_all add: btree_ok_def initBtree_def pairs_of_def int32_def)

lemma puts_correct:
  "btree_ok b \<Longrightarrow> (\<And>p. p \<in> set kvs \<Longrightarrow> fst p \<noteq> '''') \<Longrightarrow>
   \<exists>b'. puts kvs b = Some b' \<and> btree_ok b' \<and> pairs_of b' = fold (\<lambda>(k, v). ins_pair k v) kvs (pairs_of b)"
proof (induction kvs arbitrary: b)
  case Nil
  then show ?case by (simp add: puts_def)
next
  case (Cons p kvs)
  obtain k v where p: "p = (k, v)" by (cases p)
  obtain b1 where b1: "put b k v = Some b1" "btree_ok b1" "pairs_of b1 = ins_pair k v (pairs_of b)"
    using put_correct [OF Cons.prems(1), of k v] Cons.prems(2) [of p] p by auto
  then show ?case using Cons.IH [OF b1(2)] Cons.prems(2) p by (simp add: puts_def)
qed

lemma mset_fold_ins_pair: "mset (fold (\<lambda>(k, v). ins_pair k v) kvs ps) = mset kvs + mset ps"
proof (induction kvs arbitrary: ps)
  case (Cons p kvs)
  have "mset (ins_pair k v qs) = {#(k, v)#} + mset qs" for k v qs by (induction qs) auto
  then show ?case using Cons by (cases p) simp
qed simp

lemma leaves_many: "bt_inv ht h \<Longrightarrow> 2 \<le> length (children h) \<Longrightarrow> 2 ^ (ht + 1) \<le> length (leaves ht h)"
proof (induction ht arbitrary: h)
  case 0
  then show ?case by (cases h) simp
next
  case (Suc ht)
  obtain es where h: "h = Node es" by (cases h)
  have many: "2 ^ (ht + 1) \<le> length (sub_leaves ht e)" if "e \<in> set es" for e
    using bt_inv_child [of ht es e] Suc that h by (metis option.simps(5))
  obtain e f es' where es: "es = e # f # es'" using Suc.prems(2) h by (cases es; cases "tl es") auto
  have "2 * 2 ^ (ht + 1) \<le> length (sub_leaves ht e) + length (sub_leaves ht f)"
    using many [of e] many [of f] es by simp
  then show ?case by (simp add: h es)
qed

lemma thread_function_correct:
  assumes "btree_ok b"
  shows "\<exists>b'. thread_function i b = Some b' \<and> btree_ok b' \<and> n_pairs b' = int32 (n_pairs b + int (100 div i))"
proof -
  let ?kvs = "map (\<lambda>j. (urls ! (j mod 11), Some ''128.112.136.12'')) [0..<100 div i]"
  have "list_all (\<lambda>j. urls ! j \<noteq> '''') [0..<11]" by code_simp
  then have "fst p \<noteq> ''''" if "p \<in> set ?kvs" for p using that by (auto simp: list_all_iff)
  then obtain b' where b': "puts ?kvs b = Some b'" "btree_ok b'" "pairs_of b' = fold (\<lambda>(k, v). ins_pair k v) ?kvs (pairs_of b)"
    using puts_correct [OF assms, of ?kvs] by blast
  have "length (fold (\<lambda>(k, v). ins_pair k v) kvs ps) = length kvs + length ps" for kvs ps
    by (induction kvs arbitrary: ps) auto
  then have "n_pairs b' = int32 (n_pairs b + int (100 div i))"
    using b'(2,3) assms by (simp add: btree_ok_def pairs_of_def int32_add add.commute)
  then show ?thesis using b' by (simp add: thread_function_def)
qed

section \<open>Properties\<close>

text \<open>
  C33: For pairs with distinct, non-empty keys and values that are not null the tree is a symbol table:
  starting from the empty tree, inserting them in any order always succeeds, keeps all leaves at
  the same depth and two or three children in every node below the root, and the leaves read from
  left to right are exactly these pairs in the strictly ascending order of their keys, so that every key
  has the value it was inserted with; the counter of the pairs is their number as an \<open>int\<close>.
\<close>

theorem btree_refines_sorted_pairs:
  assumes "\<forall>p \<in> set kvs. fst p \<noteq> '''' \<and> snd p \<noteq> None" "distinct (map fst kvs)"
  shows "\<exists>b. puts kvs initBtree = Some b \<and> bt_inv (height b) (root b) \<and> length (children (root b)) \<le> 3 \<and>
    sorted_wrt (<) (map fst (leaves (height b) (root b))) \<and> set (leaves (height b) (root b)) = set kvs \<and>
    map_of (leaves (height b) (root b)) = map_of kvs \<and> n_pairs b = int32 (int (length kvs))"
proof -
  obtain b where b: "puts kvs initBtree = Some b" "btree_ok b" "pairs_of b = fold (\<lambda>(k, v). ins_pair k v) kvs []"
    using puts_correct [OF btree_ok_init(1), of kvs] assms(1) btree_ok_init(2) by auto
  then have l: "mset (leaves (height b) (root b)) = mset kvs" using mset_fold_ins_pair [of kvs "[]"] by (simp add: pairs_of_def)
  then have "mset (map fst (leaves (height b) (root b))) = mset (map fst kvs)" by simp
  then have d: "distinct (map fst (leaves (height b) (root b)))" using assms(2) by (metis mset_eq_imp_distinct_iff)
  moreover have "ordered (leaves (height b) (root b))" using b(2) by (simp add: btree_ok_def)
  ultimately have "sorted_wrt (<) (map fst (leaves (height b) (root b)))" by (simp add: strict_sorted_iff)
  moreover have "map_of (leaves (height b) (root b)) = map_of kvs"
    using map_of_inject_set [OF d assms(2)] mset_eq_setD [OF l] by simp
  moreover have "length (leaves (height b) (root b)) = length kvs" using l by (rule mset_eq_length)
  then have "n_pairs b = int32 (int (length kvs))" "bt_inv (height b) (root b)" "length (children (root b)) \<le> 3"
    using b(2) by (simp_all add: btree_ok_def)
  ultimately show ?thesis using b(1) mset_eq_setD [OF l] by blast
qed

theorem btree_refines_sorted_pairs_witness:
  "\<exists>b. puts [(''b'', Some ''1''), (''c'', Some ''2''), (''a'', Some ''3''), (''d'', Some ''4'')] initBtree = Some b \<and>
     map_of (leaves (height b) (root b)) ''a'' = Some (Some ''3'') \<and> sorted_wrt (<) (map fst (leaves (height b) (root b))) \<and> n_pairs b = 4"
proof -
  let ?kvs = "[(''b'', Some ''1''), (''c'', Some ''2''), (''a'', Some ''3''), (''d'', Some ''4'')]"
  have "map_of ?kvs ''a'' = Some (Some ''3'')" "int32 (int (length ?kvs)) = 4" by (simp_all add: int32_def)
  moreover have "\<forall>p \<in> set ?kvs. fst p \<noteq> '''' \<and> snd p \<noteq> None" "distinct (map fst ?kvs)" by simp_all
  ultimately show ?thesis using btree_refines_sorted_pairs [of ?kvs] by metis
qed

text \<open>
  The height is logarithmic: a tree built by insertions that has grown to height \<open>h > 0\<close> holds at
  least \<open>2 ^ (h + 1)\<close> pairs.
\<close>

theorem btree_height_bound:
  assumes "\<forall>p \<in> set kvs. fst p \<noteq> ''''" and "puts kvs initBtree = Some b" and "0 < height b"
  shows "2 ^ (height b + 1) \<le> length kvs"
proof -
  have ok: "btree_ok b" "pairs_of b = fold (\<lambda>(k, v). ins_pair k v) kvs []"
    using puts_correct [OF btree_ok_init(1), of kvs] assms btree_ok_init(2) by auto
  have "length (fold (\<lambda>(k, v). ins_pair k v) kvs ps) = length kvs + length ps" for ps
    by (induction kvs arbitrary: ps) auto
  from this [of "[]"] show ?thesis
    using ok assms(3) leaves_many [of "height b" "root b"] by (auto simp: btree_ok_def pairs_of_def)
qed

theorem btree_height_bound_witness:
  "\<exists>b. puts (replicate 4 (''a'', None)) initBtree = Some b \<and> 0 < height b \<and> 2 ^ (height b + 1) \<le> (4 :: nat)"
proof -
  have "case puts (replicate 4 (''a'', None)) initBtree of None \<Rightarrow> False | Some b \<Rightarrow> 0 < height b" by code_simp
  then obtain b where "puts (replicate 4 (''a'', None)) initBtree = Some b" "0 < height b" by (auto split: option.splits)
  then show ?thesis using btree_height_bound [of "replicate 4 (''a'', None)" b] by auto
qed

text \<open>
  The test program: with any number \<open>i\<close> of threads, which the lock makes run one after the other,
  the tree ends balanced and sorted with \<open>i * (100 div i)\<close> pairs.
\<close>

theorem btree_threads:
  "\<exists>b. run_threads i = Some b \<and> btree_ok b \<and> n_pairs b = int32 (int (i * (100 div i)))"
proof -
  have "\<exists>b. ((\<lambda>m. Option.bind m (thread_function i)) ^^ t) (Some initBtree) = Some b \<and> btree_ok b \<and> n_pairs b = int32 (int (t * (100 div i)))" for t
  proof (induction t)
    case 0
    then show ?case using btree_ok_init by (simp add: initBtree_def int32_def)
  next
    case (Suc t)
    then obtain b where b: "((\<lambda>m. Option.bind m (thread_function i)) ^^ t) (Some initBtree) = Some b" "btree_ok b"
      "n_pairs b = int32 (int (t * (100 div i)))" by blast
    obtain b' where b': "thread_function i b = Some b'" "btree_ok b'" "n_pairs b' = int32 (n_pairs b + int (100 div i))"
      using thread_function_correct [OF b(2)] by blast
    have "n_pairs b' = int32 (int (Suc t * (100 div i)))" unfolding b'(3) b(3) int32_add by (simp add: add.commute)
    with b(1) b'(1,2) show ?case by simp
  qed
  then show ?thesis by (simp add: run_threads_def)
qed

text \<open>
  Two departures from the comments: inserting a key a second time does not overwrite the old value
  but stores both pairs, and an empty key is put behind a larger one, which destroys the order.
\<close>

theorem btree_duplicates_and_empty_key:
  "map_option (\<lambda>b. (leaves (height b) (root b), n_pairs b)) (puts [(''k'', Some ''1''), (''k'', Some ''2'')] initBtree) =
     Some ([(''k'', Some ''1''), (''k'', Some ''2'')], 2) \<and>
   map_option (\<lambda>b. leaves (height b) (root b)) (puts [(''k'', None), ('''', None)] initBtree) = Some [(''k'', None), ('''', None)] \<and>
   \<not> ordered [(''k'', None), ('''', None)]"
proof (intro conjI)
  show "map_option (\<lambda>b. (leaves (height b) (root b), n_pairs b)) (puts [(''k'', Some ''1''), (''k'', Some ''2'')] initBtree) =
     Some ([(''k'', Some ''1''), (''k'', Some ''2'')], 2)" by code_simp
  show "map_option (\<lambda>b. leaves (height b) (root b)) (puts [(''k'', None), ('''', None)] initBtree) = Some [(''k'', None), ('''', None)]"
    by code_simp
  show "\<not> ordered [(''k'', None), ('''', None)]" by simp
qed

end
