(* ===== verification/C_Strings.thy ===== *)
theory C_Strings
  imports Prelude
begin

text \<open>
  The functions of the C library on strings that several programs use: \<open>isspace\<close>, \<open>strstr\<close>, \<open>strsep\<close>
  called until it returns a null pointer, words as \<open>sscanf("%s")\<close> reads them, and the decimal digits of
  a number. A string is the list of its bytes without the terminating 0.
\<close>

text \<open>How a computation on arrays can fail: an access outside of an array, a failed assertion.\<close>

datatype fault = Overrun | Abort

section \<open>Characters and substrings\<close>

definition isspace :: "uchar \<Rightarrow> bool" where
  "isspace c \<longleftrightarrow> c = 32 \<or> 9 \<le> c \<and> c \<le> 13"

fun strstr :: "uchar list \<Rightarrow> uchar list \<Rightarrow> bool" where
  "strstr [] t = (t = [])"
| "strstr (b # bs) t = (take (length t) (b # bs) = t \<or> strstr bs t)"

lemma strstr_iff: "strstr bs t \<longleftrightarrow> (\<exists>pre post. bs = pre @ t @ post)"
proof (induction bs)
  case (Cons b bs)
  have "take (length t) (b # bs) = t \<longleftrightarrow> (\<exists>post. b # bs = t @ post)"
    by (metis append_eq_conv_conj append_take_drop_id)
  moreover have "(\<exists>pre post. b # bs = pre @ t @ post) \<longleftrightarrow>
      (\<exists>post. b # bs = t @ post) \<or> (\<exists>pre post. bs = pre @ t @ post)"
    by (metis (no_types, opaque_lifting) append_Cons append_Nil list.inject neq_Nil_conv)
  ultimately show ?case using Cons by simp
qed simp

lemma strstr_mono: "strstr bs t \<Longrightarrow> strstr (xs @ bs @ ys) t"
  unfolding strstr_iff by (metis append.assoc)

lemma strstr_subset: "strstr bs t \<Longrightarrow> set t \<subseteq> set bs"
  unfolding strstr_iff by auto

section \<open>Tokens\<close>

text \<open>\<open>strsep\<close>: the token up to the first delimiter, and the string behind it (\<open>None\<close> when there is no
  delimiter).\<close>

definition strsep :: "uchar list \<Rightarrow> uchar list \<Rightarrow> uchar list \<times> uchar list option" where
  "strsep ds s = (takeWhile (\<lambda>c. c \<notin> set ds) s,
     case dropWhile (\<lambda>c. c \<notin> set ds) s of [] \<Rightarrow> None | _ # r \<Rightarrow> Some r)"

text \<open>The tokens of a loop that calls \<open>strsep\<close> until the string is used up.\<close>

function strsep_all :: "uchar list \<Rightarrow> uchar list \<Rightarrow> uchar list list" where
  "strsep_all ds s = (case strsep ds s of (t, None) \<Rightarrow> [t] | (t, Some r) \<Rightarrow> t # strsep_all ds r)"
  by pat_completeness auto
termination
proof (relation "measure (\<lambda>(ds, s). length s)", goal_cases)
  case (2 ds s q t r)
  then obtain c where "dropWhile (\<lambda>c. c \<notin> set ds) s = c # r"
    by (auto simp: strsep_def split: list.splits)
  then have "length r < length (dropWhile (\<lambda>c. c \<notin> set ds) s)" by simp
  also have "\<dots> \<le> length s" by (rule length_dropWhile_le)
  finally show ?case by simp
qed simp

declare strsep_all.simps [simp del]

lemma strsep_all_last: "set s \<inter> set ds = {} \<Longrightarrow> strsep_all ds s = [s]"
proof -
  assume "set s \<inter> set ds = {}"
  then have tw: "takeWhile (\<lambda>c. c \<notin> set ds) s = s" "dropWhile (\<lambda>c. c \<notin> set ds) s = []"
    by (auto simp: takeWhile_eq_all_conv dropWhile_eq_Nil_conv)
  show ?thesis by (subst strsep_all.simps) (simp add: strsep_def tw)
qed

lemma strsep_all_delim: "set s \<inter> set ds = {} \<Longrightarrow> d \<in> set ds \<Longrightarrow> strsep_all ds (s @ d # r) = s # strsep_all ds r"
proof -
  assume s: "set s \<inter> set ds = {}" and d: "d \<in> set ds"
  have "takeWhile (\<lambda>c. c \<notin> set ds) (s @ d # r) = s" "dropWhile (\<lambda>c. c \<notin> set ds) (s @ d # r) = d # r"
    using s d by (subst takeWhile_append2 dropWhile_append2; auto)+
  then show ?thesis by (subst strsep_all.simps) (simp add: strsep_def)
qed

lemma strsep_cases:
  obtains "set s \<inter> set ds = {}" | t d r where "s = t @ d # r" "set t \<inter> set ds = {}" "d \<in> set ds"
proof (cases "dropWhile (\<lambda>c. c \<notin> set ds) s")
  case Nil
  then show ?thesis using that(1) by (auto simp: dropWhile_eq_Nil_conv)
next
  case (Cons d r)
  have "s = takeWhile (\<lambda>c. c \<notin> set ds) s @ d # r" using Cons by (metis takeWhile_dropWhile_id)
  moreover have "d \<in> set ds" using hd_dropWhile [of "\<lambda>c. c \<notin> set ds" s] Cons by auto
  moreover have "set (takeWhile (\<lambda>c. c \<notin> set ds) s) \<inter> set ds = {}" by (auto dest: set_takeWhileD)
  ultimately show ?thesis using that(2) by blast
qed

lemma strsep_all_clean: "t \<in> set (strsep_all ds s) \<Longrightarrow> set t \<inter> set ds = {} \<and> set t \<subseteq> set s"
proof (induction "length s" arbitrary: s rule: less_induct)
  case less
  show ?case
  proof (cases rule: strsep_cases [of s ds])
    case 1
    with less.prems show ?thesis by (simp add: strsep_all_last)
  next
    case (2 u d r)
    then have "t = u \<or> t \<in> set (strsep_all ds r)" using less.prems by (simp add: strsep_all_delim)
    with less.hyps [of r] 2 show ?thesis by auto
  qed
qed

lemma component_strstr: "t \<in> set (strsep_all ds s) \<Longrightarrow> strstr s t"
proof (induction "length s" arbitrary: s rule: less_induct)
  case less
  show ?case
  proof (cases rule: strsep_cases [of s ds])
    case 1
    with less.prems show ?thesis by (auto simp: strsep_all_last strstr_iff intro: exI [of _ "[]"])
  next
    case (2 u d r)
    then consider "t = u" | "t \<in> set (strsep_all ds r)" using less.prems by (auto simp: strsep_all_delim)
    then show ?thesis
    proof cases
      case 1
      then show ?thesis using 2 by (auto simp: strstr_iff intro: exI [of _ "[]"])
    next
      case 2
      with less.hyps [of r] have "strstr r t" using \<open>s = u @ d # r\<close> by simp
      then show ?thesis using strstr_mono [of r t "u @ [d]" "[]"] \<open>s = u @ d # r\<close> by simp
    qed
  qed
qed

lemma nonempty_tokens: "2 * length (filter (\<lambda>t. t \<noteq> []) (strsep_all ds s)) \<le> length s + 1"
proof (induction "length s" arbitrary: s rule: less_induct)
  case less
  show ?case
  proof (cases rule: strsep_cases [of s ds])
    case 1
    then show ?thesis by (cases s) (auto simp: strsep_all_last)
  next
    case (2 t d r)
    then have "strsep_all ds s = t # strsep_all ds r" by (simp add: strsep_all_delim)
    with 2 less [of r] show ?thesis by (cases t) auto
  qed
qed

text \<open>The words that \<open>sscanf\<close> finds with \<open>"%s %s ..."\<close>.\<close>

function scan_words :: "uchar list \<Rightarrow> uchar list list" where
  "scan_words s = (case dropWhile isspace s of [] \<Rightarrow> []
     | c # r \<Rightarrow> takeWhile (\<lambda>c. \<not> isspace c) (c # r) # scan_words (dropWhile (\<lambda>c. \<not> isspace c) (c # r)))"
  by pat_completeness auto
termination
proof (relation "measure length", goal_cases)
  case (2 s c r)
  then have c: "\<not> isspace c" using hd_dropWhile [of isspace s] by auto
  then have "length (dropWhile (\<lambda>c. \<not> isspace c) (c # r)) \<le> length r" by (simp add: length_dropWhile_le)
  also have "\<dots> < length (dropWhile isspace s)" using 2 by simp
  also have "\<dots> \<le> length s" by (rule length_dropWhile_le)
  finally show ?case by simp
qed simp

declare scan_words.simps [simp del]

lemma scan_words_Nil [simp]: "scan_words [] = []"
  by (subst scan_words.simps) simp

lemma scan_words_space: "isspace c \<Longrightarrow> scan_words (c # s) = scan_words s"
  by (subst (1 2) scan_words.simps) simp

lemma scan_words_word:
  assumes "w \<noteq> []" "\<forall>c \<in> set w. \<not> isspace c" "isspace c"
  shows "scan_words (w @ c # s) = w # scan_words s"
proof -
  have "dropWhile isspace (w @ c # s) = w @ c # s" using assms by (cases w) auto
  moreover have "takeWhile (\<lambda>c. \<not> isspace c) (w @ c # s) = w" "dropWhile (\<lambda>c. \<not> isspace c) (w @ c # s) = c # s"
    using assms by (auto simp: takeWhile_append2 dropWhile_append2)
  ultimately show ?thesis
    using assms(1) scan_words_space [OF assms(3)] by (subst scan_words.simps) (auto split: list.splits)
qed

lemma scan_words_clean: "w \<in> set (scan_words s) \<Longrightarrow> w \<noteq> [] \<and> (\<forall>c \<in> set w. \<not> isspace c \<and> c \<in> set s)"
proof (induction s rule: scan_words.induct)
  case (1 s)
  show ?case
  proof (cases "dropWhile isspace s")
    case Nil
    with 1(2) show ?thesis by (subst (asm) scan_words.simps) simp
  next
    case (Cons c r)
    then have c: "\<not> isspace c" using hd_dropWhile [of isspace s] by auto
    have sub: "set (c # r) \<subseteq> set s" using Cons by (metis set_dropWhileD subsetI)
    from 1(2) Cons have "w = takeWhile (\<lambda>c. \<not> isspace c) (c # r) \<or> w \<in> set (scan_words (dropWhile (\<lambda>c. \<not> isspace c) (c # r)))"
      by (subst (asm) scan_words.simps) simp
    then show ?thesis
    proof
      assume "w = takeWhile (\<lambda>c. \<not> isspace c) (c # r)"
      then show ?thesis using c sub by (auto dest: set_takeWhileD)
    next
      assume "w \<in> set (scan_words (dropWhile (\<lambda>c. \<not> isspace c) (c # r)))"
      from 1(1) [OF Cons this] have "w \<noteq> [] \<and> (\<forall>x \<in> set w. \<not> isspace x \<and> x \<in> set (dropWhile (\<lambda>c. \<not> isspace c) (c # r)))" .
      moreover have "set (dropWhile (\<lambda>c. \<not> isspace c) (c # r)) \<subseteq> set s" using sub by (meson set_dropWhileD subset_iff)
      ultimately show ?thesis by blast
    qed
  qed
qed

section \<open>Decimal numbers\<close>

fun decimal :: "nat \<Rightarrow> uchar list" where
  "decimal n = (if n < 10 then [of_nat (48 + n)] else decimal (n div 10) @ [of_nat (48 + n mod 10)])"

declare decimal.simps [simp del]

definition atoi :: "uchar list \<Rightarrow> nat" where
  "atoi s = foldl (\<lambda>a c. 10 * a + (unat c - 48)) 0 (takeWhile (\<lambda>c. 48 \<le> c \<and> c \<le> 57) s)"

lemma digit: "k < 10 \<Longrightarrow> 48 \<le> (of_nat (48 + k) :: uchar) \<and> (of_nat (48 + k) :: uchar) \<le> 57 \<and> unat (of_nat (48 + k) :: uchar) = 48 + k"
  by (simp add: word_le_nat_alt unat_of_nat take_bit_nat_eq_self del: of_nat_add)

lemma decimal_digits: "\<forall>c \<in> set (decimal n). 48 \<le> c \<and> c \<le> 57"
proof (induction n rule: decimal.induct)
  case (1 n)
  then show ?case using digit [of n] digit [of "n mod 10"] by (subst decimal.simps) (auto simp del: of_nat_add)
qed

lemma atoi_decimal: "atoi (decimal n) = n"
proof -
  have "foldl (\<lambda>a c. 10 * a + (unat c - 48)) 0 (decimal n) = n"
  proof (induction n rule: decimal.induct)
    case (1 n)
    show ?case
    proof (cases "n < 10")
      case True
      then show ?thesis using digit [of n] by (subst decimal.simps) (simp del: of_nat_add)
    next
      case False
      have "foldl (\<lambda>a c. 10 * a + (unat c - 48)) 0 (decimal n) = 10 * (n div 10) + n mod 10"
        using 1 [OF False] False digit [of "n mod 10"] by (subst decimal.simps) (simp del: of_nat_add)
      then show ?thesis by simp
    qed
  qed
  moreover have tw: "takeWhile (\<lambda>c. 48 \<le> c \<and> c \<le> 57) (decimal n) = decimal n"
    using decimal_digits by (simp add: takeWhile_eq_all_conv)
  ultimately show ?thesis unfolding atoi_def tw by simp
qed

end
