(* ===== verification/Web_Request.thy ===== *)
theory Web_Request
  imports C_Strings
begin

text \<open>
  The request handling of the web server, \<^verbatim>\<open>projects/concurrency-webserver\<close>: \<^verbatim>\<open>readline\<close> of \<^verbatim>\<open>io_helper.c\<close>
  and all functions of \<^verbatim>\<open>request.c\<close>. A character array is a byte list of its declared length whose
  initial contents are an argument; a computation that leaves an array ends in \<open>Inl Overrun\<close>, a
  failed assertion in \<open>Inl Abort\<close>. What the operating system answers is a parameter: \<open>rd\<close> (in the
  connection) the results of the one byte reads, \<open>wr k\<close> how many bytes the \<open>k\<close>-th \<open>write\<close> accepts,
  \<open>st\<close> the result of \<open>stat\<close>, \<open>files\<close> what \<open>open\<close> finds, \<open>cgi\<close> what a CGI program writes.
\<close>

section \<open>The connection\<close>

text \<open>The results of successive calls of \<open>read(fd, &c, 1)\<close>: a byte, an error (\<open>None\<close>), and end of file
  from the end of the list on.\<close>

type_synonym rdstream = "uchar option list"

record conn =
  rd :: rdstream
  out :: "uchar list"
  nwrites :: nat
  leaked :: nat

definition MAXBUF :: nat where "MAXBUF = 512"
definition SMALL_BUF :: nat where "SMALL_BUF = 50"

definition crlf :: "uchar list" where "crlf = [13, 10]"

text \<open>\<open>write\<close>: it fails, or accepts some of the bytes.\<close>

definition write_fd :: "(nat \<Rightarrow> nat option) \<Rightarrow> uchar list \<Rightarrow> conn \<Rightarrow> int \<times> conn" where
  "write_fd wr bs c =
    (case wr (nwrites c) of
       None \<Rightarrow> (-1, c\<lparr>nwrites := nwrites c + 1\<rparr>)
     | Some k \<Rightarrow> (int (min k (length bs)), c\<lparr>nwrites := nwrites c + 1, out := out c @ take k bs\<rparr>))"

text \<open>Writes one after the other until one fails.\<close>

fun write_all :: "(nat \<Rightarrow> nat option) \<Rightarrow> uchar list list \<Rightarrow> conn \<Rightarrow> int \<times> conn" where
  "write_all wr [] c = (0, c)"
| "write_all wr (bs # r) c = (let (rc, c) = write_fd wr bs c in if rc = -1 then (-1, c) else write_all wr r c)"

text \<open>\<open>readline\<close>: the loop from index \<open>n\<close> on. At the end of the stream with one byte read it returns
  without writing the terminator.\<close>

fun readline_from :: "nat \<Rightarrow> nat \<Rightarrow> uchar list \<Rightarrow> rdstream \<Rightarrow> int \<times> uchar list \<times> rdstream" where
  "readline_from maxlen n buf inp =
    (if n < maxlen - 1 then
       (case inp of
          Some c # inp \<Rightarrow> if c = 10 then (int n, buf[n := c, Suc n := 0], inp)
                          else readline_from maxlen (Suc n) (buf[n := c]) inp
        | [] \<Rightarrow> if n = 1 then (0, buf, []) else (int n, buf[n := 0], [])
        | None # inp \<Rightarrow> (-1, buf, inp))
     else (int n, buf[n := 0], inp))"

declare readline_from.simps [simp del]

definition readline :: "uchar list \<Rightarrow> rdstream \<Rightarrow> int \<times> uchar list \<times> rdstream" where
  "readline buf inp = readline_from MAXBUF 0 buf inp"

section \<open>Error replies\<close>

definition error_body :: "uchar list \<Rightarrow> string \<Rightarrow> string \<Rightarrow> string \<Rightarrow> uchar list" where
  "error_body cause errnum shortmsg longmsg =
     bytes ''<!doctype html>'' @ crlf @
     bytes ''<head>'' @ crlf @
     bytes ''  <title>OSTEP WebServer Error</title>'' @ crlf @
     bytes ''</head>'' @ crlf @
     bytes ''<body>'' @ crlf @
     bytes ''  <h2>'' @ bytes errnum @ bytes '': '' @ bytes shortmsg @ bytes ''</h2>'' @ crlf @
     bytes ''  <p>'' @ bytes longmsg @ bytes '': '' @ cause @ bytes ''</p>'' @ crlf @
     bytes ''</body>'' @ crlf @
     bytes ''</html>'' @ crlf"

definition request_error ::
  "(nat \<Rightarrow> nat option) \<Rightarrow> conn \<Rightarrow> uchar list \<Rightarrow> string \<Rightarrow> string \<Rightarrow> string \<Rightarrow> fault + int \<times> conn" where
  "request_error wr c cause errnum shortmsg longmsg =
    (let body = error_body cause errnum shortmsg longmsg in
     if length body \<ge> MAXBUF then Inl Overrun
     else Inr (write_all wr
       [bytes ''HTTP/1.0 '' @ bytes errnum @ bytes '' '' @ bytes shortmsg @ crlf,
        bytes ''Content-Type: text/html'' @ crlf,
        bytes ''Content-Length: '' @ decimal (length body) @ crlf @ crlf,
        body] c))"

section \<open>Reading a request\<close>

text \<open>The loop of \<open>request_read_headers\<close>; \<open>strcmp\<close> with the empty line looks at three bytes.\<close>

partial_function (option) request_read_headers :: "uchar list \<Rightarrow> rdstream \<Rightarrow> (int \<times> rdstream) option" where
  "request_read_headers buf inp =
    (let (rc, buf, inp) = readline buf inp in
     if rc = -1 then Some (-1, inp)
     else if take 3 buf = crlf @ [0] then Some (0, inp)
     else request_read_headers buf inp)"

text \<open>\<open>request_parse_uri\<close>: whether the content is static, the file name, the CGI arguments. The last
  byte of an empty \<open>uri\<close> is outside the array.\<close>

definition request_parse_uri :: "uchar list \<Rightarrow> fault + bool \<times> uchar list \<times> uchar list" where
  "request_parse_uri uri =
    (if \<not> strstr uri (bytes ''cgi'') then
       if length uri + 1 \<ge> MAXBUF \<or> uri = [] then Inl Overrun
       else let filename = bytes ''.'' @ uri in
         if last uri = of_char (CHR ''/'') then
           if length filename + 10 \<ge> MAXBUF then Inl Overrun
           else Inr (True, filename @ bytes ''index.html'', [])
         else Inr (True, filename, [])
     else
       let path = takeWhile (\<lambda>b. b \<noteq> of_char (CHR ''?'')) uri in
       if length path + 1 \<ge> MAXBUF then Inl Overrun
       else Inr (False, bytes ''.'' @ path, drop (length path + 1) uri))"

definition request_get_filetype :: "uchar list \<Rightarrow> uchar list" where
  "request_get_filetype filename =
    (if strstr filename (bytes ''.html'') then bytes ''text/html''
     else if strstr filename (bytes ''.gif'') then bytes ''image/gif''
     else if strstr filename (bytes ''.jpg'') then bytes ''image/jpeg''
     else bytes ''text/plain'')"

text \<open>What \<open>stat\<close> fills in.\<close>

record filestat =
  S_ISREG :: bool
  S_IRUSR :: bool
  S_IXUSR :: bool
  st_size :: int

datatype result = OK | NotFound | Forbidden | Error

record Buffer_t =
  fd :: int
  is_static :: bool
  size :: int
  pathname :: "uchar list"
  cgiargs :: "uchar list"
  handling :: bool

text \<open>The uninitialised arrays of a call of \<open>pre_handle_request\<close> and of \<open>request_read_headers\<close>.\<close>

record locals =
  l_buf :: "uchar list"
  l_method :: "uchar list"
  l_uri :: "uchar list"
  l_version :: "uchar list"
  l_hbuf :: "uchar list"

text \<open>A word stored in an array by \<open>sscanf\<close>; reading an array as a string.\<close>

definition set_word :: "uchar list \<Rightarrow> uchar list \<Rightarrow> uchar list" where
  "set_word a w = w @ 0 # drop (length w + 1) a"

definition scan_word :: "uchar list list \<Rightarrow> nat \<Rightarrow> uchar list \<Rightarrow> uchar list" where
  "scan_word ws i a = (if i < length ws then set_word a (ws ! i) else a)"

definition get_str :: "uchar list \<Rightarrow> fault + uchar list" where
  "get_str a = (if 0 \<in> set a then Inr (cstr a) else Inl Overrun)"

definition reply ::
  "(nat \<Rightarrow> nat option) \<Rightarrow> conn \<Rightarrow> uchar list \<Rightarrow> string \<Rightarrow> string \<Rightarrow> string \<Rightarrow> result \<Rightarrow> Buffer_t \<Rightarrow> fault + result \<times> Buffer_t \<times> conn" where
  "reply wr c cause errnum shortmsg longmsg res b =
    ebind (request_error wr c cause errnum shortmsg longmsg) (\<lambda>(rc, c). Inr (if rc = -1 then Error else res, b, c))"

text \<open>\<open>pre_handle_request\<close> behind the headers.\<close>

definition pre_handle_uri ::
  "(nat \<Rightarrow> nat option) \<Rightarrow> (uchar list \<Rightarrow> filestat option) \<Rightarrow> int \<Rightarrow> uchar list \<Rightarrow> Buffer_t \<Rightarrow> conn \<Rightarrow> fault + result \<times> Buffer_t \<times> conn" where
  "pre_handle_uri wr st f uri b c =
    ebind (request_parse_uri uri) (\<lambda>(static, filename, args).
      case st filename of
        None \<Rightarrow> reply wr c filename ''404'' ''Not found'' ''server could not find this file'' NotFound b
      | Some s \<Rightarrow>
          if static \<and> (\<not> S_ISREG s \<or> \<not> S_IRUSR s) then
            reply wr c filename ''403'' ''Forbidden'' ''server could not read this file'' Forbidden b
          else if \<not> static \<and> (\<not> S_ISREG s \<or> \<not> S_IXUSR s) then
            reply wr c filename ''403'' ''Forbidden'' ''server could not run this CGI program'' Forbidden b
          else if length filename \<ge> SMALL_BUF \<or> length args \<ge> SMALL_BUF then Inl Overrun
          else Inr (OK, b\<lparr>fd := f, is_static := static, size := st_size s, handling := False,
                          pathname := filename, cgiargs := args\<rparr>, c))"

definition pre_handle_request ::
  "(nat \<Rightarrow> nat option) \<Rightarrow> (uchar list \<Rightarrow> filestat option) \<Rightarrow> locals \<Rightarrow> int \<Rightarrow> Buffer_t \<Rightarrow> conn
     \<Rightarrow> (fault + result \<times> Buffer_t \<times> conn) option" where
  "pre_handle_request wr st l f b c =
    (let (rc, buf, inp) = readline (l_buf l) (rd c); c = c\<lparr>rd := inp\<rparr> in
     if rc = -1 then Some (Inr (Error, b, c))
     else case get_str buf of
       Inl e \<Rightarrow> Some (Inl e)
     | Inr line \<Rightarrow>
        (let ws = scan_words line in
         case ebind (get_str (scan_word ws 0 (l_method l))) (\<lambda>_.
              ebind (get_str (scan_word ws 2 (l_version l))) (\<lambda>_.
              get_str (scan_word ws 1 (l_uri l)))) of
           Inl e \<Rightarrow> Some (Inl e)
         | Inr uri \<Rightarrow>
             if strstr uri (bytes ''..'') then
               Some (ebind (request_error wr c uri ''403'' ''Forbidden'' ''server could not read this file'')
                 (\<lambda>(rc, c). Inr (Forbidden, b, c)))
             else map_option (\<lambda>(rc, inp). if rc = -1 then Inr (Error, b, c\<lparr>rd := inp\<rparr>)
                                else pre_handle_uri wr st f uri b (c\<lparr>rd := inp\<rparr>))
                    (request_read_headers (l_hbuf l) (rd c))))"

section \<open>Serving a request\<close>

definition PAGE :: nat where "PAGE = 4096"

text \<open>Passing the \<open>off_t\<close> size as the \<open>int\<close> parameter \<open>filesize\<close>.\<close>

definition to_int :: "int \<Rightarrow> int" where
  "to_int n = sint (word_of_int n :: 32 word)"

text \<open>The bytes that can be read from a private mapping of \<open>n\<close> bytes: the last page is filled with
  zeros.\<close>

definition mapped :: "nat \<Rightarrow> uchar list \<Rightarrow> uchar list" where
  "mapped n bs = take n (bs @ replicate ((PAGE - length bs mod PAGE) mod PAGE) 0)"

text \<open>\<open>mmap\<close> refuses a length of 0, and a negative \<open>filesize\<close> is a length no address space has. The
  descriptor of the file stays open then.\<close>

definition request_serve_static ::
  "(nat \<Rightarrow> nat option) \<Rightarrow> (uchar list \<Rightarrow> uchar list option) \<Rightarrow> uchar list \<Rightarrow> int \<Rightarrow> conn \<Rightarrow> int \<times> conn" where
  "request_serve_static wr files filename filesize c =
    (case files filename of
       None \<Rightarrow> (-1, c)
     | Some bs \<Rightarrow>
         if filesize \<le> 0 then (-1, c\<lparr>leaked := leaked c + 1\<rparr>)
         else let m = mapped (nat filesize) bs;
                  hdr = bytes ''HTTP/1.0 200 OK'' @ crlf @ bytes ''Server: OSTEP WebServer'' @ crlf @
                    bytes ''Content-Length: '' @ decimal (nat filesize) @ crlf @
                    bytes ''Content-Type: '' @ request_get_filetype filename @ crlf @ crlf;
                  (rc, c) = write_fd wr hdr c in
           if rc = -1 then (-1, c)
           else if m = [] then (-1, c\<lparr>nwrites := nwrites c + 1\<rparr>)
           else let (rc, c) = write_fd wr m c in (if rc = -1 then -1 else 0, c))"

text \<open>The child's writes reach the client through the duplicated descriptor; the parent waits for a
  child. A failure of \<open>fork\<close> or of \<open>wait\<close> is a failed assertion, which ends the whole server; the assertions
  of the child end only the child, and what it has written then is part of \<open>cgi\<close>.\<close>

definition request_serve_dynamic ::
  "(nat \<Rightarrow> nat option) \<Rightarrow> bool \<Rightarrow> bool \<Rightarrow> (uchar list \<Rightarrow> uchar list \<Rightarrow> uchar list) \<Rightarrow> uchar list \<Rightarrow> uchar list \<Rightarrow> conn \<Rightarrow> fault + int \<times> conn" where
  "request_serve_dynamic wr forks waits cgi filename args c =
    (let (rc, c) = write_fd wr (bytes ''HTTP/1.0 200 OK'' @ crlf @ bytes ''Server: OSTEP WebServer'' @ crlf) c in
     if rc = -1 then Inr (-1, c)
     else if \<not> forks \<or> \<not> waits then Inl Abort
     else Inr (0, c\<lparr>out := out c @ cgi filename args\<rparr>))"

section \<open>Reading lines\<close>

lemma readline_from_line:
  assumes "10 \<notin> set l" "n + length l < maxlen - 1" "length buf = maxlen"
  shows "readline_from maxlen n buf (map Some l @ Some 10 # r) =
    (int (n + length l), take n buf @ l @ [10, 0] @ drop (n + length l + 2) buf, r)"
  using assms
proof (induction l arbitrary: n buf)
  case Nil
  then have "buf[n := 10, Suc n := 0] = take n buf @ [10, 0] @ drop (n + 2) buf"
    by (intro nth_equalityI) (auto simp: nth_append nth_list_update nth_Cons' intro!: arg_cong [where f = "nth buf"])
  with Nil show ?case by (subst readline_from.simps) simp
next
  case (Cons b l)
  have "take (Suc n) (buf[n := b]) = take n buf @ [b]" using Cons.prems by (intro take_Suc_update) simp
  with Cons.IH [of "Suc n" "buf[n := b]"] Cons.prems show ?case
    by (subst readline_from.simps) simp
qed

lemma readline_line:
  assumes "10 \<notin> set l" "length l < 511" "length buf = MAXBUF"
  shows "readline buf (map Some l @ Some 10 # r) = (int (length l), l @ [10, 0] @ drop (length l + 2) buf, r)"
  using readline_from_line [of l 0 MAXBUF buf r] assms by (simp add: readline_def MAXBUF_def)

lemma readline_length: "readline buf inp = (rc, buf', inp') \<Longrightarrow> length buf' = length buf"
proof -
  have "readline_from maxlen n buf inp = (rc, buf', inp') \<Longrightarrow> length buf' = length buf" for maxlen n
    by (induction maxlen n buf inp rule: readline_from.induct)
      (subst (asm) readline_from.simps, auto split: if_splits list.splits option.splits)
  then show "readline buf inp = (rc, buf', inp') \<Longrightarrow> length buf' = length buf"
    unfolding readline_def .
qed

lemma header_line_not_empty:
  assumes "h \<noteq> []" "10 \<notin> set h"
  shows "take 3 ((h @ [13]) @ [10, 0] @ r) \<noteq> crlf @ [0]"
  using assms by (cases h; cases "tl h"; cases "tl (tl h)") (auto simp: crlf_def)

lemma request_read_headers_lines:
  assumes "\<forall>h \<in> set hs. h \<noteq> [] \<and> 10 \<notin> set h \<and> length h \<le> 509" "length buf = MAXBUF"
  shows "request_read_headers buf (map Some (concat (map (\<lambda>h. h @ crlf) hs) @ crlf) @ r) = Some (0, r)"
  using assms
proof (induction hs arbitrary: buf)
  case Nil
  have "readline buf (map Some crlf @ r) = (1, [13, 10, 0] @ drop 3 buf, r)"
    using readline_line [of "[13]" buf r] Nil by (simp add: crlf_def numeral_3_eq_3)
  then show ?case by (subst request_read_headers.simps) (simp add: crlf_def)
next
  case (Cons h hs)
  let ?t = "map Some (concat (map (\<lambda>h. h @ crlf) hs) @ crlf) @ r"
  let ?buf = "(h @ [13]) @ [10, 0] @ drop (length h + 3) buf"
  have rl: "readline buf (map Some (h @ [13]) @ Some 10 # ?t) = (int (length h + 1), ?buf, ?t)"
    using readline_line [of "h @ [13]" buf ?t] Cons.prems by (simp add: numeral_3_eq_3)
  have "length ?buf = MAXBUF" using readline_length [OF rl] Cons.prems by simp
  then have "request_read_headers ?buf ?t = Some (0, r)" using Cons by simp
  moreover have "take 3 ?buf \<noteq> crlf @ [0]" using header_line_not_empty Cons.prems by auto
  moreover have "map Some (concat (map (\<lambda>h. h @ crlf) (h # hs)) @ crlf) @ r = map Some (h @ [13]) @ Some 10 # ?t"
    by (simp add: crlf_def)
  ultimately show ?case using rl by (subst request_read_headers.simps) simp
qed

text \<open>Without a carriage return the loop does not end: from the end of the stream on \<open>readline\<close> returns
  0 for ever.\<close>

lemma readline_from_no_cr:
  assumes "readline_from maxlen n buf inp = (rc, buf', inp')" "None \<notin> set inp" "Some 13 \<notin> set inp"
    "n = 0 \<or> buf ! 0 \<noteq> 13" "1 < maxlen" "length buf = maxlen"
  shows "rc \<noteq> -1 \<and> buf' ! 0 \<noteq> 13 \<and> None \<notin> set inp' \<and> Some 13 \<notin> set inp'"
  using assms
proof (induction maxlen n buf inp rule: readline_from.induct)
  case (1 maxlen n buf inp)
  show ?case
  proof (cases "n < maxlen - 1 \<and> (\<exists>c t. inp = Some c # t \<and> c \<noteq> 10)")
    case True
    then obtain c t where c: "inp = Some c # t" "c \<noteq> 10" and n: "n < maxlen - 1" by blast
    have "readline_from maxlen (Suc n) (buf[n := c]) t = (rc, buf', inp')"
      using 1(2) c n by (subst (asm) readline_from.simps) simp
    moreover have "Suc n = 0 \<or> buf[n := c] ! 0 \<noteq> 13"
      using 1(4,5,7) c n by (cases n) auto
    ultimately show ?thesis using 1(1) [OF n c(1) refl c(2)] 1(3-7) c by auto
  next
    case False
    have z: "buf[i := x] ! 0 = (if i = 0 then x else buf ! 0)" for i x using 1(6,7) by (intro nth_update) simp
    have z': "buf[i := x, j := y] ! 0 = (if j = 0 then y else buf[i := x] ! 0)" for i x j y
      using 1(6,7) by (intro nth_update) simp
    from False 1(2-7) show ?thesis
      by (subst (asm) readline_from.simps) (auto split: if_splits list.splits option.splits simp: z z')
  qed
qed

lemma request_read_headers_diverges:
  assumes "None \<notin> set inp" "Some 13 \<notin> set inp" "length buf = MAXBUF"
  shows "request_read_headers buf inp = None"
proof -
  have "request_read_headers buf inp = Some y \<Longrightarrow> None \<notin> set inp \<Longrightarrow> Some 13 \<notin> set inp \<Longrightarrow> length buf = MAXBUF \<Longrightarrow> False" for y
  proof (induction rule: request_read_headers.raw_induct [rotated, consumes 1])
    case (1 f buf inp y)
    obtain rc buf' inp' where rl: "readline buf inp = (rc, buf', inp')" by (cases "readline buf inp")
    from readline_from_no_cr [OF rl [unfolded readline_def]] 1(3-5)
    have no: "rc \<noteq> -1" "buf' ! 0 \<noteq> 13" "None \<notin> set inp'" "Some 13 \<notin> set inp'" by (auto simp: MAXBUF_def)
    moreover have len: "length buf' = MAXBUF" using readline_length [OF rl] 1(5) by simp
    ultimately have "take 3 buf' \<noteq> crlf @ [0]" by (cases buf') (auto simp: crlf_def MAXBUF_def)
    with 1(2) rl no(1) have "f buf' inp' = Some y" by simp
    then show False using 1(1) no(3,4) len by blast
  qed
  with assms show ?thesis by (cases "request_read_headers buf inp") auto
qed

section \<open>Well-formed requests\<close>

definition word_ok :: "uchar list \<Rightarrow> bool" where
  "word_ok w \<longleftrightarrow> w \<noteq> [] \<and> (\<forall>c \<in> set w. \<not> isspace c \<and> c \<noteq> 0)"

definition request_line :: "uchar list \<Rightarrow> uchar list \<Rightarrow> uchar list \<Rightarrow> uchar list" where
  "request_line method uri version = method @ [32] @ uri @ [32] @ version @ [13]"

definition locals_ok :: "locals \<Rightarrow> bool" where
  "locals_ok l \<longleftrightarrow> length (l_buf l) = MAXBUF \<and> length (l_method l) = MAXBUF \<and> length (l_uri l) = MAXBUF \<and>
     length (l_version l) = MAXBUF \<and> length (l_hbuf l) = MAXBUF"

lemma scan_request_line:
  assumes "word_ok m" "word_ok u" "word_ok v"
  shows "scan_words (request_line m u v @ [10]) = [m, u, v]"
proof -
  have sp: "isspace 32" "isspace 13" "isspace 10" by (simp_all add: isspace_def)
  have "request_line m u v @ [10] = m @ 32 # u @ 32 # v @ 13 # [10]" by (simp add: request_line_def)
  then show ?thesis
    using assms sp by (simp add: scan_words_word scan_words_space word_ok_def)
qed

lemma get_str_set_word: "0 \<notin> set w \<Longrightarrow> get_str (set_word a w) = Inr w"
  unfolding get_str_def set_word_def cstr_def by (simp, subst takeWhile_append2) auto

lemma word_ok_no:
  assumes "word_ok w" shows "0 \<notin> set w" "10 \<notin> set w"
  using assms by (auto simp: word_ok_def isspace_def)

lemma pre_handle_request_wellformed:
  assumes "word_ok m" "word_ok u" "word_ok v" "length m + length u + length v \<le> 507" "locals_ok l"
    and "rd c = map Some (request_line m u v @ [10]) @ r"
  shows "pre_handle_request wr st l f b c =
    (if strstr u (bytes ''..'') then
       Some (ebind (request_error wr (c\<lparr>rd := r\<rparr>) u ''403'' ''Forbidden'' ''server could not read this file'')
                 (\<lambda>(rc, c). Inr (Forbidden, b, c)))
     else map_option (\<lambda>(rc, inp). if rc = -1 then Inr (Error, b, c\<lparr>rd := inp\<rparr>)
                        else pre_handle_uri wr st f u b (c\<lparr>rd := inp\<rparr>)) (request_read_headers (l_hbuf l) r))"
proof -
  let ?l = "request_line m u v"
  have z: "0 \<notin> set m" "0 \<notin> set u" "0 \<notin> set v" "10 \<notin> set m" "10 \<notin> set u" "10 \<notin> set v"
    using assms(1-3) by (auto simp: word_ok_no)
  have len: "length ?l < 511" using assms(4) by (simp add: request_line_def)
  have rl: "readline (l_buf l) (rd c) = (int (length ?l), ?l @ [10, 0] @ drop (length ?l + 2) (l_buf l), r)"
    using readline_line [of ?l "l_buf l" r] z len assms(5,6) by (simp add: locals_ok_def request_line_def)
  have "get_str (?l @ [10, 0] @ drop (length ?l + 2) (l_buf l)) = Inr (?l @ [10])"
    using get_str_set_word [of "?l @ [10]" "drop 0 (l_buf l)"] z by (simp add: set_word_def request_line_def)
  moreover have "scan_words (?l @ [10]) = [m, u, v]" using assms(1-3) by (rule scan_request_line)
  ultimately show ?thesis
    using rl z by (simp add: pre_handle_request_def scan_word_def get_str_set_word Let_def cong: if_cong)
qed

lemma pre_handle_request_lines:
  assumes "word_ok m" "word_ok u" "word_ok v" "length m + length u + length v \<le> 507" "locals_ok l"
    and "\<forall>h \<in> set hs. h \<noteq> [] \<and> 10 \<notin> set h \<and> length h \<le> 509" "\<not> strstr u (bytes ''..'')"
    and "rd c = map Some (request_line m u v @ [10] @ concat (map (\<lambda>h. h @ crlf) hs) @ crlf) @ r"
  shows "pre_handle_request wr st l f b c = Some (pre_handle_uri wr st f u b (c\<lparr>rd := r\<rparr>))"
proof -
  let ?r = "map Some (concat (map (\<lambda>h. h @ crlf) hs) @ crlf) @ r"
  have "request_read_headers (l_hbuf l) ?r = Some (0, r)"
    using request_read_headers_lines assms(5,6) by (simp add: locals_ok_def)
  moreover have "rd c = map Some (request_line m u v @ [10]) @ ?r" using assms(8) by simp
  ultimately show ?thesis
    using pre_handle_request_wellformed [OF assms(1-5)] assms(7) by simp
qed

section \<open>A static file is sent to the client\<close>

lemma length_decimal: "n < 10 ^ k \<Longrightarrow> 0 < k \<Longrightarrow> length (decimal n) \<le> k"
proof (induction k arbitrary: n)
  case (Suc k)
  then show ?case
    by (subst decimal.simps) (cases k; auto simp: less_mult_imp_div_less mult.commute)
qed simp

lemma to_int_small: "0 \<le> n \<Longrightarrow> n < 2 ^ 31 \<Longrightarrow> to_int n = n"
  by (simp add: to_int_def sint_uint signed_take_bit_int_eq_self uint_word_of_int)

lemma mapped_whole: "mapped (length bs) bs = bs"
  by (simp add: mapped_def)

lemma write_fd_all: "wr (nwrites c) = Some n \<Longrightarrow> length bs \<le> n \<Longrightarrow>
    write_fd wr bs c = (int (length bs), c\<lparr>nwrites := nwrites c + 1, out := out c @ bs\<rparr>)"
  by (simp add: write_fd_def)

definition ok_header :: "uchar list \<Rightarrow> nat \<Rightarrow> uchar list" where
  "ok_header filename n = bytes ''HTTP/1.0 200 OK'' @ crlf @ bytes ''Server: OSTEP WebServer'' @ crlf @
     bytes ''Content-Length: '' @ decimal n @ crlf @ bytes ''Content-Type: '' @ request_get_filetype filename @ crlf @ crlf"

lemma ok_header_bound: "n < 2 ^ 31 \<Longrightarrow> length (ok_header filename n) < MAXBUF"
proof -
  assume "n < 2 ^ 31"
  then have "length (decimal n) \<le> 10" by (intro length_decimal) simp_all
  then show ?thesis by (simp add: ok_header_def bytes_def crlf_def request_get_filetype_def MAXBUF_def)
qed

lemma serve_static_whole:
  assumes "files filename = Some bs" "bs \<noteq> []" "length bs < 2 ^ 31" "\<forall>k. wr k = Some n" "length bs + MAXBUF \<le> n"
  shows "request_serve_static wr files filename (int (length bs)) c =
    (0, c\<lparr>nwrites := nwrites c + 2, out := out c @ ok_header filename (length bs) @ bs\<rparr>)"
  using assms ok_header_bound [OF assms(3), of filename]
  by (simp add: request_serve_static_def write_fd_all mapped_whole Let_def flip: ok_header_def)

lemma parse_uri_static:
  assumes "\<not> strstr u (bytes ''cgi'')" "u \<noteq> []" "length u \<le> 500"
  shows "request_parse_uri u = Inr (True, bytes ''.'' @ u @ (if last u = of_char (CHR ''/'') then bytes ''index.html'' else []), [])"
  using assms by (simp add: request_parse_uri_def bytes_def MAXBUF_def)

text \<open>C22:
  A request for static content (no \<open>cgi\<close> in the name) with headers and an empty line, for a regular
  readable file that is not empty, is accepted, and serving it sends the status line, the length and
  type of the file and exactly its contents. The name gets \<open>index.html\<close> when it ends in a slash. The
  bounds are those of the arrays: 511 bytes a line, 49 bytes of file name, an \<open>int\<close> for the size.
\<close>

theorem get_static_file:
  assumes "word_ok m" "word_ok u" "word_ok v" "length m + length v \<le> 400" "length u \<le> 38" "locals_ok l"
    and "\<not> strstr u (bytes ''..'')" "\<not> strstr u (bytes ''cgi'')"
    and "\<forall>h \<in> set hs. h \<noteq> [] \<and> 10 \<notin> set h \<and> length h \<le> 509"
    and "rd c = map Some (request_line m u v @ [10] @ concat (map (\<lambda>h. h @ crlf) hs) @ crlf) @ r"
    and "fn = bytes ''.'' @ u @ (if last u = of_char (CHR ''/'') then bytes ''index.html'' else [])"
    and "st fn = Some s" "S_ISREG s" "S_IRUSR s" "st_size s = int (length bs)"
    and "files fn = Some bs" "bs \<noteq> []" "length bs < 2 ^ 31" "\<forall>k. wr k = Some n" "length bs + MAXBUF \<le> n"
  shows "\<exists>b' c'. pre_handle_request wr st l f b c = Some (Inr (OK, b', c')) \<and>
    fd b' = f \<and> is_static b' \<and> \<not> handling b' \<and> pathname b' = fn \<and>
    request_serve_static wr files (pathname b') (to_int (size b')) c' =
      (0, c\<lparr>rd := r, nwrites := nwrites c + 2, out := out c @ ok_header fn (length bs) @ bs\<rparr>)"
proof -
  have "pre_handle_request wr st l f b c = Some (pre_handle_uri wr st f u b (c\<lparr>rd := r\<rparr>))"
    using assms(4,5) by (intro pre_handle_request_lines [OF assms(1-3) _ assms(6,9,7,10)]) simp
  moreover have "request_parse_uri u = Inr (True, fn, [])"
    using parse_uri_static [OF assms(8)] assms(2,5,11) by (simp add: word_ok_def)
  moreover have "length fn < SMALL_BUF" using assms(5,11) by (simp add: bytes_def SMALL_BUF_def)
  ultimately show ?thesis
    using assms(12-15,18) serve_static_whole [where c = "c\<lparr>rd := r\<rparr>" and files = files and filename = fn and wr = wr, OF assms(16-20)]
    by (simp add: pre_handle_uri_def to_int_small SMALL_BUF_def)
qed

definition junk :: locals where
  "junk = \<lparr>l_buf = replicate MAXBUF 7, l_method = replicate MAXBUF 7, l_uri = replicate MAXBUF 7,
     l_version = replicate MAXBUF 7, l_hbuf = replicate MAXBUF 7\<rparr>"

definition no_buffer :: Buffer_t where
  "no_buffer = \<lparr>fd = 0, is_static = False, size = 0, pathname = [], cgiargs = [], handling = False\<rparr>"

definition client :: "string \<Rightarrow> conn" where
  "client u = \<lparr>rd = map Some (request_line (bytes ''GET'') (bytes u) (bytes ''HTTP/1.0'') @ [10] @
       concat (map (\<lambda>h. h @ crlf) [bytes ''Host: a'']) @ crlf) @ [], out = [], nwrites = 0, leaked = 0\<rparr>"

definition readable :: filestat where
  "readable = \<lparr>S_ISREG = True, S_IRUSR = True, S_IXUSR = False, st_size = 2\<rparr>"

lemma junk_ok: "locals_ok junk"
  by (simp add: locals_ok_def junk_def)

lemma get_ok: "word_ok (bytes ''GET'')" "word_ok (bytes ''HTTP/1.0'')"
  by (simp_all add: word_ok_def bytes_def isspace_def)

theorem get_static_file_witness:
  "\<exists>b' c'. pre_handle_request (\<lambda>k. Some 600) (\<lambda>p. Some readable) junk 4 no_buffer (client ''/'') = Some (Inr (OK, b', c')) \<and>
    pathname b' = bytes ''./index.html'' \<and>
    out (snd (request_serve_static (\<lambda>k. Some 600) (\<lambda>p. Some [1, 2]) (pathname b') (to_int (size b')) c')) =
      ok_header (bytes ''./index.html'') 2 @ [1, 2]"
proof -
  have u: "word_ok (bytes ''/'')" "\<not> strstr (bytes ''/'') (bytes ''..'')" "\<not> strstr (bytes ''/'') (bytes ''cgi'')"
    "length (bytes ''/'') \<le> 38" "length (bytes ''GET'') + length (bytes ''HTTP/1.0'') \<le> 400"
    by (simp_all add: word_ok_def bytes_def isspace_def)
  have hs: "\<forall>h \<in> set [bytes ''Host: a'']. h \<noteq> [] \<and> 10 \<notin> set h \<and> length h \<le> 509" by (simp add: bytes_def)
  have fn: "bytes ''./index.html'' = bytes ''.'' @ bytes ''/'' @
      (if last (bytes ''/'') = of_char (CHR ''/'') then bytes ''index.html'' else [])" by (simp add: bytes_def)
  obtain b' c' where "pre_handle_request (\<lambda>k. Some 600) (\<lambda>p. Some readable) junk 4 no_buffer (client ''/'') = Some (Inr (OK, b', c'))"
    "pathname b' = bytes ''./index.html''"
    "request_serve_static (\<lambda>k. Some 600) (\<lambda>p. Some [1, 2]) (pathname b') (to_int (size b')) c' =
       (0, client ''/''\<lparr>rd := [], nwrites := nwrites (client ''/'') + 2,
         out := out (client ''/'') @ ok_header (bytes ''./index.html'') (length [1, 2 :: uchar]) @ [1, 2]\<rparr>)"
    using get_static_file [OF get_ok(1) u(1) get_ok(2) u(5,4) junk_ok u(2,3) hs _ fn, where c = "client ''/''" and r = "[]" and
        st = "\<lambda>p. Some readable" and s = readable and bs = "[1, 2]" and files = "\<lambda>p. Some [1, 2]" and
        wr = "\<lambda>k. Some 600" and n = 600 and f = 4 and b = no_buffer]
    by (auto simp: client_def readable_def MAXBUF_def)
  then show ?thesis by (intro exI conjI) (assumption, assumption, simp add: client_def numeral_2_eq_2)
qed

section \<open>The parent directory\<close>

definition path_components :: "uchar list \<Rightarrow> uchar list list" where
  "path_components p = strsep_all [47] p"

definition uri_path :: "uchar list \<Rightarrow> uchar list" where
  "uri_path u = (if strstr u (bytes ''cgi'') then takeWhile (\<lambda>b. b \<noteq> 63) u else u)"

lemma bytes_chars: "bytes ''..'' = [46, 46]" "bytes ''.'' = [46]" "of_char (CHR ''/'') = (47 :: uchar)" "of_char (CHR ''?'') = (63 :: uchar)"
  by (simp_all add: bytes_def)

lemma dotdot_component:
  assumes "\<not> strstr p [46, 46]"
  shows "[46, 46] \<in> set (path_components (46 # p)) \<longleftrightarrow> p = [46] \<or> take 2 p = [46, 47]"
proof (cases rule: strsep_cases [of "46 # p" "[47 :: uchar]"])
  case 1
  then have "path_components (46 # p) = [46 # p]" unfolding path_components_def by (rule strsep_all_last)
  moreover have "take 2 p \<noteq> [46, 47]" using 1 in_set_takeD [of 47 2 p] by auto
  ultimately show ?thesis by auto
next
  case (2 t d r)
  then have d: "d = 47" and t: "t = 46 # tl t" "p = tl t @ 47 # r" "47 \<notin> set (tl t)" by (cases t; auto)+
  have "path_components (46 # p) = t # strsep_all [47] r"
    unfolding path_components_def using 2 by (simp add: strsep_all_delim)
  moreover have "[46, 46] \<notin> set (strsep_all [47] r)"
    using component_strstr [of "[46, 46]" "[47]" r] strstr_mono [of r "[46, 46]" "tl t @ [47]" "[]"] assms t(2) by auto
  moreover have "t = [46, 46] \<longleftrightarrow> tl t = [46]" using t(1) by (metis list.inject)
  moreover have "tl t = [46] \<longleftrightarrow> p = [46] \<or> take 2 p = [46, 47]"
    using t(2,3) by (cases "tl t"; cases "tl (tl t)") auto
  ultimately show ?thesis by auto
qed

lemma dots_append:
  assumes "\<not> strstr a [46, 46]" "\<not> strstr b [46, 46]" "a \<noteq> []" "last a \<noteq> 46"
  shows "\<not> strstr (a @ b) [46, 46]"
  using assms
proof (induction a)
  case (Cons x a)
  then show ?case by (cases a) (auto simp: numeral_2_eq_2)
qed simp

lemma dots_takeWhile: "\<not> strstr u t \<Longrightarrow> \<not> strstr (takeWhile P u) t"
  using strstr_mono [of "takeWhile P u" t "[]" "dropWhile P u"] by auto

lemma parse_uri_dotdot:
  assumes "request_parse_uri u = Inr (static, fn, args)" "\<not> strstr u [46, 46]"
  shows "[46, 46] \<in> set (path_components fn) \<longleftrightarrow> uri_path u = [46] \<or> take 2 (uri_path u) = [46, 47]"
proof -
  consider (dyn) "fn = 46 # uri_path u" | (plain) "fn = 46 # uri_path u" | (index) "fn = 46 # u @ bytes ''index.html''" "u \<noteq> []" "last u = 47" "uri_path u = u"
    using assms(1) by (auto simp: request_parse_uri_def uri_path_def bytes_chars Let_def split: if_splits)
  then show ?thesis
  proof cases
    case index
    have "\<not> strstr (u @ bytes ''index.html'') [46, 46]"
      using index assms(2) by (intro dots_append) (simp_all add: bytes_def)
    moreover have "u @ bytes ''index.html'' \<noteq> [46]" using index(2) by (cases u) (auto simp: bytes_def)
    moreover have "take 2 (u @ bytes ''index.html'') = [46, 47] \<longleftrightarrow> u = [46] \<or> take 2 u = [46, 47]"
      using index(2,3) by (cases u; cases "tl u") (auto simp: bytes_def)
    ultimately show ?thesis unfolding index(1,4) by (simp add: dotdot_component)
  qed (use assms(2) dots_takeWhile in \<open>auto simp: dotdot_component uri_path_def\<close>)
qed

text \<open>C24:
  The check for two dots looks at the name in the request, the file name is that name behind a dot.
  So the file that an accepted request names can lie above the root directory, and does exactly when
  the name is a single dot or begins with \<open>./\<close>; a name that begins with a slash never leaves the root
  directory.
\<close>

theorem accepted_parent_directory:
  assumes "word_ok m" "word_ok u" "word_ok v" "length m + length u + length v \<le> 507" "locals_ok l"
    and "rd c = map Some (request_line m u v @ [10]) @ r"
    and "pre_handle_request wr st l f b c = Some (Inr (OK, b', c'))"
  shows "bytes ''..'' \<in> set (path_components (pathname b')) \<longleftrightarrow> uri_path u = bytes ''.'' \<or> take 2 (uri_path u) = bytes ''./''"
proof -
  let ?R = "map_option (\<lambda>(rc, inp). if rc = -1 then Inr (Error, b, c\<lparr>rd := inp\<rparr>)
                        else pre_handle_uri wr st f u b (c\<lparr>rd := inp\<rparr>)) (request_read_headers (l_hbuf l) r)"
  have dots: "\<not> strstr u (bytes ''..'')" and "?R = Some (Inr (OK, b', c'))"
    using assms(7) pre_handle_request_wellformed [OF assms(1-6), of wr st f b]
    by (auto simp: ebind_eq_Inr split: if_splits)
  then obtain inp where "pre_handle_uri wr st f u b (c\<lparr>rd := inp\<rparr>) = Inr (OK, b', c')"
    by (auto split: if_splits prod.splits)
  then obtain static args where "request_parse_uri u = Inr (static, pathname b', args)"
    by (auto simp: pre_handle_uri_def reply_def ebind_eq_Inr split: if_splits option.splits)
  from parse_uri_dotdot [OF this] dots show ?thesis by (simp add: bytes_def)
qed

theorem accepted_parent_directory_witness:
  "\<exists>b' c'. pre_handle_request (\<lambda>k. Some 600) (\<lambda>p. Some readable) junk 4 no_buffer (client ''./a'') = Some (Inr (OK, b', c')) \<and>
    pathname b' = bytes ''../a'' \<and> bytes ''..'' \<in> set (path_components (pathname b'))"
proof -
  let ?u = "bytes ''./a''" and ?r = "map Some (concat (map (\<lambda>h. h @ crlf) [bytes ''Host: a'']) @ crlf)"
  have u: "word_ok ?u" "\<not> strstr ?u (bytes ''..'')" "length (bytes ''GET'') + length ?u + length (bytes ''HTTP/1.0'') \<le> 507"
    by (simp_all add: word_ok_def bytes_def isspace_def)
  have hs: "\<forall>h \<in> set [bytes ''Host: a'']. h \<noteq> [] \<and> 10 \<notin> set h \<and> length h \<le> 509" by (simp add: bytes_def)
  have rd: "rd (client ''./a'') = map Some (request_line (bytes ''GET'') ?u (bytes ''HTTP/1.0'') @ [10]) @ ?r"
    by (simp add: client_def)
  let ?b = "no_buffer\<lparr>fd := 4, is_static := True, size := 2, handling := False, pathname := bytes ''../a'', cgiargs := []\<rparr>"
  have ok: "pre_handle_request (\<lambda>k. Some 600) (\<lambda>p. Some readable) junk 4 no_buffer (client ''./a'') =
      Some (Inr (OK, ?b, client ''./a''\<lparr>rd := []\<rparr>))"
    by (subst pre_handle_request_lines [OF get_ok(1) u(1) get_ok(2) u(3) junk_ok hs u(2), where r = "[]"])
      (simp_all add: client_def pre_handle_uri_def request_parse_uri_def readable_def SMALL_BUF_def MAXBUF_def bytes_def)
  show ?thesis
    using accepted_parent_directory [OF get_ok(1) u(1) get_ok(2) u(3) junk_ok rd ok] ok
    by (intro exI conjI) (assumption, simp, simp add: uri_path_def bytes_def)
qed

section \<open>Requests without an empty line\<close>

text \<open>A client that sends a request line, and then closes the connection (or goes on with bytes among which
  there is no carriage return) before the empty line, keeps \<open>pre_handle_request\<close> in its loop for ever:
  at the end of the stream \<open>readline\<close> returns 0, which the loop does not look at. The buffer of the
  server stays locked, since the caller holds \<open>mutex\<close>.
\<close>

theorem unfinished_request_blocks:
  assumes "word_ok m" "word_ok u" "word_ok v" "length m + length u + length v \<le> 507" "locals_ok l"
    and "rd c = map Some (request_line m u v @ [10] @ bs)" "13 \<notin> set bs" "\<not> strstr u (bytes ''..'')"
  shows "pre_handle_request wr st l f b c = None"
proof -
  have "request_read_headers (l_hbuf l) (map Some bs) = None"
    using assms(5,7) by (intro request_read_headers_diverges) (auto simp: locals_ok_def)
  moreover have "rd c = map Some (request_line m u v @ [10]) @ map Some bs" using assms(6) by simp
  ultimately show ?thesis using pre_handle_request_wellformed [OF assms(1-5)] assms(8) by simp
qed

theorem unfinished_request_blocks_witness:
  "pre_handle_request (\<lambda>k. Some 600) (\<lambda>p. Some readable) junk 4 no_buffer
    \<lparr>rd = map Some (request_line (bytes ''GET'') (bytes ''/'') (bytes ''HTTP/1.0'') @ [10] @ []), out = [], nwrites = 0, leaked = 0\<rparr> = None"
  by (rule unfinished_request_blocks [OF get_ok(1) _ get_ok(2) _ junk_ok, where u = "bytes ''/''" and bs = "[]"]) (simp_all add: word_ok_def bytes_def isspace_def)

end
