(* ===== verification/Web_Server.thy ===== *)
theory Web_Server
  imports Web_Request Semaphore "HOL-Library.Sublist"
begin

text \<open>
  The threads of \<^verbatim>\<open>projects/concurrency-webserver/wserver.c\<close>: thread 0 is \<open>main\<close>, which accepts
  connections and puts requests into the shared buffer, threads \<open>1 .. T\<close> run \<open>workerThread\<close>. The
  statements are interleaved; \<open>Zem_wait\<close> and \<open>Zem_post\<close> of \<^verbatim>\<open>thread_helper.h\<close> are the semaphore
  operations. A worker runs \<open>request_serve_static\<close> or \<open>request_serve_dynamic\<close>; a failed assertion there ends
  the process and with it all threads. The calls are recorded in a log: the arguments a worker evaluates
  when it makes the call, and the strings that the callee reads through its pointers into the buffer.
\<close>

section \<open>The threads\<close>

datatype wspc =
  MWaitEmpty | MAccept | MWaitMutex int conn | MHandle int conn | MRefuse | MPostEmpty | MPostMutex | MPostFull
| WWaitFull | WWaitMutex | WChoose | WPostMutex nat | WCall nat | WServe nat bool int int | WClose nat | WPostEmpty

text \<open>A call of \<open>request_serve_static\<close> (first argument true) or \<open>request_serve_dynamic\<close>: descriptor,
  size, path name and CGI arguments.\<close>

datatype wsevent = Served bool int int "uchar list" "uchar list" | Closed int

record ws_state =
  ws_full :: nat
  ws_empty :: nat
  ws_mutex :: nat
  ws_use :: nat
  ws_fill :: nat
  ws_buffer :: "Buffer_t list"
  ws_conns :: "(int \<times> conn) option list"
  ws_pc :: "tid \<Rightarrow> wspc"
  ws_accepted :: "Buffer_t list"
  ws_log :: "wsevent list"
  ws_aborted :: bool

text \<open>What the operating system answers during a call: the bytes that each \<open>write\<close> accepts, the files, whether
  \<open>fork\<close> and \<open>wait\<close> succeed, and what a CGI program writes. The answers may be different for every call,
  so that they are a function of the length of the log.\<close>

record serve_os =
  sv_write :: "nat \<Rightarrow> nat option"
  sv_files :: "uchar list \<Rightarrow> uchar list option"
  sv_fork :: bool
  sv_wait :: bool
  sv_cgi :: "uchar list \<Rightarrow> uchar list \<Rightarrow> uchar list"

definition ws_serve :: "serve_os \<Rightarrow> bool \<Rightarrow> int \<Rightarrow> uchar list \<Rightarrow> uchar list \<Rightarrow> fault + int \<times> conn" where
  "ws_serve os static n path args =
    (let c = \<lparr>rd = [], out = [], nwrites = 0, leaked = 0\<rparr> in
     if static then Inr (request_serve_static (sv_write os) (sv_files os) path (to_int n) c)
     else request_serve_dynamic (sv_write os) (sv_fork os) (sv_wait os) (sv_cgi os) path args c)"

definition ws_goto :: "tid \<Rightarrow> wspc \<Rightarrow> ws_state \<Rightarrow> ws_state" where
  "ws_goto t p s = s\<lparr>ws_pc := (ws_pc s)(t := p)\<rparr>"

text \<open>The search for the smallest file: the loop from index \<open>i\<close> on.\<close>

definition LLONG_MAX :: int where "LLONG_MAX = 2 ^ 63 - 1"

fun sff_search :: "Buffer_t list \<Rightarrow> nat \<Rightarrow> int \<Rightarrow> nat \<Rightarrow> nat" where
  "sff_search [] i min_size useCopy = useCopy"
| "sff_search (r # rs) i min_size useCopy =
    (if \<not> handling r \<and> fd r \<noteq> 0 \<and> size r < min_size then sff_search rs (Suc i) (size r) i
     else sff_search rs (Suc i) min_size useCopy)"

definition ws_worker_step :: "(nat \<Rightarrow> serve_os) \<Rightarrow> bool \<Rightarrow> tid \<Rightarrow> ws_state \<Rightarrow> ws_state option" where
  "ws_worker_step os sff t s =
    (case ws_pc s t of
       WWaitFull \<Rightarrow> map_option (\<lambda>v. ws_goto t WWaitMutex (s\<lparr>ws_full := v\<rparr>)) (Sem_wait (ws_full s))
     | WWaitMutex \<Rightarrow> map_option (\<lambda>v. ws_goto t WChoose (s\<lparr>ws_mutex := v\<rparr>)) (Sem_wait (ws_mutex s))
     | WChoose \<Rightarrow>
         if sff then
           let k = sff_search (ws_buffer s) 0 LLONG_MAX (ws_use s) in
           Some (ws_goto t (WPostMutex k) (s\<lparr>ws_buffer := (ws_buffer s)[k := (ws_buffer s ! k)\<lparr>handling := True\<rparr>]\<rparr>))
         else Some (ws_goto t (WPostMutex (ws_use s)) (s\<lparr>ws_use := (ws_use s + 1) mod length (ws_buffer s)\<rparr>))
     | WPostMutex k \<Rightarrow> Some (ws_goto t (WCall k) (s\<lparr>ws_mutex := Sem_post (ws_mutex s)\<rparr>))
     | WCall k \<Rightarrow> (let r = ws_buffer s ! k in Some (ws_goto t (WServe k (is_static r) (fd r) (size r)) s))
     | WServe k static f n \<Rightarrow>
         (let r = ws_buffer s ! k in
          Some (ws_goto t (WClose k)
            (s\<lparr>ws_log := ws_log s @ [Served static f n (pathname r) (cgiargs r)],
               ws_aborted := (case ws_serve (os (length (ws_log s))) static n (pathname r) (cgiargs r) of Inl _ \<Rightarrow> True | Inr _ \<Rightarrow> False)\<rparr>)))
     | WClose k \<Rightarrow> Some (ws_goto t WPostEmpty (s\<lparr>ws_log := ws_log s @ [Closed (fd (ws_buffer s ! k))]\<rparr>))
     | WPostEmpty \<Rightarrow> Some (ws_goto t WWaitFull (s\<lparr>ws_empty := Sem_post (ws_empty s)\<rparr>))
     | _ \<Rightarrow> None)"

text \<open>The loop of \<open>main\<close>. The connection that \<open>accept\<close> returns next is the head of \<open>ws_conns\<close> (\<open>None\<close>:
  it fails; the empty list: it blocks). \<open>handle\<close> is \<open>pre_handle_request\<close>: the thread stays there when
  it does not return, and when it leaves an array nothing is said about the rest of the run.\<close>

definition ws_master_step ::
  "(int \<Rightarrow> Buffer_t \<Rightarrow> conn \<Rightarrow> (fault + result \<times> Buffer_t \<times> conn) option) \<Rightarrow> ws_state \<Rightarrow> ws_state option" where
  "ws_master_step handle s =
    (case ws_pc s 0 of
       MWaitEmpty \<Rightarrow> map_option (\<lambda>v. ws_goto 0 MAccept (s\<lparr>ws_empty := v\<rparr>)) (Sem_wait (ws_empty s))
     | MAccept \<Rightarrow>
         (case ws_conns s of
            [] \<Rightarrow> None
          | None # cs \<Rightarrow> Some (ws_goto 0 MPostEmpty (s\<lparr>ws_conns := cs\<rparr>))
          | Some (f, c) # cs \<Rightarrow> Some (ws_goto 0 (MWaitMutex f c) (s\<lparr>ws_conns := cs\<rparr>)))
     | MWaitMutex f c \<Rightarrow> map_option (\<lambda>v. ws_goto 0 (MHandle f c) (s\<lparr>ws_mutex := v\<rparr>)) (Sem_wait (ws_mutex s))
     | MHandle f c \<Rightarrow>
         (case handle f (ws_buffer s ! ws_fill s) c of
            Some (Inr (res, r, _)) \<Rightarrow>
              if res = OK then
                Some (ws_goto 0 MPostMutex
                  (s\<lparr>ws_buffer := (ws_buffer s)[ws_fill s := r], ws_fill := (ws_fill s + 1) mod length (ws_buffer s),
                     ws_accepted := ws_accepted s @ [r]\<rparr>))
              else Some (ws_goto 0 MRefuse (s\<lparr>ws_buffer := (ws_buffer s)[ws_fill s := r]\<rparr>))
          | _ \<Rightarrow> None)
     | MRefuse \<Rightarrow> Some (ws_goto 0 MPostEmpty (s\<lparr>ws_mutex := Sem_post (ws_mutex s)\<rparr>))
     | MPostEmpty \<Rightarrow> Some (ws_goto 0 MWaitEmpty (s\<lparr>ws_empty := Sem_post (ws_empty s)\<rparr>))
     | MPostMutex \<Rightarrow> Some (ws_goto 0 MPostFull (s\<lparr>ws_mutex := Sem_post (ws_mutex s)\<rparr>))
     | MPostFull \<Rightarrow> Some (ws_goto 0 MWaitEmpty (s\<lparr>ws_full := Sem_post (ws_full s)\<rparr>))
     | _ \<Rightarrow> None)"

definition ws_step ::
  "(nat \<Rightarrow> serve_os) \<Rightarrow> (int \<Rightarrow> Buffer_t \<Rightarrow> conn \<Rightarrow> (fault + result \<times> Buffer_t \<times> conn) option) \<Rightarrow> bool \<Rightarrow> tid \<Rightarrow> ws_state \<Rightarrow> ws_state option" where
  "ws_step os handle sff t s =
    (if ws_aborted s then None else if t = 0 then ws_master_step handle s else ws_worker_step os sff t s)"

text \<open>The state in which \<open>main\<close> enters its loop; \<open>malloc\<close> leaves arbitrary contents in the buffer.\<close>

definition ws_main :: "Buffer_t list \<Rightarrow> (int \<times> conn) option list \<Rightarrow> ws_state" where
  "ws_main buffer conns =
     \<lparr>ws_full = 0, ws_empty = length buffer, ws_mutex = 1, ws_use = 0, ws_fill = 0, ws_buffer = buffer,
      ws_conns = conns, ws_pc = (\<lambda>_. WWaitFull)(0 := MWaitEmpty), ws_accepted = [], ws_log = [], ws_aborted = False\<rparr>"

lemmas ws_step_defs = ws_step_def ws_master_step_def ws_worker_step_def ws_goto_def sem_defs

section \<open>First in, first out\<close>

text \<open>Classes of control points: holding \<open>mutex\<close>; between a wait for \<open>empty\<close> and the decision of what
  to do with it; a request announced but not yet chosen; a request chosen and not yet finished.\<close>

definition ws_locked :: "wspc \<Rightarrow> bool" where
  "ws_locked p = (case p of MHandle _ _ \<Rightarrow> True | MRefuse \<Rightarrow> True | MPostMutex \<Rightarrow> True | WChoose \<Rightarrow> True | WPostMutex _ \<Rightarrow> True | _ \<Rightarrow> False)"

definition ws_token :: "wspc \<Rightarrow> bool" where
  "ws_token p = (case p of MAccept \<Rightarrow> True | MWaitMutex _ _ \<Rightarrow> True | MHandle _ _ \<Rightarrow> True | MRefuse \<Rightarrow> True | MPostEmpty \<Rightarrow> True | _ \<Rightarrow> False)"

definition ws_coming :: "wspc \<Rightarrow> bool" where
  "ws_coming p = (case p of MPostMutex \<Rightarrow> True | MPostFull \<Rightarrow> True | WWaitMutex \<Rightarrow> True | WChoose \<Rightarrow> True | _ \<Rightarrow> False)"

definition ws_busy :: "wspc \<Rightarrow> bool" where
  "ws_busy p = (case p of WPostMutex _ \<Rightarrow> True | WCall _ \<Rightarrow> True | WServe _ _ _ _ \<Rightarrow> True | WClose _ \<Rightarrow> True | WPostEmpty \<Rightarrow> True | _ \<Rightarrow> False)"

definition ws_master :: "wspc \<Rightarrow> bool" where
  "ws_master p = (case p of MWaitEmpty \<Rightarrow> True | MAccept \<Rightarrow> True | MWaitMutex _ _ \<Rightarrow> True | MHandle _ _ \<Rightarrow> True
     | MRefuse \<Rightarrow> True | MPostEmpty \<Rightarrow> True | MPostMutex \<Rightarrow> True | MPostFull \<Rightarrow> True | _ \<Rightarrow> False)"

lemmas ws_classes = ws_locked_def ws_token_def ws_coming_def ws_busy_def ws_master_def

text \<open>The two events of a request, and how many of them a worker has behind it.\<close>

definition serve_events :: "Buffer_t \<Rightarrow> wsevent list" where
  "serve_events r = [Served (is_static r) (fd r) (size r) (pathname r) (cgiargs r), Closed (fd r)]"

definition ws_progress :: "wspc \<Rightarrow> nat" where
  "ws_progress p = (case p of WClose _ \<Rightarrow> 1 | WPostEmpty \<Rightarrow> 2 | _ \<Rightarrow> 0)"

text \<open>What a busy worker knows: its index, and the arguments it has evaluated.\<close>

definition ws_knows :: "nat \<Rightarrow> Buffer_t list \<Rightarrow> nat \<Rightarrow> wspc \<Rightarrow> bool" where
  "ws_knows d acc B p =
    (case p of WPostMutex k \<Rightarrow> k = d mod B | WCall k \<Rightarrow> k = d mod B | WClose k \<Rightarrow> k = d mod B
     | WServe k static f n \<Rightarrow> k = d mod B \<and> static = is_static (acc ! d) \<and> f = fd (acc ! d) \<and> n = size (acc ! d)
     | _ \<Rightarrow> True)"

text \<open>The invariant when \<open>d\<close> requests are finished, for \<open>N\<close> threads and \<open>B\<close> slots: the semaphores
  count the threads and requests, the requests in use are in their slots, and the log is that of the
  finished requests and of the one in hand.\<close>

definition ws_counts :: "nat \<Rightarrow> nat \<Rightarrow> nat \<Rightarrow> ws_state \<Rightarrow> bool" where
  "ws_counts N B d s \<longleftrightarrow>
    (let n = length (ws_accepted s); c = cnt N (ws_pc s) in
     length (ws_buffer s) = B \<and> ws_mutex s + c ws_locked = 1 \<and> ws_empty s + c ws_token + n = B + d \<and>
     d + c ws_busy + ws_full s + c ws_coming = n \<and> ws_fill s = n mod B \<and> ws_use s = (d + c ws_busy) mod B)"

definition ws_slots :: "nat \<Rightarrow> nat \<Rightarrow> ws_state \<Rightarrow> bool" where
  "ws_slots B d s \<longleftrightarrow> (\<forall>j. d \<le> j \<longrightarrow> j < length (ws_accepted s) \<longrightarrow> ws_buffer s ! (j mod B) = ws_accepted s ! j)"

definition ws_local :: "nat \<Rightarrow> nat \<Rightarrow> ws_state \<Rightarrow> tid \<Rightarrow> bool" where
  "ws_local B d s t \<longleftrightarrow> (ws_master (ws_pc s t) \<longleftrightarrow> t = 0) \<and> ws_knows d (ws_accepted s) B (ws_pc s t) \<and>
     (ws_busy (ws_pc s t) \<longrightarrow> ws_log s = concat (map serve_events (take d (ws_accepted s))) @
        take (ws_progress (ws_pc s t)) (serve_events (ws_accepted s ! d)))"

definition ws_inv_at :: "nat \<Rightarrow> nat \<Rightarrow> nat \<Rightarrow> ws_state \<Rightarrow> bool" where
  "ws_inv_at N B d s \<longleftrightarrow> ws_counts N B d s \<and> ws_slots B d s \<and> (\<forall>t < N. ws_local B d s t) \<and>
     (cnt N (ws_pc s) ws_busy = 0 \<longrightarrow> ws_log s = concat (map serve_events (take d (ws_accepted s))))"

lemma mod_slots_differ: "j < n \<Longrightarrow> n < j + B \<Longrightarrow> j mod B \<noteq> n mod (B :: nat)"
  by (metis add_less_cancel_left le_add_diff_inverse less_imp_le mod_eq_dvd_iff_nat nat_dvd_not_less zero_less_diff)

lemma ws_inv_init: "length buffer = B \<Longrightarrow> ws_inv_at N B 0 (ws_main buffer conns)"
proof -
  assume "length buffer = B"
  moreover have "cnt N ((\<lambda>_. WWaitFull)(0 := MWaitEmpty)) P = 0" if "\<not> P WWaitFull" "\<not> P MWaitEmpty" for P
    using that by (simp add: cnt_zero_iff)
  ultimately show ?thesis
    by (simp add: ws_inv_at_def ws_counts_def ws_slots_def ws_local_def ws_main_def ws_classes ws_knows_def)
qed

lemma busy_taken: "ws_counts N B d s \<Longrightarrow> t < N \<Longrightarrow> ws_busy (ws_pc s t) \<Longrightarrow> d < length (ws_accepted s)"
  using cnt_pos [of t N ws_busy "ws_pc s"] by (simp add: ws_counts_def Let_def)

text \<open>The step that puts a request into the buffer: the slot is not one of those still in use.\<close>

lemma fill_slot:
  assumes "ws_counts N B d s" "ws_pc s 0 = MHandle f c" "0 < N"
  shows "ws_fill s < B"
    "d \<le> j \<Longrightarrow> j < length (ws_accepted s) \<Longrightarrow> (ws_buffer s)[ws_fill s := r] ! (j mod B) = ws_buffer s ! (j mod B)"
proof -
  have "0 < cnt N (ws_pc s) ws_token" using assms(3) by (rule cnt_pos) (simp add: assms(2) ws_classes)
  then have *: "length (ws_accepted s) < B + d" "d \<le> length (ws_accepted s)" "ws_fill s = length (ws_accepted s) mod B"
    using assms(1) by (auto simp: ws_counts_def Let_def)
  then show "ws_fill s < B" by (simp add: mod_less_divisor)
  show "(ws_buffer s)[ws_fill s := r] ! (j mod B) = ws_buffer s ! (j mod B)" if "d \<le> j" "j < length (ws_accepted s)"
    using that * mod_slots_differ [of j "length (ws_accepted s)" B] by simp
qed

lemma ws_inv_fill:
  assumes inv: "ws_inv_at N B d s" and pc: "ws_pc s 0 = MHandle f c" and N: "0 < N"
  shows "ws_inv_at N B d (ws_goto 0 MPostMutex (s\<lparr>ws_buffer := (ws_buffer s)[ws_fill s := r],
     ws_fill := (ws_fill s + 1) mod length (ws_buffer s), ws_accepted := ws_accepted s @ [r]\<rparr>))" (is "ws_inv_at N B d ?s")
proof -
  have cs: "ws_counts N B d s" using inv by (simp add: ws_inv_at_def)
  then have le: "d \<le> length (ws_accepted s)" "length (ws_buffer s) = B" "ws_fill s = length (ws_accepted s) mod B"
    by (auto simp: ws_counts_def Let_def)
  have "ws_counts N B d ?s"
    using cs N pc cnt_pos [of 0 N ws_token "ws_pc s"] cnt_pos [of 0 N ws_locked "ws_pc s"]
    by (simp add: ws_counts_def ws_goto_def Let_def count_simps ws_classes mod_Suc_eq)
  moreover have "ws_slots B d ?s"
    using inv fill_slot(1) [OF cs pc N] le
    by (auto simp: ws_inv_at_def ws_slots_def ws_goto_def nth_append less_Suc_eq fill_slot(2) [OF cs pc N, unfolded le])
  moreover have "ws_local B d ?s t" if "t < N" for t
    using that inv busy_taken [OF cs that] pc le(1)
    by (cases "t = 0") (auto simp: ws_inv_at_def ws_local_def ws_goto_def ws_knows_def ws_classes nth_append split: wspc.splits)
  moreover have "cnt N (ws_pc ?s) ws_busy = cnt N (ws_pc s) ws_busy"
    using N pc by (simp add: ws_goto_def count_simps ws_classes)
  ultimately show ?thesis using inv le(1) by (simp add: ws_inv_at_def) (simp add: ws_goto_def)
qed

lemma ws_inv_quiet:
  assumes "ws_inv_at N B d s" "ws_counts N B d s'" "ws_slots B d s'" "ws_local B d s' t" "t < N"
    and "ws_accepted s' = ws_accepted s" "ws_log s' = ws_log s" "\<And>u. u \<noteq> t \<Longrightarrow> ws_pc s' u = ws_pc s u"
    and "ws_busy (ws_pc s' t) = ws_busy (ws_pc s t)"
  shows "ws_inv_at N B d s'"
proof -
  have "cnt N (ws_pc s') ws_busy = cnt N (ws_pc s) ws_busy" using assms(8,9) by (intro cnt_cong) metis
  moreover have "ws_local B d s' u" if "u < N" for u
    using assms(1,4,6-8) that by (cases "u = t") (auto simp: ws_inv_at_def ws_local_def)
  ultimately show ?thesis using assms(1-3,6,7) by (simp add: ws_inv_at_def)
qed

lemma not_busy_knows: "\<not> ws_busy p \<Longrightarrow> ws_knows d acc B p"
  by (cases p) (simp_all add: ws_classes ws_knows_def)

lemma master_not_busy: "ws_master p \<Longrightarrow> \<not> ws_busy p"
  by (cases p) (simp_all add: ws_classes)

lemma master_quiet:
  assumes "ws_master_step h s = Some s'" "\<And>f c. ws_pc s 0 \<noteq> MHandle f c"
  shows "ws_buffer s' = ws_buffer s \<and> ws_accepted s' = ws_accepted s \<and> ws_log s' = ws_log s \<and>
    (\<forall>u. u \<noteq> 0 \<longrightarrow> ws_pc s' u = ws_pc s u) \<and> ws_master (ws_pc s' 0)"
  using assms by (cases "ws_pc s 0")
    (auto simp: ws_step_defs ws_classes split: if_splits list.splits option.splits prod.splits)

lemma master_counts:
  assumes "ws_master_step h s = Some s'" "\<And>f c. ws_pc s 0 \<noteq> MHandle f c" "ws_counts N B d s" "0 < N"
  shows "ws_counts N B d s'"
  using assms cnt_pos [OF assms(4), of ws_locked "ws_pc s"] cnt_pos [OF assms(4), of ws_token "ws_pc s"]
    cnt_pos [OF assms(4), of ws_coming "ws_pc s"]
  by (cases "ws_pc s 0")
    (auto simp: ws_step_defs ws_counts_def ws_classes count_simps Let_def split: if_splits list.splits option.splits prod.splits)

lemma master_step_inv:
  assumes "ws_master_step h s = Some s'" "ws_inv_at N B d s" "0 < N"
  shows "ws_inv_at N B d s'"
proof -
  have cs: "ws_counts N B d s" and loc: "ws_master (ws_pc s 0)" using assms(2,3) by (auto simp: ws_inv_at_def ws_local_def)
  show ?thesis
  proof (cases "\<exists>f c. ws_pc s 0 = MHandle f c")
    case True
    then obtain f c where pc: "ws_pc s 0 = MHandle f c" by blast
    from assms(1) pc obtain res r x where h: "h f (ws_buffer s ! ws_fill s) c = Some (Inr (res, r, x))"
      by (auto simp: ws_master_step_def split: option.splits sum.splits)
    show ?thesis
    proof (cases "res = OK")
      case True
      with assms(1) pc h ws_inv_fill [OF assms(2) pc assms(3), of r] show ?thesis by (simp add: ws_master_step_def)
    next
      case False
      with assms(1) pc h have s': "s' = ws_goto 0 MRefuse (s\<lparr>ws_buffer := (ws_buffer s)[ws_fill s := r]\<rparr>)"
        by (simp add: ws_master_step_def)
      show ?thesis
      proof (rule ws_inv_quiet [OF assms(2) _ _ _ assms(3)])
        show "ws_counts N B d s'"
          using cs assms(3) pc by (simp add: s' ws_counts_def ws_goto_def Let_def count_simps ws_classes)
        show "ws_slots B d s'"
          using assms(2) by (auto simp: s' ws_inv_at_def ws_slots_def ws_goto_def fill_slot(2) [OF cs pc assms(3)])
        show "ws_local B d s' 0" by (simp add: s' ws_local_def ws_goto_def ws_classes ws_knows_def)
      qed (auto simp: s' ws_goto_def pc ws_classes)
    qed
  next
    case False
    then have no: "\<And>f c. ws_pc s 0 \<noteq> MHandle f c" by blast
    note q = master_quiet [OF assms(1) no]
    show ?thesis
      by (rule ws_inv_quiet [OF assms(2) master_counts [OF assms(1) no cs assms(3)] _ _ assms(3)])
        (use q assms(2) loc in \<open>auto simp: ws_inv_at_def ws_slots_def ws_local_def master_not_busy not_busy_knows\<close>)
  qed
qed

text \<open>With one worker, or one slot, no two requests are in hand at the same time.\<close>

lemma one_busy:
  assumes "ws_inv_at N B d s" "N = 2 \<or> B = 1" "t < N" "t \<noteq> 0"
  shows "ws_busy (ws_pc s t) \<Longrightarrow> cnt N (ws_pc s) ws_busy = 1"
    and "ws_coming (ws_pc s t) \<Longrightarrow> cnt N (ws_pc s) ws_busy = 0"
    and "u < N \<Longrightarrow> u \<noteq> t \<Longrightarrow> ws_busy (ws_pc s t) \<Longrightarrow> \<not> ws_busy (ws_pc s u)"
proof -
  have n2: "N = 2 \<Longrightarrow> t = 1 \<and> cnt N (ws_pc s) ws_busy = (if ws_busy (ws_pc s 1) then 1 else 0)"
    using assms(1,3,4) master_not_busy by (auto simp: ws_inv_at_def ws_local_def numeral_2_eq_2)
  have b1: "B = 1 \<Longrightarrow> cnt N (ws_pc s) ws_busy + cnt N (ws_pc s) ws_coming \<le> 1"
    using assms(1) by (auto simp: ws_inv_at_def ws_counts_def Let_def)
  show one: "ws_busy (ws_pc s t) \<Longrightarrow> cnt N (ws_pc s) ws_busy = 1"
    using n2 b1 assms(2) cnt_pos [OF assms(3), of ws_busy "ws_pc s"] by auto
  have ex: "ws_coming (ws_pc s t) \<Longrightarrow> \<not> ws_busy (ws_pc s t)" by (cases "ws_pc s t") (simp_all add: ws_classes)
  show "ws_coming (ws_pc s t) \<Longrightarrow> cnt N (ws_pc s) ws_busy = 0"
    using n2 b1 assms(2) ex cnt_pos [OF assms(3), of ws_coming "ws_pc s"] by auto
  show "u < N \<Longrightarrow> u \<noteq> t \<Longrightarrow> ws_busy (ws_pc s t) \<Longrightarrow> \<not> ws_busy (ws_pc s u)"
    using one cnt_two [of t N u ws_busy "ws_pc s"] assms(3) by auto
qed

lemma worker_counts:
  assumes "ws_worker_step os False t s = Some s'" "ws_counts N B d s" "t < N"
  shows "ws_counts N B (if ws_pc s t = WPostEmpty then Suc d else d) s'"
  using assms cnt_pos [OF assms(3), of ws_locked "ws_pc s"] cnt_pos [OF assms(3), of ws_busy "ws_pc s"]
    cnt_pos [OF assms(3), of ws_coming "ws_pc s"]
  by (cases "ws_pc s t")
    (auto simp: ws_step_defs ws_counts_def ws_classes count_simps Let_def mod_Suc_eq split: if_splits)

lemma worker_frame:
  assumes "ws_worker_step os False t s = Some s'"
  shows "ws_buffer s' = ws_buffer s" "ws_accepted s' = ws_accepted s" "u \<noteq> t \<Longrightarrow> ws_pc s' u = ws_pc s u" "\<not> ws_master (ws_pc s' t)"
  using assms by (cases "ws_pc s t"; auto simp: ws_step_defs ws_classes Let_def split: if_splits)+

text \<open>What a worker does with the request it has in hand.\<close>

lemma worker_hand:
  assumes "ws_worker_step os False t s = Some s'" "ws_inv_at N B d s" "t < N" "ws_busy (ws_pc s t)" "ws_pc s t \<noteq> WPostEmpty"
  shows "ws_busy (ws_pc s' t)" "ws_local B d s' t"
proof -
  have acc: "ws_buffer s ! (d mod B) = ws_accepted s ! d"
    using assms(2,4) busy_taken [of N B d s t] assms(3) by (simp add: ws_inv_at_def ws_slots_def)
  have loc: "ws_local B d s t" using assms(2,3) by (simp add: ws_inv_at_def)
  show "ws_busy (ws_pc s' t)" "ws_local B d s' t"
    using assms(1,4,5) loc acc
    by (cases "ws_pc s t"; auto simp: ws_step_defs ws_classes ws_local_def ws_knows_def ws_progress_def serve_events_def Let_def numeral_2_eq_2)+
qed

lemma log_finished:
  assumes "ws_inv_at N B d s" "t < N" "ws_pc s t = WPostEmpty"
  shows "ws_log s = concat (map serve_events (take (Suc d) (ws_accepted s)))"
proof -
  have "ws_local B d s t" and "d < length (ws_accepted s)"
    using assms busy_taken [of N B d s t] by (auto simp: ws_inv_at_def ws_classes)
  then show ?thesis
    using assms(3) by (simp add: ws_local_def ws_classes ws_progress_def serve_events_def take_Suc_conv_app_nth)
qed

lemma ws_worker_step_inv:
  assumes st: "ws_worker_step os False t s = Some s'" and inv: "ws_inv_at N B d s" and t: "t < N" "t \<noteq> 0" and one: "N = 2 \<or> B = 1"
  shows "\<exists>d. ws_inv_at N B d s'"
proof -
  have cs: "ws_counts N B d s" and sl: "ws_slots B d s" and loc: "\<And>u. u < N \<Longrightarrow> ws_local B d s u"
    using inv by (auto simp: ws_inv_at_def)
  note fr = worker_frame [OF st] and cs' = worker_counts [OF st cs t(1)] and ob = one_busy [OF inv one t]
  have idle: "ws_local B d' s' u" if "u < N" "u \<noteq> t" "\<not> ws_busy (ws_pc s u)" for u d'
    using that loc [of u] fr by (simp add: ws_local_def not_busy_knows)
  consider (post) "ws_pc s t = WPostEmpty" | (hand) "ws_busy (ws_pc s t)" "ws_pc s t \<noteq> WPostEmpty"
    | (choose) "ws_pc s t = WChoose" | (quiet) "\<not> ws_busy (ws_pc s t)" "ws_pc s t \<noteq> WChoose" by blast
  then show ?thesis
  proof cases
    case post
    then have busy: "ws_busy (ws_pc s t)" by (simp add: ws_classes)
    have s': "ws_pc s' t = WWaitFull" "ws_log s' = ws_log s" using st post by (auto simp: ws_step_defs)
    have "ws_local B (Suc d) s' u" if "u < N" for u
      using that idle ob(3) busy s' by (cases "u = t") (simp_all add: ws_local_def ws_classes ws_knows_def t(2))
    moreover have "ws_slots B (Suc d) s'" using sl fr by (simp add: ws_slots_def)
    ultimately have "ws_inv_at N B (Suc d) s'"
      using cs' log_finished [OF inv t(1) post] s' fr(2) by (simp add: ws_inv_at_def post)
    then show ?thesis by blast
  next
    case hand
    note h = worker_hand [OF st inv t(1) hand]
    have "ws_local B d s' u" if "u < N" for u using that idle ob(3) hand h by (cases "u = t") simp_all
    moreover have "0 < cnt N (ws_pc s') ws_busy" using t(1) h(1) by (rule cnt_pos)
    ultimately have "ws_inv_at N B d s'"
      using cs' sl fr hand by (simp add: ws_inv_at_def ws_slots_def)
    then show ?thesis by blast
  next
    case choose
    then have z: "cnt N (ws_pc s) ws_busy = 0" using ob(2) by (simp add: ws_classes)
    then have nb: "\<not> ws_busy (ws_pc s u)" if "u < N" for u using that by (simp add: cnt_zero_iff)
    have s': "ws_pc s' t = WPostMutex (ws_use s)" "ws_log s' = ws_log s" using st choose by (auto simp: ws_step_defs)
    have use: "ws_use s = d mod B" using cs z by (simp add: ws_counts_def Let_def)
    have log: "ws_log s = concat (map serve_events (take d (ws_accepted s)))" using inv z by (simp add: ws_inv_at_def)
    have "ws_local B d s' u" if "u < N" for u
      using that idle nb s' use log fr(2) by (cases "u = t") (simp_all add: ws_local_def ws_classes ws_knows_def ws_progress_def t(2))
    then have "ws_inv_at N B d s'" using cs' sl fr s' log choose by (simp add: ws_inv_at_def ws_slots_def)
    then show ?thesis by blast
  next
    case quiet
    then have "\<not> ws_busy (ws_pc s' t)" "ws_log s' = ws_log s" "ws_pc s t \<noteq> WPostEmpty"
      using st by (cases "ws_pc s t"; auto simp: ws_step_defs ws_classes split: if_splits)+
    then have "ws_inv_at N B d s'"
      by (intro ws_inv_quiet [OF inv _ _ _ t(1)])
        (use cs' sl fr quiet t(2) in \<open>auto simp: ws_slots_def ws_local_def not_busy_knows\<close>)
    then show ?thesis by blast
  qed
qed

definition ws_inv :: "nat \<Rightarrow> nat \<Rightarrow> ws_state \<Rightarrow> bool" where
  "ws_inv N B s \<longleftrightarrow> (N = 2 \<or> B = 1 \<longrightarrow> (\<exists>d. ws_inv_at N B d s))"

lemma ws_inv_step: "ws_inv (Suc T) B s \<Longrightarrow> i < Suc T \<Longrightarrow> ws_step os h False i s = Some t \<Longrightarrow> ws_inv (Suc T) B t"
  using master_step_inv [of h s t "Suc T" B] ws_worker_step_inv [of os i s t "Suc T" B]
  by (auto simp: ws_inv_def ws_step_def split: if_splits)

interpretation ws: thread_system "ws_step os h False" "Suc T" "ws_main buffer conns" "ws_inv (Suc T) (length buffer)" for os h T buffer conns
proof
  show "ws_inv (Suc T) (length buffer) (ws_main buffer conns)" using ws_inv_init [OF refl] unfolding ws_inv_def by blast
qed (rule ws_inv_step)

lemma ws_inv_prefix:
  assumes "ws_inv_at N B d s"
  shows "prefix (ws_log s) (concat (map serve_events (ws_accepted s)))"
proof -
  let ?acc = "ws_accepted s"
  have all: "concat (map serve_events ?acc) =
      concat (map serve_events (take d ?acc)) @ concat (map serve_events (drop d ?acc))"
    by (simp flip: concat_append map_append)
  show ?thesis
  proof (cases "cnt N (ws_pc s) ws_busy = 0")
    case True
    with assms all show ?thesis by (simp add: ws_inv_at_def)
  next
    case False
    then obtain t where t: "t < N" "ws_busy (ws_pc s t)" using cnt_ex by blast
    then have d: "d < length ?acc" and log: "ws_log s = concat (map serve_events (take d ?acc)) @
        take (ws_progress (ws_pc s t)) (serve_events (?acc ! d))"
      using assms busy_taken [of N B d s t] by (auto simp: ws_inv_at_def ws_local_def)
    from d have "drop d ?acc = ?acc ! d # drop (Suc d) ?acc" by (rule Cons_nth_drop_Suc [symmetric])
    then show ?thesis unfolding all log by (simp add: take_is_prefix prefix_prefix)
  qed
qed

lemma ws_inv_stuck:
  assumes inv: "ws_inv_at N B d s" and N: "1 < N" and B: "0 < B" and stuck: "\<forall>t < N. ws_step os h False t s = None" "\<not> ws_aborted s"
    and no: "\<nexists>f c. ws_pc s 0 = MHandle f c"
  shows "ws_conns s = [] \<and> ws_log s = concat (map serve_events (ws_accepted s))"
proof -
  have cs: "ws_counts N B d s" and loc: "\<And>t. t < N \<Longrightarrow> ws_master (ws_pc s t) \<longleftrightarrow> t = 0"
    using inv by (auto simp: ws_inv_at_def ws_local_def)
  have m: "ws_master_step h s = None" and w: "\<And>t. t < N \<Longrightarrow> t \<noteq> 0 \<Longrightarrow> ws_worker_step os False t s = None"
    using stuck N by (fastforce simp: ws_step_def split: if_splits)+
  have m0: "ws_pc s 0 = MWaitEmpty \<and> ws_empty s = 0 \<or> ws_pc s 0 = MAccept \<and> ws_conns s = [] \<or> (\<exists>f c. ws_pc s 0 = MWaitMutex f c) \<and> ws_mutex s = 0"
    using m loc [of 0] N no by (cases "ws_pc s 0") (auto simp: ws_step_defs ws_classes split: if_splits list.splits option.splits)
  have wt: "ws_pc s t = WWaitFull \<and> ws_full s = 0 \<or> ws_pc s t = WWaitMutex \<and> ws_mutex s = 0" if "t < N" "t \<noteq> 0" for t
    using w [OF that] loc [of t] that by (cases "ws_pc s t") (auto simp: ws_step_defs ws_classes Let_def split: if_splits)
  have cls: "\<not> ws_locked (ws_pc s t) \<and> \<not> ws_busy (ws_pc s t)" if "t < N" for t
    using m0 wt [OF that] by (cases "t = 0") (auto simp: ws_classes)
  then have "cnt N (ws_pc s) ws_locked = 0" and busy: "cnt N (ws_pc s) ws_busy = 0" by (auto simp: cnt_zero_iff)
  with cs have mu: "ws_mutex s = 1" by (simp add: ws_counts_def Let_def)
  with wt have "\<not> ws_coming (ws_pc s t)" if "t < N" for t
    using that m0 by (cases "t = 0") (auto simp: ws_classes)
  then have "cnt N (ws_pc s) ws_coming = 0" by (simp add: cnt_zero_iff)
  moreover have "ws_full s = 0" using wt [of 1] N mu by auto
  ultimately have d: "d = length (ws_accepted s)" using cs busy by (simp add: ws_counts_def Let_def)
  have "ws_pc s 0 \<noteq> MWaitEmpty \<or> ws_empty s \<noteq> 0"
  proof (rule disjCI)
    assume "\<not> (ws_empty s \<noteq> 0)"
    then have "0 < cnt N (ws_pc s) ws_token" using cs d B by (simp add: ws_counts_def Let_def)
    then obtain t where "t < N" "ws_token (ws_pc s t)" using cnt_ex by blast
    moreover from this have "t = 0" using loc [of t] by (cases "ws_pc s t") (auto simp: ws_classes)
    ultimately show "ws_pc s 0 \<noteq> MWaitEmpty" by (auto simp: ws_classes)
  qed
  with m0 mu have "ws_conns s = []" by auto
  with inv busy d show ?thesis by (simp add: ws_inv_at_def)
qed

text \<open>Only a failure of \<open>fork\<close> or \<open>wait\<close> ends the process.\<close>

lemma ws_serve_aborts: "ws_serve os static n path args = Inl e \<Longrightarrow> \<not> (sv_fork os \<and> sv_wait os)"
  by (auto simp: ws_serve_def request_serve_dynamic_def Let_def split: if_splits prod.splits)

lemma master_aborted: "ws_master_step h s = Some s' \<Longrightarrow> ws_aborted s' = ws_aborted s"
  by (cases "ws_pc s 0") (auto simp: ws_step_defs split: if_splits list.splits option.splits prod.splits sum.splits)

lemma worker_aborted: "ws_worker_step os sff t s = Some s' \<Longrightarrow> ws_aborted s' \<Longrightarrow> ws_aborted s \<or> (\<exists>j. \<not> (sv_fork (os j) \<and> sv_wait (os j)))"
  by (cases "ws_pc s t") (auto simp: ws_step_defs Let_def split: if_splits sum.splits dest: ws_serve_aborts)

interpretation ws_alive: thread_system "ws_step os h sff" n "ws_main buffer conns"
  "\<lambda>s. ws_aborted s \<longrightarrow> (\<exists>j. \<not> (sv_fork (os j) \<and> sv_wait (os j)))" for os h sff n buffer conns
  by unfold_locales
    (auto simp: ws_main_def ws_step_def split: if_splits dest: worker_aborted master_aborted)

section \<open>Properties\<close>

text \<open>C23:
  The server with the first in, first out policy and its default of one worker, or with the default of
  one slot: in every reachable state the calls that workers have made are those for the accepted requests
  in the order of acceptance, each with the data of its own request and each connection closed
  before the next one is served. When no thread can move although every \<open>fork\<close> and \<open>wait\<close> has succeeded,
  then either the master is inside \<open>pre_handle_request\<close>, where a client that does not finish its request
  keeps it together with \<open>mutex\<close>, or all connections are used up and every accepted request has been
  served.
\<close>

theorem fifo_serves_in_order:
  assumes "reach (ws_step os (pre_handle_request wr st l) False) (Suc T) (ws_main buffer conns) s"
    and "T = 1 \<or> length buffer = 1" "0 < T" "buffer \<noteq> []"
  shows "prefix (ws_log s) (concat (map serve_events (ws_accepted s))) \<and>
    ((\<forall>t < Suc T. ws_step os (pre_handle_request wr st l) False t s = None) \<and> (\<forall>j. sv_fork (os j) \<and> sv_wait (os j)) \<longrightarrow>
       (\<exists>f c. ws_pc s 0 = MHandle f c) \<or> ws_conns s = [] \<and> ws_log s = concat (map serve_events (ws_accepted s)))"
proof -
  have "ws_inv (Suc T) (length buffer) s" using assms(1) by (rule ws.reach_inv)
  then obtain d where d: "ws_inv_at (Suc T) (length buffer) d s" using assms(2) by (auto simp: ws_inv_def)
  have "ws_aborted s \<longrightarrow> (\<exists>j. \<not> (sv_fork (os j) \<and> sv_wait (os j)))" using assms(1) by (rule ws_alive.reach_inv)
  then show ?thesis using ws_inv_prefix [OF d] ws_inv_stuck [OF d] assms(3,4) by auto
qed

text \<open>A client on descriptor \<open>f\<close> whose request is accepted as \<open>r\<close> whatever the slot held before.\<close>

definition accepts :: "(int \<Rightarrow> Buffer_t \<Rightarrow> conn \<Rightarrow> (fault + result \<times> Buffer_t \<times> conn) option) \<Rightarrow> int \<times> conn \<Rightarrow> Buffer_t \<Rightarrow> bool" where
  "accepts h p r \<longleftrightarrow> (\<exists>c'. \<forall>b. h (fst p) b (snd p) = Some (Inr (OK, r, c')))"

text \<open>Uninterrupted rounds: the master accepts a request, a worker takes one, a worker finishes.\<close>

lemma master_round:
  assumes "reach (ws_step os h sff) N s0 s" "0 < N" "accepts h p r"
    and "\<not> ws_aborted s" "ws_pc s 0 = MWaitEmpty" "0 < ws_empty s" "ws_mutex s = 1" "ws_conns s = Some p # cs"
  shows "reach (ws_step os h sff) N s0 (s\<lparr>ws_empty := ws_empty s - 1, ws_conns := cs,
     ws_buffer := (ws_buffer s)[ws_fill s := r], ws_fill := (ws_fill s + 1) mod length (ws_buffer s),
     ws_accepted := ws_accepted s @ [r], ws_full := ws_full s + 1\<rparr>)" (is "reach _ _ _ ?s")
proof (rule reach_run_sched [OF _ assms(1)])
  obtain f c c' where p: "p = (f, c)" "\<And>b. h f b c = Some (Inr (OK, r, c'))"
    using assms(3) by (cases p) (auto simp: accepts_def)
  have "(ws_pc s)(0 := MWaitEmpty) = ws_pc s" using assms(5) by auto
  then show "run_sched (ws_step os h sff) [0, 0, 0, 0, 0, 0] s = Some ?s"
    using assms(4-8) p by (simp add: ws_step_defs)
qed (use assms(2) in simp)

definition ws_pick :: "bool \<Rightarrow> ws_state \<Rightarrow> nat" where
  "ws_pick sff s = (if sff then sff_search (ws_buffer s) 0 LLONG_MAX (ws_use s) else ws_use s)"

lemma worker_takes:
  assumes "reach (ws_step os h sff) N s0 s" "t < N" "t \<noteq> 0" "\<not> ws_aborted s" "ws_pc s t = WWaitFull" "0 < ws_full s" "ws_mutex s = 1"
    and "ws_pick sff s = k" "k < length (ws_buffer s)" "r = ws_buffer s ! k"
  shows "reach (ws_step os h sff) N s0 ((if sff then s\<lparr>ws_buffer := (ws_buffer s)[k := r\<lparr>handling := True\<rparr>]\<rparr>
       else s\<lparr>ws_use := (ws_use s + 1) mod length (ws_buffer s)\<rparr>)
     \<lparr>ws_full := ws_full s - 1, ws_pc := (ws_pc s)(t := WServe k (is_static r) (fd r) (size r))\<rparr>)"
  by (rule reach_run_sched [OF _ assms(1), of "[t, t, t, t, t]"])
    (use assms(2-10) in \<open>auto simp: ws_step_defs ws_pick_def Let_def\<close>)

lemma worker_finishes:
  assumes "reach (ws_step os h sff) N s0 s" "t < N" "t \<noteq> 0" "\<not> ws_aborted s" "ws_pc s t = WServe k static f n" "r = ws_buffer s ! k"
    and os: "\<forall>j. sv_fork (os j) \<and> sv_wait (os j)"
  shows "reach (ws_step os h sff) N s0 (s\<lparr>ws_log := ws_log s @ [Served static f n (pathname r) (cgiargs r), Closed (fd r)],
     ws_empty := ws_empty s + 1, ws_pc := (ws_pc s)(t := WWaitFull)\<rparr>)"
proof -
  have "\<not> (case ws_serve (os j) b m path args of Inl _ \<Rightarrow> True | Inr _ \<Rightarrow> False)" for j b m path args
    using os ws_serve_aborts [of "os j" b m path args] by (auto split: sum.split)
  then show ?thesis
    by (intro reach_run_sched [OF _ assms(1), of "[t, t, t]"]) (use assms(2-6) in \<open>auto simp: ws_step_defs Let_def\<close>)
qed

text \<open>With two workers and two slots the first in, first out server mixes up requests: while the first
  worker is busy with the first request, the second worker finishes the second one, and the
  slot that is thereby free is not the one that the master fills next. The master overwrites the
  first request, and the first client is sent the file that the third client asked for.
\<close>

theorem fifo_mixes_requests:
  assumes "accepts (pre_handle_request wr st l) p0 r0" "accepts (pre_handle_request wr st l) p1 r1" "accepts (pre_handle_request wr st l) p2 r2"
    and "length buffer = 2" and os: "\<forall>j. sv_fork (os j) \<and> sv_wait (os j)"
  shows "\<exists>s. reach (ws_step os (pre_handle_request wr st l) False) 3 (ws_main buffer [Some p0, Some p1, Some p2]) s \<and>
    ws_log s = serve_events r1 @ [Served (is_static r0) (fd r0) (size r0) (pathname r2) (cgiargs r2), Closed (fd r2)]"
proof -
  let ?st = "ws_step os (pre_handle_request wr st l) False"
  obtain b0 b1 where b: "buffer = [b0, b1]" using assms(4) by (auto simp: numeral_2_eq_2 length_Suc_conv)
  have s0: "ws_main buffer [Some p0, Some p1, Some p2] =
    \<lparr>ws_full = 0, ws_empty = Suc (Suc 0), ws_mutex = Suc 0, ws_use = 0, ws_fill = 0, ws_buffer = [b0, b1],
     ws_conns = [Some p0, Some p1, Some p2], ws_pc = (\<lambda>_. WWaitFull)(0 := MWaitEmpty), ws_accepted = [], ws_log = [], ws_aborted = False\<rparr>" (is "_ = ?s0")
    by (simp add: ws_main_def b)
  have pick: "ws_use s = k \<Longrightarrow> ws_pick False s = k" for s k by (simp add: ws_pick_def)
  have "reach ?st 3 ?s0 ?s0" by (rule reach_start)
  note r1 = master_round [OF this _ assms(1), where cs = "[Some p1, Some p2]", simplified]
  note r2 = worker_takes [OF r1 _ _ _ _ _ _ pick [of _ 0] _ refl, where t = 1, simplified]
  note r3 = master_round [OF r2 _ assms(2), where cs = "[Some p2]", simplified]
  note r4 = worker_takes [OF r3 _ _ _ _ _ _ pick [of _ 1] _ refl, where t = 2, simplified]
  note r5 = worker_finishes [OF r4, where t = 2 and k = 1 and static = "is_static r1" and f = "fd r1" and n = "size r1", OF _ _ _ _ refl os, simplified]
  note r6 = master_round [OF r5 _ assms(3), where cs = "[]", simplified]
  note r7 = worker_finishes [OF r6, where t = 1 and k = 0 and static = "is_static r0" and f = "fd r0" and n = "size r0", OF _ _ _ _ refl os, simplified]
  show ?thesis by (intro exI conjI, unfold s0, rule r7) (simp add: serve_events_def)
qed

text \<open>Shortest file first loses requests, with one worker and two slots already: the worker serves the
  second request, which is shorter, and the master then fills the slot of the first one, which
  nobody has served. In the state reached no slot and no worker holds the first request and no call
  was made for it.
\<close>

theorem sff_loses_request:
  assumes "accepts (pre_handle_request wr st l) p0 r0" "accepts (pre_handle_request wr st l) p1 r1" "accepts (pre_handle_request wr st l) p2 r2"
    and "length buffer = 2" "size r1 < size r0" "size r0 < LLONG_MAX" "fd r0 \<noteq> 0" "fd r1 \<noteq> 0" "\<not> handling r0" "\<not> handling r1"
    and os: "\<forall>j. sv_fork (os j) \<and> sv_wait (os j)"
  shows "\<exists>s. reach (ws_step os (pre_handle_request wr st l) True) 2 (ws_main buffer [Some p0, Some p1, Some p2]) s \<and>
    ws_accepted s = [r0, r1, r2] \<and> ws_log s = serve_events r1 \<and> ws_buffer s = [r2, r1\<lparr>handling := True\<rparr>] \<and>
    ws_pc s = (\<lambda>_. WWaitFull)(0 := MWaitEmpty)"
proof -
  let ?st = "ws_step os (pre_handle_request wr st l) True"
  obtain b0 b1 where b: "buffer = [b0, b1]" using assms(4) by (auto simp: numeral_2_eq_2 length_Suc_conv)
  have s0: "ws_main buffer [Some p0, Some p1, Some p2] =
    \<lparr>ws_full = 0, ws_empty = Suc (Suc 0), ws_mutex = Suc 0, ws_use = 0, ws_fill = 0, ws_buffer = [b0, b1],
     ws_conns = [Some p0, Some p1, Some p2], ws_pc = (\<lambda>_. WWaitFull)(0 := MWaitEmpty), ws_accepted = [], ws_log = [], ws_aborted = False\<rparr>" (is "_ = ?s0")
    by (simp add: ws_main_def b)
  have pick: "ws_buffer s = [r0, r1] \<Longrightarrow> ws_use s = 0 \<Longrightarrow> ws_pick True s = 1" for s
    using assms(5-10) by (simp add: ws_pick_def)
  have "reach ?st 2 ?s0 ?s0" by (rule reach_start)
  note r1 = master_round [OF this _ assms(1), where cs = "[Some p1, Some p2]", simplified]
  note r2 = master_round [OF r1 _ assms(2), where cs = "[Some p2]", simplified]
  note r3 = worker_takes [OF r2 _ _ _ _ _ _ pick _ refl, where t = 1, simplified]
  note r4 = worker_finishes [OF r3, where t = 1 and k = 1 and static = "is_static r1" and f = "fd r1" and n = "size r1", OF _ _ _ _ refl os, simplified]
  note r5 = master_round [OF r4 _ assms(3), where cs = "[]", simplified]
  have pc: "(\<lambda>_. WWaitFull)(0 := MWaitEmpty, Suc 0 := WWaitFull) = (\<lambda>_. WWaitFull)(0 := MWaitEmpty)" by auto
  show ?thesis by (intro exI conjI, unfold s0, rule r5) (simp_all add: serve_events_def pc)
qed

section \<open>Concrete clients\<close>

text \<open>A file system in which every file is readable and as long as its name, and the requests for it.\<close>

definition sized :: "uchar list \<Rightarrow> filestat option" where
  "sized p = Some (readable\<lparr>st_size := int (length p)\<rparr>)"

abbreviation sample_handle :: "int \<Rightarrow> Buffer_t \<Rightarrow> conn \<Rightarrow> (fault + result \<times> Buffer_t \<times> conn) option" where
  "sample_handle \<equiv> pre_handle_request (\<lambda>k. Some 600) sized junk"

definition request :: "int \<Rightarrow> string \<Rightarrow> Buffer_t" where
  "request f u = \<lparr>fd = f, is_static = True, size = int (length u + 1), pathname = bytes ''.'' @ bytes u, cgiargs = [], handling = False\<rparr>"

definition sample_serve :: "nat \<Rightarrow> serve_os" where
  "sample_serve = (\<lambda>_. \<lparr>sv_write = (\<lambda>k. Some 600), sv_files = (\<lambda>p. Some p), sv_fork = True, sv_wait = True, sv_cgi = (\<lambda>p a. [])\<rparr>)"

lemma sample_serve_ok: "\<forall>j. sv_fork (sample_serve j) \<and> sv_wait (sample_serve j)"
  by (simp add: sample_serve_def)

lemma client_accepts:
  assumes "word_ok (bytes u)" "\<not> strstr (bytes u) (bytes ''..'')" "\<not> strstr (bytes u) (bytes ''cgi'')" "length u \<le> 38"
    "last (bytes u) \<noteq> of_char (CHR ''/'')"
  shows "accepts sample_handle (f, client u) (request f u)"
proof -
  have len: "length (bytes ''GET'') + length (bytes u) + length (bytes ''HTTP/1.0'') \<le> 507" using assms(4) by (simp add: bytes_def)
  have hs: "\<forall>h \<in> set [bytes ''Host: a'']. h \<noteq> [] \<and> 10 \<notin> set h \<and> length h \<le> 509" by (simp add: bytes_def)
  have "sample_handle f b (client u) = Some (Inr (OK, request f u, client u\<lparr>rd := []\<rparr>))" for b
  proof -
    have "sample_handle f b (client u) = Some (pre_handle_uri (\<lambda>k. Some 600) sized f (bytes u) b (client u\<lparr>rd := []\<rparr>))"
      by (rule pre_handle_request_lines [OF get_ok(1) assms(1) get_ok(2) len junk_ok hs assms(2)]) (simp add: client_def)
    moreover have "request_parse_uri (bytes u) = Inr (True, bytes ''.'' @ bytes u, [])"
      using parse_uri_static [OF assms(3)] assms(1,4,5) by (simp add: word_ok_def) (simp add: bytes_def)
    ultimately show ?thesis
      using assms(4) by (simp add: pre_handle_uri_def sized_def readable_def SMALL_BUF_def request_def) (simp add: bytes_def)
  qed
  then show ?thesis by (auto simp: accepts_def)
qed

lemma sample_accepts:
  "accepts sample_handle (4, client ''/aaa'') (request 4 ''/aaa'')" "accepts sample_handle (5, client ''/b'') (request 5 ''/b'')"
  "accepts sample_handle (6, client ''/cc'') (request 6 ''/cc'')"
  by (rule client_accepts; simp add: word_ok_def bytes_def isspace_def)+

theorem fifo_serves_in_order_witness:
  "\<exists>s. reach (ws_step sample_serve sample_handle False) 2 (ws_main [no_buffer] [Some (5, client ''/b'')]) s \<and>
    ws_log s = serve_events (request 5 ''/b'') \<and> prefix (ws_log s) (concat (map serve_events (ws_accepted s)))"
proof -
  let ?st = "ws_step sample_serve sample_handle False"
  have s0: "ws_main [no_buffer] [Some (5, client ''/b'')] =
    \<lparr>ws_full = 0, ws_empty = Suc 0, ws_mutex = Suc 0, ws_use = 0, ws_fill = 0, ws_buffer = [no_buffer],
     ws_conns = [Some (5, client ''/b'')], ws_pc = (\<lambda>_. WWaitFull)(0 := MWaitEmpty), ws_accepted = [], ws_log = [], ws_aborted = False\<rparr>" (is "_ = ?s0")
    by (simp add: ws_main_def)
  have pick: "ws_use s = k \<Longrightarrow> ws_pick False s = k" for s k by (simp add: ws_pick_def)
  have "reach ?st 2 ?s0 ?s0" by (rule reach_start)
  note r1 = master_round [OF this _ sample_accepts(2), where cs = "[]", simplified]
  note r2 = worker_takes [OF r1 _ _ _ _ _ _ pick [of _ 0] _ refl, where t = 1, simplified]
  note r3 = worker_finishes [OF r2, where t = 1 and k = 0 and static = "is_static (request 5 ''/b'')" and
      f = "fd (request 5 ''/b'')" and n = "size (request 5 ''/b'')", OF _ _ _ _ refl sample_serve_ok, simplified]
  obtain s where s: "reach ?st 2 (ws_main [no_buffer] [Some (5, client ''/b'')]) s" "ws_log s = serve_events (request 5 ''/b'')"
    by (rule that, unfold s0, rule r3) (simp add: serve_events_def)
  moreover have "prefix (ws_log s) (concat (map serve_events (ws_accepted s)))"
    using fifo_serves_in_order [of sample_serve "\<lambda>k. Some 600" sized junk 1 "[no_buffer]" "[Some (5, client ''/b'')]" s] s(1)
    by (simp add: numeral_2_eq_2)
  ultimately show ?thesis by blast
qed

theorem fifo_mixes_requests_witness:
  "\<exists>s. reach (ws_step sample_serve sample_handle False) 3 (ws_main [no_buffer, no_buffer]
      [Some (4, client ''/aaa''), Some (5, client ''/b''), Some (6, client ''/cc'')]) s \<and>
    Served True 4 5 (bytes ''./cc'') [] \<in> set (ws_log s)"
  using fifo_mixes_requests [OF sample_accepts _ sample_serve_ok, of "[no_buffer, no_buffer]"] by (force simp: request_def bytes_def)

theorem sff_loses_request_witness:
  "\<exists>s. reach (ws_step sample_serve sample_handle True) 2 (ws_main [no_buffer, no_buffer]
      [Some (4, client ''/aaa''), Some (5, client ''/b''), Some (6, client ''/cc'')]) s \<and>
    request 4 ''/aaa'' \<in> set (ws_accepted s) \<and> ws_log s = serve_events (request 5 ''/b'') \<and> request 4 ''/aaa'' \<notin> set (ws_buffer s)"
  using sff_loses_request [OF sample_accepts _ _ _ _ _ _ _ sample_serve_ok, of "[no_buffer, no_buffer]"] by (force simp: request_def LLONG_MAX_def)

end
