(* ===== verification/Utilities.thy ===== *)
theory Utilities
  imports C_Strings
begin

text \<open>
  The utilities of \<^verbatim>\<open>projects/initial-utilities\<close> (\<^verbatim>\<open>wcat\<close>, \<^verbatim>\<open>wgrep\<close>, \<^verbatim>\<open>wzip\<close>, \<^verbatim>\<open>wunzip\<close>) and
  \<^verbatim>\<open>projects/initial-reverse/reverse.c\<close>. A program returns its exit status and what it has written to
  standard output; \<open>None\<close> is an access outside an array. Local arrays that the code does not
  initialise are arguments of the model.
\<close>

type_synonym outcome = "(nat \<times> uchar list) option"

section \<open>Lines and C strings\<close>

text \<open>\<open>getline\<close> called until the end of the file: the lines with their newline characters.\<close>

function getlines :: "uchar list \<Rightarrow> uchar list list" where
  "getlines bs =
    (if bs = [] then []
     else let l = takeWhile (\<lambda>b. b \<noteq> 10) bs; r = dropWhile (\<lambda>b. b \<noteq> 10) bs in
       if r = [] then [l] else (l @ [10]) # getlines (tl r))"
  by pat_completeness auto

termination
proof (relation "measure length", goal_cases)
  case (2 bs l r)
  then have "length (tl r) < length r" by (cases r) auto
  also have "\<dots> \<le> length bs" using 2 by (simp add: length_dropWhile_le)
  finally show ?case by simp
qed simp

declare getlines.simps [simp del]

text \<open>\<open>fgets\<close> with a buffer of \<open>n\<close> bytes: up to a newline, or \<open>n - 1\<close> bytes.\<close>

definition fgets :: "nat \<Rightarrow> uchar list \<Rightarrow> uchar list \<times> uchar list" where
  "fgets n bs =
    (let l = takeWhile (\<lambda>b. b \<noteq> 10) bs in
     if length l < n - 1 then (take (length l + 1) bs, drop (length l + 1) bs) else (take (n - 1) bs, drop (n - 1) bs))"

text \<open>\<open>strcmp\<close> (is it 0?) and \<open>strcpy\<close> on arrays; \<open>None\<close> when they run over the end of one.\<close>

fun strcmp0 :: "uchar list \<Rightarrow> uchar list \<Rightarrow> bool option" where
  "strcmp0 (a # as) (b # bs) = (if a \<noteq> b then Some False else if a = 0 then Some True else strcmp0 as bs)"
| "strcmp0 _ _ = None"

fun strcpy :: "uchar list \<Rightarrow> uchar list \<Rightarrow> uchar list option" where
  "strcpy (d # ds) (s # ss) = (if s = 0 then Some (0 # ds) else map_option ((#) s) (strcpy ds ss))"
| "strcpy _ _ = None"

section \<open>\<open>wcat\<close>\<close>

definition BUFFER_SIZE :: nat where "BUFFER_SIZE = 1024"

function wcat_file :: "uchar list \<Rightarrow> uchar list" where
  "wcat_file bs =
    (if bs = [] then []
     else let (buff, rest) = fgets BUFFER_SIZE bs in bytes ''line: '' @ cstr buff @ wcat_file rest)"
  by pat_completeness auto

termination
  by (relation "measure length") (auto simp: fgets_def BUFFER_SIZE_def Let_def split: if_splits)

declare wcat_file.simps [simp del]

fun wcat_args :: "files \<Rightarrow> string list \<Rightarrow> nat \<times> uchar list" where
  "wcat_args fs [] = (0, [])"
| "wcat_args fs (a # as) =
    (case fs a of None \<Rightarrow> (1, bytes ''wcat: cannot open file\<newline>'')
     | Some bs \<Rightarrow> let (status, out) = wcat_args fs as in (status, wcat_file bs @ out))"

definition wcat :: "files \<Rightarrow> string list \<Rightarrow> nat \<times> uchar list" where
  "wcat fs argv = wcat_args fs (tl argv)"

section \<open>\<open>wgrep\<close>\<close>

definition wgrep_lines :: "uchar list \<Rightarrow> uchar list \<Rightarrow> uchar list" where
  "wgrep_lines t bs = concat (map cstr (filter (\<lambda>l. strstr (cstr l) t) (getlines bs)))"

definition wgrep :: "files \<Rightarrow> uchar list \<Rightarrow> string list \<Rightarrow> nat \<times> uchar list" where
  "wgrep fs stdin argv =
    (if length argv \<le> 1 then (1, bytes ''wgrep: searchterm [file ...]\<newline>'')
     else if length argv \<ge> 3 then
       (case fs (argv ! 2) of None \<Rightarrow> (1, bytes ''wgrep: cannot open file\<newline>'')
        | Some bs \<Rightarrow> (0, wgrep_lines (bytes (argv ! 1)) bs))
     else (0, wgrep_lines (bytes (argv ! 1)) stdin))"

section \<open>\<open>wzip\<close>\<close>

text \<open>The local variables of \<open>main\<close>, which are not initialised.\<close>

record wzip_vars =
  wz_buff :: "uchar list"
  wz_old :: "uchar list"
  wz_count :: uint

text \<open>\<open>writeFile\<close>: four bytes of the count in network order and the character.\<close>

definition writeFile :: "uint \<Rightarrow> uchar list \<Rightarrow> uchar list" where
  "writeFile count oldBuff =
    [ucast (drop_bit 24 count), ucast (drop_bit 16 count), ucast (drop_bit 8 count), ucast count, hd oldBuff]"

fun wzip_loop :: "uchar list \<Rightarrow> wzip_vars \<Rightarrow> (uchar list \<times> wzip_vars) option" where
  "wzip_loop [] s = Some ([], s)"
| "wzip_loop (b # bs) s =
    (let buff = (wz_buff s)[0 := b] in
     case strcmp0 buff (wz_old s) of
       None \<Rightarrow> None
     | Some True \<Rightarrow> wzip_loop bs (s\<lparr>wz_buff := buff, wz_count := wz_count s + 1\<rparr>)
     | Some False \<Rightarrow>
        (case strcpy (wz_old s) buff of None \<Rightarrow> None
         | Some old \<Rightarrow>
            (case wzip_loop bs (s\<lparr>wz_buff := buff, wz_count := 1, wz_old := old\<rparr>) of None \<Rightarrow> None
             | Some (out, s') \<Rightarrow>
                Some ((if hd (wz_old s) \<noteq> 0 then writeFile (wz_count s) (wz_old s) else []) @ out, s'))))"

fun wzip_args :: "files \<Rightarrow> string list \<Rightarrow> wzip_vars \<Rightarrow> outcome" where
  "wzip_args fs [] s = Some (0, writeFile (wz_count s) (wz_old s))"
| "wzip_args fs (a # as) s =
    (case fs a of None \<Rightarrow> Some (1, bytes ''wzip: cannot open file\<newline>'')
     | Some bs \<Rightarrow>
        (case wzip_loop bs s of None \<Rightarrow> None
         | Some (out, s') \<Rightarrow> map_option (apsnd ((@) out)) (wzip_args fs as s')))"

definition wzip :: "wzip_vars \<Rightarrow> files \<Rightarrow> string list \<Rightarrow> outcome" where
  "wzip s fs argv =
    (if length argv \<le> 1 then Some (1, bytes ''wzip: file1 [file2 ...]\<newline>'') else wzip_args fs (tl argv) s)"

section \<open>\<open>wunzip\<close>\<close>

text \<open>\<open>ntohl\<close> of the four bytes read, and how often \<open>for (size_t i = 0; i < count; i++)\<close> repeats: the
  \<open>int\<close> is converted to 64 bits.\<close>

definition ntohl :: "uchar list \<Rightarrow> uint" where
  "ntohl bs = push_bit 24 (ucast (bs ! 0)) OR push_bit 16 (ucast (bs ! 1)) OR push_bit 8 (ucast (bs ! 2)) OR ucast (bs ! 3)"

definition size_t_of :: "uint \<Rightarrow> nat" where
  "size_t_of count = nat (sint count mod 2 ^ 64)"

text \<open>The loop of one file; \<open>buff\<close> is the uninitialised local array of five characters.\<close>

function wunzip_loop :: "uchar list \<Rightarrow> uchar list \<Rightarrow> (uchar list \<times> uchar list) option" where
  "wunzip_loop buff bs =
    (if length bs < 4 then Some ([], buff)
     else if 0 \<notin> set buff then None
     else let count = ntohl (take 4 bs);
              buff = replicate (length (cstr buff)) 0 @ drop (length (cstr buff)) buff;
              rest = drop 4 bs;
              buff = (if rest = [] then buff else buff[0 := hd rest]) in
       if size_t_of count \<noteq> 0 \<and> 0 \<notin> set buff then None
       else map_option (apfst ((@) (concat (replicate (size_t_of count) (cstr buff))))) (wunzip_loop buff (tl rest)))"
  by pat_completeness auto

termination
  by (relation "measure (\<lambda>(_, bs). length bs)") auto

declare wunzip_loop.simps [simp del]

fun wunzip_args :: "files \<Rightarrow> string list \<Rightarrow> uchar list \<Rightarrow> outcome" where
  "wunzip_args fs [] buff = Some (0, [])"
| "wunzip_args fs (a # as) buff =
    (case fs a of None \<Rightarrow> Some (1, bytes ''wunzip: cannot open file\<newline>'')
     | Some bs \<Rightarrow>
        (case wunzip_loop buff bs of None \<Rightarrow> None
         | Some (out, buff') \<Rightarrow> map_option (apsnd ((@) out)) (wunzip_args fs as buff')))"

definition wunzip :: "uchar list \<Rightarrow> files \<Rightarrow> string list \<Rightarrow> outcome" where
  "wunzip buff fs argv =
    (if length argv \<le> 1 then Some (1, bytes ''wunzip: file1 [file2 ...]\<newline>'') else wunzip_args fs (tl argv) buff)"

section \<open>\<open>reverse\<close>\<close>

text \<open>
  Two path names may name the same file, so names are resolved to inode numbers. \<open>fopen\<close> for writing
  truncates the file or creates it under a fresh number; \<open>writable\<close> tells whether it succeeds.
\<close>

record vfs =
  v_names :: "string \<rightharpoonup> nat"
  v_data :: "nat \<Rightarrow> uchar list"

definition fopen_w :: "(string \<Rightarrow> bool) \<Rightarrow> nat \<Rightarrow> string \<Rightarrow> vfs \<Rightarrow> (nat \<times> vfs) option" where
  "fopen_w writable fresh p v =
    (if \<not> writable p then None
     else let i = (case v_names v p of None \<Rightarrow> fresh | Some i \<Rightarrow> i) in
       Some (i, v\<lparr>v_names := (v_names v)(p \<mapsto> i), v_data := (v_data v)(i := [])\<rparr>))"

text \<open>The list of lines, built by putting each line in front, and the printing loop.\<close>

definition reverse_lines :: "uchar list \<Rightarrow> uchar list" where
  "reverse_lines bs = concat (fold (\<lambda>line head. cstr line # head) (getlines bs) [])"

datatype reverse_result = RevError string | RevStdout "uchar list" | RevFile

definition reverse :: "(string \<Rightarrow> bool) \<Rightarrow> nat \<Rightarrow> uchar list \<Rightarrow> string list \<Rightarrow> vfs \<Rightarrow> reverse_result \<times> vfs" where
  "reverse writable fresh stdin argv v =
    (if length argv = 2 then
       (case v_names v (argv ! 1) of None \<Rightarrow> (RevError (''reverse: cannot open file '' @ argv ! 1), v)
        | Some i \<Rightarrow> (RevStdout (reverse_lines (v_data v i)), v))
     else if length argv = 3 then
       (case v_names v (argv ! 1) of None \<Rightarrow> (RevError (''reverse: cannot open file '' @ argv ! 1), v)
        | Some i \<Rightarrow>
          (case fopen_w writable fresh (argv ! 2) v of None \<Rightarrow> (RevError (''reverse: cannot open file '' @ argv ! 2), v)
           | Some (j, v1) \<Rightarrow>
              if i = j then (RevError ''reverse: input and output file must differ'', v1)
              else (RevFile, v1\<lparr>v_data := (v_data v1)(j := reverse_lines (v_data v1 i))\<rparr>)))
     else if length argv > 3 then (RevError ''usage: reverse <input> <output>'', v)
     else (RevStdout (reverse_lines stdin), v))"

section \<open>Facts about lines\<close>

lemma getlines_Nil [simp]: "getlines [] = []"
  by (simp add: getlines.simps)

lemma while_line:
  assumes "x \<notin> set l"
  shows "takeWhile (\<lambda>b. b \<noteq> x) (l @ x # bs) = l" "dropWhile (\<lambda>b. b \<noteq> x) (l @ x # bs) = x # bs"
    "takeWhile (\<lambda>b. b \<noteq> x) l = l" "dropWhile (\<lambda>b. b \<noteq> x) l = []"
  using assms by (induction l) auto

lemma getlines_app: "10 \<notin> set l \<Longrightarrow> getlines (l @ 10 # bs) = (l @ [10]) # getlines bs"
  by (subst getlines.simps) (simp add: while_line)

lemma getlines_last: "10 \<notin> set l \<Longrightarrow> l \<noteq> [] \<Longrightarrow> getlines l = [l]"
  by (subst getlines.simps) (simp add: while_line)

text \<open>Splitting a text at its newlines: an induction rule for \<open>getlines\<close>.\<close>

lemma lines_induct [case_names Nil Last Line]:
  assumes "P []" and "\<And>l. 10 \<notin> set l \<Longrightarrow> l \<noteq> [] \<Longrightarrow> P l" and "\<And>l bs. 10 \<notin> set l \<Longrightarrow> P bs \<Longrightarrow> P (l @ 10 # bs)"
  shows "P (bs :: uchar list)"
proof (induction bs rule: length_induct)
  case (1 bs)
  show ?case
  proof (cases "10 \<in> set bs")
    case True
    then obtain l cs where "bs = l @ 10 # cs" "10 \<notin> set l" using split_list_first by metis
    with 1 assms(3) show ?thesis by simp
  next
    case False
    then show ?thesis using assms(1,2) by (cases "bs = []") auto
  qed
qed

lemma concat_getlines [simp]: "concat (getlines bs) = bs"
  by (induction bs rule: lines_induct) (simp_all add: getlines_app getlines_last)

lemma getlines_line: "l \<in> set (getlines bs) \<Longrightarrow> l \<noteq> [] \<and> 10 \<notin> set (butlast l)"
  by (induction bs rule: lines_induct) (auto simp: getlines_app getlines_last butlast_append dest: in_set_butlastD)

lemma getlines_ends: "l \<in> set (butlast (getlines bs)) \<Longrightarrow> last l = 10"
  by (induction bs rule: lines_induct) (auto simp: getlines_app getlines_last split: if_splits)

lemma set_getlines: "l \<in> set (getlines bs) \<Longrightarrow> set l \<subseteq> set bs"
  using concat_getlines [of bs] by (metis UN_upper set_concat)

lemma map_cstr_getlines: "0 \<notin> set bs \<Longrightarrow> map cstr (getlines bs) = getlines bs"
  using set_getlines by (intro map_idI) (auto intro!: cstr_id)

lemma fold_Cons_map: "fold (\<lambda>x xs. f x # xs) ys zs = rev (map f ys) @ zs"
  by (induction ys arbitrary: zs) simp_all

lemma reverse_lines_eq: "0 \<notin> set bs \<Longrightarrow> reverse_lines bs = concat (rev (getlines bs))"
  by (simp add: reverse_lines_def fold_Cons_map map_cstr_getlines)

lemma getlines_concat:
  "(\<And>l. l \<in> set ls \<Longrightarrow> \<exists>k. 10 \<notin> set k \<and> l = k @ [10]) \<Longrightarrow> getlines (concat ls) = ls"
proof (induction ls)
  case (Cons l ls)
  then obtain k where "10 \<notin> set k" "l = k @ [10]" by auto
  with Cons show ?case by (simp add: getlines_app)
qed simp

lemma full_lines: "bs = [] \<or> last bs = 10 \<Longrightarrow> l \<in> set (getlines bs) \<Longrightarrow> \<exists>k. 10 \<notin> set k \<and> l = k @ [10]"
proof (induction bs rule: lines_induct)
  case (Line k bs)
  then show ?case by (cases "bs = []") (auto simp: getlines_app)
qed (auto simp: getlines_last dest: last_in_set)

lemma fgets_piece:
  assumes "bs \<noteq> []" and "fgets BUFFER_SIZE bs = (q, rest)"
  shows "bs = q @ rest" "q \<noteq> []" "length q \<le> 1023" "10 \<notin> set (butlast q)"
proof -
  let ?l = "takeWhile (\<lambda>b. b \<noteq> 10) bs"
  have l: "10 \<notin> set ?l" by (auto dest: set_takeWhileD)
  obtain n where n: "q = take n bs" "rest = drop n bs" "0 < n" "n \<le> 1023" "n \<le> length ?l + 1"
    using assms(2) by (auto simp: fgets_def BUFFER_SIZE_def Let_def split: if_splits)
  show "bs = q @ rest" "q \<noteq> []" "length q \<le> 1023" using n assms(1) by auto
  have "butlast q = take (min n (length bs) - 1) bs" by (simp add: n(1) butlast_conv_take min.commute)
  also have "\<dots> = take (min n (length bs) - 1) ?l"
  proof -
    have "take m bs = take m ?l" if "m \<le> length ?l" for m
      using that arg_cong [OF takeWhile_eq_take [of "\<lambda>b. b \<noteq> 10" bs], of "take m"]
      by (simp only: take_take min.absorb1)
    then show ?thesis using n(5) by simp
  qed
  finally show "10 \<notin> set (butlast q)" using l by (auto dest: in_set_takeD)
qed

section \<open>Run-length coding\<close>

lemma length_writeFile [simp]: "length (writeFile n old) = 5"
  by (simp add: writeFile_def)

lemma be_bytes:
  "push_bit 24 (ucast (ucast (drop_bit 24 n) :: uchar)) OR push_bit 16 (ucast (ucast (drop_bit 16 n) :: uchar)) OR
   push_bit 8 (ucast (ucast (drop_bit 8 n) :: uchar)) OR ucast (ucast n :: uchar) = (n :: uint)" (is "?l = n")
proof (rule bit_word_eqI)
  fix k assume "k < LENGTH(32)"
  then consider "k < 8" | "8 \<le> k" "k < 16" | "16 \<le> k" "k < 24" | "24 \<le> k" "k < 32" by force
  then show "bit ?l k = bit n k" by cases (auto simp: bit_simps)
qed

lemma ntohl_writeFile: "ntohl (take 4 (writeFile n old @ bs)) = n"
  using be_bytes [of n] by (simp add: writeFile_def ntohl_def)

lemma size_t_of_nat: "n < 2 ^ 31 \<Longrightarrow> size_t_of (of_nat n) = n"
proof -
  assume n: "n < 2 ^ 31"
  then have "sint (of_nat n :: uint) = int n" by (simp add: sint_uint unsigned_of_nat take_bit_nat_eq_self signed_take_bit_int_eq_self flip: uint_nat) 
  then show ?thesis using n by (simp add: size_t_of_def)
qed

text \<open>Reading back one run, with a buffer that holds one character and zeros.\<close>

lemma wunzip_loop_run:
  assumes "buff = b # replicate 4 0" and "c \<noteq> 0" and "n < 2 ^ 31"
  shows "wunzip_loop buff (writeFile (of_nat n) (c # old) @ bs) =
    map_option (apfst ((@) (replicate n c))) (wunzip_loop (c # replicate 4 0) bs)"
proof -
  let ?w = "writeFile (of_nat n) (c # old)"
  have w: "drop 4 (?w @ bs) = c # bs" by (simp add: writeFile_def)
  have buff: "replicate (length (cstr buff)) 0 @ drop (length (cstr buff)) buff = replicate 5 0"
    using assms(1) by (cases "b = 0") (simp_all add: cstr_def eval_nat_numeral)
  have c: "cstr (c # replicate 4 0) = [c]" "(replicate 5 0)[0 := c] = c # replicate 4 0" "0 \<in> set (c # replicate 4 0)"
    using assms(2) by (simp_all add: cstr_def eval_nat_numeral)
  have "concat (replicate n [c]) = replicate n c" by (induction n) simp_all
  moreover have "0 \<in> set buff" using assms(1) by simp
  moreover have "\<not> length (?w @ bs) < 4" by simp
  ultimately show ?thesis
    by (subst wunzip_loop.simps)
      (simp only: ntohl_writeFile size_t_of_nat [OF assms(3)] buff w Let_def c list.distinct list.sel if_False if_True simp_thms)
qed

lemma wzip_loop_decodes:
  assumes "wz_buff s = [x, 0]" "wz_old s = [c, 0]" "c \<noteq> 0" "wz_count s = of_nat n" "n + length bs < 2 ^ 31" "0 \<notin> set bs"
  shows "\<exists>out s'. wzip_loop bs s = Some (out, s') \<and>
    (\<forall>b. map_option fst (wunzip_loop (b # replicate 4 0) (out @ writeFile (wz_count s') (wz_old s'))) = Some (replicate n c @ bs))"
  using assms
proof (induction bs arbitrary: s x c n)
  case Nil
  have "wunzip_loop (c # replicate 4 0) [] = Some ([], c # replicate 4 0)" by (simp add: wunzip_loop.simps)
  then show ?case
    using wunzip_loop_run [OF refl Nil(3), of n _ "[0]" "[]"] Nil by simp
next
  case (Cons d bs)
  show ?case
  proof (cases "d = c")
    case True
    let ?s = "s\<lparr>wz_buff := [d, 0], wz_count := wz_count s + 1\<rparr>"
    have "wzip_loop (d # bs) s = wzip_loop bs ?s" using Cons.prems True by simp
    moreover have "replicate (Suc n) c @ bs = replicate n c @ d # bs" using True by (simp add: replicate_app_Cons_same)
    ultimately show ?thesis using Cons.IH [of ?s d c "Suc n"] Cons.prems True by (simp add: add.commute)
  next
    case False
    let ?s = "s\<lparr>wz_buff := [d, 0], wz_count := 1, wz_old := [d, 0]\<rparr>"
    obtain out s' where out: "wzip_loop bs ?s = Some (out, s')"
      "\<And>b. map_option fst (wunzip_loop (b # replicate 4 0) (out @ writeFile (wz_count s') (wz_old s'))) = Some (replicate 1 d @ bs)"
      using Cons.IH [of ?s d d 1] Cons.prems by auto
    have "wzip_loop (d # bs) s = Some (writeFile (of_nat n) (c # [0]) @ out, s')"
      using Cons.prems False out(1) by simp
    moreover have "map_option fst (wunzip_loop (b # replicate 4 0)
        (writeFile (of_nat n) (c # [0]) @ out @ writeFile (wz_count s') (wz_old s'))) = Some (replicate n c @ d # bs)" for b
      using wunzip_loop_run [OF refl Cons.prems(3), of n b "[0]"] Cons.prems out(2) [of c]
      by (auto simp: option.map_comp)
    ultimately show ?thesis by simp
  qed
qed

lemma wzip_loop_append:
  "wzip_loop (as @ bs) s = (case wzip_loop as s of None \<Rightarrow> None | Some (out, s1) \<Rightarrow>
     map_option (apfst ((@) out)) (wzip_loop bs s1))"
  by (induction as arbitrary: s)
    (auto simp: Let_def option.map_comp apfst_def map_prod_def option.map_id split: option.splits bool.splits prod.splits)

lemma wzip_args_concat:
  "(\<And>a. a \<in> set as \<Longrightarrow> fs a \<noteq> None) \<Longrightarrow>
   wzip_args fs as s = (case wzip_loop (concat (map (content fs) as)) s of None \<Rightarrow> None
     | Some (out, s') \<Rightarrow> Some (0, out @ writeFile (wz_count s') (wz_old s')))"
proof (induction as arbitrary: s)
  case (Cons a as)
  then obtain bs where "fs a = Some bs" by auto
  then show ?case using Cons.IH Cons.prems
    by (auto simp: wzip_loop_append content_def split: option.splits)
qed simp

section \<open>Properties\<close>

text \<open>
  C36: Round trip of \<open>wzip\<close> and \<open>wunzip\<close>. When the local arrays of the two programs happen to be zero
  (they are not initialised), compressing any files without zero bytes, together not empty and
  shorter than \<open>2 ^ 31\<close> bytes, succeeds, and uncompressing the result writes the concatenation of
  the files.
\<close>

theorem wzip_wunzip:
  assumes "wz_buff s = [x, 0]" and "wz_old s = [0, y]" and "args \<noteq> []"
    and "\<And>a. a \<in> set args \<Longrightarrow> fs a \<noteq> None"
    and "bs = concat (map (content fs) args)" and "bs \<noteq> []" and "0 \<notin> set bs" and "length bs < 2 ^ 31"
  shows "\<exists>out. wzip s fs (p # args) = Some (0, out) \<and>
    wunzip (replicate 5 0) (fs(z \<mapsto> out)) [q, z] = Some (0, bs)"
proof -
  obtain d ds where bs: "bs = d # ds" using assms(6) by (cases bs) auto
  let ?s = "s\<lparr>wz_buff := [d, 0], wz_count := 1, wz_old := [d, 0]\<rparr>"
  obtain out s' where out: "wzip_loop ds ?s = Some (out, s')"
    "map_option fst (wunzip_loop (0 # replicate 4 0) (out @ writeFile (wz_count s') (wz_old s'))) = Some (replicate 1 d @ ds)"
    using wzip_loop_decodes [of ?s d d 1 ds] assms(7,8) bs by auto
  have first: "wzip_loop bs s = Some (out, s')"
    using assms(1,2,7) out(1) bs by simp
  then have "wzip s fs (p # args) = Some (0, out @ writeFile (wz_count s') (wz_old s'))"
    using assms(3,4) wzip_args_concat [of args fs s] assms(5) by (simp add: wzip_def)
  moreover have "replicate 5 0 = 0 # replicate 4 (0 :: uchar)" by (simp add: eval_nat_numeral)
  ultimately show ?thesis
    using out(2) bs by (auto simp: wunzip_def)
qed

theorem wzip_wunzip_witness:
  "\<exists>out. wzip \<lparr>wz_buff = [0, 0], wz_old = [0, 0], wz_count = 7\<rparr> [''f'' \<mapsto> [97, 97, 98]] [''wzip'', ''f''] = Some (0, out) \<and>
     wunzip (replicate 5 0) [''f'' \<mapsto> [97, 97, 98], ''z'' \<mapsto> out] [''wunzip'', ''z''] = Some (0, [97, 97, 98])"
  using wzip_wunzip [of "\<lparr>wz_buff = [0, 0], wz_old = [0, 0], wz_count = 7\<rparr>" 0 0 "[''f'']" "[''f'' \<mapsto> [97, 97, 98]]"
      "[97, 97, 98]" "''wzip''" "''z''" "''wunzip''"] by (simp add: content_def)

text \<open>
  Zero bytes are lost: a run of them is not written when another character follows, because an
  empty \<open>oldBuff\<close> is taken for the start of the input.
\<close>

theorem wzip_loses_zero_bytes:
  "\<exists>out. wzip \<lparr>wz_buff = [0, 0], wz_old = [0, 0], wz_count = 0\<rparr> [''f'' \<mapsto> [97, 0, 0, 98]] [''wzip'', ''f''] = Some (0, out) \<and>
     wunzip (replicate 5 0) [''z'' \<mapsto> out] [''wunzip'', ''z''] = Some (0, [97, 98])"
proof -
  have "wzip \<lparr>wz_buff = [0, 0], wz_old = [0, 0], wz_count = 0\<rparr> [''f'' \<mapsto> [97, 0, 0, 98]] [''wzip'', ''f''] =
      Some (0, [0, 0, 0, 1, 97, 0, 0, 0, 1, 98])" by code_simp
  moreover have "wunzip (replicate 5 0) [''z'' \<mapsto> [0, 0, 0, 1, 97, 0, 0, 0, 1, 98]] [''wunzip'', ''z''] = Some (0, [97, 98])"
    by code_simp
  ultimately show ?thesis by blast
qed

text \<open>
  \<open>wgrep\<close> prints exactly the lines in which the search term occurs, in their order, for any input
  without zero bytes; the lines are the pieces of the file, each of which ends at its first newline.
\<close>

theorem wgrep_matching_lines:
  assumes "0 \<notin> set bs"
  shows "\<exists>ls. concat ls = bs \<and> (\<forall>l \<in> set ls. l \<noteq> [] \<and> 10 \<notin> set (butlast l)) \<and>
    (\<forall>l \<in> set (butlast ls). last l = 10) \<and>
    wgrep (fs(f \<mapsto> bs)) stdin [p, t, f] =
      (0, concat (filter (\<lambda>l. \<exists>pre post. l = pre @ bytes t @ post) ls)) \<and>
    wgrep fs bs [p, t] = (0, concat (filter (\<lambda>l. \<exists>pre post. l = pre @ bytes t @ post) ls))"
proof (intro exI [of _ "getlines bs"] conjI ballI)
  have c: "cstr l = l" if "l \<in> set (getlines bs)" for l
    using assms set_getlines [OF that] by (intro cstr_id) auto
  have "filter (\<lambda>l. strstr (cstr l) (bytes t)) (getlines bs) = filter (\<lambda>l. \<exists>pre post. l = pre @ bytes t @ post) (getlines bs)"
    using c by (intro filter_cong) (simp_all add: strstr_iff)
  moreover have "map cstr (filter P (getlines bs)) = filter P (getlines bs)" for P
    using c by (intro map_idI) simp
  ultimately show "wgrep (fs(f \<mapsto> bs)) stdin [p, t, f] = (0, concat (filter (\<lambda>l. \<exists>pre post. l = pre @ bytes t @ post) (getlines bs)))"
    "wgrep fs bs [p, t] = (0, concat (filter (\<lambda>l. \<exists>pre post. l = pre @ bytes t @ post) (getlines bs)))"
    by (simp_all add: wgrep_def wgrep_lines_def)
qed (use getlines_line getlines_ends in auto)

theorem wgrep_matching_lines_witness:
  "\<exists>ls. concat ls = bytes ''ab\<newline>cd\<newline>'' \<and>
     wgrep Map.empty (bytes ''ab\<newline>cd\<newline>'') [''wgrep'', ''b''] =
       (0, concat (filter (\<lambda>l. \<exists>pre post. l = pre @ bytes ''b'' @ post) ls))"
proof -
  have "0 \<notin> set (bytes ''ab\<newline>cd\<newline>'')" by (simp add: bytes_def)
  from wgrep_matching_lines [OF this] show ?thesis by blast
qed

text \<open>
  \<open>reverse\<close> writes the lines of its input in reverse order, and reversing the output again gives
  the input back when every line is ended by a newline.
\<close>

theorem reverse_twice:
  assumes "0 \<notin> set bs" and "bs = [] \<or> last bs = 10"
    and "v_names v f = Some i" and "v_data v i = bs" and "v_names v g = Some j" and "i \<noteq> j"
    and "reverse (\<lambda>_. True) fresh stdin [p, f, g] v = (r, v1)" and "reverse (\<lambda>_. True) fresh stdin [p, g, f] v1 = (r2, v2)"
  shows "v_data v1 j = concat (rev (getlines bs)) \<and> v_data v1 i = bs \<and> v_data v2 i = bs"
proof -
  have j: "v_data v1 j = reverse_lines bs" "v_data v1 i = bs" "v_names v1 g = Some j" "v_names v1 f = Some i"
    using assms(3-7) by (auto simp: reverse_def fopen_w_def)
  then have "v_data v2 i = reverse_lines (reverse_lines bs)"
    using assms(6,8) by (auto simp: reverse_def fopen_w_def)
  moreover have rl: "reverse_lines bs = concat (rev (getlines bs))" using assms(1) by (rule reverse_lines_eq)
  moreover have "reverse_lines (concat (rev (getlines bs))) = bs"
  proof -
    have "set (concat (rev (getlines bs))) = set bs" by (metis concat_getlines set_concat set_rev)
    then have "reverse_lines (concat (rev (getlines bs))) = concat (rev (getlines (concat (rev (getlines bs)))))"
      using assms(1) by (intro reverse_lines_eq) simp
    also have "getlines (concat (rev (getlines bs))) = rev (getlines bs)"
      using full_lines [OF assms(2)] by (intro getlines_concat) simp
    finally show ?thesis by simp
  qed
  ultimately show ?thesis using j by simp
qed

theorem reverse_twice_witness:
  "\<exists>v1 v2. reverse (\<lambda>_. True) 9 [] [''reverse'', ''f'', ''g''] \<lparr>v_names = [''f'' \<mapsto> 0, ''g'' \<mapsto> 1], v_data = (\<lambda>_. [])(0 := [97, 10, 98, 10])\<rparr> =
       (RevFile, v1) \<and>
     reverse (\<lambda>_. True) 9 [] [''reverse'', ''g'', ''f''] v1 = (RevFile, v2) \<and>
     v_data v1 1 = concat (rev (getlines [97, 10, 98, 10])) \<and> v_data v2 0 = [97, 10, 98, 10]"
proof -
  let ?v = "\<lparr>v_names = [''f'' \<mapsto> 0, ''g'' \<mapsto> 1], v_data = (\<lambda>_. [])(0 := [97, 10, 98, 10 :: uchar])\<rparr>"
  obtain v1 where v1: "reverse (\<lambda>_. True) 9 [] [''reverse'', ''f'', ''g''] ?v = (RevFile, v1)"
    "v_names v1 = [''f'' \<mapsto> 0, ''g'' \<mapsto> 1]"
    by (simp add: reverse_def fopen_w_def fun_upd_def fun_eq_iff)
  obtain v2 where v2: "reverse (\<lambda>_. True) 9 [] [''reverse'', ''g'', ''f''] v1 = (RevFile, v2)"
    using v1(2) by (simp add: reverse_def fopen_w_def)
  have "v_data v1 1 = concat (rev (getlines [97, 10, 98, 10])) \<and> v_data v1 0 = [97, 10, 98, 10] \<and> v_data v2 0 = [97, 10, 98, 10]"
    by (rule reverse_twice [OF _ _ _ _ _ _ v1(1) v2]) simp_all
  then show ?thesis using v1(1) v2 by blast
qed

text \<open>
  \<open>reverse\<close> destroys a file that is given as both input and output, also under two names: it refuses
  with the message that the files must differ only after \<open>fopen\<close> has truncated the file.
\<close>

theorem reverse_same_file:
  assumes "v_names v f = Some i" and "v_names v g = Some i" and "writable g"
  shows "\<exists>v'. reverse writable fresh stdin [p, f, g] v = (RevError ''reverse: input and output file must differ'', v') \<and>
    v_data v' i = []"
  using assms by (simp add: reverse_def fopen_w_def)

theorem reverse_same_file_witness:
  "\<exists>v'. reverse (\<lambda>_. True) 9 [] [''reverse'', ''f'', ''f''] \<lparr>v_names = [''f'' \<mapsto> 0], v_data = (\<lambda>_. [97, 10])\<rparr> =
       (RevError ''reverse: input and output file must differ'', v') \<and> v_data v' 0 = []"
  using reverse_same_file [of "\<lparr>v_names = [''f'' \<mapsto> 0], v_data = (\<lambda>_. [97, 10])\<rparr>" "''f''" 0 "''f''" "\<lambda>_. True" 9 "[]" "''reverse''"]
  by simp

text \<open>
  \<open>wcat\<close> cuts a file without zero bytes into pieces that together are the file, none longer than
  1023 bytes and none with a newline before its end, and prints each piece behind the text
  \<open>line: \<close>, so that the output is not the content of the file unless the file is empty.
\<close>

theorem wcat_pieces:
  assumes "0 \<notin> set bs"
  shows "\<exists>ps. concat ps = bs \<and> (\<forall>q \<in> set ps. q \<noteq> [] \<and> length q \<le> 1023 \<and> 10 \<notin> set (butlast q)) \<and>
    wcat (fs(f \<mapsto> bs)) [p, f] = (0, concat (map (\<lambda>q. bytes ''line: '' @ q) ps))"
proof -
  have "\<exists>ps. concat ps = bs \<and> (\<forall>q \<in> set ps. q \<noteq> [] \<and> length q \<le> 1023 \<and> 10 \<notin> set (butlast q)) \<and>
      wcat_file bs = concat (map (\<lambda>q. bytes ''line: '' @ q) ps)"
    using assms
  proof (induction bs rule: wcat_file.induct)
    case (1 bs)
    show ?case
    proof (cases "bs = []")
      case True
      then show ?thesis by (auto simp: wcat_file.simps intro: exI [of _ "[]"])
    next
      case False
      obtain q rest where q: "fgets BUFFER_SIZE bs = (q, rest)" by fastforce
      note f = fgets_piece [OF False q]
      then obtain ps where ps: "concat ps = rest" "\<forall>q \<in> set ps. q \<noteq> [] \<and> length q \<le> 1023 \<and> 10 \<notin> set (butlast q)"
        "wcat_file rest = concat (map (\<lambda>q. bytes ''line: '' @ q) ps)"
        using 1 False q by fastforce
      have "cstr q = q" using 1(2) f(1) by (intro cstr_id) auto
      then have "wcat_file bs = concat (map (\<lambda>q. bytes ''line: '' @ q) (q # ps))"
        using False q ps(3) by (subst wcat_file.simps) simp
      then show ?thesis using f ps(1,2) by (intro exI [of _ "q # ps"]) simp
    qed
  qed
  then show ?thesis by (auto simp: wcat_def)
qed

theorem wcat_pieces_witness:
  "\<exists>ps. concat ps = [97, 10, 98] \<and> wcat [''f'' \<mapsto> [97, 10, 98]] [''wcat'', ''f''] = (0, concat (map (\<lambda>q. bytes ''line: '' @ q) ps))"
  using wcat_pieces [of "[97, 10, 98]" Map.empty "''f''" "''wcat''"] by auto

end
