(* ===== verification/Wish.thy ===== *)
theory Wish
  imports Utilities
begin

text \<open>
  The shell \<^verbatim>\<open>projects/processes-shell/wish.c\<close>. Its state is the array of search directories; what it
  does is recorded as a list of events. Main starts a thread per command of a line and joins them; the
  threads share the array without a lock, so they are interleaved access by access. The answers of the
  operating system (\<open>access\<close>, \<open>chdir\<close>, \<open>fopen\<close>, \<open>fork\<close>, \<open>execv\<close>, \<open>pthread_create\<close>) are a parameter and may
  depend on what has happened before; a program that is started is taken to end.
\<close>

section \<open>State and environment\<close>

definition BUFF_SIZE :: nat where "BUFF_SIZE = 256"

datatype sh_event =
  ErrorMsg | Truncate "uchar list" | RunProgram "uchar list" "uchar list list" "uchar list option" | ChildError | Chdir "uchar list"

record shell =
  paths :: "uchar list option list"
  events :: "sh_event list"
  exited :: bool

record sh_os =
  os_access :: "sh_event list \<Rightarrow> uchar list \<Rightarrow> bool"
  os_chdir :: "sh_event list \<Rightarrow> uchar list \<Rightarrow> bool"
  os_fopen :: "sh_event list \<Rightarrow> uchar list \<Rightarrow> bool"
  os_fork :: "sh_event list \<Rightarrow> uchar list \<Rightarrow> bool"
  os_execv :: "sh_event list \<Rightarrow> uchar list \<Rightarrow> bool"
  os_create :: "sh_event list \<Rightarrow> nat \<Rightarrow> bool"

text \<open>Undefined behaviour: an index outside an array, a null pointer printed with \<open>%s\<close>, the join of a
  thread that was not created.\<close>

datatype sh_fault = OffArray | NullString | NoThread

definition shell_init :: shell where
  "shell_init = \<lparr>paths = Some (bytes ''/bin'') # replicate 255 None, events = [], exited = False\<rparr>"

definition emit :: "sh_event \<Rightarrow> shell \<Rightarrow> shell" where
  "emit e sh = sh\<lparr>events := events sh @ [e]\<rparr>"

abbreviation printError :: "shell \<Rightarrow> shell" where
  "printError \<equiv> emit ErrorMsg"

text \<open>Where the thread of a command is: before \<open>parseInput\<close>; before \<open>executeCommands\<close>; in the loop of
  \<open>path\<close>, with the index; in \<open>searchPath\<close>, before the test of \<open>paths[i]\<close> and before the use of it; before
  \<open>fork\<close>.\<close>

datatype sh_pc =
  NotCreated | Parsing "uchar list" | Exec "uchar list list" "uchar list option" | PathStore "uchar list list" nat
| Search "uchar list list" "uchar list option" nat | Form "uchar list list" "uchar list option" nat
| Spawn "uchar list" "uchar list list" "uchar list option" | Returned

section \<open>Commands\<close>

text \<open>\<open>trim\<close>: the leading spaces are skipped; a string of spaces gives the empty string; otherwise the
  trailing spaces are cut off, but never the first character.\<close>

fun cut_trailing :: "uchar list \<Rightarrow> uchar list" where
  "cut_trailing s = (if 1 < length s \<and> isspace (last s) then cut_trailing (butlast s) else s)"

declare cut_trailing.simps [simp del]

definition trim :: "uchar list \<Rightarrow> uchar list" where
  "trim s = cut_trailing (dropWhile isspace s)"

text \<open>The arguments: the tokens between spaces and tabs that are not empty, trimmed, at most
  \<open>BUFF_SIZE\<close> of them.\<close>

definition split_args :: "uchar list \<Rightarrow> uchar list list" where
  "split_args command = map trim (take BUFF_SIZE (filter (\<lambda>t. t \<noteq> []) (strsep_all [32, 9] command)))"

text \<open>\<open>parseInput\<close>, up to the call of \<open>executeCommands\<close>. The regular expression asks for white space
  between two other characters.\<close>

definition parseInput :: "sh_os \<Rightarrow> uchar list \<Rightarrow> shell \<Rightarrow> sh_pc \<times> shell" where
  "parseInput os commandLine sh =
    (let (command, rest) = strsep [62] commandLine in
     if command = [] then (Returned, printError sh)
     else
       let args = split_args (trim command);
           execute = (\<lambda>out. if args = [] then Returned else Exec args out) in
       case rest of
         None \<Rightarrow> (execute None, sh)
       | Some r \<Rightarrow>
           if 2 \<le> length (scan_words r) \<or> strstr r [62] then (Returned, printError sh)
           else if trim r \<noteq> [] \<and> os_fopen os (events sh) (trim r) then (execute (Some (trim r)), emit (Truncate (trim r)) sh)
           else (Returned, printError sh))"

text \<open>\<open>executeCommands\<close> up to the next access to \<open>paths\<close>. The \<open>path\<close> command clears entry 0 first.\<close>

definition executeCommands :: "sh_os \<Rightarrow> uchar list list \<Rightarrow> uchar list option \<Rightarrow> shell \<Rightarrow> sh_pc \<times> shell" where
  "executeCommands os args out sh =
    (if hd args = bytes ''exit'' then
       (Returned, if length args > 1 then printError sh else sh\<lparr>exited := True\<rparr>)
     else if hd args = bytes ''cd'' then
       (Returned,
        if length args = 1 \<or> length args > 2 then printError sh
        else if os_chdir os (events sh) (args ! 1) then emit (Chdir (args ! 1)) sh else printError sh)
     else if hd args = bytes ''path'' then (PathStore args 0, sh\<lparr>paths := (paths sh)[0 := None]\<rparr>)
     else (Search args out 0, sh))"

text \<open>One round of the loop of \<open>path\<close>: the next argument is stored; behind the last one the entry after
  the next is cleared.\<close>

definition path_store :: "uchar list list \<Rightarrow> nat \<Rightarrow> shell \<Rightarrow> sh_fault + sh_pc \<times> shell" where
  "path_store args i sh =
    (if i < length args - 1 then
       if i < BUFF_SIZE then Inr (PathStore args (i + 1), sh\<lparr>paths := (paths sh)[i := Some (args ! (i + 1))]\<rparr>) else Inl OffArray
     else if i + 1 < BUFF_SIZE then Inr (Returned, sh\<lparr>paths := (paths sh)[i + 1 := None]\<rparr>) else Inl OffArray)"

text \<open>\<open>searchPath\<close>: the first directory with an executable file of that name; the name is cut to the size
  of the array. The loop reads \<open>paths[i]\<close> for its test, and \<open>snprintf\<close> reads it again.\<close>

definition searchPath_test :: "uchar list list \<Rightarrow> uchar list option \<Rightarrow> nat \<Rightarrow> shell \<Rightarrow> sh_fault + sh_pc \<times> shell" where
  "searchPath_test args out i sh =
    (if BUFF_SIZE \<le> i then Inl OffArray
     else case paths sh ! i of None \<Rightarrow> Inr (Returned, printError sh) | Some _ \<Rightarrow> Inr (Form args out i, sh))"

definition searchPath_form :: "sh_os \<Rightarrow> uchar list list \<Rightarrow> uchar list option \<Rightarrow> nat \<Rightarrow> shell \<Rightarrow> sh_fault + sh_pc \<times> shell" where
  "searchPath_form os args out i sh =
    (case paths sh ! i of
       None \<Rightarrow> Inl NullString
     | Some d \<Rightarrow>
         let path = take (BUFF_SIZE - 1) (d @ [47] @ hd args) in
         Inr (if os_access os (events sh) path then Spawn path args out else Search args out (i + 1), sh))"

text \<open>The child redirects its output and its error output to the file, if there is one, and runs the
  program; without a null pointer behind the arguments \<open>execv\<close> reads outside the array.\<close>

definition spawn :: "sh_os \<Rightarrow> uchar list \<Rightarrow> uchar list list \<Rightarrow> uchar list option \<Rightarrow> shell \<Rightarrow> sh_fault + sh_pc \<times> shell" where
  "spawn os path args out sh =
    (if \<not> os_fork os (events sh) path then Inr (Returned, printError sh)
     else if length args \<ge> BUFF_SIZE then Inl OffArray
     else Inr (Returned, emit (if os_execv os (events sh) path then RunProgram path args out else ChildError) sh))"

fun thread_step :: "sh_os \<Rightarrow> sh_pc \<Rightarrow> shell \<Rightarrow> (sh_fault + sh_pc \<times> shell) option" where
  "thread_step os NotCreated sh = None"
| "thread_step os Returned sh = None"
| "thread_step os (Parsing c) sh = Some (Inr (parseInput os c sh))"
| "thread_step os (Exec args out) sh = Some (Inr (executeCommands os args out sh))"
| "thread_step os (PathStore args i) sh = Some (path_store args i sh)"
| "thread_step os (Search args out i) sh = Some (searchPath_test args out i sh)"
| "thread_step os (Form args out i) sh = Some (searchPath_form os args out i sh)"
| "thread_step os (Spawn path args out) sh = Some (spawn os path args out sh)"

section \<open>Lines\<close>

text \<open>The commands of a line, without its newline.\<close>

definition line_commands :: "uchar list \<Rightarrow> uchar list list" where
  "line_commands line =
    (let line = cstr (if line \<noteq> [] \<and> last line = 10 then butlast line else line) in
     take BUFF_SIZE (filter (\<lambda>c. c \<noteq> []) (strsep_all [38] line)))"

datatype sh_main_pc = MRead | MCreate nat | MJoin nat

record wish =
  in_lines :: "uchar list list"
  cmds :: "uchar list list"
  main_at :: sh_main_pc
  threads :: "nat \<Rightarrow> sh_pc"
  shell_of :: shell
  crashed :: "sh_fault option"

text \<open>\<open>main\<close>: a line is read and split, or the input is at its end; a thread is created for each command,
  and a failure is only reported; then the threads are joined.\<close>

definition wish_main_step :: "sh_os \<Rightarrow> wish \<Rightarrow> wish option" where
  "wish_main_step os s =
    (case main_at s of
       MRead \<Rightarrow>
         (case in_lines s of
            [] \<Rightarrow> Some (s\<lparr>shell_of := (shell_of s)\<lparr>exited := True\<rparr>\<rparr>)
          | l # ls \<Rightarrow> Some (s\<lparr>in_lines := ls, cmds := line_commands l, main_at := MCreate 0, threads := \<lambda>_. NotCreated\<rparr>))
     | MCreate i \<Rightarrow>
         if i < length (cmds s) then
           if os_create os (events (shell_of s)) i then
             Some (s\<lparr>main_at := MCreate (i + 1), threads := (threads s)(i := Parsing (cmds s ! i))\<rparr>)
           else Some (s\<lparr>main_at := MCreate (i + 1), shell_of := printError (shell_of s)\<rparr>)
         else Some (s\<lparr>main_at := MJoin 0\<rparr>)
     | MJoin i \<Rightarrow>
         if i < length (cmds s) then
           (case threads s i of
              NotCreated \<Rightarrow> Some (s\<lparr>crashed := Some NoThread\<rparr>)
            | Returned \<Rightarrow> Some (s\<lparr>main_at := MJoin (i + 1)\<rparr>)
            | _ \<Rightarrow> None)
         else Some (s\<lparr>main_at := MRead\<rparr>))"

definition wish_thread_step :: "sh_os \<Rightarrow> nat \<Rightarrow> wish \<Rightarrow> wish option" where
  "wish_thread_step os i s =
    (case thread_step os (threads s i) (shell_of s) of
       None \<Rightarrow> None
     | Some (Inl f) \<Rightarrow> Some (s\<lparr>crashed := Some f\<rparr>)
     | Some (Inr (pc, sh')) \<Rightarrow> Some (s\<lparr>threads := (threads s)(i := pc), shell_of := sh'\<rparr>))"

text \<open>Thread 0 is main, thread \<open>i + 1\<close> runs command \<open>i\<close>; \<open>exit\<close> ends the process and with it all threads.\<close>

definition wish_step :: "sh_os \<Rightarrow> tid \<Rightarrow> wish \<Rightarrow> wish option" where
  "wish_step os t s =
    (if exited (shell_of s) \<or> crashed s \<noteq> None then None
     else if t = 0 then wish_main_step os s
     else wish_thread_step os (t - 1) s)"

definition wish_init :: "uchar list list \<Rightarrow> wish" where
  "wish_init ls = \<lparr>in_lines = ls, cmds = [], main_at = MRead, threads = \<lambda>_. NotCreated, shell_of = shell_init, crashed = None\<rparr>"

text \<open>The start of \<open>main\<close>: one argument at most, a batch file, which must open. The result is the exit
  status of a failure or the state in front of the loop.\<close>

definition wish_main :: "files \<Rightarrow> uchar list \<Rightarrow> string list \<Rightarrow> nat + wish" where
  "wish_main fs stdin argv =
    (if length argv > 2 then Inl 1
     else if length argv = 2 then
       (case fs (argv ! 1) of None \<Rightarrow> Inl 1 | Some bs \<Rightarrow> Inr (wish_init (getlines bs)))
     else Inr (wish_init (getlines stdin)))"

section \<open>Words\<close>

lemma scan_words_leading: "scan_words (dropWhile isspace s) = scan_words s"
  by (induction s) (simp_all add: scan_words_space)

lemma scan_words_alone: "w \<noteq> [] \<Longrightarrow> \<forall>c \<in> set w. \<not> isspace c \<Longrightarrow> scan_words w = [w]"
proof -
  assume w: "w \<noteq> []" "\<forall>c \<in> set w. \<not> isspace c"
  then have d: "dropWhile isspace w = w" by (cases w) auto
  have t: "takeWhile (\<lambda>c. \<not> isspace c) w = w" "dropWhile (\<lambda>c. \<not> isspace c) w = []"
    using w(2) by (auto simp: takeWhile_eq_all_conv)
  obtain c r where w': "w = c # r" using w(1) by (cases w) auto
  show ?thesis
    by (subst scan_words.simps) (simp add: w' d [unfolded w'] t [unfolded w'] del: takeWhile.simps dropWhile.simps)
qed

lemma scan_words_trailing: "isspace c \<Longrightarrow> scan_words (s @ [c]) = scan_words s"
proof (induction s rule: scan_words.induct)
  case (1 s)
  show ?case
  proof (cases "dropWhile isspace s")
    case Nil
    then have "\<forall>x \<in> set (s @ [c]). isspace x" using 1(2) by simp
    then have "scan_words (s @ [c]) = scan_words []" "scan_words s = scan_words []"
      using scan_words_leading [of "s @ [c]"] scan_words_leading [of s] Nil by (simp_all only: dropWhile_eq_Nil_conv [THEN iffD2])
    then show ?thesis by simp
  next
    case (Cons b r)
    then have d: "dropWhile isspace (s @ [c]) = b # r @ [c]"
      by (metis append_Cons dropWhile_append dropWhile_eq_Nil_conv list.distinct(1))
    let ?w = "takeWhile (\<lambda>c. \<not> isspace c) (b # r)" and ?t = "dropWhile (\<lambda>c. \<not> isspace c) (b # r)"
    have "takeWhile (\<lambda>c. \<not> isspace c) (b # r @ [c]) = ?w \<and> scan_words (dropWhile (\<lambda>c. \<not> isspace c) (b # r @ [c])) = scan_words ?t"
    proof (cases "?t = []")
      case True
      then have "\<forall>x \<in> set (b # r). \<not> isspace x" unfolding dropWhile_eq_Nil_conv .
      then have "takeWhile (\<lambda>c. \<not> isspace c) ((b # r) @ [c]) = b # r" "dropWhile (\<lambda>c. \<not> isspace c) ((b # r) @ [c]) = [c]" "?w = b # r"
        using 1(2) by (auto simp: takeWhile_append2 dropWhile_append2 takeWhile_eq_all_conv)
      moreover have "scan_words [c] = []" using 1(2) by (simp add: scan_words_space)
      ultimately show ?thesis unfolding True by (simp only: append_Cons scan_words_Nil)
    next
      case False
      then obtain x where "x \<in> set (b # r)" "isspace x" unfolding dropWhile_eq_Nil_conv by blast
      then have "takeWhile (\<lambda>c. \<not> isspace c) ((b # r) @ [c]) = ?w" "dropWhile (\<lambda>c. \<not> isspace c) ((b # r) @ [c]) = ?t @ [c]"
        by (auto simp: takeWhile_append1 dropWhile_append1)
      with 1(1) [OF Cons 1(2)] show ?thesis by simp
    qed
    then show ?thesis using Cons d by (subst (1 2) scan_words.simps) simp
  qed
qed

lemma scan_words_trim: "scan_words (trim s) = scan_words s"
proof -
  have "scan_words (cut_trailing t) = scan_words t" for t
  proof (induction t rule: cut_trailing.induct)
    case (1 s)
    show ?case
    proof (cases "1 < length s \<and> isspace (last s)")
      case True
      then have "s = butlast s @ [last s]" by (cases s) auto
      with True scan_words_trailing [of "last s" "butlast s"] 1 show ?thesis
        by (subst cut_trailing.simps) simp
    next
      case False
      then show ?thesis by (subst cut_trailing.simps) (simp only: if_False)
    qed
  qed
  then show ?thesis by (simp add: trim_def scan_words_leading)
qed

lemma trim_word: "\<forall>c \<in> set w. \<not> isspace c \<Longrightarrow> trim w = w"
proof -
  assume w: "\<forall>c \<in> set w. \<not> isspace c"
  then have "dropWhile isspace w = w" by (cases w) auto
  moreover have "\<not> (1 < length w \<and> isspace (last w))" using w by (cases w) auto
  ultimately show ?thesis unfolding trim_def by (subst cut_trailing.simps) (simp only: if_False)
qed

lemma trim_subset: "set (trim s) \<subseteq> set s"
proof -
  have "set (cut_trailing t) \<subseteq> set t" for t
    by (induction t rule: cut_trailing.induct) (subst cut_trailing.simps, auto dest: in_set_butlastD)
  then show ?thesis unfolding trim_def by (meson set_dropWhileD subset_iff)
qed

lemma tokens_are_words:
  assumes "\<forall>c \<in> set s. isspace c \<longrightarrow> c \<in> set [32, 9]"
  shows "filter (\<lambda>t. t \<noteq> []) (strsep_all [32, 9] s) = scan_words s"
  using assms
proof (induction "length s" arbitrary: s rule: less_induct)
  case less
  have blank: "isspace 32" "isspace 9" by (simp_all add: isspace_def)
  show ?case
  proof (cases rule: strsep_cases [of s "[32, 9]"])
    case 1
    then have "\<forall>c \<in> set s. \<not> isspace c" using less.prems by auto
    with 1 show ?thesis by (cases "s = []") (simp_all add: strsep_all_last scan_words_alone)
  next
    case (2 t d r)
    then have t: "\<forall>c \<in> set t. \<not> isspace c" "isspace d" using less.prems blank by auto
    have "filter (\<lambda>t. t \<noteq> []) (strsep_all [32, 9] r) = scan_words r" using less 2 by auto
    moreover have "strsep_all [32, 9] s = t # strsep_all [32, 9] r" using 2 by (simp add: strsep_all_delim)
    ultimately show ?thesis
      using 2(1) t by (cases "t = []") (simp_all add: scan_words_word scan_words_space)
  qed
qed

lemma split_args_words:
  assumes "\<forall>c \<in> set s. isspace c \<longrightarrow> c \<in> {32, 9}"
  shows "split_args (trim s) = take BUFF_SIZE (scan_words s)"
proof -
  have "filter (\<lambda>t. t \<noteq> []) (strsep_all [32, 9] (trim s)) = scan_words s"
    using tokens_are_words [of "trim s"] trim_subset [of s] assms by (auto simp: scan_words_trim)
  moreover have "map trim (take BUFF_SIZE (scan_words s)) = take BUFF_SIZE (scan_words s)"
    using scan_words_clean by (intro map_idI trim_word) (meson in_set_takeD)
  ultimately show ?thesis by (simp add: split_args_def)
qed

section \<open>What a command means\<close>

lemma strsep_none: "d \<notin> set s \<Longrightarrow> strsep [d] s = (s, None)"
proof -
  assume "d \<notin> set s"
  then have "takeWhile (\<lambda>c. c \<notin> set [d]) s = s" "dropWhile (\<lambda>c. c \<notin> set [d]) s = []"
    unfolding takeWhile_eq_all_conv dropWhile_eq_Nil_conv by auto
  then show ?thesis unfolding strsep_def by (simp only: list.case)
qed

lemma strsep_some: "d \<notin> set s \<Longrightarrow> strsep [d] (s @ d # r) = (s, Some r)"
proof -
  assume "d \<notin> set s"
  then have "takeWhile (\<lambda>c. c \<notin> set [d]) (s @ d # r) = s" "dropWhile (\<lambda>c. c \<notin> set [d]) (s @ d # r) = d # r"
    by (subst takeWhile_append2 dropWhile_append2; auto)+
  then show ?thesis unfolding strsep_def by (simp only: list.case)
qed

lemma scan_words_empty: "scan_words s = [] \<longleftrightarrow> (\<forall>c \<in> set s. isspace c)"
  by (subst scan_words.simps) (simp split: list.splits flip: dropWhile_eq_Nil_conv)

lemma cut_trailing_word: "w \<noteq> [] \<Longrightarrow> \<forall>c \<in> set w. \<not> isspace c \<Longrightarrow> \<forall>c \<in> set e. isspace c \<Longrightarrow> cut_trailing (w @ e) = w"
proof (induction e rule: rev_induct)
  case Nil
  then have "\<not> isspace (last w)" by simp
  then show ?case by (subst cut_trailing.simps) simp
next
  case (snoc c e)
  then have "cut_trailing (w @ e) = w" by simp
  with snoc.prems show ?case by (subst cut_trailing.simps) (simp add: butlast_append)
qed

text \<open>\<open>trim\<close> of a string with one word is that word.\<close>

lemma trim_one_word:
  assumes "scan_words s = [w]"
  shows "trim s = w"
proof (cases "dropWhile isspace s")
  case Nil
  with assms show ?thesis by (subst (asm) scan_words.simps) simp
next
  case (Cons b r)
  let ?P = "\<lambda>c. \<not> isspace c"
  have "scan_words s = takeWhile ?P (b # r) # scan_words (dropWhile ?P (b # r))"
    using Cons by (subst scan_words.simps) simp
  with assms have w: "w = takeWhile ?P (b # r)" "scan_words (dropWhile ?P (b # r)) = []" by simp_all
  have "w \<noteq> [] \<and> (\<forall>c \<in> set w. \<not> isspace c)" using scan_words_clean [of w s] assms by simp
  moreover have "b # r = w @ dropWhile ?P (b # r)" using w(1) by (metis takeWhile_dropWhile_id)
  ultimately have "cut_trailing (b # r) = w"
    using w(2) [unfolded scan_words_empty] cut_trailing_word [of w "dropWhile ?P (b # r)"] by metis
  then show ?thesis by (simp add: trim_def Cons)
qed

lemma trim_no_word: "scan_words s = [] \<Longrightarrow> trim s = []"
  by (simp add: scan_words_empty trim_def dropWhile_eq_Nil_conv [THEN iffD2] cut_trailing.simps)

lemma strstr_char: "strstr s [c] \<longleftrightarrow> c \<in> set s"
  unfolding strstr_iff by (metis append_Cons append_Nil in_set_conv_decomp)

text \<open>C26:
  A command without redirection whose white space is blanks and tabs is executed with its words as
  arguments (those that \<open>sscanf\<close> would find), and a command of blanks does nothing. Whatever follows
  \<open>>\<close>: exactly when it is one word, with white space of any kind around it, without another \<open>>\<close>, and
  a file of that name can be opened, the file is emptied and the command runs with its output in it;
  otherwise the error message is printed and nothing runs.
\<close>

theorem parse_words:
  assumes "\<forall>x \<in> set c. isspace x \<longrightarrow> x = 32 \<or> x = 9" "62 \<notin> set c" "c \<noteq> []" "scan_words c = ws" "length ws < BUFF_SIZE"
  shows "parseInput os c sh = (if ws = [] then Returned else Exec ws None, sh) \<and>
    parseInput os (c @ [62] @ r) sh =
      (case scan_words r of
         [name] \<Rightarrow>
           if 62 \<notin> set r \<and> os_fopen os (events sh) name then (if ws = [] then Returned else Exec ws (Some name), emit (Truncate name) sh)
           else (Returned, printError sh)
       | _ \<Rightarrow> (Returned, printError sh))"
proof -
  have args: "split_args (trim c) = ws" using split_args_words [of c] assms(1,4,5) by auto
  have one: "name \<noteq> []" if "scan_words r = [name]" for name using scan_words_clean [of name r] that by simp
  have "parseInput os c sh = (if ws = [] then Returned else Exec ws None, sh)"
    using args assms(3) by (simp add: parseInput_def strsep_none [OF assms(2)])
  moreover have "parseInput os (c @ 62 # r) sh =
      (if 2 \<le> length (scan_words r) \<or> 62 \<in> set r then (Returned, printError sh)
       else if trim r \<noteq> [] \<and> os_fopen os (events sh) (trim r) then (if ws = [] then Returned else Exec ws (Some (trim r)), emit (Truncate (trim r)) sh)
       else (Returned, printError sh))"
    using args assms(3) by (simp add: parseInput_def strsep_some [OF assms(2)] strstr_char)
  ultimately show ?thesis
    using one trim_one_word [of r] trim_no_word [of r] by (auto split: list.splits)
qed

definition sample_os :: sh_os where
  "sample_os = \<lparr>os_access = (\<lambda>_ _. True), os_chdir = (\<lambda>_ _. True), os_fopen = (\<lambda>_ _. True), os_fork = (\<lambda>_ _. True),
     os_execv = (\<lambda>_ _. True), os_create = (\<lambda>_ _. True)\<rparr>"

theorem parse_words_witness:
  "scan_words (bytes ''ls  -l '') = [bytes ''ls'', bytes ''-l''] \<and>
   parseInput sample_os (bytes ''ls  -l '' @ [62] @ bytes '' o '') shell_init =
     (Exec [bytes ''ls'', bytes ''-l''] (Some (bytes ''o'')), emit (Truncate (bytes ''o'')) shell_init)"
proof -
  have sp: "isspace 32" "\<not> isspace 108" "\<not> isspace 115" "\<not> isspace 45" "\<not> isspace 111" by (simp_all add: isspace_def)
  have ws: "scan_words (bytes ''ls  -l '') = [bytes ''ls'', bytes ''-l'']" and f: "scan_words (bytes '' o '') = [bytes ''o'']"
    by (subst scan_words.simps, simp add: bytes_def sp scan_words.simps)+
  have c: "\<forall>x \<in> set (bytes ''ls  -l ''). isspace x \<longrightarrow> x = 32 \<or> x = 9" "62 \<notin> set (bytes ''ls  -l '')" "bytes ''ls  -l '' \<noteq> []"
    "62 \<notin> set (bytes '' o '')" by (simp_all add: bytes_def isspace_def)
  show ?thesis
    using parse_words [OF c(1-3) ws, of sample_os shell_init "bytes '' o ''"] c(4)
    by (simp add: ws f BUFF_SIZE_def) (simp add: sample_os_def)
qed

section \<open>The search path\<close>

text \<open>The directories that are searched: the entries up to the first null pointer. A thread alone, for a
  number of steps.\<close>

fun path_dirs :: "uchar list option list \<Rightarrow> uchar list list" where
  "path_dirs (Some d # ps) = d # path_dirs ps"
| "path_dirs _ = []"

fun thread_run :: "sh_os \<Rightarrow> nat \<Rightarrow> sh_pc \<Rightarrow> shell \<Rightarrow> sh_fault + sh_pc \<times> shell" where
  "thread_run os 0 pc sh = Inr (pc, sh)"
| "thread_run os (Suc k) pc sh =
    (case thread_step os pc sh of None \<Rightarrow> Inr (pc, sh) | Some m \<Rightarrow> ebind m (\<lambda>(pc, sh). thread_run os k pc sh))"

lemma path_dirs_append: "path_dirs (map Some ds @ ps) = ds @ path_dirs ps"
  by (induction ds) auto

lemma path_loop:
  assumes "i + length ds + 1 < BUFF_SIZE" "length args = i + length ds + 1" "drop (i + 1) args = ds" "length (paths sh) = BUFF_SIZE"
  shows "thread_run os (Suc (length ds)) (PathStore args i) sh =
    Inr (Returned, sh\<lparr>paths := (take i (paths sh) @ map Some ds @ drop (i + length ds) (paths sh))[i + length ds + 1 := None]\<rparr>)"
  using assms
proof (induction ds arbitrary: i sh)
  case Nil
  then show ?case by (simp add: path_store_def)
next
  case (Cons d ds)
  then have d: "args ! (i + 1) = d" "drop (Suc i + 1) args = ds"
    by (metis nth_via_drop, metis Suc_eq_plus1 add.commute drop_Suc tl_drop drop_drop list.sel(3))
  let ?sh = "sh\<lparr>paths := (paths sh)[i := Some d]\<rparr>"
  have "thread_run os (Suc (length ds)) (PathStore args (Suc i)) ?sh =
      Inr (Returned, ?sh\<lparr>paths := (take (Suc i) (paths ?sh) @ map Some ds @ drop (Suc i + length ds) (paths ?sh))[Suc i + length ds + 1 := None]\<rparr>)"
    using Cons.prems d by (intro Cons.IH) auto
  moreover have "take (Suc i) ((paths sh)[i := Some d]) = take i (paths sh) @ [Some d]"
    using Cons.prems by (intro take_Suc_update) simp
  ultimately show ?case using Cons.prems d by (simp add: path_store_def)
qed

text \<open>\<open>path\<close> with one or more directories leaves the old entry behind the last of them in place (it clears
  the one after it): the directories searched from then on are the given ones followed by that entry.
  So a shell whose search path is shortened still finds programs in a directory that was to be
  removed.
\<close>

theorem path_keeps_stale_directory:
  assumes "dirs \<noteq> []" "length dirs + 1 < BUFF_SIZE" "length (paths sh) = BUFF_SIZE"
  shows "\<exists>sh'. thread_run os (length dirs + 2) (Exec (bytes ''path'' # dirs) out) sh = Inr (Returned, sh') \<and>
    path_dirs (paths sh') = dirs @ (case paths sh ! length dirs of None \<Rightarrow> [] | Some p \<Rightarrow> [p])"
proof -
  let ?n = "length dirs" and ?sh = "sh\<lparr>paths := (paths sh)[0 := None]\<rparr>"
  have "thread_step os (Exec (bytes ''path'' # dirs) out) sh = Some (Inr (PathStore (bytes ''path'' # dirs) 0, ?sh))"
    by (simp add: executeCommands_def) (simp add: bytes_def)
  then have "thread_run os (Suc (Suc ?n)) (Exec (bytes ''path'' # dirs) out) sh =
      Inr (Returned, ?sh\<lparr>paths := (map Some dirs @ drop ?n (paths ?sh))[?n + 1 := None]\<rparr>)"
    using path_loop [of 0 dirs "bytes ''path'' # dirs" ?sh os] assms by simp
  moreover have "drop ?n (paths ?sh) = paths sh ! ?n # paths sh ! (?n + 1) # drop (?n + 2) (paths sh)"
    using assms by (simp add: Cons_nth_drop_Suc drop_update_cancel)
  ultimately show ?thesis
    by (auto simp: list_update_append path_dirs_append split: option.splits)
qed

section \<open>Well-formed states\<close>

text \<open>The array of directories keeps its size and ends in a null pointer; a program is started with at
  least its own name as argument, fewer than \<open>BUFF_SIZE\<close> arguments and a path that fits its array.\<close>

fun event_ok :: "sh_event \<Rightarrow> bool" where
  "event_ok (RunProgram path args out) \<longleftrightarrow> args \<noteq> [] \<and> length args < BUFF_SIZE \<and> length path < BUFF_SIZE"
| "event_ok _ \<longleftrightarrow> True"

definition shell_ok :: "shell \<Rightarrow> bool" where
  "shell_ok sh \<longleftrightarrow> length (paths sh) = BUFF_SIZE \<and> last (paths sh) = None \<and> list_all event_ok (events sh)"

text \<open>The arguments of a command; the commands that set the search path and those that read it. A line is
  calm when it does not have both.\<close>

definition command_args :: "uchar list \<Rightarrow> uchar list list" where
  "command_args c = split_args (trim (fst (strsep [62] c)))"

definition sets_path :: "uchar list list \<Rightarrow> bool" where
  "sets_path args \<longleftrightarrow> args \<noteq> [] \<and> hd args = bytes ''path''"

definition reads_path :: "uchar list list \<Rightarrow> bool" where
  "reads_path args \<longleftrightarrow> args \<noteq> [] \<and> hd args \<notin> {bytes ''exit'', bytes ''cd'', bytes ''path''}"

definition calm :: "uchar list list \<Rightarrow> bool" where
  "calm cs \<longleftrightarrow> \<not> ((\<exists>c \<in> set cs. sets_path (command_args c)) \<and> (\<exists>c \<in> set cs. reads_path (command_args c)))"

lemma shell_ok_emit [simp]: "shell_ok (emit e sh) \<longleftrightarrow> shell_ok sh \<and> event_ok e"
  by (auto simp: shell_ok_def emit_def)

lemma shell_ok_exited [simp]: "shell_ok (sh\<lparr>exited := b\<rparr>) = shell_ok sh"
  by (simp add: shell_ok_def)

lemma paths_emit [simp]: "paths (emit e sh) = paths sh"
  by (simp add: emit_def)

lemma shell_ok_last: "shell_ok sh \<Longrightarrow> paths sh ! 255 = None"
  by (cases "paths sh = []") (auto simp: shell_ok_def BUFF_SIZE_def last_conv_nth)

lemma shell_ok_update: "shell_ok sh \<Longrightarrow> i < 255 \<or> i = 255 \<and> x = None \<Longrightarrow> shell_ok (sh\<lparr>paths := (paths sh)[i := x]\<rparr>)"
proof -
  assume sh: "shell_ok sh" and i: "i < 255 \<or> i = 255 \<and> x = None"
  then have "paths sh \<noteq> []" by (auto simp: shell_ok_def BUFF_SIZE_def)
  then show ?thesis using sh i by (auto simp: shell_ok_def BUFF_SIZE_def last_list_update)
qed

lemma length_trim: "length (trim s) \<le> length s"
proof -
  have "length (cut_trailing t) \<le> length t" for t
    by (induction t rule: cut_trailing.induct) (subst cut_trailing.simps, auto)
  then show ?thesis unfolding trim_def by (meson length_dropWhile_le order_trans)
qed

lemma command_args_length: "length c \<le> 509 \<Longrightarrow> length (command_args c) < BUFF_SIZE"
proof -
  assume c: "length c \<le> 509"
  have "length (fst (strsep [62] c)) \<le> length c" by (auto simp: strsep_def length_takeWhile_le split: list.splits)
  then have "length (trim (fst (strsep [62] c))) \<le> 509" using c length_trim [of "fst (strsep [62] c)"] by simp
  then show ?thesis
    using nonempty_tokens [of "[32, 9]" "trim (fst (strsep [62] c))"] by (simp add: command_args_def split_args_def BUFF_SIZE_def)
qed

lemma line_commands_length: "c \<in> set (line_commands l) \<Longrightarrow> length c \<le> length l"
proof -
  let ?l = "cstr (if l \<noteq> [] \<and> last l = 10 then butlast l else l)"
  assume "c \<in> set (line_commands l)"
  then have "c \<in> set (strsep_all [38] ?l)" by (auto simp: line_commands_def Let_def dest!: in_set_takeD)
  then have "length c \<le> length ?l" using component_strstr by (fastforce simp: strstr_iff)
  also have "\<dots> \<le> length l" unfolding cstr_def
    by (rule order_trans [OF length_takeWhile_le]) simp
  finally show ?thesis .
qed

text \<open>What is known of the thread of a command \<open>c\<close>, given the array.\<close>

fun pc_ok :: "uchar list option list \<Rightarrow> uchar list \<Rightarrow> sh_pc \<Rightarrow> bool" where
  "pc_ok ps c NotCreated \<longleftrightarrow> False"
| "pc_ok ps c (Parsing c') \<longleftrightarrow> c' = c"
| "pc_ok ps c (Exec args out) \<longleftrightarrow> args = command_args c \<and> args \<noteq> []"
| "pc_ok ps c (PathStore args i) \<longleftrightarrow> args = command_args c \<and> sets_path args \<and> i < length args"
| "pc_ok ps c (Search args out i) \<longleftrightarrow> args = command_args c \<and> reads_path args \<and> i < 256"
| "pc_ok ps c (Form args out i) \<longleftrightarrow> args = command_args c \<and> reads_path args \<and> i < 255 \<and> ps ! i \<noteq> None"
| "pc_ok ps c (Spawn path args out) \<longleftrightarrow> args = command_args c \<and> args \<noteq> [] \<and> length path < BUFF_SIZE"
| "pc_ok ps c Returned \<longleftrightarrow> True"

lemma thread_ok:
  assumes "thread_step os pc sh = Some m" "shell_ok sh" "pc_ok (paths sh) c pc" "length c \<le> 509"
  shows "\<exists>pc' sh'. m = Inr (pc', sh') \<and> shell_ok sh' \<and> pc_ok (paths sh') c pc' \<and> (sets_path (command_args c) \<or> paths sh' = paths sh)"
proof (cases pc)
  case (Parsing c')
  then have "m = Inr (parseInput os c sh)" using assms(1,3) by simp
  then show ?thesis
    using assms(2) by (auto simp: parseInput_def command_args_def Let_def split: prod.splits option.splits)
next
  case (Exec args out)
  then have "m = Inr (executeCommands os args out sh)" "args = command_args c" "args \<noteq> []" using assms(1,3) by auto
  then show ?thesis
    using assms(2) shell_ok_update [of sh 0 None] by (auto simp: executeCommands_def sets_path_def reads_path_def)
next
  case (PathStore args i)
  then have m: "m = path_store args i sh" "args = command_args c" "sets_path args" "i < length args" using assms(1,3) by auto
  then have "length args < 256" using command_args_length [OF assms(4)] by (simp add: BUFF_SIZE_def)
  with m show ?thesis
    using assms(2) by (auto simp: path_store_def BUFF_SIZE_def intro!: shell_ok_update)
next
  case (Search args out i)
  then have "m = searchPath_test args out i sh" "pc_ok (paths sh) c (Search args out i)" using assms(1,3) by auto
  then show ?thesis
    using assms(2) shell_ok_last [OF assms(2)] by (cases "i = 255") (auto simp: searchPath_test_def BUFF_SIZE_def split: option.splits)
next
  case (Form args out i)
  then have "m = searchPath_form os args out i sh" "pc_ok (paths sh) c (Form args out i)" using assms(1,3) by auto
  then show ?thesis
    using assms(2) by (auto simp: searchPath_form_def BUFF_SIZE_def reads_path_def Let_def split: option.splits)
next
  case (Spawn path args out)
  then have m: "m = spawn os path args out sh" "pc_ok (paths sh) c (Spawn path args out)" using assms(1,3) by auto
  moreover have "length (command_args c) < BUFF_SIZE" using assms(4) by (rule command_args_length)
  ultimately show ?thesis using assms(2) by (auto simp: spawn_def)
qed (use assms in simp_all)

text \<open>The commands of another thread keep what is known of a thread, when the line is calm.\<close>

lemma pc_ok_paths: "pc_ok ps c pc \<Longrightarrow> ps' = ps \<or> \<not> reads_path (command_args c) \<Longrightarrow> pc_ok ps' c pc"
  by (cases pc) auto

section \<open>Progress\<close>

text \<open>The threads that exist: those below \<open>created s\<close>.\<close>

definition created :: "wish \<Rightarrow> nat" where
  "created s = (case main_at s of MCreate i \<Rightarrow> i | _ \<Rightarrow> length (cmds s))"

definition line_ok :: "uchar list \<Rightarrow> bool" where
  "line_ok l \<longleftrightarrow> length l \<le> 509 \<and> calm (line_commands l)"

definition wish_inv :: "wish \<Rightarrow> bool" where
  "wish_inv s \<longleftrightarrow> crashed s = None \<and> shell_ok (shell_of s) \<and> list_all line_ok (in_lines s) \<and>
    length (cmds s) \<le> 256 \<and> calm (cmds s) \<and> (\<forall>c \<in> set (cmds s). length c \<le> 509) \<and>
    created s \<le> length (cmds s) \<and> (\<forall>j. main_at s = MJoin j \<longrightarrow> j \<le> length (cmds s)) \<and>
    (\<forall>i. if i < created s then pc_ok (paths (shell_of s)) (cmds s ! i) (threads s i) else threads s i = NotCreated)"

lemma wish_inv_init: "list_all line_ok ls \<Longrightarrow> wish_inv (wish_init ls)"
  by (simp add: wish_inv_def wish_init_def shell_ok_def shell_init_def BUFF_SIZE_def created_def calm_def)

lemma wish_inv_thread:
  assumes inv: "wish_inv s" and st: "wish_thread_step os i s = Some s'"
  shows "wish_inv s' \<and> (\<exists>pc' sh'. thread_step os (threads s i) (shell_of s) = Some (Inr (pc', sh')) \<and>
    s' = s\<lparr>threads := (threads s)(i := pc'), shell_of := sh'\<rparr> \<and> i < created s)"
proof -
  from st obtain m where m: "thread_step os (threads s i) (shell_of s) = Some m"
    by (auto simp: wish_thread_step_def split: option.splits)
  then have "threads s i \<noteq> NotCreated" by auto
  with inv have i: "i < created s" "created s \<le> length (cmds s)" by (auto simp: wish_inv_def split: if_splits)
  then have c: "cmds s ! i \<in> set (cmds s)" "length (cmds s ! i) \<le> 509" "pc_ok (paths (shell_of s)) (cmds s ! i) (threads s i)"
    using inv by (auto simp: wish_inv_def)
  obtain pc' sh' where n: "m = Inr (pc', sh')" "shell_ok sh'" "pc_ok (paths sh') (cmds s ! i) pc'"
      "sets_path (command_args (cmds s ! i)) \<or> paths sh' = paths (shell_of s)"
    using thread_ok [OF m _ c(3,2)] inv by (auto simp: wish_inv_def)
  have s': "s' = s\<lparr>threads := (threads s)(i := pc'), shell_of := sh'\<rparr>" using st m n(1) by (simp add: wish_thread_step_def)
  have "pc_ok (paths sh') (cmds s ! j) (threads s j)" if j: "j < created s" for j
  proof (rule pc_ok_paths)
    show "pc_ok (paths (shell_of s)) (cmds s ! j) (threads s j)" using inv j by (auto simp: wish_inv_def)
    have "cmds s ! j \<in> set (cmds s)" using i(2) j by simp
    then show "paths sh' = paths (shell_of s) \<or> \<not> reads_path (command_args (cmds s ! j))"
      using n(4) c(1) inv by (auto simp: wish_inv_def calm_def)
  qed
  moreover have "created s' = created s" by (simp add: s' created_def split: sh_main_pc.split)
  ultimately have "wish_inv s'" using inv n(2,3) i(1) by (auto simp: wish_inv_def s')
  with m n(1) s' i(1) show ?thesis by auto
qed

lemma line_ok_commands: "line_ok l \<Longrightarrow> calm (line_commands l) \<and> length (line_commands l) \<le> 256 \<and> (\<forall>c \<in> set (line_commands l). length c \<le> 509)"
  using line_commands_length [of _ l] by (fastforce simp: line_ok_def line_commands_def BUFF_SIZE_def Let_def)

lemma wish_inv_main:
  assumes inv: "wish_inv s" and st: "wish_main_step os s = Some s'" and os: "\<forall>es i. os_create os es i"
  shows "wish_inv s'"
proof (cases "main_at s")
  case MRead
  then show ?thesis
    using inv st line_ok_commands by (auto simp: wish_inv_def wish_main_step_def created_def split: list.splits)
next
  case (MCreate j)
  then show ?thesis
    using inv st os by (auto simp: wish_inv_def wish_main_step_def created_def less_Suc_eq split: if_splits)
next
  case (MJoin j)
  have "threads s j \<noteq> NotCreated" if "j < length (cmds s)"
    using inv that MJoin by (auto simp: wish_inv_def created_def dest!: spec [of _ j])
  then show ?thesis
    using MJoin inv st by (auto simp: wish_inv_def wish_main_step_def created_def split: if_splits sh_pc.splits)
qed

lemma wish_inv_step:
  assumes "wish_inv s" "wish_step os t s = Some s'" "\<forall>es i. os_create os es i"
  shows "wish_inv s'"
  using assms wish_inv_thread [of s os "t - 1" s'] wish_inv_main [of s os s'] by (auto simp: wish_step_def split: if_splits)

definition pc_rank :: "sh_pc \<Rightarrow> nat" where
  "pc_rank pc = (case pc of NotCreated \<Rightarrow> 0 | Parsing c \<Rightarrow> 515 | Exec args out \<Rightarrow> 514 | PathStore args i \<Rightarrow> length args - i
     | Search args out i \<Rightarrow> 2 * (255 - i) + 3 | Form args out i \<Rightarrow> 2 * (255 - i) + 2 | Spawn path args out \<Rightarrow> 1 | Returned \<Rightarrow> 0)"

definition wish_main_rank :: "sh_main_pc \<Rightarrow> nat" where
  "wish_main_rank p = (case p of MRead \<Rightarrow> 0 | MCreate i \<Rightarrow> 517 * (256 - i) + 258 | MJoin i \<Rightarrow> (256 - i) + 1)"

definition line_budget :: nat where "line_budget = 517 * 256 + 259"

definition wish_budget :: "wish \<Rightarrow> nat" where
  "wish_budget s = line_budget * length (in_lines s) + wish_main_rank (main_at s) + (\<Sum>i < 256. pc_rank (threads s i)) +
    (if exited (shell_of s) then 0 else 1)"

lemma thread_rank:
  assumes "thread_step os pc sh = Some (Inr (pc', sh'))" "pc_ok (paths sh) c pc" "length c \<le> 509"
  shows "pc_rank pc' < pc_rank pc \<and> (exited sh \<longrightarrow> exited sh')"
proof -
  have "length (command_args c) < 256" using command_args_length [OF assms(3)] by (simp add: BUFF_SIZE_def)
  then show ?thesis
    using assms(1,2)
    by (cases pc) (auto simp: parseInput_def executeCommands_def path_store_def searchPath_test_def searchPath_form_def spawn_def
        pc_rank_def emit_def Let_def sets_path_def split: prod.splits option.splits if_splits)
qed

lemma wish_budget_step:
  assumes inv: "wish_inv s" and st: "wish_step os t s = Some s'" and os: "\<forall>es i. os_create os es i"
  shows "wish_budget s' < wish_budget s"
proof (cases "t = 0")
  case True
  then have st: "wish_main_step os s = Some s'" "\<not> exited (shell_of s)" using st by (auto simp: wish_step_def split: if_splits)
  show ?thesis
  proof (cases "main_at s")
    case MRead
    then show ?thesis
      using st by (auto simp: wish_main_step_def wish_budget_def wish_main_rank_def line_budget_def pc_rank_def split: list.splits)
  next
    case (MCreate j)
    show ?thesis
    proof (cases "j < length (cmds s)")
      case True
      then have j: "j < 256" and nc: "threads s j = NotCreated" using inv MCreate by (auto simp: wish_inv_def created_def)
      let ?th = "(threads s)(j := Parsing (cmds s ! j))"
      have "(\<Sum>i < 256. pc_rank (?th i)) = (\<Sum>i < 256. pc_rank (threads s i)) + 515"
        using j nc by (simp add: sum.remove [of "{..<256}" j] pc_rank_def)
      moreover have "s' = s\<lparr>main_at := MCreate (j + 1), threads := ?th\<rparr>" using st True MCreate os by (simp add: wish_main_step_def)
      ultimately show ?thesis using j MCreate by (simp add: wish_budget_def wish_main_rank_def)
    qed (use st MCreate in \<open>auto simp: wish_main_step_def wish_budget_def wish_main_rank_def\<close>)
  next
    case (MJoin j)
    then have "j < length (cmds s) \<Longrightarrow> j < 256" using inv by (auto simp: wish_inv_def)
    moreover have "crashed s' = None" using wish_inv_main [OF inv st(1) os] by (simp add: wish_inv_def)
    ultimately show ?thesis
      using MJoin st by (auto simp: wish_main_step_def wish_budget_def wish_main_rank_def split: if_splits sh_pc.splits)
  qed
next
  case False
  then have "wish_thread_step os (t - 1) s = Some s'" using st by (auto simp: wish_step_def split: if_splits)
  from wish_inv_thread [OF inv this] obtain i pc' sh' where i: "thread_step os (threads s i) (shell_of s) = Some (Inr (pc', sh'))"
    "s' = s\<lparr>threads := (threads s)(i := pc'), shell_of := sh'\<rparr>" "i < created s" by blast
  have n: "i < 256" "length (cmds s ! i) \<le> 509" "pc_ok (paths (shell_of s)) (cmds s ! i) (threads s i)"
    using inv i(3) by (auto simp: wish_inv_def)
  note rank = thread_rank [OF i(1) n(3,2)]
  have "(\<Sum>j < 256. pc_rank (threads s' j)) < (\<Sum>j < 256. pc_rank (threads s j))"
    using rank by (intro sum_one_less [OF n(1)]) (auto simp: i(2))
  with rank show ?thesis by (auto simp: wish_budget_def i(2))
qed

lemma wish_progress:
  assumes inv: "wish_inv s" and run: "\<not> exited (shell_of s)"
  shows "\<exists>t < 257. wish_step os t s \<noteq> None"
proof (cases "wish_main_step os s")
  case None
  then obtain j where j: "main_at s = MJoin j" "j < length (cmds s)" "threads s j \<noteq> NotCreated" "threads s j \<noteq> Returned"
    by (auto simp: wish_main_step_def split: sh_main_pc.splits list.splits if_splits sh_pc.splits)
  then have "wish_thread_step os j s \<noteq> None"
    by (cases "threads s j") (auto simp: wish_thread_step_def split: sum.splits prod.splits)
  moreover have "Suc j < 257" "crashed s = None" using inv j by (auto simp: wish_inv_def)
  ultimately show ?thesis using run by (intro exI [of _ "Suc j"]) (simp add: wish_step_def)
next
  case (Some s')
  then show ?thesis using inv run by (intro exI [of _ 0]) (simp add: wish_step_def wish_inv_def)
qed

text \<open>The system of the threads, over an operating system that creates threads and lines that are in
  order.\<close>

definition creating :: "sh_os \<Rightarrow> sh_os" where
  "creating os = os\<lparr>os_create := \<lambda>_ _. True\<rparr>"

interpretation wish: live_system "wish_step (creating os)" 257 "wish_init (filter line_ok ls)" wish_inv wish_budget "\<lambda>s. exited (shell_of s)" for os ls
proof (unfold_locales, goal_cases)
  case 1
  show ?case by (rule wish_inv_init) (simp add: list_all_iff)
qed (simp_all add: wish_inv_step wish_budget_step wish_progress creating_def del: not_None_eq)


text \<open>Two commands of a line, up to the calls of \<open>executeCommands\<close>.\<close>

definition sample_line :: "uchar list" where
  "sample_line = bytes ''ls & cd /''"

lemma two_commands:
  assumes "38 \<notin> set a" "38 \<notin> set b" "0 \<notin> set a" "0 \<notin> set b" "10 \<notin> set b" "a \<noteq> []" "b \<noteq> []"
  shows "line_commands (a @ 38 # b) = [a, b]"
proof -
  have "last (a @ 38 # b) \<noteq> 10" using assms(5,7) by (metis last_appendR last.simps last_in_set list.distinct(1))
  moreover have "cstr (a @ 38 # b) = a @ 38 # b" using assms(3,4) by (intro cstr_id) simp
  moreover have "strsep_all [38] (a @ 38 # b) = [a, b]" using assms(1,2) by (simp add: strsep_all_delim strsep_all_last)
  ultimately show ?thesis using assms(6,7) by (simp add: line_commands_def BUFF_SIZE_def)
qed

lemma sample_commands: "line_commands sample_line = [bytes ''ls '', bytes '' cd /'']"
  using two_commands [of "bytes ''ls ''" "bytes '' cd /''"] by (simp add: sample_line_def bytes_def)

lemma sample_args: "command_args (bytes ''ls '') = [bytes ''ls'']" "command_args (bytes '' cd /'') = [bytes ''cd'', bytes ''/'']"
  "command_args (bytes '' path /a'') = [bytes ''path'', bytes ''/a'']"
proof -
  have c: "command_args c = take BUFF_SIZE (scan_words c)" if "\<forall>x \<in> set c. isspace x \<longrightarrow> x \<in> {32, 9}" "62 \<notin> set c" for c
    using that by (simp add: command_args_def strsep_none split_args_words)
  have w: "scan_words (bytes ''ls '') = [bytes ''ls'']" "scan_words (bytes '' cd /'') = [bytes ''cd'', bytes ''/'']"
    "scan_words (bytes '' path /a'') = [bytes ''path'', bytes ''/a'']"
    by (subst scan_words.simps, simp add: bytes_def isspace_def scan_words.simps)+
  have ok: "\<forall>x \<in> set (bytes t). isspace x \<longrightarrow> x \<in> {32, 9}" "62 \<notin> set (bytes t)" if "t \<in> {''ls '', '' cd /'', '' path /a''}" for t
    using that by (auto simp: bytes_def isspace_def)
  show "command_args (bytes ''ls '') = [bytes ''ls'']" "command_args (bytes '' cd /'') = [bytes ''cd'', bytes ''/'']"
    "command_args (bytes '' path /a'') = [bytes ''path'', bytes ''/a'']"
    using c [OF ok, of "''ls ''"] c [OF ok, of "'' cd /''"] c [OF ok, of "'' path /a''"] by (simp_all add: w BUFF_SIZE_def)
qed

lemma sample_parse:
  "parseInput os (bytes ''ls '') sh = (Exec [bytes ''ls''] None, sh)"
  "parseInput os (bytes '' cd /'') sh = (Exec [bytes ''cd'', bytes ''/''] None, sh)"
  "parseInput os (bytes '' path /a'') sh = (Exec [bytes ''path'', bytes ''/a''] None, sh)"
proof -
  have "parseInput os c sh = (Exec (command_args c) None, sh)" if "command_args c \<noteq> []" "62 \<notin> set c" "c \<noteq> []" for c
    using that by (simp add: parseInput_def strsep_none command_args_def)
  from this [of "bytes ''ls ''"] this [of "bytes '' cd /''"] this [of "bytes '' path /a''"]
  show "parseInput os (bytes ''ls '') sh = (Exec [bytes ''ls''] None, sh)"
    "parseInput os (bytes '' cd /'') sh = (Exec [bytes ''cd'', bytes ''/''] None, sh)"
    "parseInput os (bytes '' path /a'') sh = (Exec [bytes ''path'', bytes ''/a''] None, sh)"
    unfolding sample_args by (simp_all add: bytes_def)
qed

lemma sample_names:
  "bytes ''ls'' \<noteq> bytes ''exit''" "bytes ''ls'' \<noteq> bytes ''cd''" "bytes ''ls'' \<noteq> bytes ''path''" "bytes ''cd'' \<noteq> bytes ''exit''"
  "bytes ''path'' \<noteq> bytes ''exit''" "bytes ''path'' \<noteq> bytes ''cd''"
  "take 255 (bytes ''/bin'') @ take (255 - length (bytes ''/bin'')) (47 # bytes ''ls'') = bytes ''/bin/ls''"
  by (simp_all add: bytes_def)

lemmas sample_run = sample_names wish_step_def wish_main_step_def wish_thread_step_def sample_parse executeCommands_def searchPath_test_def
  searchPath_form_def spawn_def wish_init_def shell_init_def emit_def BUFF_SIZE_def sample_os_def

definition sample_sched :: "tid list" where
  "sample_sched = [0, 0, 0, 1, 0, 2, 1, 2, 1, 1, 1, 0, 0, 0, 0]"


text \<open>A line with a program and a \<open>path\<close> command has a race: between the test of \<open>paths[0]\<close> in \<open>searchPath\<close> and
  its use the other thread clears the entry, and \<open>snprintf\<close> is given a null pointer. And when a thread
  cannot be created, main joins an identifier that was never set.\<close>

lemma wish_path_race:
  "\<exists>s. run_sched (wish_step sample_os) [0, 0, 0, 1, 2, 1, 1, 2, 1] (wish_init [bytes ''ls & path /a'']) = Some s \<and> crashed s = Some NullString"
proof -
  have "line_commands (bytes ''ls & path /a'') = [bytes ''ls '', bytes '' path /a'']"
    using two_commands [of "bytes ''ls ''" "bytes '' path /a''"] by (simp add: bytes_def)
  then show ?thesis by (simp add: sample_run)
qed

lemma wish_failed_create:
  assumes "os_create os [] 0 = False"
  shows "\<exists>s. run_sched (wish_step os) [0, 0, 0, 0] (wish_init [bytes ''ls '']) = Some s \<and> crashed s = Some NoThread"
proof -
  have "line_commands (bytes ''ls '') = [bytes ''ls '']"
    by (simp add: line_commands_def bytes_def cstr_def strsep_all_last BUFF_SIZE_def)
  then show ?thesis using assms by (simp add: wish_step_def wish_main_step_def wish_init_def shell_init_def emit_def)
qed

end
