(* ===== verification/Approximate_Counter.thy ===== *)
theory Approximate_Counter
  imports Semaphore
begin

text \<open>
  The approximate counter of \<^verbatim>\<open>29/approximate_counter.c\<close>: threads add to a counter of their own CPU and
  move it to the global counter when it reaches a threshold. Thread \<open>t\<close> has the identifier \<open>ids t\<close> (its
  \<open>pthread_t\<close> as an \<open>int\<close>), adds \<open>amt\<close> and repeats this \<open>k\<close> times. A mutex is 1 when it is free. The counters are
  32-bit integers; \<open>w\<close> is what becomes of a sum, \<open>int32\<close> in the program, and nothing in the steps that the proofs
  compare it with.
\<close>

section \<open>The counter and its threads\<close>

definition NUMCPUS :: nat where "NUMCPUS = 16"

text \<open>\<open>threadID % NUMCPUS\<close>: the remainder has the sign of the identifier.\<close>

definition cpu_of :: "int \<Rightarrow> int" where
  "cpu_of x = (if 0 \<le> x then x mod int NUMCPUS else - ((- x) mod int NUMCPUS))"

record counter_t =
  glock :: nat
  local_count :: "int list"
  llock :: "nat list"
  global_count :: int
  threshold :: int

definition counter_init :: "int \<Rightarrow> counter_t" where
  "counter_init th = \<lparr>glock = 1, local_count = replicate NUMCPUS 0, llock = replicate NUMCPUS 1, global_count = 0, threshold = th\<rparr>"

datatype acpc = ALoop | ALock | AAdd | ATest | AGlock | AGadd | AGunlock | AReset | AUnlock | ADone

record ac_state =
  ac_c :: counter_t
  ac_pc :: "tid \<Rightarrow> acpc"
  ac_iter :: "tid \<Rightarrow> nat"

definition ac_goto :: "tid \<Rightarrow> acpc \<Rightarrow> counter_t \<Rightarrow> ac_state \<Rightarrow> ac_state" where
  "ac_goto t p c s = s\<lparr>ac_c := c, ac_pc := (ac_pc s)(t := p)\<rparr>"

text \<open>One statement of \<open>update\<close> for the CPU \<open>i\<close>.\<close>

definition update_with :: "(int \<Rightarrow> int) \<Rightarrow> int \<Rightarrow> tid \<Rightarrow> nat \<Rightarrow> ac_state \<Rightarrow> ac_state option" where
  "update_with w amt t i s =
    (let c = ac_c s in
     case ac_pc s t of
       ALock \<Rightarrow> map_option (\<lambda>v. ac_goto t AAdd (c\<lparr>llock := (llock c)[i := v]\<rparr>) s) (Sem_wait (llock c ! i))
     | AAdd \<Rightarrow> Some (ac_goto t ATest (c\<lparr>local_count := (local_count c)[i := w (local_count c ! i + amt)]\<rparr>) s)
     | ATest \<Rightarrow> Some (ac_goto t (if local_count c ! i \<ge> threshold c then AGlock else AUnlock) c s)
     | AGlock \<Rightarrow> map_option (\<lambda>v. ac_goto t AGadd (c\<lparr>glock := v\<rparr>) s) (Sem_wait (glock c))
     | AGadd \<Rightarrow> Some (ac_goto t AGunlock (c\<lparr>global_count := w (global_count c + local_count c ! i)\<rparr>) s)
     | AGunlock \<Rightarrow> Some (ac_goto t AReset (c\<lparr>glock := Sem_post (glock c)\<rparr>) s)
     | AReset \<Rightarrow> Some (ac_goto t AUnlock (c\<lparr>local_count := (local_count c)[i := 0]\<rparr>) s)
     | AUnlock \<Rightarrow> Some ((ac_goto t ALoop (c\<lparr>llock := (llock c)[i := Sem_post (llock c ! i)]\<rparr>) s)
                     \<lparr>ac_iter := (ac_iter s)(t := Suc (ac_iter s t))\<rparr>)
     | _ \<Rightarrow> None)"

text \<open>\<open>thread_function\<close>; a negative remainder is outside of the arrays.\<close>

definition ac_with :: "(int \<Rightarrow> int) \<Rightarrow> (tid \<Rightarrow> int) \<Rightarrow> int \<Rightarrow> nat \<Rightarrow> tid \<Rightarrow> ac_state \<Rightarrow> ac_state option" where
  "ac_with w ids amt k t s =
    (case ac_pc s t of
       ALoop \<Rightarrow> Some (ac_goto t (if ac_iter s t < k then ALock else ADone) (ac_c s) s)
     | ADone \<Rightarrow> None
     | _ \<Rightarrow> if cpu_of (ids t) < 0 then None else update_with w amt t (nat (cpu_of (ids t))) s)"

definition ac_step :: "(tid \<Rightarrow> int) \<Rightarrow> int \<Rightarrow> nat \<Rightarrow> tid \<Rightarrow> ac_state \<Rightarrow> ac_state option" where
  "ac_step = ac_with int32"

abbreviation wide_step :: "(tid \<Rightarrow> int) \<Rightarrow> int \<Rightarrow> nat \<Rightarrow> tid \<Rightarrow> ac_state \<Rightarrow> ac_state option" where
  "wide_step \<equiv> ac_with (\<lambda>x. x)"

definition ac_main :: "int \<Rightarrow> ac_state" where
  "ac_main th = \<lparr>ac_c = counter_init th, ac_pc = (\<lambda>_. ALoop), ac_iter = (\<lambda>_. 0)\<rparr>"

text \<open>\<open>get\<close>, which the threads do not call.\<close>

definition get :: "counter_t \<Rightarrow> int option" where
  "get c = map_option (\<lambda>_. global_count c) (Sem_wait (glock c))"

lemmas ac_step_defs = ac_with_def update_with_def ac_goto_def Let_def sem_defs

section \<open>The invariant\<close>

abbreviation cpu :: "(tid \<Rightarrow> int) \<Rightarrow> tid \<Rightarrow> nat" where
  "cpu ids t \<equiv> nat (cpu_of (ids t))"

definition a_locked :: "acpc \<Rightarrow> bool" where
  "a_locked p \<longleftrightarrow> p \<in> {AAdd, ATest, AGlock, AGadd, AGunlock, AReset, AUnlock}"

definition a_global :: "acpc \<Rightarrow> bool" where
  "a_global p \<longleftrightarrow> p \<in> {AGadd, AGunlock}"

text \<open>The value of the CPU's counter has been added to the global one and not yet been reset.\<close>

definition a_moved :: "acpc \<Rightarrow> bool" where
  "a_moved p \<longleftrightarrow> p \<in> {AGunlock, AReset}"

definition a_added :: "acpc \<Rightarrow> bool" where
  "a_added p \<longleftrightarrow> p \<in> {ATest, AGlock, AGadd, AGunlock, AReset, AUnlock}"

lemmas a_classes = a_locked_def a_global_def a_moved_def a_added_def

text \<open>What a CPU holds that is not in the global counter, and what a thread has added.\<close>

definition held :: "(tid \<Rightarrow> int) \<Rightarrow> nat \<Rightarrow> ac_state \<Rightarrow> nat \<Rightarrow> int" where
  "held ids n s i = (if \<exists>t < n. cpu ids t = i \<and> a_moved (ac_pc s t) then 0 else local_count (ac_c s) ! i)"

definition added :: "int \<Rightarrow> ac_state \<Rightarrow> tid \<Rightarrow> int" where
  "added amt s t = amt * (int (ac_iter s t) + (if a_added (ac_pc s t) then 1 else 0))"

text \<open>What the thread in its critical section knows about the counter of its CPU.\<close>

definition a_knows :: "int \<Rightarrow> int \<Rightarrow> acpc \<Rightarrow> int \<Rightarrow> bool" where
  "a_knows th amt p v \<longleftrightarrow> (case p of ATest \<Rightarrow> v < th + amt | AGlock \<Rightarrow> v < th + amt | AGadd \<Rightarrow> v < th + amt
     | AGunlock \<Rightarrow> v < th + amt | AReset \<Rightarrow> v < th + amt | _ \<Rightarrow> v < th)"

definition ac_locks :: "(tid \<Rightarrow> int) \<Rightarrow> nat \<Rightarrow> ac_state \<Rightarrow> bool" where
  "ac_locks ids n s \<longleftrightarrow>
    length (llock (ac_c s)) = NUMCPUS \<and> length (local_count (ac_c s)) = NUMCPUS \<and>
    glock (ac_c s) + cnt n (ac_pc s) a_global = 1 \<and>
    (\<forall>i < NUMCPUS. llock (ac_c s) ! i + cnt n (\<lambda>t. (cpu ids t, ac_pc s t)) (\<lambda>(c, p). c = i \<and> a_locked p) = 1)"

definition ac_values :: "(tid \<Rightarrow> int) \<Rightarrow> int \<Rightarrow> int \<Rightarrow> nat \<Rightarrow> ac_state \<Rightarrow> bool" where
  "ac_values ids amt th n s \<longleftrightarrow>
    threshold (ac_c s) = th \<and> 0 \<le> global_count (ac_c s) \<and>
    global_count (ac_c s) + (\<Sum>i < NUMCPUS. held ids n s i) = (\<Sum>t < n. added amt s t) \<and>
    (\<forall>i < NUMCPUS. 0 \<le> local_count (ac_c s) ! i) \<and>
    (\<forall>i < NUMCPUS. (\<forall>t < n. cpu ids t = i \<longrightarrow> \<not> a_locked (ac_pc s t)) \<longrightarrow> local_count (ac_c s) ! i < th) \<and>
    (\<forall>t < n. a_locked (ac_pc s t) \<longrightarrow> a_knows th amt (ac_pc s t) (local_count (ac_c s) ! cpu ids t))"

lemma cpu_bound: "0 \<le> cpu_of x \<Longrightarrow> nat (cpu_of x) < NUMCPUS"
  unfolding cpu_of_def NUMCPUS_def by (auto simp: nat_less_iff split: if_splits)

abbreviation on_cpu :: "nat \<Rightarrow> nat \<times> acpc \<Rightarrow> bool" where
  "on_cpu i \<equiv> \<lambda>(c, p). c = i \<and> a_locked p"

lemma pair_upd: "(\<lambda>u. (cpu ids u, (pc(t := q)) u)) = (\<lambda>u. (cpu ids u, pc u))(t := (cpu ids t, q))"
  by auto

lemma on_cpu_upd:
  assumes "t < n"
  shows "cnt n (\<lambda>u. (cpu ids u, (pc(t := q)) u)) (on_cpu i) + (if cpu ids t = i \<and> a_locked (pc t) then 1 else 0)
    = cnt n (\<lambda>u. (cpu ids u, pc u)) (on_cpu i) + (if cpu ids t = i \<and> a_locked q then 1 else 0)"
  using cnt_upd [OF assms, of "\<lambda>u. (cpu ids u, pc u)" "(cpu ids t, q)" "on_cpu i"] unfolding pair_upd by simp

lemma ac_excl:
  assumes "ac_locks ids n s" "t < n" "u < n" "t \<noteq> u" "cpu ids t = cpu ids u" "a_locked (ac_pc s t)" "cpu ids t < NUMCPUS"
  shows "\<not> a_locked (ac_pc s u)"
  using assms cnt_two [of t n u "on_cpu (cpu ids t)" "\<lambda>v. (cpu ids v, ac_pc s v)"] by (auto simp: ac_locks_def)

lemma ac_llock:
  assumes "wide_step ids amt k t s = Some s'" "0 \<le> cpu_of (ids t)"
  shows "let ll = llock (ac_c s); ll' = llock (ac_c s'); i = cpu ids t in
    case ac_pc s t of ALock \<Rightarrow> 0 < ll ! i \<and> ll' = ll[i := ll ! i - 1] \<and> ac_pc s' t = AAdd
    | AUnlock \<Rightarrow> ll' = ll[i := Suc (ll ! i)] \<and> ac_pc s' t = ALoop
    | p \<Rightarrow> ll' = ll \<and> a_locked (ac_pc s' t) = a_locked p"
  using assms by (cases "ac_pc s t") (auto simp: ac_step_defs a_locked_def split: if_splits)

lemma ac_locks_step:
  assumes "ac_locks ids n s" "t < n" "0 \<le> cpu_of (ids t)" "wide_step ids amt k t s = Some s'"
  shows "ac_locks ids n s'"
proof -
  let ?pc = "ac_pc s" and ?c = "ac_c s"
  have up: "ac_pc s' = ?pc(t := ac_pc s' t)"
    using assms(3,4) by (cases "?pc t") (auto simp: ac_step_defs split: if_splits)
  have len: "length (llock (ac_c s')) = NUMCPUS \<and> length (local_count (ac_c s')) = NUMCPUS"
    using assms by (cases "?pc t") (auto simp: ac_step_defs ac_locks_def split: if_splits)
  have len': "length (llock ?c) = NUMCPUS" using assms(1) by (simp add: ac_locks_def)
  have g: "glock (ac_c s') + cnt n (ac_pc s') a_global = 1"
    using assms cnt_pos [OF assms(2), of a_global ?pc]
    by (cases "?pc t") (auto simp: ac_step_defs ac_locks_def a_classes count_simps split: if_splits)
  have "llock (ac_c s') ! i + cnt n (\<lambda>t. (cpu ids t, ac_pc s' t)) (on_cpu i) = 1" if i: "i < NUMCPUS" for i
  proof -
    have old: "llock ?c ! i + cnt n (\<lambda>t. (cpu ids t, ?pc t)) (on_cpu i) = 1" using assms(1) i by (simp add: ac_locks_def)
    have ll: "llock (ac_c s') ! i + (if cpu ids t = i \<and> a_locked (ac_pc s' t) then 1 else 0) =
        llock ?c ! i + (if cpu ids t = i \<and> a_locked (?pc t) then 1 else 0)"
      using ac_llock [OF assms(4,3)] i len' by (cases "?pc t") (auto simp: a_locked_def nth_list_update Let_def)
    have "cnt n (\<lambda>u. (cpu ids u, ac_pc s' u)) (on_cpu i) + (if cpu ids t = i \<and> a_locked (?pc t) then 1 else 0)
        = cnt n (\<lambda>u. (cpu ids u, ?pc u)) (on_cpu i) + (if cpu ids t = i \<and> a_locked (ac_pc s' t) then 1 else 0)"
      using on_cpu_upd [OF assms(2), of ids ?pc "ac_pc s' t" i] up by simp
    with old ll show ?thesis by linarith
  qed
  with len g show ?thesis by (simp add: ac_locks_def)
qed

lemma held_own:
  assumes "ac_locks ids n s" "t < n" "a_locked (ac_pc s t)" "cpu ids t < NUMCPUS"
  shows "held ids n s (cpu ids t) = (if a_moved (ac_pc s t) then 0 else local_count (ac_c s) ! cpu ids t)"
proof -
  have "\<not> a_moved (ac_pc s u)" if "u < n" "u \<noteq> t" "cpu ids u = cpu ids t" for u
    using ac_excl [OF assms(1,2) that(1) _ _ assms(3,4)] that by (auto simp: a_classes)
  then have "(\<exists>u < n. cpu ids u = cpu ids t \<and> a_moved (ac_pc s u)) \<longleftrightarrow> a_moved (ac_pc s t)"
    using assms(2) by metis
  then show ?thesis by (simp add: held_def)
qed

lemma held_other:
  assumes "\<And>u. u \<noteq> t \<Longrightarrow> ac_pc s' u = ac_pc s u" "i \<noteq> cpu ids t" "local_count (ac_c s') ! i = local_count (ac_c s) ! i"
  shows "held ids n s' i = held ids n s i"
proof -
  have "(\<exists>u < n. cpu ids u = i \<and> a_moved (ac_pc s' u)) \<longleftrightarrow> (\<exists>u < n. cpu ids u = i \<and> a_moved (ac_pc s u))"
    using assms(1,2) by metis
  then show ?thesis using assms(3) by (simp only: held_def)
qed

lemma held_same:
  assumes "\<And>u. a_moved (ac_pc s' u) = a_moved (ac_pc s u)" "local_count (ac_c s') = local_count (ac_c s)"
  shows "held ids n s' = held ids n s"
  using assms by (intro ext) (simp only: held_def)

lemma sum_move:
  fixes f g :: "nat \<Rightarrow> int"
  assumes "j < m" "\<And>i. i < m \<Longrightarrow> i \<noteq> j \<Longrightarrow> g i = f i"
  shows "(\<Sum>i < m. g i) = (\<Sum>i < m. f i) + (g j - f j)"
  using assms by (intro sum_change_one) auto

lemma ac_frame:
  assumes "wide_step ids amt k t s = Some s'" "u \<noteq> t"
  shows "ac_pc s' u = ac_pc s u" "added amt s' u = added amt s u"
  using assms by (cases "ac_pc s t"; auto simp: ac_step_defs added_def split: if_splits)+

text \<open>The statements that touch neither the counters nor what has been moved.\<close>

lemma ac_quiet:
  assumes "wide_step ids amt k t s = Some s'" "ac_pc s t \<notin> {AAdd, AGadd, AReset}"
  shows "local_count (ac_c s') = local_count (ac_c s)" "global_count (ac_c s') = global_count (ac_c s)"
    "threshold (ac_c s') = threshold (ac_c s)" "a_moved (ac_pc s' t) = a_moved (ac_pc s t)" "added amt s' t = added amt s t"
  using assms by (cases "ac_pc s t"; auto simp: ac_step_defs added_def a_classes algebra_simps split: if_splits)+

lemma ac_sum_step:
  assumes lk: "ac_locks ids n s" and t: "t < n" "0 \<le> cpu_of (ids t)" and st: "wide_step ids amt k t s = Some s'"
    and sum: "global_count (ac_c s) + (\<Sum>i < NUMCPUS. held ids n s i) = (\<Sum>t < n. added amt s t)"
  shows "global_count (ac_c s') + (\<Sum>i < NUMCPUS. held ids n s' i) = (\<Sum>t < n. added amt s' t)"
proof -
  let ?i = "cpu ids t"
  have i: "?i < NUMCPUS" using t(2) by (rule cpu_bound)
  have lk': "ac_locks ids n s'" using ac_locks_step [OF lk t st] .
  have add: "(\<Sum>u < n. added amt s' u) = (\<Sum>u < n. added amt s u) + (added amt s' t - added amt s t)"
    using t(1) ac_frame(2) [OF st] by (intro sum_move) auto
  show ?thesis
  proof (cases "ac_pc s t \<in> {AAdd, AGadd, AReset}")
    case False
    note q = ac_quiet [OF st False]
    have "held ids n s' = held ids n s" using q(1,4) ac_frame(1) [OF st] by (intro held_same) metis+
    then show ?thesis using add q sum by simp
  next
    case True
    then have l: "a_locked (ac_pc s t)" by (auto simp: a_classes)
    from True have l': "a_locked (ac_pc s' t)" using st by (auto simp: ac_step_defs a_classes split: if_splits)
    have oth: "held ids n s' j = held ids n s j" if "j \<noteq> ?i" for j
      using that ac_frame(1) [OF st] True st by (intro held_other) (auto simp: ac_step_defs split: if_splits)
    have "(\<Sum>j < NUMCPUS. held ids n s' j) = (\<Sum>j < NUMCPUS. held ids n s j) + (held ids n s' ?i - held ids n s ?i)"
      using i oth by (intro sum_move) auto
    moreover have "global_count (ac_c s') + held ids n s' ?i - held ids n s ?i = global_count (ac_c s) + (added amt s' t - added amt s t)"
      unfolding held_own [OF lk t(1) l i] held_own [OF lk' t(1) l' i]
      using True st i t(2) lk by (elim insertE emptyE) (auto simp: added_def ac_step_defs a_classes ac_locks_def distrib_left)
    ultimately show ?thesis using sum add by linarith
  qed
qed

text \<open>How a statement changes the counters of the CPUs, and that the thread knows enough afterwards.\<close>

lemma ac_local_step:
  assumes "wide_step ids amt k t s = Some s'" "0 \<le> cpu_of (ids t)"
  shows "local_count (ac_c s') = (case ac_pc s t of
      AAdd \<Rightarrow> (local_count (ac_c s))[cpu ids t := local_count (ac_c s) ! cpu ids t + amt]
    | AReset \<Rightarrow> (local_count (ac_c s))[cpu ids t := 0] | _ \<Rightarrow> local_count (ac_c s))"
    and "threshold (ac_c s') = threshold (ac_c s)"
    and "global_count (ac_c s') = (if ac_pc s t = AGadd then global_count (ac_c s) + local_count (ac_c s) ! cpu ids t else global_count (ac_c s))"
  using assms by (cases "ac_pc s t"; auto simp: ac_step_defs split: if_splits)+

lemma ac_values_step:
  assumes lk: "ac_locks ids n s" and vs: "ac_values ids amt th n s" and t: "t < n" "0 \<le> cpu_of (ids t)"
    and st: "wide_step ids amt k t s = Some s'" and pos: "0 < th" "0 \<le> amt"
  shows "ac_values ids amt th n s'"
proof -
  let ?i = "cpu ids t" and ?lc = "local_count (ac_c s)" and ?lc' = "local_count (ac_c s')"
  have i: "?i < NUMCPUS" using t(2) by (rule cpu_bound)
  have len: "length ?lc = NUMCPUS" using lk by (simp add: ac_locks_def)
  note fr = ac_frame(1) [OF st] and lc = ac_local_step [OF st t(2)]
  have nn: "0 \<le> ?lc' ! j" if "j < NUMCPUS" for j
    using vs that i pos unfolding lc ac_values_def by (auto simp: nth_list_update len split: acpc.splits)
  have oth: "?lc' ! j = ?lc ! j" if "j \<noteq> ?i" for j using that unfolding lc by (auto split: acpc.splits)
  have own: "a_locked (ac_pc s t) \<Longrightarrow> a_knows th amt (ac_pc s t) (?lc ! ?i)" using vs t by (simp add: ac_values_def)
  have free: "ac_pc s t = ALock \<Longrightarrow> ?lc ! ?i < th"
  proof -
    assume "ac_pc s t = ALock"
    then have "0 < llock (ac_c s) ! ?i" using st t(2) by (auto simp: ac_step_defs split: if_splits)
    then have "cnt n (\<lambda>u. (cpu ids u, ac_pc s u)) (on_cpu ?i) = 0" using lk i by (auto simp: ac_locks_def)
    then show ?thesis using vs i by (auto simp: ac_values_def cnt_zero_iff)
  qed
  have th: "threshold (ac_c s) = th" using vs by (simp add: ac_values_def)
  have knows: "a_locked (ac_pc s' t) \<Longrightarrow> a_knows th amt (ac_pc s' t) (?lc' ! ?i)"
    using st t(2) own free pos i
    by (cases "ac_pc s t") (auto simp: ac_step_defs a_knows_def a_classes len th split: if_splits)
  have unl: "\<not> a_locked (ac_pc s' t) \<Longrightarrow> a_locked (ac_pc s t) \<Longrightarrow> ?lc' ! ?i < th"
    using st t(2) own by (cases "ac_pc s t") (auto simp: ac_step_defs a_knows_def a_classes split: if_splits)
  have "?lc' ! j < th" if j: "j < NUMCPUS" "\<forall>u < n. cpu ids u = j \<longrightarrow> \<not> a_locked (ac_pc s' u)" for j
  proof (cases "j = ?i \<and> a_locked (ac_pc s t)")
    case True
    then show ?thesis using unl j(2) t(1) by auto
  next
    case False
    then have "\<forall>u < n. cpu ids u = j \<longrightarrow> \<not> a_locked (ac_pc s u)" using j(2) fr by metis
    then have "?lc ! j < th" using vs j(1) by (simp add: ac_values_def)
    moreover have "?lc' ! j = ?lc ! j" using False oth [of j] unfolding lc by (auto simp: a_classes split: acpc.splits)
    ultimately show ?thesis by simp
  qed
  moreover have "a_knows th amt (ac_pc s' u) (?lc' ! cpu ids u)" if u: "u < n" "a_locked (ac_pc s' u)" for u
  proof (cases "u = t")
    case False
    then have ul: "a_locked (ac_pc s u)" "a_knows th amt (ac_pc s u) (?lc ! cpu ids u)" "ac_pc s' u = ac_pc s u"
      using u vs fr by (auto simp: ac_values_def)
    have "?lc' ! cpu ids u = ?lc ! cpu ids u"
    proof (cases "cpu ids u = ?i")
      case True
      then have "\<not> a_locked (ac_pc s t)" using ac_excl [OF lk u(1) t(1) False _ ul(1)] i by simp
      then show ?thesis unfolding lc by (auto simp: a_classes split: acpc.splits)
    qed (rule oth)
    with ul show ?thesis by simp
  qed (use knows u in simp)
  moreover have "0 \<le> global_count (ac_c s')" using vs i unfolding lc(3) by (simp add: ac_values_def)
  ultimately show ?thesis
    using nn ac_sum_step [OF lk t st] vs lc(2) by (simp add: ac_values_def)
qed

definition ac_iters :: "nat \<Rightarrow> nat \<Rightarrow> ac_state \<Rightarrow> bool" where
  "ac_iters k n s \<longleftrightarrow> (\<forall>t < n. ac_iter s t \<le> k \<and> (ac_pc s t \<notin> {ALoop, ADone} \<longrightarrow> ac_iter s t < k) \<and> (ac_pc s t = ADone \<longrightarrow> ac_iter s t = k))"

definition ac_inv :: "(tid \<Rightarrow> int) \<Rightarrow> int \<Rightarrow> int \<Rightarrow> nat \<Rightarrow> nat \<Rightarrow> ac_state \<Rightarrow> bool" where
  "ac_inv ids amt th k n s \<longleftrightarrow> ac_locks ids n s \<and> ac_values ids amt th n s \<and> ac_iters k n s"

definition ac_rank :: "acpc \<Rightarrow> nat" where
  "ac_rank p = (case p of ALoop \<Rightarrow> 10 | ALock \<Rightarrow> 9 | AAdd \<Rightarrow> 8 | ATest \<Rightarrow> 7 | AGlock \<Rightarrow> 6 | AGadd \<Rightarrow> 5 | AGunlock \<Rightarrow> 4
     | AReset \<Rightarrow> 3 | AUnlock \<Rightarrow> 2 | ADone \<Rightarrow> 0)"

definition ac_left :: "nat \<Rightarrow> ac_state \<Rightarrow> tid \<Rightarrow> nat" where
  "ac_left k s t = 10 * (k - ac_iter s t) + ac_rank (ac_pc s t)"

definition ac_budget :: "nat \<Rightarrow> nat \<Rightarrow> ac_state \<Rightarrow> nat" where
  "ac_budget k n s = (\<Sum>t < n. ac_left k s t)"

definition ac_finished :: "nat \<Rightarrow> ac_state \<Rightarrow> bool" where
  "ac_finished n s \<longleftrightarrow> (\<forall>t < n. ac_pc s t = ADone)"

lemma ac_frame_iter: "wide_step ids amt k t s = Some s' \<Longrightarrow> u \<noteq> t \<Longrightarrow> ac_iter s' u = ac_iter s u"
  by (cases "ac_pc s t") (auto simp: ac_step_defs split: if_splits)

lemma ac_iters_step:
  assumes "ac_iters k n s" "t < n" "wide_step ids amt k t s = Some s'"
  shows "ac_iters k n s'"
proof -
  have "ac_iter s' t \<le> k \<and> (ac_pc s' t \<notin> {ALoop, ADone} \<longrightarrow> ac_iter s' t < k) \<and> (ac_pc s' t = ADone \<longrightarrow> ac_iter s' t = k)"
    using assms by (cases "ac_pc s t") (auto simp: ac_iters_def ac_step_defs split: if_splits)
  then show ?thesis using assms(1) ac_frame_iter [OF assms(3)] ac_frame(1) [OF assms(3)] unfolding ac_iters_def by metis
qed

lemma ac_budget_step:
  assumes "ac_iters k n s" "t < n" "wide_step ids amt k t s = Some s'"
  shows "ac_budget k n s' < ac_budget k n s"
  unfolding ac_budget_def
proof (rule sum_one_less [OF assms(2)])
  show "ac_left k s' t < ac_left k s t"
    using assms by (cases "ac_pc s t") (auto simp: ac_iters_def ac_left_def ac_rank_def ac_step_defs split: if_splits)
qed (use ac_frame_iter [OF assms(3)] ac_frame(1) [OF assms(3)] in \<open>auto simp: ac_left_def\<close>)

lemma ac_progress:
  assumes lk: "ac_locks ids n s" and ids: "\<And>t. 0 \<le> cpu_of (ids t)" and nf: "\<not> ac_finished n s"
  shows "\<exists>t < n. wide_step ids amt k t s \<noteq> None"
proof -
  consider (g) t where "t < n" "a_global (ac_pc s t)" | (l) t where "t < n" "a_locked (ac_pc s t)" "\<forall>u < n. \<not> a_global (ac_pc s u)"
    | (free) t where "t < n" "ac_pc s t \<noteq> ADone" "\<forall>u < n. \<not> a_locked (ac_pc s u)" using nf unfolding ac_finished_def by blast
  then show ?thesis
  proof cases
    case g
    then have "wide_step ids amt k t s \<noteq> None" using ids [of t] by (auto simp: a_classes ac_step_defs)
    with g show ?thesis by blast
  next
    case l
    then have "glock (ac_c s) = 1" using lk by (simp add: ac_locks_def cnt_zero_iff [THEN iffD2])
    then have "wide_step ids amt k t s \<noteq> None" using l(2) ids [of t] by (auto simp: a_classes ac_step_defs)
    with l show ?thesis by blast
  next
    case free
    have "cnt n (\<lambda>u. (cpu ids u, ac_pc s u)) (on_cpu (cpu ids t)) = 0" using free(3) by (auto simp: cnt_zero_iff)
    then have "llock (ac_c s) ! cpu ids t = 1" using lk cpu_bound [OF ids, of t] by (auto simp: ac_locks_def)
    then have "wide_step ids amt k t s \<noteq> None"
      using free ids [of t] by (cases "ac_pc s t") (auto simp: a_classes ac_step_defs)
    with free show ?thesis by blast
  qed
qed

lemma cpu_of_nat: "0 \<le> cpu_of (int x)"
  by (simp add: cpu_of_def NUMCPUS_def)

lemma ac_inv_init: "ac_inv ids amt (int (Suc th)) k n (ac_main (int (Suc th)))"
proof -
  have "(\<Sum>i < NUMCPUS. held ids n (ac_main (int (Suc th))) i) = 0"
    by (rule sum.neutral) (simp add: held_def ac_main_def counter_init_def)
  then show ?thesis
    by (auto simp: ac_inv_def ac_locks_def ac_values_def ac_iters_def ac_main_def counter_init_def added_def a_classes cnt_zero_iff)
qed

interpretation ac: live_system "wide_step (\<lambda>t. int (f t)) (int a) k" n "ac_main (int (Suc th))"
    "ac_inv (\<lambda>t. int (f t)) (int a) (int (Suc th)) k n" "ac_budget k n" "ac_finished n" for f a k n th
proof
  show "ac_inv (\<lambda>t. int (f t)) (int a) (int (Suc th)) k n (ac_main (int (Suc th)))" by (rule ac_inv_init)
next
  fix s i t
  assume *: "ac_inv (\<lambda>t. int (f t)) (int a) (int (Suc th)) k n s" "i < n" "wide_step (\<lambda>t. int (f t)) (int a) k i s = Some t"
  then show "ac_inv (\<lambda>t. int (f t)) (int a) (int (Suc th)) k n t"
    using ac_locks_step [OF _ *(2) cpu_of_nat *(3)] ac_values_step [OF _ _ *(2) cpu_of_nat *(3)] ac_iters_step [OF _ *(2,3)]
    by (auto simp: ac_inv_def)
  show "ac_budget k n t < ac_budget k n s" using * ac_budget_step by (auto simp: ac_inv_def)
next
  fix s
  assume "ac_inv (\<lambda>t. int (f t)) (int a) (int (Suc th)) k n s" "\<not> ac_finished n s"
  then show "\<exists>i < n. wide_step (\<lambda>t. int (f t)) (int a) k i s \<noteq> None"
    by (intro ac_progress cpu_of_nat) (auto simp: ac_inv_def)
qed

section \<open>Properties\<close>

lemma held_bounds:
  assumes "ac_locks ids n s" "ac_values ids amt th n s" "i < NUMCPUS" "0 < th" "0 \<le> amt"
  shows "0 \<le> held ids n s i" "held ids n s i \<le> th - 1 + amt" "\<forall>t < n. \<not> a_locked (ac_pc s t) \<Longrightarrow> held ids n s i \<le> th - 1"
proof -
  have loc: "0 \<le> local_count (ac_c s) ! i" "\<forall>t < n. cpu ids t = i \<longrightarrow> \<not> a_locked (ac_pc s t) \<Longrightarrow> local_count (ac_c s) ! i < th"
    using assms(2,3) by (auto simp: ac_values_def)
  have "local_count (ac_c s) ! i < th + amt"
  proof (cases "\<exists>t < n. cpu ids t = i \<and> a_locked (ac_pc s t)")
    case True
    then obtain t where "t < n" "cpu ids t = i" "a_locked (ac_pc s t)" by blast
    moreover from this have "a_knows th amt (ac_pc s t) (local_count (ac_c s) ! i)" using assms(2) by (auto simp: ac_values_def)
    ultimately show ?thesis using assms(5) by (auto simp: a_knows_def split: acpc.splits)
  qed (use loc(2) assms(5) in force)
  then show "0 \<le> held ids n s i" "held ids n s i \<le> th - 1 + amt" using loc(1) assms(4,5) by (auto simp: held_def)
  show "\<forall>t < n. \<not> a_locked (ac_pc s t) \<Longrightarrow> held ids n s i \<le> th - 1" using loc assms(4) by (auto simp: held_def)
qed

lemma ac_global_bounds:
  assumes "ac_inv ids amt th k n s" "0 < th" "0 \<le> amt" and m: "m = (if \<forall>t < n. \<not> a_locked (ac_pc s t) then th - 1 else th - 1 + amt)"
  shows "(\<Sum>t < n. added amt s t) - int NUMCPUS * m \<le> global_count (ac_c s) \<and> global_count (ac_c s) \<le> (\<Sum>t < n. added amt s t)"
proof -
  have lk: "ac_locks ids n s" "ac_values ids amt th n s" using assms(1) by (auto simp: ac_inv_def)
  note hb = held_bounds [OF lk _ assms(2,3)]
  have "0 \<le> (\<Sum>i < NUMCPUS. held ids n s i)" using hb(1) by (intro sum_nonneg) auto
  moreover have "(\<Sum>i < NUMCPUS. held ids n s i) \<le> int (card {..<NUMCPUS}) * m"
    using hb(2,3) m by (intro sum_bounded_above) auto
  ultimately show ?thesis using lk(2) by (simp add: ac_values_def)
qed

text \<open>No sum is larger than what the threads add altogether, so the counters do not overflow when that fits.\<close>

lemma added_le:
  assumes "ac_iters k n s" "0 \<le> amt"
  shows "(\<Sum>t < n. added amt s t) \<le> int n * (int k * amt)"
proof -
  have "added amt s t \<le> int k * amt" if "t < n" for t
  proof -
    have "int (ac_iter s t) + (if a_added (ac_pc s t) then 1 else 0) \<le> int k"
      using assms(1) that by (auto simp: ac_iters_def a_added_def)
    from mult_left_mono [OF this assms(2)] show ?thesis by (simp add: added_def mult.commute)
  qed
  then have "(\<Sum>t < n. added amt s t) \<le> int (card {..<n}) * (int k * amt)" by (intro sum_bounded_above) auto
  then show ?thesis by simp
qed

lemma ac_step_wide:
  assumes inv: "ac_inv ids amt th k n s" and t: "t < n" "0 \<le> cpu_of (ids t)" and pos: "0 < th" "0 \<le> amt"
    and small: "int n * (int k * amt) < 2 ^ 31"
  shows "ac_step ids amt k t s = wide_step ids amt k t s"
proof (cases "ac_pc s t \<in> {AAdd, AGadd}")
  case False
  then show ?thesis by (cases "ac_pc s t") (auto simp: ac_step_def ac_step_defs)
next
  case True
  let ?i = "cpu ids t"
  have i: "?i < NUMCPUS" using t(2) by (rule cpu_bound)
  obtain s' where st: "wide_step ids amt k t s = Some s'" using True t(2) by (auto simp: ac_step_defs)
  have lk: "ac_locks ids n s" "ac_locks ids n s'" and vs: "ac_values ids amt th n s" "ac_values ids amt th n s'"
    and it: "ac_iters k n s'"
    using inv ac_locks_step [OF _ t st] ac_values_step [OF _ _ t st pos] ac_iters_step [OF _ t(1) st] by (auto simp: ac_inv_def)
  have nn: "0 \<le> held ids n s' j" if "j < NUMCPUS" for j using held_bounds(1) [OF lk(2) vs(2) that pos] .
  have sum: "global_count (ac_c s') + (\<Sum>j < NUMCPUS. held ids n s' j) \<le> int n * (int k * amt)"
    using vs(2) added_le [OF it pos(2)] by (simp add: ac_values_def)
  show ?thesis
  proof (cases "ac_pc s t = AAdd")
    case AAdd: True
    then have l: "a_locked (ac_pc s' t)" "\<not> a_moved (ac_pc s' t)" using st t(2) by (auto simp: ac_step_defs a_classes)
    have "held ids n s' ?i = local_count (ac_c s) ! ?i + amt"
      using held_own [OF lk(2) t(1) l(1) i] l(2) ac_local_step(1) [OF st t(2)] AAdd lk(1) i by (simp add: ac_locks_def)
    moreover have "held ids n s' ?i \<le> (\<Sum>j < NUMCPUS. held ids n s' j)" using nn i by (intro member_le_sum) auto
    ultimately have "local_count (ac_c s) ! ?i + amt < 2 ^ 31" "0 \<le> local_count (ac_c s) ! ?i + amt"
      using sum small vs i pos by (auto simp: ac_values_def)
    then show ?thesis using AAdd by (auto simp: ac_step_def ac_step_defs int32_id)
  next
    case False
    with True have AGadd: "ac_pc s t = AGadd" by simp
    have "0 \<le> (\<Sum>j < NUMCPUS. held ids n s' j)" using nn by (intro sum_nonneg) auto
    then have "global_count (ac_c s) + local_count (ac_c s) ! ?i < 2 ^ 31" "0 \<le> global_count (ac_c s) + local_count (ac_c s) ! ?i"
      using sum small vs i ac_local_step(3) [OF st t(2)] AGadd by (auto simp: ac_values_def)
    then show ?thesis using AGadd by (auto simp: ac_step_def ac_step_defs int32_id)
  qed
qed

text \<open>C27:
  The approximate counter is never above the true count, and behind it by less than the threshold
  plus one increment for each CPU while threads are running. Every run ends, without deadlock, and at
  the end the true count is \<open>n * k * a\<close> and the counter is behind by at most 16 times the
  threshold less one: 0 for the threshold 1. Identifiers are those that are not negative as \<open>int\<close>, and the
  true count at the end is below \<open>2 ^ 31\<close>, so that the 32-bit counters do not overflow.
\<close>

theorem approximate_counter_bounds:
  assumes "run_sched (ac_step (\<lambda>t. int (f t)) (int a) k) is (ac_main (int (Suc th))) = Some s" "\<forall>i \<in> set is. i < n"
    and "n * k * a < 2 ^ 31"
  shows "(\<Sum>t < n. added (int a) s t) - 16 * int (th + a) \<le> global_count (ac_c s) \<and>
    global_count (ac_c s) \<le> (\<Sum>t < n. added (int a) s t) \<and> length is \<le> n * (10 * k + 10) \<and>
    ((\<forall>i < n. ac_step (\<lambda>t. int (f t)) (int a) k i s = None) \<longrightarrow> ac_finished n s \<and>
      int (n * k * a) - 16 * int th \<le> global_count (ac_c s) \<and> global_count (ac_c s) \<le> int (n * k * a))"
proof -
  let ?inv = "ac_inv (\<lambda>t. int (f t)) (int a) (int (Suc th)) k n"
  have "int (n * k * a) < int (2 ^ 31)" using assms(3) by (simp only: of_nat_less_iff)
  then have small: "int n * (int k * int a) < 2 ^ 31" by (simp add: mult.assoc)
  have same: "ac_step (\<lambda>t. int (f t)) (int a) k i u = wide_step (\<lambda>t. int (f t)) (int a) k i u" if "?inv u" "i < n" for u i
    using ac_step_wide [OF that cpu_of_nat _ _ small] by simp
  have run: "run_sched (wide_step (\<lambda>t. int (f t)) (int a) k) is (ac_main (int (Suc th))) = Some s"
    using run_sched_cong [where I = ?inv and n = n, OF same ac.inv_step ac_inv_init assms(2)] assms(1) by simp
  have inv: "?inv s" using run assms(2) by (rule ac.run_inv)
  have "length is \<le> n * (10 * k + 10) \<and> ((\<forall>i < n. wide_step (\<lambda>t. int (f t)) (int a) k i s = None) \<longrightarrow> ac_finished n s)"
    using ac.run_bounded [OF run assms(2)] by (simp add: ac_budget_def ac_left_def ac_main_def ac_rank_def)
  moreover have fin: "(\<Sum>t < n. added (int a) s t) = int (n * k * a)" "\<forall>t < n. \<not> a_locked (ac_pc s t)" if "ac_finished n s"
    using that inv by (auto simp: ac_finished_def ac_inv_def ac_iters_def added_def a_classes)
  moreover note ac_global_bounds [OF inv _ _ refl]
  ultimately show ?thesis using same [OF inv] by (auto simp: NUMCPUS_def split: if_splits)
qed

theorem approximate_counter_bounds_witness:
  "\<exists>s. run_sched (ac_step (\<lambda>t. int t) (int 1) 1) [0, 0, 0, 0, 0, 0] (ac_main (int (Suc 1))) = Some s \<and> ac_pc s 0 = ADone \<and>
    int (1 * 1 * 1) - 16 * int 1 \<le> global_count (ac_c s) \<and> global_count (ac_c s) \<le> int (1 * 1 * 1) \<and> global_count (ac_c s) = 0"
proof -
  have "(case run_sched (ac_step (\<lambda>t. int t) (int 1) 1) [0, 0, 0, 0, 0, 0] (ac_main (int (Suc 1))) of None \<Rightarrow> False
      | Some s \<Rightarrow> ac_pc s 0 = ADone \<and> global_count (ac_c s) = 0)"
    by (simp add: ac_main_def counter_init_def ac_step_def ac_step_defs cpu_of_def NUMCPUS_def int32_def)
  then obtain s where s: "run_sched (ac_step (\<lambda>t. int t) (int 1) 1) [0, 0, 0, 0, 0, 0] (ac_main (int (Suc 1))) = Some s"
    "ac_pc s 0 = ADone" "global_count (ac_c s) = 0" by (rule run_sched_test) auto
  moreover have "\<forall>i < 1. ac_step (\<lambda>t. int t) (int 1) 1 i s = None" using s(2) by (simp add: ac_step_def ac_with_def)
  ultimately show ?thesis
    using approximate_counter_bounds [of "\<lambda>t. t" 1 1 "[0, 0, 0, 0, 0, 0]" 1 s 1] by simp
qed

end
