(* ===== verification/Hand_Over_Hand.thy ===== *)
theory Hand_Over_Hand
  imports Semaphore
begin

text \<open>
  The lookups of \<^verbatim>\<open>29/hand-over-hand-locking-list.c\<close>, which \<open>main\<close> runs in several threads after it has
  built the list: a thread holds the lock of a node until it has the lock of the next one. The list
  does not change meanwhile, so a node is given by its position and the list by its keys. Thread \<open>t\<close>
  looks for \<open>ks t\<close>.
\<close>

section \<open>The threads\<close>

datatype hpc =
  HStart | HLock | HCompare nat | HAdvance nat | HLockNext nat nat | HUnlockTemp nat nat | HUnlockLast nat | HFound nat | HReturn int

record hoh_state =
  h_locks :: "nat list"
  h_pc :: "tid \<Rightarrow> hpc"

definition hoh_goto :: "tid \<Rightarrow> hpc \<Rightarrow> nat list \<Rightarrow> hoh_state \<Rightarrow> hoh_state" where
  "hoh_goto t p ls s = s\<lparr>h_locks := ls, h_pc := (h_pc s)(t := p)\<rparr>"

text \<open>\<open>List_Lookup\<close>, statement by statement: the next node is null behind the last key.\<close>

definition lookup_step :: "int list \<Rightarrow> (tid \<Rightarrow> int) \<Rightarrow> tid \<Rightarrow> hoh_state \<Rightarrow> hoh_state option" where
  "lookup_step keys ks t s =
    (let ls = h_locks s in
     case h_pc s t of
       HStart \<Rightarrow> Some (hoh_goto t (if keys = [] then HReturn (-1) else HLock) ls s)
     | HLock \<Rightarrow> map_option (\<lambda>v. hoh_goto t (HCompare 0) (ls[0 := v]) s) (Sem_wait (ls ! 0))
     | HCompare i \<Rightarrow> Some (hoh_goto t (if keys ! i = ks t then HFound i else HAdvance i) ls s)
     | HAdvance i \<Rightarrow> Some (hoh_goto t (if Suc i < length keys then HLockNext i (Suc i) else HUnlockLast i) ls s)
     | HLockNext i j \<Rightarrow> map_option (\<lambda>v. hoh_goto t (HUnlockTemp i j) (ls[j := v]) s) (Sem_wait (ls ! j))
     | HUnlockTemp i j \<Rightarrow> Some (hoh_goto t (HCompare j) (ls[i := Sem_post (ls ! i)]) s)
     | HUnlockLast i \<Rightarrow> Some (hoh_goto t (HReturn (-1)) (ls[i := Sem_post (ls ! i)]) s)
     | HFound i \<Rightarrow> Some (hoh_goto t (HReturn 0) (ls[i := Sem_post (ls ! i)]) s)
     | HReturn rv \<Rightarrow> None)"

text \<open>The list that \<open>main\<close> has built, with the locks of its nodes initialised, and the threads.\<close>

definition hoh_main :: "int list \<Rightarrow> hoh_state" where
  "hoh_main keys = \<lparr>h_locks = replicate (length keys) 1, h_pc = (\<lambda>_. HStart)\<rparr>"

lemmas hoh_defs = lookup_step_def hoh_goto_def Let_def sem_defs

section \<open>The invariant\<close>

definition holds :: "nat \<Rightarrow> hpc \<Rightarrow> bool" where
  "holds i p = (case p of HCompare j \<Rightarrow> j = i | HAdvance j \<Rightarrow> j = i | HLockNext j _ \<Rightarrow> j = i | HUnlockTemp j k \<Rightarrow> j = i \<or> k = i
     | HUnlockLast j \<Rightarrow> j = i | HFound j \<Rightarrow> j = i | _ \<Rightarrow> False)"

text \<open>A thread has compared its key with all those before its position.\<close>

definition h_local :: "int list \<Rightarrow> int \<Rightarrow> hpc \<Rightarrow> bool" where
  "h_local keys k p = (case p of
       HStart \<Rightarrow> True
     | HLock \<Rightarrow> keys \<noteq> []
     | HCompare i \<Rightarrow> i < length keys \<and> k \<notin> set (take i keys)
     | HAdvance i \<Rightarrow> i < length keys \<and> k \<notin> set (take (Suc i) keys)
     | HLockNext i j \<Rightarrow> j = Suc i \<and> j < length keys \<and> k \<notin> set (take (Suc i) keys)
     | HUnlockTemp i j \<Rightarrow> j = Suc i \<and> j < length keys \<and> k \<notin> set (take (Suc i) keys)
     | HUnlockLast i \<Rightarrow> Suc i = length keys \<and> k \<notin> set keys
     | HFound i \<Rightarrow> i < length keys \<and> k \<in> set keys
     | HReturn rv \<Rightarrow> rv = (if k \<in> set keys then 0 else -1))"

definition hoh_inv :: "int list \<Rightarrow> (tid \<Rightarrow> int) \<Rightarrow> nat \<Rightarrow> hoh_state \<Rightarrow> bool" where
  "hoh_inv keys ks n s \<longleftrightarrow> length (h_locks s) = length keys \<and>
     (\<forall>i < length keys. h_locks s ! i + cnt n (h_pc s) (holds i) = 1) \<and> (\<forall>t < n. h_local keys (ks t) (h_pc s t))"

lemma hoh_inv_init: "hoh_inv keys ks n (hoh_main keys)"
  by (simp add: hoh_inv_def hoh_main_def holds_def h_local_def)

lemma hoh_frame: "lookup_step keys ks t s = Some s' \<Longrightarrow> h_pc s' = (h_pc s)(t := h_pc s' t)"
  by (cases "h_pc s t") (auto simp: hoh_defs split: if_splits)

lemma hoh_local_step:
  "lookup_step keys ks t s = Some s' \<Longrightarrow> h_local keys (ks t) (h_pc s t) \<Longrightarrow> h_local keys (ks t) (h_pc s' t)"
  by (cases "h_pc s t")
    (auto simp: hoh_defs h_local_def take_Suc_conv_app_nth less_Suc_eq not_less_eq split: if_splits dest: in_set_takeD nth_mem)

lemma hoh_lock_step:
  assumes "lookup_step keys ks t s = Some s'" "h_local keys (ks t) (h_pc s t)" "length (h_locks s) = length keys" "i < length keys"
  shows "h_locks s' ! i + (if holds i (h_pc s' t) then 1 else 0) = h_locks s ! i + (if holds i (h_pc s t) then 1 else 0)"
  using assms by (cases "h_pc s t") (auto simp: hoh_defs h_local_def holds_def nth_list_update split: if_splits)

lemma hoh_inv_step:
  assumes "hoh_inv keys ks n s" "t < n" "lookup_step keys ks t s = Some s'"
  shows "hoh_inv keys ks n s'"
proof -
  have len: "length (h_locks s) = length keys" and loc: "h_local keys (ks t) (h_pc s t)" using assms by (auto simp: hoh_inv_def)
  note fr = hoh_frame [OF assms(3)]
  have "length (h_locks s') = length keys" using assms(3) len by (cases "h_pc s t") (auto simp: hoh_defs split: if_splits)
  moreover have "h_locks s' ! i + cnt n (h_pc s') (holds i) = 1" if i: "i < length keys" for i
  proof -
    have "h_locks s ! i + cnt n (h_pc s) (holds i) = 1" using assms(1) i by (simp add: hoh_inv_def)
    moreover note hoh_lock_step [OF assms(3) loc len i]
    moreover have "cnt n (h_pc s') (holds i) + (if holds i (h_pc s t) then 1 else 0) =
        cnt n (h_pc s) (holds i) + (if holds i (h_pc s' t) then 1 else 0)"
      using cnt_upd [OF assms(2), of "h_pc s" "h_pc s' t" "holds i"] fr by simp
    ultimately show ?thesis by linarith
  qed
  moreover have "h_local keys (ks u) (h_pc s' u)" if "u < n" for u
  proof (cases "u = t")
    case False
    then have "h_pc s' u = h_pc s u" using fr by (metis fun_upd_other)
    with assms(1) that show ?thesis by (simp add: hoh_inv_def)
  qed (use hoh_local_step [OF assms(3) loc] in simp)
  ultimately show ?thesis by (simp add: hoh_inv_def)
qed

section \<open>Progress\<close>

definition h_rank :: "nat \<Rightarrow> hpc \<Rightarrow> nat" where
  "h_rank len p = (case p of HStart \<Rightarrow> 4 * len + 3 | HLock \<Rightarrow> 4 * len + 2 | HCompare i \<Rightarrow> 4 * (len - i) + 1 | HAdvance i \<Rightarrow> 4 * (len - i)
     | HLockNext i _ \<Rightarrow> 4 * (len - i) - 1 | HUnlockTemp i _ \<Rightarrow> 4 * (len - i) - 2 | HUnlockLast _ \<Rightarrow> 1 | HFound _ \<Rightarrow> 1 | HReturn _ \<Rightarrow> 0)"

definition hoh_budget :: "nat \<Rightarrow> nat \<Rightarrow> hoh_state \<Rightarrow> nat" where
  "hoh_budget len n s = (\<Sum>t < n. h_rank len (h_pc s t))"

definition hoh_finished :: "nat \<Rightarrow> hoh_state \<Rightarrow> bool" where
  "hoh_finished n s \<longleftrightarrow> (\<forall>t < n. \<exists>rv. h_pc s t = HReturn rv)"

lemma hoh_budget_step:
  assumes "hoh_inv keys ks n s" "t < n" "lookup_step keys ks t s = Some s'"
  shows "hoh_budget (length keys) n s' < hoh_budget (length keys) n s"
  unfolding hoh_budget_def
proof (rule sum_one_less [OF assms(2)])
  have "h_local keys (ks t) (h_pc s t)" using assms by (auto simp: hoh_inv_def)
  then show "h_rank (length keys) (h_pc s' t) < h_rank (length keys) (h_pc s t)"
    using assms(3) by (cases "h_pc s t") (auto simp: h_local_def h_rank_def hoh_defs split: if_splits)
  show "h_rank (length keys) (h_pc s' j) = h_rank (length keys) (h_pc s j)" if "j \<noteq> t" for j
    using hoh_frame [OF assms(3)] that by (metis fun_upd_other)
qed

lemma holds_bound: "h_local keys k p \<Longrightarrow> holds i p \<Longrightarrow> i < length keys"
  by (cases p) (auto simp: h_local_def holds_def)

text \<open>The thread that holds the lock of the last node among those locked can move.\<close>

lemma hoh_progress:
  assumes inv: "hoh_inv keys ks n s" and nf: "\<not> hoh_finished n s"
  shows "\<exists>t < n. lookup_step keys ks t s \<noteq> None"
proof (cases "\<exists>i t. t < n \<and> holds i (h_pc s t)")
  case True
  let ?M = "{i. \<exists>t < n. holds i (h_pc s t)}"
  have loc: "\<And>t. t < n \<Longrightarrow> h_local keys (ks t) (h_pc s t)" using inv by (simp add: hoh_inv_def)
  have fin: "finite ?M" by (rule finite_subset [OF _ finite_lessThan [of "length keys"]]) (use loc holds_bound in blast)
  have "?M \<noteq> {}" using True by blast
  with fin have "Max ?M \<in> ?M" by (rule Max_in)
  have max: "\<And>i. i \<in> ?M \<Longrightarrow> i \<le> Max ?M" using fin by (rule Max_ge)
  from \<open>Max ?M \<in> ?M\<close> obtain t where t: "t < n" "holds (Max ?M) (h_pc s t)" by auto
  have free: "h_locks s ! j = 1" if "Max ?M < j" "j < length keys" for j
  proof -
    have "cnt n (h_pc s) (holds j) = 0" unfolding cnt_zero_iff using max [of j] that(1) by auto
    then show ?thesis using inv that(2) by (auto simp: hoh_inv_def)
  qed
  have "lookup_step keys ks t s \<noteq> None"
    using t(2) loc [OF t(1)] free by (cases "h_pc s t") (auto simp: hoh_defs holds_def h_local_def)
  with t(1) show ?thesis by blast
next
  case False
  from nf obtain t where t: "t < n" "\<And>rv. h_pc s t \<noteq> HReturn rv" by (auto simp: hoh_finished_def)
  have hl: "h_local keys (ks t) (h_pc s t)" and no: "\<And>i. \<not> holds i (h_pc s t)" using inv t(1) False by (auto simp: hoh_inv_def)
  have "cnt n (h_pc s) (holds 0) = 0" using False by (auto simp: cnt_zero_iff)
  then have "keys \<noteq> [] \<Longrightarrow> h_locks s ! 0 = 1" using inv by (auto simp: hoh_inv_def)
  then have "lookup_step keys ks t s \<noteq> None"
    using hl no t(2) by (cases "h_pc s t") (auto simp: hoh_defs h_local_def holds_def)
  with t(1) show ?thesis by blast
qed

interpretation hoh: live_system "lookup_step keys ks" n "hoh_main keys" "hoh_inv keys ks n" "hoh_budget (length keys) n" "hoh_finished n"
  for keys ks n
  by unfold_locales (auto intro: hoh_inv_init hoh_inv_step hoh_budget_step hoh_progress [unfolded not_None_eq])

section \<open>Properties\<close>

text \<open>C28:
  However the lookups of any number of threads are interleaved, no two threads hold the lock of the
  same node, every run ends within \<open>4 * len + 3\<close> statements for each thread, without deadlock, and
  then each thread has returned 0 if its key is in the list and -1 if it is not.
\<close>

theorem hand_over_hand_lookups:
  assumes "run_sched (lookup_step keys ks) is (hoh_main keys) = Some s" "\<forall>i \<in> set is. i < n"
  shows "(\<forall>t < n. \<forall>u < n. \<forall>i. holds i (h_pc s t) \<and> holds i (h_pc s u) \<longrightarrow> t = u) \<and>
    length is \<le> n * (4 * length keys + 3) \<and>
    ((\<forall>t < n. lookup_step keys ks t s = None) \<longrightarrow> (\<forall>t < n. h_pc s t = HReturn (if ks t \<in> set keys then 0 else -1)))"
proof -
  have inv: "hoh_inv keys ks n s" using assms by (rule hoh.run_inv)
  have "t = u" if "t < n" "u < n" "holds i (h_pc s t)" "holds i (h_pc s u)" for t u i
  proof (rule ccontr)
    assume "t \<noteq> u"
    then have "2 \<le> cnt n (h_pc s) (holds i)" using that by (intro cnt_two)
    moreover have "i < length keys" using inv that holds_bound by (auto simp: hoh_inv_def)
    ultimately show False using inv by (auto simp: hoh_inv_def)
  qed
  moreover have "length is \<le> n * (4 * length keys + 3) \<and> ((\<forall>t < n. lookup_step keys ks t s = None) \<longrightarrow> hoh_finished n s)"
    using hoh.run_bounded [OF assms] by (simp add: hoh_budget_def hoh_main_def h_rank_def)
  moreover have "h_pc s t = HReturn (if ks t \<in> set keys then 0 else -1)" if fin: "hoh_finished n s" "t < n" for t
  proof -
    obtain rv where "h_pc s t = HReturn rv" using fin unfolding hoh_finished_def by blast
    moreover have "h_local keys (ks t) (h_pc s t)" using inv fin(2) by (simp add: hoh_inv_def)
    ultimately show ?thesis by (simp add: h_local_def)
  qed
  ultimately show ?thesis by blast
qed

theorem hand_over_hand_lookups_witness:
  "\<exists>s. run_sched (lookup_step [5, 0] (\<lambda>_. 0)) [0, 0, 0, 0, 0, 1, 0, 1, 1, 0, 1, 0, 1, 1, 1, 1] (hoh_main [5, 0]) = Some s \<and>
    h_pc s 0 = HReturn 0 \<and> h_pc s 1 = HReturn 0"
proof -
  let ?is = "[0, 0, 0, 0, 0, 1, 0, 1, 1, 0, 1, 0, 1, 1, 1, 1]"
  have "(case run_sched (lookup_step [5, 0] (\<lambda>_. 0)) ?is (hoh_main [5, 0]) of None \<Rightarrow> False
      | Some s \<Rightarrow> \<forall>t < 2. lookup_step [5, 0] (\<lambda>_. 0) t s = None)"
    by (simp add: hoh_main_def hoh_defs numeral_2_eq_2 less_Suc_eq)
  then obtain s where s: "run_sched (lookup_step [5, 0] (\<lambda>_. 0)) ?is (hoh_main [5, 0]) = Some s"
    "\<forall>t < 2. lookup_step [5, 0] (\<lambda>_. 0) t s = None" by (rule run_sched_test) auto
  then show ?thesis using hand_over_hand_lookups [OF s(1), of 2] by auto
qed

end
