(* ===== verification/Linked_Structures.thy ===== *)
theory Linked_Structures
  imports Prelude
begin

text \<open>
  The linked structures of chapter 29: the queue of \<^verbatim>\<open>29/concurrent_queue.c\<close> and the list of
  \<^verbatim>\<open>29/concurrent-linked-list.c\<close>, with an explicit heap. An address is a number, 0 the null pointer. The
  address that \<open>malloc\<close> returns is an argument (0: it fails). Each operation holds the lock of its
  structure while it works and is modelled as one step.
\<close>

section \<open>The heap\<close>

record node_t =
  nxt :: nat
  val :: int

type_synonym heap = "nat \<rightharpoonup> node_t"

datatype memerr = BadPointer | ExitFailure

definition deref :: "heap \<Rightarrow> nat \<Rightarrow> memerr + node_t" where
  "deref h p = (case h p of None \<Rightarrow> Inl BadPointer | Some n \<Rightarrow> Inr n)"

definition store :: "heap \<Rightarrow> nat \<Rightarrow> node_t \<Rightarrow> memerr + heap" where
  "store h p n = (if p \<in> dom h then Inr (h(p \<mapsto> n)) else Inl BadPointer)"

definition free_node :: "heap \<Rightarrow> nat \<Rightarrow> memerr + heap" where
  "free_node h p = (if p \<in> dom h then Inr (h(p := None)) else Inl BadPointer)"

text \<open>The nodes from \<open>p\<close> on are those at the addresses \<open>ps\<close>.\<close>

fun chain :: "heap \<Rightarrow> nat \<Rightarrow> nat list \<Rightarrow> bool" where
  "chain h p [] \<longleftrightarrow> p = 0"
| "chain h p (a # as) \<longleftrightarrow> p = a \<and> a \<noteq> 0 \<and> (\<exists>n. h a = Some n \<and> chain h (nxt n) as)"

definition vals :: "heap \<Rightarrow> nat list \<Rightarrow> int list" where
  "vals h ps = map (\<lambda>p. val (the (h p))) ps"

lemma chain_upd: "a \<notin> set ps \<Longrightarrow> chain (h(a := x)) p ps = chain h p ps"
  by (induction ps arbitrary: p) auto

lemma vals_upd: "a \<notin> set ps \<Longrightarrow> vals (h(a := x)) ps = vals h ps"
  by (auto simp: vals_def)

lemma chain_dom: "chain h p ps \<Longrightarrow> set ps \<subseteq> dom h"
  by (induction ps arbitrary: p) auto

lemma chain_head: "chain h p ps \<Longrightarrow> p = (if ps = [] then 0 else hd ps)"
  by (cases ps) auto

lemma chain_append: "chain h p (ps @ a # qs) \<Longrightarrow> chain h a (a # qs)"
  by (induction ps arbitrary: p) auto

section \<open>The queue\<close>

record queue_t =
  head :: nat
  tail :: nat

text \<open>The value of the first node is whatever \<open>malloc\<close> left there.\<close>

definition Queue_Init :: "nat \<Rightarrow> int \<Rightarrow> heap \<Rightarrow> memerr + queue_t \<times> heap" where
  "Queue_Init tmp junk h =
    (if tmp = 0 then Inl ExitFailure else Inr (\<lparr>head = tmp, tail = tmp\<rparr>, h(tmp \<mapsto> \<lparr>nxt = 0, val = junk\<rparr>)))"

definition Queue_Enqueue :: "nat \<Rightarrow> int \<Rightarrow> queue_t \<times> heap \<Rightarrow> memerr + queue_t \<times> heap" where
  "Queue_Enqueue tmp v = (\<lambda>(q, h).
    if tmp = 0 then Inl ExitFailure
    else let h = h(tmp \<mapsto> \<lparr>nxt = 0, val = v\<rparr>) in
      ebind (deref h (tail q)) (\<lambda>n.
      ebind (store h (tail q) (n\<lparr>nxt := tmp\<rparr>)) (\<lambda>h. Inr (q\<lparr>tail := tmp\<rparr>, h))))"

definition Queue_Dequeue :: "queue_t \<times> heap \<Rightarrow> memerr + int \<times> queue_t \<times> heap" where
  "Queue_Dequeue = (\<lambda>(q, h).
    ebind (deref h (head q)) (\<lambda>tmp.
      let newHead = nxt tmp in
      if newHead = 0 then Inr (-1, q, h)
      else ebind (deref h newHead) (\<lambda>n.
        ebind (free_node h (head q)) (\<lambda>h. Inr (0, q\<lparr>head := nxt n\<rparr>, h)))))"

text \<open>\<open>Queue_Print\<close> from a node on: the values printed, and the heap with the nodes freed. The loop
  follows the pointers, so it may meet a freed node or run on a circle.\<close>

partial_function (option) print_from :: "nat \<Rightarrow> heap \<Rightarrow> (memerr + int list \<times> heap) option" where
  "print_from p h =
    (if p = 0 then Some (Inr ([], h))
     else case h p of
       None \<Rightarrow> Some (Inl BadPointer)
     | Some n \<Rightarrow> Option.bind (print_from (nxt n) (h(p := None)))
         (\<lambda>r. Some (ebind r (\<lambda>(out, h). Inr (val n # out, h)))))"

definition Queue_Print :: "queue_t \<times> heap \<Rightarrow> (memerr + int list \<times> heap) option" where
  "Queue_Print = (\<lambda>(q, h). print_from (head q) h)"

text \<open>The queue \<open>q\<close> consists of the nodes \<open>ps\<close>.\<close>

definition queue_rep :: "queue_t \<times> heap \<Rightarrow> nat list \<Rightarrow> bool" where
  "queue_rep = (\<lambda>(q, h) ps. ps \<noteq> [] \<and> distinct ps \<and> chain h (head q) ps \<and> tail q = last ps)"

lemma Queue_Init_rep: "a \<noteq> 0 \<Longrightarrow> \<exists>s. Queue_Init a junk h = Inr s \<and> queue_rep s [a] \<and> vals (snd s) [a] = [junk]"
  by (simp add: Queue_Init_def queue_rep_def vals_def)

lemma chain_link:
  assumes "chain h p ps" "ps \<noteq> []" "distinct ps" "a \<notin> set ps" "a \<noteq> 0" "h (last ps) = Some n"
  shows "chain (h(a \<mapsto> \<lparr>nxt = 0, val = v\<rparr>, last ps \<mapsto> n\<lparr>nxt := a\<rparr>)) p (ps @ [a])"
  using assms
proof (induction ps arbitrary: p)
  case (Cons b ps)
  show ?case
  proof (cases "ps = []")
    case True
    with Cons.prems show ?thesis by auto
  next
    case False
    with Cons.prems have "b \<noteq> last ps" by auto
    moreover obtain m where "h b = Some m" "chain h (nxt m) ps" using Cons.prems by auto
    ultimately show ?thesis using Cons False by auto
  qed
qed simp

lemma Queue_Enqueue_rep:
  assumes "queue_rep s ps" "a \<noteq> 0" "a \<notin> dom (snd s)"
  shows "\<exists>s'. Queue_Enqueue a v s = Inr s' \<and> queue_rep s' (ps @ [a]) \<and> vals (snd s') (ps @ [a]) = vals (snd s) ps @ [v]"
proof -
  obtain q h where s: "s = (q, h)" by (cases s)
  have rep: "ps \<noteq> []" "distinct ps" "chain h (head q) ps" "tail q = last ps" using assms(1) by (auto simp: s queue_rep_def)
  then obtain n where n: "h (last ps) = Some n" using chain_dom [OF rep(3)] by (meson domD last_in_set subsetD)
  have a: "a \<notin> set ps" "a \<noteq> last ps" using chain_dom [OF rep(3)] assms(3) n by (auto simp: s)
  let ?h = "h(a \<mapsto> \<lparr>nxt = 0, val = v\<rparr>, last ps \<mapsto> n\<lparr>nxt := a\<rparr>)"
  have "Queue_Enqueue a v s = Inr (q\<lparr>tail := a\<rparr>, ?h)"
    using assms(2) rep(4) n a by (auto simp: s Queue_Enqueue_def deref_def store_def)
  moreover have "queue_rep (q\<lparr>tail := a\<rparr>, ?h) (ps @ [a])"
    using chain_link [OF rep(3,1,2) a(1) assms(2) n] rep a by (auto simp: queue_rep_def)
  moreover have "vals ?h (ps @ [a]) = vals h ps @ [v]" using n a by (auto simp: vals_def)
  ultimately show ?thesis by (auto simp: s)
qed

lemma print_from_chain:
  "chain h p ps \<Longrightarrow> distinct ps \<Longrightarrow> print_from p h = Some (Inr (vals h ps, h |` (- set ps)))"
proof (induction ps arbitrary: p h)
  case Nil
  then show ?case by (subst print_from.simps) (simp add: vals_def restrict_map_def)
next
  case (Cons a ps)
  then obtain n where n: "p = a" "a \<noteq> 0" "h a = Some n" "chain h (nxt n) ps" by auto
  have "print_from (nxt n) (h(a := None)) = Some (Inr (vals (h(a := None)) ps, h(a := None) |` (- set ps)))"
    by (rule Cons.IH) (use Cons.prems n(4) chain_upd [of a ps h None "nxt n"] in \<open>simp_all only: distinct.simps simp_thms\<close>)
  moreover have "h(a := None) |` (- set ps) = h |` (- set (a # ps))" by (auto simp: restrict_map_def)
  ultimately show ?case
    using n Cons.prems vals_upd [of a ps h None] by (subst print_from.simps) (simp add: vals_def)
qed

lemma Queue_Dequeue_two:
  assumes "queue_rep (q, h) (a # b # ps)"
  shows "Queue_Dequeue (q, h) = Inr (0, q\<lparr>head := nxt (the (h b))\<rparr>, h(a := None))"
    "chain (h(a := None)) (nxt (the (h b))) ps" "vals (h(a := None)) ps = vals h ps"
proof -
  obtain n m where n: "head q = a" "a \<noteq> 0" "h a = Some n" "nxt n = b" "b \<noteq> 0" "h b = Some m" "chain h (nxt m) ps" "a \<notin> set ps"
    using assms by (auto simp: queue_rep_def)
  then show "Queue_Dequeue (q, h) = Inr (0, q\<lparr>head := nxt (the (h b))\<rparr>, h(a := None))"
    by (auto simp: Queue_Dequeue_def deref_def free_node_def)
  show "chain (h(a := None)) (nxt (the (h b))) ps" "vals (h(a := None)) ps = vals h ps" using n by (simp_all add: chain_upd vals_upd)
qed

text \<open>A queue with elements consists of a first node without value and the nodes of the elements.
  \<open>Queue_Enqueue\<close> appends an element. \<open>Queue_Dequeue\<close> goes two nodes ahead instead of one: it takes the
  first two nodes off the chain, of which it frees only one, so that the node of the first element
  is lost and the second element has become the node without value. When there was one element, the
  head becomes the null pointer, and the next \<open>Queue_Dequeue\<close> is an access through it, whatever
  is enqueued before.
\<close>

theorem dequeue_takes_two_nodes:
  assumes "queue_rep (q, h) (a # b # ps)"
  shows "\<exists>q' h'. Queue_Dequeue (q, h) = Inr (0, q', h') \<and> chain h' (head q') ps \<and> vals h' ps = vals h ps \<and> h' = h(a := None) \<and>
    b \<in> dom h' \<and> tail q' = tail q \<and>
    (ps = [] \<longrightarrow> head q' = 0 \<and> (\<forall>c v. c \<noteq> 0 \<longrightarrow> c \<notin> dom h' \<longrightarrow> 0 \<notin> dom h' \<longrightarrow>
       Queue_Dequeue (q', h') = Inl BadPointer \<and> ebind (Queue_Enqueue c v (q', h')) Queue_Dequeue = Inl BadPointer))"
proof -
  let ?q = "q\<lparr>head := nxt (the (h b))\<rparr>" and ?h = "h(a := None)"
  have b: "b \<in> dom ?h" "tail q = last (b # ps)" using assms by (auto simp: queue_rep_def)
  note d = Queue_Dequeue_two [OF assms]
  have "Queue_Dequeue (?q, ?h) = Inl BadPointer \<and> ebind (Queue_Enqueue c v (?q, ?h)) Queue_Dequeue = Inl BadPointer"
    if "ps = []" "c \<noteq> 0" "0 \<notin> dom ?h" for c v
  proof -
    have "head ?q = 0" using d(2) that(1) by simp
    then show ?thesis
      using that b by (auto simp: Queue_Dequeue_def Queue_Enqueue_def deref_def store_def domIff split: option.splits)
  qed
  with d b show ?thesis by auto
qed

theorem dequeue_takes_two_nodes_witness:
  "\<exists>q h q' h'. queue_rep (q, h) [1, 2, 3, 4] \<and> vals h [2, 3, 4] = [10, 20, 30] \<and>
    Queue_Dequeue (q, h) = Inr (0, q', h') \<and> chain h' (head q') [3, 4] \<and> vals h' [3, 4] = [20, 30]"
proof -
  let ?q = "\<lparr>head = 1, tail = 4\<rparr>"
  let ?h = "[1 \<mapsto> \<lparr>nxt = 2, val = 7\<rparr>, 2 \<mapsto> \<lparr>nxt = 3, val = 10\<rparr>, 3 \<mapsto> \<lparr>nxt = 4, val = 20\<rparr>, 4 \<mapsto> \<lparr>nxt = 0, val = 30\<rparr>]"
  have rep: "queue_rep (?q, ?h) [1, 2, 3, 4]" by (simp add: queue_rep_def)
  have v: "vals ?h [2, 3, 4] = [10, 20, 30]" by (simp add: vals_def)
  from dequeue_takes_two_nodes [OF rep] rep v show ?thesis by (fastforce simp: vals_def)
qed

section \<open>The list\<close>

record list_t =
  lhead :: nat

definition List_Init :: list_t where "List_Init = \<lparr>lhead = 0\<rparr>"

text \<open>Without memory \<open>List_Insert\<close> prints a message and leaves the list as it is.\<close>

definition List_Insert :: "nat \<Rightarrow> int \<Rightarrow> list_t \<times> heap \<Rightarrow> list_t \<times> heap" where
  "List_Insert new key = (\<lambda>(L, h). if new = 0 then (L, h) else (L\<lparr>lhead := new\<rparr>, h(new \<mapsto> \<lparr>nxt = lhead L, val = key\<rparr>)))"

partial_function (option) lookup_from :: "nat \<Rightarrow> int \<Rightarrow> heap \<Rightarrow> (memerr + int) option" where
  "lookup_from cur key h =
    (if cur = 0 then Some (Inr (-1))
     else case h cur of
       None \<Rightarrow> Some (Inl BadPointer)
     | Some n \<Rightarrow> if val n = key then Some (Inr 0) else lookup_from (nxt n) key h)"

definition List_Lookup :: "int \<Rightarrow> list_t \<times> heap \<Rightarrow> (memerr + int) option" where
  "List_Lookup key = (\<lambda>(L, h). lookup_from (lhead L) key h)"

partial_function (option) list_print_from :: "nat \<Rightarrow> heap \<Rightarrow> (memerr + int list) option" where
  "list_print_from cur h =
    (if cur = 0 then Some (Inr [])
     else case h cur of
       None \<Rightarrow> Some (Inl BadPointer)
     | Some n \<Rightarrow> Option.bind (list_print_from (nxt n) h) (\<lambda>r. Some (ebind r (\<lambda>out. Inr (val n # out)))))"

definition List_Print :: "list_t \<times> heap \<Rightarrow> (memerr + int list) option" where
  "List_Print = (\<lambda>(L, h). list_print_from (lhead L) h)"

partial_function (option) free_from :: "nat \<Rightarrow> heap \<Rightarrow> (memerr + heap) option" where
  "free_from cur h =
    (if cur = 0 then Some (Inr h)
     else case h cur of
       None \<Rightarrow> Some (Inl BadPointer)
     | Some n \<Rightarrow> free_from (nxt n) (h(cur := None)))"

definition List_Free :: "list_t \<times> heap \<Rightarrow> (memerr + heap) option" where
  "List_Free = (\<lambda>(L, h). free_from (lhead L) h)"

text \<open>The loop of \<open>main\<close> that fills the list with the keys \<open>0 .. list_length - 1\<close>; the addresses are those
  that \<open>malloc\<close> returns.\<close>

definition fill_list :: "nat list \<Rightarrow> list_t \<times> heap \<Rightarrow> list_t \<times> heap" where
  "fill_list addrs s = fold (\<lambda>(i, a). List_Insert a i) (zip (map int [0..<length addrs]) addrs) s"

lemma lookup_from_chain: "chain h p ps \<Longrightarrow> lookup_from p k h = Some (Inr (if k \<in> set (vals h ps) then 0 else -1))"
proof (induction ps arbitrary: p)
  case (Cons a ps)
  then obtain n where "p = a" "a \<noteq> 0" "h a = Some n" "chain h (nxt n) ps" by auto
  with Cons.IH [of "nxt n"] show ?case by (subst lookup_from.simps) (simp add: vals_def)
qed (subst lookup_from.simps, simp add: vals_def)

lemma list_print_from_chain: "chain h p ps \<Longrightarrow> list_print_from p h = Some (Inr (vals h ps))"
proof (induction ps arbitrary: p)
  case (Cons a ps)
  then obtain n where "p = a" "a \<noteq> 0" "h a = Some n" "chain h (nxt n) ps" by auto
  with Cons.IH [of "nxt n"] show ?case by (subst list_print_from.simps) (simp add: vals_def)
qed (subst list_print_from.simps, simp add: vals_def)

lemma free_from_chain: "chain h p ps \<Longrightarrow> distinct ps \<Longrightarrow> free_from p h = Some (Inr (h |` (- set ps)))"
proof (induction ps arbitrary: p h)
  case Nil
  then show ?case by (subst free_from.simps) (simp add: restrict_map_def)
next
  case (Cons a ps)
  then obtain n where n: "p = a" "a \<noteq> 0" "h a = Some n" "chain h (nxt n) ps" by auto
  have "free_from (nxt n) (h(a := None)) = Some (Inr (h(a := None) |` (- set ps)))"
    by (rule Cons.IH) (use Cons.prems n(4) chain_upd [of a ps h None "nxt n"] in \<open>simp_all only: distinct.simps simp_thms\<close>)
  moreover have "h(a := None) |` (- set ps) = h |` (- set (a # ps))" by (auto simp: restrict_map_def)
  ultimately show ?case using n by (subst free_from.simps) simp
qed

lemma fill_list_chain:
  assumes "distinct addrs" "0 \<notin> set addrs" "set addrs \<inter> dom h0 = {}"
  shows "\<exists>L h. fill_list addrs (List_Init, h0) = (L, h) \<and> chain h (lhead L) (rev addrs) \<and>
    vals h (rev addrs) = rev (map int [0..<length addrs]) \<and> h |` (- set addrs) = h0"
  using assms
proof (induction addrs rule: rev_induct)
  case Nil
  then show ?case by (simp add: fill_list_def List_Init_def vals_def restrict_map_def)
next
  case (snoc a as)
  then obtain L h where IH: "fill_list as (List_Init, h0) = (L, h)" "chain h (lhead L) (rev as)"
    "vals h (rev as) = rev (map int [0..<length as])" "h |` (- set as) = h0" by auto
  have a: "a \<noteq> 0" "a \<notin> set as" "a \<notin> dom h0" using snoc.prems by auto
  have "h a = None" using IH(4) a by (metis ComplI domIff restrict_in)
  then have "(h(a \<mapsto> n)) |` (- set (as @ [a])) = h0" for n using IH(4) a by (fastforce simp: restrict_map_def)
  moreover have "fill_list (as @ [a]) (List_Init, h0) =
      (L\<lparr>lhead := a\<rparr>, h(a \<mapsto> \<lparr>nxt = lhead L, val = int (length as)\<rparr>))"
    using IH(1) a by (simp add: fill_list_def List_Insert_def)
  ultimately show ?case
    using IH(2,3) a chain_upd [of a "rev as" h] vals_upd [of a "rev as" h] by (simp add: vals_def)
qed

text \<open>Filling the list with the keys \<open>0 .. n - 1\<close> at fresh addresses, a lookup finds exactly these keys, the
  list prints them from the last to the first, and freeing the list gives back exactly the memory
  that was allocated for it; all three loops end.
\<close>

theorem list_session:
  assumes "distinct addrs" "0 \<notin> set addrs" "set addrs \<inter> dom h0 = {}"
  shows "List_Lookup k (fill_list addrs (List_Init, h0)) = Some (Inr (if 0 \<le> k \<and> k < int (length addrs) then 0 else -1)) \<and>
    List_Print (fill_list addrs (List_Init, h0)) = Some (Inr (rev (map int [0..<length addrs]))) \<and>
    List_Free (fill_list addrs (List_Init, h0)) = Some (Inr h0)"
proof -
  obtain L h where s: "fill_list addrs (List_Init, h0) = (L, h)" "chain h (lhead L) (rev addrs)"
    "vals h (rev addrs) = rev (map int [0..<length addrs])" "h |` (- set addrs) = h0"
    using fill_list_chain [OF assms] by blast
  have "k \<in> set (map int [0..<length addrs]) \<longleftrightarrow> 0 \<le> k \<and> k < int (length addrs)"
    using zero_le_imp_eq_int [of k] by auto
  then show ?thesis
    using s assms(1) by (simp add: List_Lookup_def List_Print_def List_Free_def lookup_from_chain list_print_from_chain free_from_chain)
qed

theorem list_session_witness:
  "List_Lookup 1 (fill_list [5, 9] (List_Init, Map.empty)) = Some (Inr 0) \<and>
   List_Print (fill_list [5, 9] (List_Init, Map.empty)) = Some (Inr [1, 0]) \<and>
   List_Free (fill_list [5, 9] (List_Init, Map.empty)) = Some (Inr Map.empty)"
  using list_session [of "[5, 9]" Map.empty 1] by simp

end
