(* ===== verification/Udp.thy ===== *)
theory Udp
  imports C_Strings
begin

text \<open>
  The transfer protocol of \<^verbatim>\<open>48/UDP-lib.h\<close> (as it is compiled, with \<open>SEND_BEFORE_TIMER\<close> and
  \<open>TEST_BIG_FILE\<close>): \<open>UDP_Write\<close> cuts a message into datagrams of 5 bytes between a first and a last
  datagram, and waits after each of them until the receiver has posted the semaphore or 10 seconds have
  passed, in which case it writes again; \<open>UDP_Read\<close> puts the message together.
\<close>

section \<open>Sending\<close>

definition SMALL_BUFFER_SIZE :: nat where "SMALL_BUFFER_SIZE = 5"
definition BUFFER_SIZE_UDP :: nat where "BUFFER_SIZE_UDP = 65507"
definition BEGIN_STR :: "uchar list" where "BEGIN_STR = bytes ''0begin''"
definition END_STR :: "uchar list" where "END_STR = bytes ''end1''"

definition is_ack :: "uchar list \<Rightarrow> bool" where
  "is_ack mem \<longleftrightarrow> take 4 mem = bytes ''ack'' @ [0]"

text \<open>A buffer is the memory from its address on, as far as it is known. For every datagram to come there
  is an answer in a list: whether \<open>sendto\<close> succeeds, and whether \<open>sem_timedwait\<close> comes back because the
  semaphore was posted or because the time is over. (Any other failure of it ends the program.) A run is followed as far as the list and the memory
  go (\<open>None\<close>); it gives the datagrams sent, the value returned and the rest of the list.\<close>

type_synonym udp_answer = "bool \<times> bool"
type_synonym udp_run = "(uchar list list \<times> int \<times> udp_answer list) option"

definition wait_ack :: "(uchar list \<Rightarrow> nat \<Rightarrow> udp_answer list \<Rightarrow> udp_run) \<Rightarrow> uchar list \<Rightarrow> nat \<Rightarrow> int \<Rightarrow> bool \<Rightarrow> udp_answer list \<Rightarrow> udp_run" where
  "wait_ack W mem nread orig_ret posted os =
    (if is_ack mem \<or> posted then Some ([], orig_ret, os) else W mem nread os)"

text \<open>\<open>sendto\<close> followed by \<open>wait_ack\<close>; \<open>count\<close> is what the caller makes of the result of \<open>sendto\<close>, which is
  the number of bytes or \<open>-1\<close>. The memory that \<open>UDP_Write\<close> is given again on a time-out is that of the
  datagram.\<close>

definition send_wait :: "(uchar list \<Rightarrow> nat \<Rightarrow> udp_answer list \<Rightarrow> udp_run) \<Rightarrow> uchar list \<Rightarrow> nat \<Rightarrow> (int \<Rightarrow> int) \<Rightarrow> udp_answer list \<Rightarrow> udp_run" where
  "send_wait W mem n count os =
    (case os of
       [] \<Rightarrow> None
     | (sent, posted) # os \<Rightarrow>
         if length mem < n then None
         else Option.bind (wait_ack W mem n (count (if sent then int n else -1)) posted os) (\<lambda>(more, ret, os).
           Some ((if sent then [take n mem] else []) @ more, ret, os)))"

text \<open>The loop over the datagrams of full size.\<close>

primrec send_chunks :: "(uchar list \<Rightarrow> nat \<Rightarrow> udp_answer list \<Rightarrow> udp_run) \<Rightarrow> nat \<Rightarrow> uchar list \<Rightarrow> int \<Rightarrow> udp_answer list \<Rightarrow> udp_run" where
  "send_chunks W 0 mem ret os = Some ([], ret, os)"
| "send_chunks W (Suc loop) mem ret os =
    Option.bind (send_wait W mem SMALL_BUFFER_SIZE (\<lambda>rc. ret + rc) os) (\<lambda>(s1, ret, os).
    Option.bind (send_chunks W loop (drop SMALL_BUFFER_SIZE mem) ret os) (\<lambda>(s2, ret, os). Some (s1 @ s2, ret, os)))"

definition write_body :: "(uchar list \<Rightarrow> nat \<Rightarrow> udp_answer list \<Rightarrow> udp_run) \<Rightarrow> uchar list \<Rightarrow> nat \<Rightarrow> udp_answer list \<Rightarrow> udp_run" where
  "write_body W mem nread os =
    (if nread > SMALL_BUFFER_SIZE then
       let loop = nread div SMALL_BUFFER_SIZE; rest = drop (loop * SMALL_BUFFER_SIZE) mem in
       Option.bind (send_wait W (BEGIN_STR @ replicate 4 0) (length BEGIN_STR) (\<lambda>_. 0) os) (\<lambda>(s0, _, os).
       Option.bind (send_chunks W loop mem 0 os) (\<lambda>(s1, ret, os).
       let left_cnt = nat (int nread - ret) in
       Option.bind (send_wait W rest (left_cnt + 1) (\<lambda>rc. ret + rc) os) (\<lambda>(s2, ret, os).
       Option.bind (send_wait W (END_STR @ replicate 6 0) (length END_STR + 1) (\<lambda>_. ret) os) (\<lambda>(s3, _, os).
         Some (s0 @ s1 @ s2 @ s3, if ret > int nread then int nread else ret, os)))))
     else send_wait W mem nread (\<lambda>rc. rc) os)"

text \<open>\<open>UDP_Write\<close> with at most \<open>fuel\<close> nested calls, one for a time-out.\<close>

primrec UDP_Write :: "nat \<Rightarrow> uchar list \<Rightarrow> nat \<Rightarrow> udp_answer list \<Rightarrow> udp_run" where
  "UDP_Write 0 mem nread os = None"
| "UDP_Write (Suc fuel) mem nread os = write_body (UDP_Write fuel) mem nread os"

section \<open>Receiving\<close>

text \<open>\<open>recvfrom\<close> into an array: the bytes that fit, behind them the old contents.\<close>

definition recv_into :: "uchar list \<Rightarrow> uchar list \<Rightarrow> uchar list" where
  "recv_into arr d = take (length arr) d @ drop (length d) arr"

text \<open>The loop of \<open>UDP_Read\<close>: the datagrams to come, the small array, the string so far and the count. A
  datagram \<open>None\<close> is a call of \<open>recvfrom\<close> that fails; \<open>strcat\<close> needs the end of the string within the
  array.\<close>

fun read_loop :: "uchar list option list \<Rightarrow> uchar list \<Rightarrow> uchar list \<Rightarrow> int \<Rightarrow> (fault + uchar list \<times> int \<times> uchar list option list) option" where
  "read_loop [] tmp_buf str recv = None"
| "read_loop (d # ds) tmp_buf str recv =
    (let (tmp_buf, n) = (case d of None \<Rightarrow> (tmp_buf, -1) | Some d \<Rightarrow> (recv_into tmp_buf d, int (min (length d) SMALL_BUFFER_SIZE))) in
     if take 5 tmp_buf = END_STR @ [0] then Some (Inr (str, recv, ds))
     else if 0 \<notin> set tmp_buf \<or> length str + length (cstr tmp_buf) \<ge> BUFFER_SIZE_UDP then Some (Inl Overrun)
     else read_loop ds tmp_buf (str @ cstr tmp_buf) (recv + n))"

text \<open>\<open>UDP_Read\<close>: the string in the buffer, the value returned, the datagrams not read.\<close>

definition UDP_Read :: "uchar list \<Rightarrow> uchar list option list \<Rightarrow> (fault + uchar list \<times> int \<times> uchar list option list) option" where
  "UDP_Read tmp_buf ds =
    (case ds of
       [] \<Rightarrow> None
     | None # ds \<Rightarrow> Some (Inr ([], -1, ds))
     | Some d # ds \<Rightarrow>
         (let buffer = take BUFFER_SIZE_UDP d in
          if buffer \<noteq> [] \<and> take 7 (buffer @ [0]) = BEGIN_STR @ [0] then read_loop ds tmp_buf [] 0
          else Some (Inr (cstr buffer, int (length buffer), ds))))"

section \<open>Short messages\<close>

lemma bytes_udp: "BEGIN_STR = [48, 98, 101, 103, 105, 110]" "END_STR = [101, 110, 100, 49]" "bytes ''ack'' = [97, 99, 107]"
  by (simp_all add: BEGIN_STR_def END_STR_def bytes_def)

lemma send_wait_ok: "n \<le> length mem \<Longrightarrow> send_wait W mem n count ((True, True) # os) = Some ([take n mem], count (int n), os)"
  by (simp add: send_wait_def wait_ack_def)

lemma send_wait_retry:
  "\<not> is_ack mem \<Longrightarrow> n \<le> SMALL_BUFFER_SIZE \<Longrightarrow> n \<le> length mem \<Longrightarrow> W = UDP_Write (Suc fuel) \<Longrightarrow>
    send_wait W mem n count ((True, False) # (True, True) # os) = Some ([take n mem, take n mem], int n, os)"
  by (simp add: send_wait_def wait_ack_def write_body_def)

text \<open>A message of at most 5 bytes, not empty, without zero bytes and other than the acknowledgement,
  arrives as it was sent: the datagram is written once, and again for a time-out, and reading any of
  these datagrams gives the message and its length.
\<close>

theorem udp_short_roundtrip:
  assumes "m \<noteq> []" "length m \<le> 5" "0 \<notin> set m" "m \<noteq> bytes ''ack''"
  shows "UDP_Write (Suc fuel) (m @ 0 # junk) (length m) ((True, True) # os) = Some ([m], int (length m), os) \<and>
    UDP_Write (Suc (Suc fuel)) (m @ 0 # junk) (length m) ((True, False) # (True, True) # os) = Some ([m, m], int (length m), os) \<and>
    UDP_Read tmp_buf (Some m # ds) = Some (Inr (m, int (length m), ds))"
proof -
  have na: "\<not> is_ack (m @ 0 # junk)"
    using assms by (cases m; cases "tl m"; cases "tl (tl m)"; cases "tl (tl (tl m))") (auto simp: is_ack_def bytes_udp)
  have "take 7 (m @ [0]) \<noteq> BEGIN_STR @ [0]" using assms(2) by (auto simp: bytes_udp dest: arg_cong [of _ _ length])
  then have "UDP_Read tmp_buf (Some m # ds) = Some (Inr (m, int (length m), ds))"
    using assms by (simp add: UDP_Read_def BUFFER_SIZE_UDP_def cstr_id)
  then show ?thesis
    using na assms(2) send_wait_retry [OF na, of "length m" _ fuel]
    by (simp add: write_body_def SMALL_BUFFER_SIZE_def send_wait_ok)
qed

theorem udp_short_roundtrip_witness:
  "UDP_Write (Suc (Suc 0)) (bytes ''hello'' @ 0 # []) (length (bytes ''hello'')) [(True, False), (True, True)] =
     Some ([bytes ''hello'', bytes ''hello''], int (length (bytes ''hello'')), []) \<and>
   UDP_Read [7, 7, 7, 7, 7] [Some (bytes ''hello'')] = Some (Inr (bytes ''hello'', int (length (bytes ''hello'')), []))"
proof -
  have "bytes ''hello'' \<noteq> []" "length (bytes ''hello'') \<le> 5" "0 \<notin> set (bytes ''hello'')" "bytes ''hello'' \<noteq> bytes ''ack''"
    by (simp_all add: bytes_def)
  from udp_short_roundtrip [OF this, of 0 "[]" "[]" "[7, 7, 7, 7, 7]" "[]"] show ?thesis by blast
qed

section \<open>Long messages\<close>

definition chunks5 :: "uchar list \<Rightarrow> uchar list list" where
  "chunks5 m = map (\<lambda>i. take 5 (drop (i * 5) m)) [0..<length m div 5]"

lemma send_chunks_ok:
  assumes "loop * 5 \<le> length m"
  shows "send_chunks W loop (m @ r) ret (replicate loop (True, True) @ os) =
    Some (map (\<lambda>i. take 5 (drop (i * 5) m)) [0..<loop], ret + int (5 * loop), os)"
  using assms
proof (induction loop arbitrary: m ret)
  case (Suc loop)
  have "send_chunks W loop (drop 5 m @ r) (ret + 5) (replicate loop (True, True) @ os) =
      Some (map (\<lambda>i. take 5 (drop (i * 5) (drop 5 m))) [0..<loop], ret + 5 + int (5 * loop), os)"
    using Suc.prems by (intro Suc.IH) auto
  then show ?case
    using Suc.prems by (simp add: send_wait_ok SMALL_BUFFER_SIZE_def upt_conv_Cons map_Suc_upt [symmetric] o_def add.commute del: upt_Suc)
qed simp

lemma udp_write_long:
  assumes "5 < length m"
  shows "UDP_Write (Suc fuel) (m @ 0 # junk) (length m) (replicate (length m div 5 + 3) (True, True) @ os) =
    Some ([BEGIN_STR] @ chunks5 m @ [drop (length m div 5 * 5) m @ [0]] @ [END_STR @ [0]], int (length m), os)"
proof -
  let ?n = "length m" and ?l = "length m div 5" and ?rest = "drop (length m div 5 * 5) m"
  have rep: "replicate (?l + 3) (True, True) @ os = (True, True) # replicate ?l (True, True) @ (True, True) # (True, True) # os"
    by (simp add: numeral_3_eq_3 replicate_append_same [symmetric])
  have len: "length ?rest = ?n mod 5" by (simp add: minus_div_mult_eq_mod)
  have "nat (int ?n - int (5 * ?l)) = ?n mod 5" by (metis len length_drop mult.commute nat_int of_nat_diff div_times_less_eq_dividend)
  moreover have "5 * int ?l \<le> int ?n" by linarith
  moreover have "drop (?l * 5) (m @ 0 # junk) = ?rest @ 0 # junk" by (simp add: div_times_less_eq_dividend)
  ultimately show ?thesis
    unfolding UDP_Write.simps rep
    using assms(1) send_chunks_ok [of ?l m "UDP_Write fuel" "0 # junk" 0 "(True, True) # (True, True) # os"] len
    by (simp add: write_body_def send_wait_ok SMALL_BUFFER_SIZE_def chunks5_def Let_def bytes_udp)
qed

text \<open>C40:
  A message of more than 5 bytes is not received: when every datagram is acknowledged, \<open>UDP_Write\<close>
  sends the first datagram, the pieces of 5 bytes, the rest of the message with its zero byte and the
  last datagram, and returns the length of the message; but \<open>UDP_Read\<close> appends the first piece as a
  string, and the 5 bytes of its array are all message, without a zero byte: \<open>strcat\<close> reads behind
  the array.
\<close>

theorem udp_long_message_overruns:
  assumes "5 < length m" "0 \<notin> set m" "length tmp_buf = SMALL_BUFFER_SIZE"
  shows "\<exists>sent. UDP_Write (Suc fuel) (m @ 0 # junk) (length m) (replicate (length m div 5 + 3) (True, True) @ os) = Some (sent, int (length m), os) \<and>
    concat sent = BEGIN_STR @ m @ [0] @ END_STR @ [0] \<and> UDP_Read tmp_buf (map Some sent @ ds) = Some (Inl Overrun)"
proof -
  let ?sent = "[BEGIN_STR] @ chunks5 m @ [drop (length m div 5 * 5) m @ [0]] @ [END_STR @ [0]]"
  have pieces: "concat (map (\<lambda>i. take 5 (drop (i * 5) m)) [0..<l]) = take (l * 5) m" for l
  proof (induction l)
    case (Suc l)
    have "take (l * 5) m @ take 5 (drop (l * 5) m) = take (l * 5 + 5) m" by (simp only: take_add)
    with Suc show ?case by (simp add: add.commute)
  qed simp
  then have "concat ?sent = BEGIN_STR @ m @ [0] @ END_STR @ [0]" by (simp add: chunks5_def)
  moreover have "UDP_Read tmp_buf (map Some ?sent @ ds) = Some (Inl Overrun)"
  proof -
    have "0 < length m div 5" using assms(1) by (simp add: div_greater_zero_iff)
    then have c: "chunks5 m = take 5 m # tl (chunks5 m)" by (simp add: chunks5_def upt_conv_Cons)
    have "recv_into tmp_buf (take 5 m) = take 5 m" using assms(1,3) by (simp add: recv_into_def SMALL_BUFFER_SIZE_def)
    moreover have "0 \<notin> set (take 5 m)" using assms(2) in_set_takeD by fastforce
    moreover have "take 5 m \<noteq> END_STR @ [0]" using \<open>0 \<notin> set (take 5 m)\<close> by auto
    ultimately show ?thesis by (subst c) (simp add: UDP_Read_def BUFFER_SIZE_UDP_def bytes_udp)
  qed
  ultimately show ?thesis using udp_write_long [OF assms(1)] by blast
qed

theorem udp_long_message_overruns_witness:
  "\<exists>sent. UDP_Write 1 (bytes ''first hello'' @ 0 # []) (length (bytes ''first hello'')) (replicate (length (bytes ''first hello'') div 5 + 3) (True, True) @ []) =
     Some (sent, int (length (bytes ''first hello'')), []) \<and> UDP_Read [7, 7, 7, 7, 7] (map Some sent @ []) = Some (Inl Overrun)"
proof -
  have "5 < length (bytes ''first hello'')" "0 \<notin> set (bytes ''first hello'')"
    "length [7 :: uchar, 7, 7, 7, 7] = SMALL_BUFFER_SIZE"
    by (simp_all add: bytes_def SMALL_BUFFER_SIZE_def)
  from udp_long_message_overruns [OF this, of 0 "[]" "[]" "[]"] show ?thesis by auto
qed

text \<open>After a time-out of a full datagram \<open>UDP_Write\<close> has forgotten what it had sent before: the value that
  the repeated write returns is that of the datagram alone, and the last piece is taken to be
  the whole rest of the message behind the first 5 bytes.\<close>

lemma retry_forgets_count:
  assumes "\<not> is_ack mem" "5 \<le> length mem"
  shows "send_chunks (UDP_Write (Suc fuel)) 1 mem ret ((True, False) # (True, True) # os) =
    Some ([take 5 mem, take 5 mem], 5, os)"
  using send_wait_retry [OF assms(1) order_refl _ refl, of fuel "\<lambda>rc. ret + rc" os] assms(2) by (simp add: SMALL_BUFFER_SIZE_def)

text \<open>A datagram of full size that \<open>sendto\<close> refuses is not sent again: the result \<open>-1\<close> is added to the count.\<close>

lemma failed_send_counts_minus_one:
  "5 \<le> length mem \<Longrightarrow> send_chunks W 1 mem ret ((False, True) # os) = Some ([], ret - 1, os)"
  by (simp add: send_wait_def wait_ack_def SMALL_BUFFER_SIZE_def)

end
