(* ===== verification/Dining_Savages.thy ===== *)
theory Dining_Savages
  imports Semaphore
begin

text \<open>
  The dining savages of \<^verbatim>\<open>31/dining_savages.c\<close>: threads \<open>0 .. n - 1\<close> are the savages, who take one
  serving each from a pot of \<open>pot_size\<close> servings, thread \<open>n\<close> is the cook. The savage who finds the pot
  empty wakes the cook and waits until the pot is full, holding the mutex.
\<close>

section \<open>The threads\<close>

datatype cook_pc = KLoop nat | KPrint nat | KPost nat | KDone

datatype savage_pc = SWaitMutex | STest | SPostEmpty | SWaitFull | SFill | SDec | SPrint | SPostMutex | SDone

text \<open>\<open>filled\<close> and \<open>feasts\<close> are the lines that the cook and the savages print.\<close>

record ds_state =
  empty_pot :: nat
  full_pot :: nat
  ds_mutex :: nat
  stewed_missionaries :: int
  cook_at :: cook_pc
  savage_at :: "tid \<Rightarrow> savage_pc"
  filled :: nat
  feasts :: "tid list"

definition cook_goto :: "cook_pc \<Rightarrow> ds_state \<Rightarrow> ds_state" where
  "cook_goto p s = s\<lparr>cook_at := p\<rparr>"

definition savage_goto :: "tid \<Rightarrow> savage_pc \<Rightarrow> ds_state \<Rightarrow> ds_state" where
  "savage_goto t p s = s\<lparr>savage_at := (savage_at s)(t := p)\<rparr>"

text \<open>How often the cook fills the pot.\<close>

definition cook_loop :: "nat \<Rightarrow> nat \<Rightarrow> nat" where
  "cook_loop pot_size savages_num =
    (if savages_num mod pot_size = 0 then savages_num div pot_size else savages_num div pot_size + 1)"

definition cook :: "nat \<Rightarrow> nat \<Rightarrow> ds_state \<Rightarrow> ds_state option" where
  "cook pot_size savages_num s =
    (case cook_at s of
       KLoop i \<Rightarrow> if i < cook_loop pot_size savages_num
         then map_option (\<lambda>v. cook_goto (KPrint i) (s\<lparr>empty_pot := v\<rparr>)) (Sem_wait (empty_pot s))
         else Some (cook_goto KDone s)
     | KPrint i \<Rightarrow> Some (cook_goto (KPost i) (s\<lparr>filled := filled s + 1\<rparr>))
     | KPost i \<Rightarrow> Some (cook_goto (KLoop (i + 1)) (s\<lparr>full_pot := Sem_post (full_pot s)\<rparr>))
     | KDone \<Rightarrow> None)"

definition savage :: "nat \<Rightarrow> tid \<Rightarrow> ds_state \<Rightarrow> ds_state option" where
  "savage pot_size t s =
    (case savage_at s t of
       SWaitMutex \<Rightarrow> map_option (\<lambda>v. savage_goto t STest (s\<lparr>ds_mutex := v\<rparr>)) (Sem_wait (ds_mutex s))
     | STest \<Rightarrow> Some (savage_goto t (if stewed_missionaries s = 0 then SPostEmpty else SDec) s)
     | SPostEmpty \<Rightarrow> Some (savage_goto t SWaitFull (s\<lparr>empty_pot := Sem_post (empty_pot s)\<rparr>))
     | SWaitFull \<Rightarrow> map_option (\<lambda>v. savage_goto t SFill (s\<lparr>full_pot := v\<rparr>)) (Sem_wait (full_pot s))
     | SFill \<Rightarrow> Some (savage_goto t SDec (s\<lparr>stewed_missionaries := int pot_size\<rparr>))
     | SDec \<Rightarrow> Some (savage_goto t SPrint (s\<lparr>stewed_missionaries := stewed_missionaries s - 1\<rparr>))
     | SPrint \<Rightarrow> Some (savage_goto t SPostMutex (s\<lparr>feasts := feasts s @ [t]\<rparr>))
     | SPostMutex \<Rightarrow> Some (savage_goto t SDone (s\<lparr>ds_mutex := Sem_post (ds_mutex s)\<rparr>))
     | SDone \<Rightarrow> None)"

definition ds_step :: "nat \<Rightarrow> nat \<Rightarrow> tid \<Rightarrow> ds_state \<Rightarrow> ds_state option" where
  "ds_step pot_size n t s = (if t < n then savage pot_size t s else cook pot_size n s)"

text \<open>\<open>init_sem\<close>, and the threads at their first statement.\<close>

definition ds_main :: ds_state where
  "ds_main = \<lparr>empty_pot = 0, full_pot = 0, ds_mutex = 1, stewed_missionaries = 0,
     cook_at = KLoop 0, savage_at = (\<lambda>_. SWaitMutex), filled = 0, feasts = []\<rparr>"

lemmas ds_defs = cook_def savage_def cook_goto_def savage_goto_def sem_defs

section \<open>The invariant\<close>

definition s_locked :: "savage_pc \<Rightarrow> bool" where
  "s_locked p \<longleftrightarrow> p \<in> {STest, SPostEmpty, SWaitFull, SFill, SDec, SPrint, SPostMutex}"

definition s_ate :: "savage_pc \<Rightarrow> bool" where
  "s_ate p \<longleftrightarrow> p \<in> {SPrint, SPostMutex, SDone}"

definition s_printed :: "savage_pc \<Rightarrow> bool" where
  "s_printed p \<longleftrightarrow> p \<in> {SPostMutex, SDone}"

text \<open>The number of rounds that the cook has finished, whether it is in a round, and whether it has
  filled the pot of that round.\<close>

definition rounds :: "nat \<Rightarrow> cook_pc \<Rightarrow> nat" where
  "rounds loop p = (case p of KLoop i \<Rightarrow> i | KPrint i \<Rightarrow> i | KPost i \<Rightarrow> i | KDone \<Rightarrow> loop)"

definition cooking :: "cook_pc \<Rightarrow> nat" where
  "cooking p = (case p of KPrint _ \<Rightarrow> 1 | KPost _ \<Rightarrow> 1 | _ \<Rightarrow> 0)"

definition cooked :: "cook_pc \<Rightarrow> nat" where
  "cooked p = (case p of KPost _ \<Rightarrow> 1 | _ \<Rightarrow> 0)"

text \<open>What the savage inside the mutex knows of the servings.\<close>

definition s_local :: "int \<Rightarrow> savage_pc \<Rightarrow> bool" where
  "s_local st p \<longleftrightarrow> (p \<in> {SPostEmpty, SWaitFull, SFill} \<longrightarrow> st = 0) \<and> (p = SDec \<longrightarrow> 0 < st)"

text \<open>The semaphores and the servings, when the savages have filled the pot \<open>f\<close> times.\<close>

definition ds_counts :: "nat \<Rightarrow> nat \<Rightarrow> nat \<Rightarrow> ds_state \<Rightarrow> bool" where
  "ds_counts pot n f s \<longleftrightarrow>
    (let c = cnt n (savage_at s); r = rounds (cook_loop pot n) (cook_at s) in
     ds_mutex s + c s_locked = 1 \<and>
     empty_pot s + r + cooking (cook_at s) = f + c (\<lambda>p. p = SWaitFull \<or> p = SFill) \<and>
     full_pot s + f + c (\<lambda>p. p = SFill) = r \<and>
     filled s = r + cooked (cook_at s) \<and>
     r + cooking (cook_at s) \<le> cook_loop pot n \<and>
     stewed_missionaries s + int (c s_ate) = int (pot * f) \<and> 0 \<le> stewed_missionaries s)"

definition ds_locals :: "nat \<Rightarrow> ds_state \<Rightarrow> bool" where
  "ds_locals n s \<longleftrightarrow> (\<forall>t < n. s_local (stewed_missionaries s) (savage_at s t)) \<and>
     distinct (feasts s) \<and> set (feasts s) = {t. t < n \<and> s_printed (savage_at s t)}"

definition ds_inv :: "nat \<Rightarrow> nat \<Rightarrow> ds_state \<Rightarrow> bool" where
  "ds_inv pot n s \<longleftrightarrow> (\<exists>f. ds_counts pot n f s) \<and> ds_locals n s"

lemmas s_sets = s_locked_def s_ate_def s_printed_def s_local_def

lemmas cook_sets = rounds_def cooking_def cooked_def

lemma ds_inv_init: "ds_inv pot n ds_main"
proof -
  have "ds_counts pot n 0 ds_main" by (simp add: ds_counts_def ds_main_def s_sets cook_sets)
  moreover have "ds_locals n ds_main" by (simp add: ds_locals_def ds_main_def s_sets)
  ultimately show ?thesis unfolding ds_inv_def by blast
qed

lemma ds_counts_cook: "cook pot n s = Some s' \<Longrightarrow> ds_counts pot n f s \<Longrightarrow> ds_counts pot n f s'"
  by (cases "cook_at s") (auto simp: ds_counts_def Let_def ds_defs cook_sets split: if_splits)

lemma ds_locals_cook: "cook pot n s = Some s' \<Longrightarrow> ds_locals n s \<Longrightarrow> ds_locals n s'"
  by (cases "cook_at s") (auto simp: ds_locals_def ds_defs split: if_splits)

lemma savage_frame:
  "savage pot t s = Some s' \<Longrightarrow> savage_at s' = (savage_at s)(t := savage_at s' t) \<and> cook_at s' = cook_at s"
  by (cases "savage_at s t") (auto simp: ds_defs split: if_splits)

text \<open>Only one savage is inside the mutex, so its program point decides the counts there.\<close>

lemma cnt_one:
  assumes "cnt n pc P \<le> 1" "t < n" "P (pc t)" "\<And>p. Q p \<Longrightarrow> P p"
  shows "cnt n pc Q = (if Q (pc t) then 1 else 0)"
proof -
  have only: "\<not> Q (pc u)" if "u < n" "u \<noteq> t" for u
    using cnt_two [of u n t P pc] that assms by auto
  show ?thesis
  proof (cases "Q (pc t)")
    case True
    have "cnt n pc Q \<le> cnt n pc P" using assms(4) by (rule cnt_mono)
    moreover have "0 < cnt n pc Q" using assms(2) True by (rule cnt_pos)
    ultimately show ?thesis using assms(1) True by simp
  next
    case False
    with only have "cnt n pc Q = 0" unfolding cnt_zero_iff by metis
    with False show ?thesis by simp
  qed
qed

lemma s_unlocked_local: "\<not> s_locked p \<Longrightarrow> s_local st p"
  by (auto simp: s_sets)

text \<open>The local facts: the savage that moves establishes its own, the others are outside the mutex or
  it changes nothing that they mention.\<close>

lemma savage_local:
  "savage pot t s = Some s' \<Longrightarrow> s_local (stewed_missionaries s) (savage_at s t) \<Longrightarrow> 0 \<le> stewed_missionaries s \<Longrightarrow> 0 < pot \<Longrightarrow>
    s_local (stewed_missionaries s') (savage_at s' t)"
  by (cases "savage_at s t") (auto simp: ds_defs s_sets split: if_splits)

lemma savage_unlocked: "savage pot t s = Some s' \<Longrightarrow> \<not> s_locked (savage_at s t) \<Longrightarrow> stewed_missionaries s' = stewed_missionaries s"
  by (cases "savage_at s t") (auto simp: ds_defs s_sets split: if_splits)

lemma savage_prints:
  "savage pot t s = Some s' \<Longrightarrow> feasts s' = feasts s @ (if savage_at s t = SPrint then [t] else []) \<and>
    s_printed (savage_at s' t) = (s_printed (savage_at s t) \<or> savage_at s t = SPrint)"
  by (cases "savage_at s t") (auto simp: ds_defs s_printed_def split: if_splits)

lemma savage_feasts:
  assumes "savage pot t s = Some s'" "t < n" "distinct (feasts s)" "set (feasts s) = {t. t < n \<and> s_printed (savage_at s t)}"
  shows "distinct (feasts s') \<and> set (feasts s') = {t. t < n \<and> s_printed (savage_at s' t)}"
proof -
  have "savage_at s' u = savage_at s u" if "u \<noteq> t" for u using savage_frame [OF assms(1)] that by (metis fun_upd_other)
  then have "s_printed (savage_at s' u) = (s_printed (savage_at s u) \<or> u = t \<and> savage_at s t = SPrint)" for u
    using savage_prints [OF assms(1)] by (cases "u = t") auto
  moreover have "savage_at s t = SPrint \<Longrightarrow> t \<notin> set (feasts s)" using assms(4) by (simp add: s_printed_def)
  ultimately show ?thesis using savage_prints [OF assms(1)] assms(2-4) by auto
qed

lemma ds_locals_savage:
  assumes st: "savage pot t s = Some s'" and t: "t < n" "0 < pot" and counts: "ds_counts pot n f s" and loc: "ds_locals n s"
  shows "ds_locals n s'"
proof -
  have one: "cnt n (savage_at s) s_locked \<le> 1" and ge: "0 \<le> stewed_missionaries s" using counts by (auto simp: ds_counts_def Let_def)
  have "s_local (stewed_missionaries s') (savage_at s' u)" if u: "u < n" for u
  proof (cases "u = t")
    case True
    with savage_local [OF st _ ge t(2)] loc t(1) show ?thesis by (simp add: ds_locals_def)
  next
    case False
    then have same: "savage_at s' u = savage_at s u" using savage_frame [OF st] by (metis fun_upd_other)
    show ?thesis
    proof (cases "s_locked (savage_at s t)")
      case True
      then have "\<not> s_locked (savage_at s u)" using cnt_two [of u n t s_locked "savage_at s"] False u t one by auto
      with same show ?thesis by (simp add: s_unlocked_local)
    qed (use same savage_unlocked [OF st] loc u in \<open>simp add: ds_locals_def\<close>)
  qed
  with savage_feasts [OF st t(1)] loc show ?thesis by (simp add: ds_locals_def)
qed

text \<open>A savage fills the pot only at \<open>SFill\<close>.\<close>

lemma ds_counts_savage:
  assumes st: "savage pot t s = Some s'" and t: "t < n" and counts: "ds_counts pot n f s" and loc: "s_local (stewed_missionaries s) (savage_at s t)"
  shows "ds_counts pot n (f + (if savage_at s t = SFill then 1 else 0)) s'"
proof (cases "s_locked (savage_at s t)")
  case True
  have le: "cnt n (savage_at s) s_locked \<le> 1" using counts by (auto simp: ds_counts_def Let_def)
  have c1: "cnt n (savage_at s) (\<lambda>p. p = SWaitFull \<or> p = SFill) = (if savage_at s t = SWaitFull \<or> savage_at s t = SFill then 1 else 0)"
    by (rule cnt_one [OF le t True]) (auto simp: s_locked_def)
  have c2: "cnt n (savage_at s) (\<lambda>p. p = SFill) = (if savage_at s t = SFill then 1 else 0)"
    by (rule cnt_one [OF le t True]) (auto simp: s_locked_def)
  have c3: "cnt n (savage_at s) s_locked = 1" using cnt_one [OF le t True, of s_locked] True by simp
  show ?thesis
    using counts t st loc c1 c2 c3
    by (cases "savage_at s t") (auto simp: ds_counts_def Let_def ds_defs s_sets count_simps algebra_simps split: if_splits)
next
  case False
  then show ?thesis
    using counts t st
    by (cases "savage_at s t") (auto simp: ds_counts_def Let_def ds_defs s_sets count_simps split: if_splits)
qed

lemma ds_inv_step:
  assumes "ds_inv pot n s" "t < Suc n" "ds_step pot n t s = Some s'" "0 < pot"
  shows "ds_inv pot n s'"
proof -
  from assms(1) obtain f where f: "ds_counts pot n f s" and loc: "ds_locals n s" by (auto simp: ds_inv_def)
  show ?thesis
  proof (cases "t < n")
    case True
    with assms(3) have st: "savage pot t s = Some s'" by (simp add: ds_step_def)
    have "s_local (stewed_missionaries s) (savage_at s t)" using loc True by (simp add: ds_locals_def)
    with ds_counts_savage [OF st True f] ds_locals_savage [OF st True assms(4) f loc] show ?thesis unfolding ds_inv_def by blast
  next
    case False
    with assms(3) have "cook pot n s = Some s'" by (simp add: ds_step_def)
    with f loc ds_counts_cook ds_locals_cook show ?thesis unfolding ds_inv_def by blast
  qed
qed

section \<open>Progress\<close>

definition cook_rank :: "nat \<Rightarrow> cook_pc \<Rightarrow> nat" where
  "cook_rank loop p = (case p of KLoop i \<Rightarrow> 3 * (loop - i) + 1 | KPrint i \<Rightarrow> 3 * (loop - i) | KPost i \<Rightarrow> 3 * (loop - i) - 1 | KDone \<Rightarrow> 0)"

definition savage_rank :: "savage_pc \<Rightarrow> nat" where
  "savage_rank p = (case p of SWaitMutex \<Rightarrow> 8 | STest \<Rightarrow> 7 | SPostEmpty \<Rightarrow> 6 | SWaitFull \<Rightarrow> 5 | SFill \<Rightarrow> 4 | SDec \<Rightarrow> 3
     | SPrint \<Rightarrow> 2 | SPostMutex \<Rightarrow> 1 | SDone \<Rightarrow> 0)"

definition ds_budget :: "nat \<Rightarrow> nat \<Rightarrow> ds_state \<Rightarrow> nat" where
  "ds_budget pot n s = cook_rank (cook_loop pot n) (cook_at s) + (\<Sum>t < n. savage_rank (savage_at s t))"

definition ds_finished :: "nat \<Rightarrow> ds_state \<Rightarrow> bool" where
  "ds_finished n s \<longleftrightarrow> cook_at s = KDone \<and> (\<forall>t < n. savage_at s t = SDone)"

lemma cook_frame: "cook pot n s = Some s' \<Longrightarrow> savage_at s' = savage_at s"
  by (cases "cook_at s") (auto simp: ds_defs split: if_splits)

lemma ds_budget_step:
  assumes "ds_inv pot n s" "t < Suc n" "ds_step pot n t s = Some s'"
  shows "ds_budget pot n s' < ds_budget pot n s"
proof (cases "t < n")
  case True
  with assms(3) have st: "savage pot t s = Some s'" by (simp add: ds_step_def)
  have "(\<Sum>u < n. savage_rank (savage_at s' u)) < (\<Sum>u < n. savage_rank (savage_at s u))"
  proof (rule sum_one_less [OF True])
    show "savage_rank (savage_at s' t) < savage_rank (savage_at s t)"
      using st by (cases "savage_at s t") (auto simp: ds_defs savage_rank_def split: if_splits)
    show "savage_rank (savage_at s' u) = savage_rank (savage_at s u)" if "u \<noteq> t" for u
      using savage_frame [OF st] that by (metis fun_upd_other)
  qed
  with savage_frame [OF st] show ?thesis by (simp add: ds_budget_def)
next
  case False
  with assms(3) have st: "cook pot n s = Some s'" by (simp add: ds_step_def)
  from assms(1) have "rounds (cook_loop pot n) (cook_at s) + cooking (cook_at s) \<le> cook_loop pot n"
    by (auto simp: ds_inv_def ds_counts_def Let_def)
  then have "cook_rank (cook_loop pot n) (cook_at s') < cook_rank (cook_loop pot n) (cook_at s)"
    using st by (cases "cook_at s") (auto simp: ds_defs cook_rank_def rounds_def cooking_def split: if_splits)
  with cook_frame [OF st] show ?thesis by (simp add: ds_budget_def)
qed

lemma less_cook_loop:
  assumes "0 < pot"
  shows "i < cook_loop pot n \<longleftrightarrow> pot * i < n"
proof (cases "n mod pot = 0")
  case True
  then obtain q where "n = pot * q" by blast
  with assms show ?thesis by (simp add: cook_loop_def)
next
  case False
  then have "pot * i \<noteq> n" by auto
  moreover have "i \<le> n div pot \<longleftrightarrow> pot * i \<le> n"
    using assms by (simp add: less_eq_div_iff_mult_less_eq mult.commute)
  ultimately show ?thesis using False by (auto simp: cook_loop_def less_Suc_eq_le)
qed

lemma ds_progress:
  assumes inv: "ds_inv pot n s" and nf: "\<not> ds_finished n s" and pot: "0 < pot"
  shows "\<exists>t < Suc n. ds_step pot n t s \<noteq> None"
proof (rule ccontr)
  assume "\<not> ?thesis"
  then have cook: "cook pot n s = None" and sav: "\<And>t. t < n \<Longrightarrow> savage pot t s = None"
    by (auto simp: ds_step_def less_Suc_eq)
  from inv obtain f where f: "ds_counts pot n f s" and loc: "ds_locals n s" by (auto simp: ds_inv_def)
  let ?c = "cnt n (savage_at s)"
  have at: "savage_at s t = SWaitMutex \<and> ds_mutex s = 0 \<or> savage_at s t = SWaitFull \<and> full_pot s = 0 \<or> savage_at s t = SDone" if "t < n" for t
    using sav [OF that] by (cases "savage_at s t") (auto simp: ds_defs split: if_splits)
  have nofill: "?c (\<lambda>p. p = SFill) = 0" unfolding cnt_zero_iff using at by fastforce
  have ck: "cook_at s = KDone \<or> (\<exists>i. cook_at s = KLoop i \<and> i < cook_loop pot n \<and> empty_pot s = 0)"
    using cook by (cases "cook_at s") (auto simp: ds_defs split: if_splits)
  show False
  proof (cases "\<exists>t < n. savage_at s t = SWaitFull")
    case True
    then obtain t where t: "t < n" "savage_at s t = SWaitFull" by blast
    have "?c s_locked \<le> 1" using f by (auto simp: ds_counts_def Let_def)
    then have w: "?c (\<lambda>p. p = SWaitFull \<or> p = SFill) = 1"
      using cnt_one [of n "savage_at s" s_locked t "\<lambda>p. p = SWaitFull \<or> p = SFill"] t by (auto simp: s_locked_def)
    have "stewed_missionaries s = 0" using loc t by (auto simp: ds_locals_def s_local_def)
    then have ate: "?c s_ate = pot * f" using f by (simp add: ds_counts_def Let_def flip: of_nat_mult)
    have "?c s_ate \<noteq> n" using t by (auto simp: cnt_full_iff s_ate_def)
    then have "pot * f < n" using cnt_le [of n "savage_at s" s_ate] ate by simp
    then have "f < cook_loop pot n" using pot by (simp add: less_cook_loop)
    with ck f w nofill at [OF t(1)] t(2) show False
      by (auto simp: ds_counts_def Let_def rounds_def cooking_def)
  next
    case False
    have free: "?c s_locked = 0" and w: "?c (\<lambda>p. p = SWaitFull \<or> p = SFill) = 0"
      unfolding cnt_zero_iff s_locked_def using at False by fastforce+
    then have "ds_mutex s = 1" using f by (simp add: ds_counts_def Let_def)
    then have dn: "savage_at s t = SDone" if "t < n" for t using at [OF that] False that by auto
    then have ate: "?c s_ate = n" by (simp add: cnt_full_iff s_ate_def)
    from dn nf ck obtain i where i: "cook_at s = KLoop i" "i < cook_loop pot n" "empty_pot s = 0" by (auto simp: ds_finished_def)
    with f w nofill have "f = i" by (auto simp: ds_counts_def Let_def rounds_def cooking_def)
    moreover have "int n \<le> int (pot * f)" using f ate by (auto simp: ds_counts_def Let_def)
    then have "n \<le> pot * f" unfolding of_nat_le_iff .
    ultimately show False using i(2) pot by (simp add: less_cook_loop)
  qed
qed

interpretation ds: live_system "ds_step (Suc p) n" "Suc n" ds_main "ds_inv (Suc p) n" "ds_budget (Suc p) n" "ds_finished n" for p n
  by unfold_locales (auto intro: ds_inv_init ds_inv_step ds_budget_step ds_progress [unfolded not_None_eq])

section \<open>Property\<close>

text \<open>C21:
  With a pot of at least one serving, however the cook and \<open>n\<close> savages are interleaved: the pot never
  holds a negative number of servings, at most one savage is between the two calls on the mutex, every
  run ends within a bounded number of statements and never in a deadlock, and at its end each savage
  has feasted exactly once and the cook has filled the pot \<open>n / pot_size\<close> times, rounded up.
\<close>

theorem savages_all_feast:
  assumes "0 < pot" "run_sched (ds_step pot n) is ds_main = Some s" "\<forall>i \<in> set is. i < Suc n"
  shows "0 \<le> stewed_missionaries s \<and> cnt n (savage_at s) s_locked \<le> 1 \<and>
    length is \<le> 3 * cook_loop pot n + 1 + 8 * n \<and>
    ((\<forall>i < Suc n. ds_step pot n i s = None) \<longrightarrow>
      distinct (feasts s) \<and> set (feasts s) = {..<n} \<and> filled s = cook_loop pot n)"
proof -
  obtain p where p: "pot = Suc p" using assms(1) by (cases pot) auto
  have "ds_inv pot n s" using assms(2,3) unfolding p by (rule ds.run_inv)
  then obtain f where f: "ds_counts pot n f s" and loc: "ds_locals n s" by (auto simp: ds_inv_def)
  have "length is \<le> 3 * cook_loop pot n + 1 + 8 * n \<and> ((\<forall>i < Suc n. ds_step pot n i s = None) \<longrightarrow> ds_finished n s)"
    using ds.run_bounded [OF assms(2,3) [unfolded p]] unfolding p
    by (simp add: ds_budget_def ds_main_def cook_rank_def savage_rank_def mult.commute)
  moreover have "distinct (feasts s) \<and> set (feasts s) = {..<n} \<and> filled s = cook_loop pot n" if "ds_finished n s"
    using f loc that by (auto simp: ds_counts_def ds_locals_def Let_def ds_finished_def rounds_def cooked_def s_printed_def)
  ultimately show ?thesis using f by (auto simp: ds_counts_def Let_def)
qed

text \<open>Three savages and a pot of two, one savage after the other.\<close>

definition savages_demo :: "tid list" where
  "savages_demo = [1, 1, 1, 3, 3, 3, 1, 1, 1, 1, 1, 0, 0, 0, 0, 0, 2, 2, 2, 3, 3, 3, 3, 2, 2, 2, 2, 2]"

theorem savages_all_feast_witness:
  "\<exists>s. run_sched (ds_step 2 3) savages_demo ds_main = Some s \<and> feasts s = [1, 0, 2] \<and> filled s = 2 \<and>
    distinct (feasts s) \<and> set (feasts s) = {..<3}"
proof -
  have "case run_sched (ds_step 2 3) savages_demo ds_main of None \<Rightarrow> False
    | Some s \<Rightarrow> feasts s = [1, 0, 2] \<and> filled s = 2 \<and> list_all (\<lambda>i. Option.is_none (ds_step 2 3 i s)) [0, 1, 2, 3]" by code_simp
  then obtain s where s: "run_sched (ds_step 2 3) savages_demo ds_main = Some s" "feasts s = [1, 0, 2]" "filled s = 2"
    and stuck: "list_all (\<lambda>i. Option.is_none (ds_step 2 3 i s)) [0, 1, 2, 3]"
    by (rule run_sched_test) simp
  from stuck have "\<forall>i < Suc 3. ds_step 2 3 i s = None" by (auto simp: Option.is_none_def less_Suc_eq eval_nat_numeral)
  with savages_all_feast [OF _ s(1)] have "distinct (feasts s) \<and> set (feasts s) = {..<3}" by (simp add: savages_demo_def)
  with s show ?thesis by blast
qed

end
