(* ===== verification/Fifo_Barbershop.thy ===== *)
theory Fifo_Barbershop
  imports Semaphore
begin

text \<open>
  The barber shop with a queue of \<^verbatim>\<open>31/FIFO_barbershop.c\<close>: threads \<open>0 .. n - 1\<close> are the customers, thread
  \<open>n\<close> is the barber. Each customer brings a semaphore of its own; the barber takes the entries off the
  queue and posts their semaphores.
\<close>

section \<open>The threads\<close>

datatype cust_pc =
  CWaitMutex | CTest | CBalkPost | CBalkPrint | CInc | CInsert | CPrintArrive | CPostMutex | CPostArrives | CWaitSem
| CPrintHair | CPostLeaves | CWaitSleeps | CWaitMutex2 | CDec | CDestroy | CPostMutex2 | CDone | CBalked

text \<open>\<open>e\<close> is the local variable of \<open>barber\<close>, the customer of the entry. \<open>BCrash\<close> is a null or dangling
  pointer.\<close>

datatype barber_pc =
  BWaitArrives | BWaitMutex | BTake | BPostMutex tid | BPostSem tid | BWaitLeaves tid | BPostSleeps | BCrash

text \<open>\<open>customer_sem\<close> is the semaphore of a customer while it exists; \<open>arrivals\<close>, \<open>haircuts\<close> and \<open>balked\<close> are
  the customers in the order in which the lines are printed.\<close>

record fb_state =
  fb_mutex :: nat
  customer_arrives :: nat
  customer_leaves :: nat
  barber_sleeps :: nat
  customers :: int
  fb_queue :: "tid list"
  customer_sem :: "tid \<Rightarrow> nat option"
  cust_at :: "tid \<Rightarrow> cust_pc"
  barber_at :: barber_pc
  arrivals :: "tid list"
  haircuts :: "tid list"
  balks :: "tid list"

definition cust_goto :: "tid \<Rightarrow> cust_pc \<Rightarrow> fb_state \<Rightarrow> fb_state" where
  "cust_goto t p s = s\<lparr>cust_at := (cust_at s)(t := p)\<rparr>"

definition barber_goto :: "barber_pc \<Rightarrow> fb_state \<Rightarrow> fb_state" where
  "barber_goto p s = s\<lparr>barber_at := p\<rparr>"

definition barber_step :: "fb_state \<Rightarrow> fb_state option" where
  "barber_step s =
    (case barber_at s of
       BWaitArrives \<Rightarrow> map_option (\<lambda>v. barber_goto BWaitMutex (s\<lparr>customer_arrives := v\<rparr>)) (Sem_wait (customer_arrives s))
     | BWaitMutex \<Rightarrow> map_option (\<lambda>v. barber_goto BTake (s\<lparr>fb_mutex := v\<rparr>)) (Sem_wait (fb_mutex s))
     | BTake \<Rightarrow> Some (case fb_queue s of
           [] \<Rightarrow> barber_goto BCrash s
         | e # q \<Rightarrow> barber_goto (BPostMutex e) (s\<lparr>fb_queue := q\<rparr>))
     | BPostMutex e \<Rightarrow> Some (barber_goto (BPostSem e) (s\<lparr>fb_mutex := Sem_post (fb_mutex s)\<rparr>))
     | BPostSem e \<Rightarrow> Some (case customer_sem s e of
           None \<Rightarrow> barber_goto BCrash s
         | Some v \<Rightarrow> barber_goto (BWaitLeaves e) (s\<lparr>customer_sem := (customer_sem s)(e := Some (Sem_post v))\<rparr>))
     | BWaitLeaves e \<Rightarrow> map_option (\<lambda>v. barber_goto BPostSleeps (s\<lparr>customer_leaves := v\<rparr>)) (Sem_wait (customer_leaves s))
     | BPostSleeps \<Rightarrow> Some (barber_goto BWaitArrives (s\<lparr>barber_sleeps := Sem_post (barber_sleeps s)\<rparr>))
     | BCrash \<Rightarrow> None)"

definition customer_step :: "int \<Rightarrow> tid \<Rightarrow> fb_state \<Rightarrow> fb_state option" where
  "customer_step chairs t s =
    (case cust_at s t of
       CWaitMutex \<Rightarrow> map_option (\<lambda>v. cust_goto t CTest (s\<lparr>fb_mutex := v\<rparr>)) (Sem_wait (fb_mutex s))
     | CTest \<Rightarrow> Some (cust_goto t (if customers s = chairs then CBalkPost else CInc) s)
     | CBalkPost \<Rightarrow> Some (cust_goto t CBalkPrint (s\<lparr>fb_mutex := Sem_post (fb_mutex s)\<rparr>))
     | CBalkPrint \<Rightarrow> Some (cust_goto t CBalked (s\<lparr>balks := balks s @ [t]\<rparr>))
     | CInc \<Rightarrow> Some (cust_goto t CInsert (s\<lparr>customers := customers s + 1\<rparr>))
     | CInsert \<Rightarrow> Some (cust_goto t CPrintArrive
         (s\<lparr>customer_sem := (customer_sem s)(t := Some 0), fb_queue := fb_queue s @ [t]\<rparr>))
     | CPrintArrive \<Rightarrow> Some (cust_goto t CPostMutex (s\<lparr>arrivals := arrivals s @ [t]\<rparr>))
     | CPostMutex \<Rightarrow> Some (cust_goto t CPostArrives (s\<lparr>fb_mutex := Sem_post (fb_mutex s)\<rparr>))
     | CPostArrives \<Rightarrow> Some (cust_goto t CWaitSem (s\<lparr>customer_arrives := Sem_post (customer_arrives s)\<rparr>))
     | CWaitSem \<Rightarrow> (case customer_sem s t of
           None \<Rightarrow> None
         | Some v \<Rightarrow> map_option (\<lambda>v'. cust_goto t CPrintHair (s\<lparr>customer_sem := (customer_sem s)(t := Some v')\<rparr>)) (Sem_wait v))
     | CPrintHair \<Rightarrow> Some (cust_goto t CPostLeaves (s\<lparr>haircuts := haircuts s @ [t]\<rparr>))
     | CPostLeaves \<Rightarrow> Some (cust_goto t CWaitSleeps (s\<lparr>customer_leaves := Sem_post (customer_leaves s)\<rparr>))
     | CWaitSleeps \<Rightarrow> map_option (\<lambda>v. cust_goto t CWaitMutex2 (s\<lparr>barber_sleeps := v\<rparr>)) (Sem_wait (barber_sleeps s))
     | CWaitMutex2 \<Rightarrow> map_option (\<lambda>v. cust_goto t CDec (s\<lparr>fb_mutex := v\<rparr>)) (Sem_wait (fb_mutex s))
     | CDec \<Rightarrow> Some (cust_goto t CDestroy (s\<lparr>customers := customers s - 1\<rparr>))
     | CDestroy \<Rightarrow> Some (cust_goto t CPostMutex2 (s\<lparr>customer_sem := (customer_sem s)(t := None)\<rparr>))
     | CPostMutex2 \<Rightarrow> Some (cust_goto t CDone (s\<lparr>fb_mutex := Sem_post (fb_mutex s)\<rparr>))
     | CDone \<Rightarrow> None
     | CBalked \<Rightarrow> None)"

definition fb_step :: "int \<Rightarrow> nat \<Rightarrow> tid \<Rightarrow> fb_state \<Rightarrow> fb_state option" where
  "fb_step chairs n t s = (if t < n then customer_step chairs t s else barber_step s)"

definition fb_main :: fb_state where
  "fb_main = \<lparr>fb_mutex = 1, customer_arrives = 0, customer_leaves = 0, barber_sleeps = 0, customers = 0, fb_queue = [],
     customer_sem = (\<lambda>_. None), cust_at = (\<lambda>_. CWaitMutex), barber_at = BWaitArrives, arrivals = [], haircuts = [], balks = []\<rparr>"

lemmas fb_defs = barber_step_def customer_step_def cust_goto_def barber_goto_def sem_defs

section \<open>The invariant\<close>

definition c_locked :: "cust_pc \<Rightarrow> bool" where
  "c_locked p \<longleftrightarrow> p \<in> {CTest, CBalkPost, CInc, CInsert, CPrintArrive, CPostMutex, CDec, CDestroy, CPostMutex2}"

definition bb_locked :: "barber_pc \<Rightarrow> nat" where
  "bb_locked b = (case b of BTake \<Rightarrow> 1 | BPostMutex _ \<Rightarrow> 1 | _ \<Rightarrow> 0)"

text \<open>Counted in \<open>customers\<close>; in the queue or with the barber, until the haircut.\<close>

definition c_inside :: "cust_pc \<Rightarrow> bool" where
  "c_inside p \<longleftrightarrow> p \<in> {CInsert, CPrintArrive, CPostMutex, CPostArrives, CWaitSem, CPrintHair, CPostLeaves, CWaitSleeps, CWaitMutex2, CDec}"

definition c_waiting :: "cust_pc \<Rightarrow> bool" where
  "c_waiting p \<longleftrightarrow> p \<in> {CPrintArrive, CPostMutex, CPostArrives, CWaitSem}"

definition c_announcing :: "cust_pc \<Rightarrow> bool" where
  "c_announcing p \<longleftrightarrow> p \<in> {CPrintArrive, CPostMutex, CPostArrives}"

text \<open>The customer whom the barber has taken and who has not had the haircut.\<close>

definition b_serving :: "(tid \<Rightarrow> cust_pc) \<Rightarrow> barber_pc \<Rightarrow> tid list" where
  "b_serving pc b = (case b of BPostMutex e \<Rightarrow> [e] | BPostSem e \<Rightarrow> [e]
     | BWaitLeaves e \<Rightarrow> if c_waiting (pc e) \<or> pc e = CPrintHair then [e] else [] | _ \<Rightarrow> [])"

definition bb_coming :: "barber_pc \<Rightarrow> nat" where
  "bb_coming b = (case b of BWaitMutex \<Rightarrow> 1 | BTake \<Rightarrow> 1 | _ \<Rightarrow> 0)"

definition fb_counts :: "int \<Rightarrow> nat \<Rightarrow> fb_state \<Rightarrow> bool" where
  "fb_counts chairs n s \<longleftrightarrow>
    (let c = cnt n (cust_at s) in
     fb_mutex s + c c_locked + bb_locked (barber_at s) = 1 \<and>
     customers s = int (c c_inside) \<and> customers s \<le> chairs \<and>
     customer_arrives s + bb_coming (barber_at s) + c c_announcing = length (fb_queue s) \<and>
     c ((=) CWaitSleeps) = barber_sleeps s + (if barber_at s = BPostSleeps then 1 else 0) + customer_leaves s)"

text \<open>The semaphore of each customer, and the signal \<open>customer_leaves\<close>.\<close>

definition c_sem_ok :: "barber_pc \<Rightarrow> tid \<Rightarrow> cust_pc \<Rightarrow> nat option \<Rightarrow> bool" where
  "c_sem_ok b t p v \<longleftrightarrow>
     (c_waiting p \<longrightarrow> v = Some (if b = BWaitLeaves t then 1 else 0)) \<and>
     (p = CPrintHair \<or> p = CPostLeaves \<longrightarrow> b = BWaitLeaves t)"

definition b_leaves :: "(tid \<Rightarrow> cust_pc) \<Rightarrow> barber_pc \<Rightarrow> nat" where
  "b_leaves pc b = (case b of BWaitLeaves e \<Rightarrow> if c_waiting (pc e) \<or> pc e = CPrintHair \<or> pc e = CPostLeaves then 0 else 1 | _ \<Rightarrow> 0)"

text \<open>The customers who have not had their haircut, in the order in which they are served.\<close>

definition b_line :: "fb_state \<Rightarrow> tid list" where
  "b_line s = b_serving (cust_at s) (barber_at s) @ fb_queue s"

definition c_in_line :: "cust_pc \<Rightarrow> bool" where
  "c_in_line p \<longleftrightarrow> c_waiting p \<or> p = CPrintHair"

definition c_early :: "cust_pc \<Rightarrow> bool" where
  "c_early p \<longleftrightarrow> p \<in> {CWaitMutex, CTest, CBalkPost, CBalkPrint, CInc, CInsert, CBalked}"

definition fb_line :: "nat \<Rightarrow> fb_state \<Rightarrow> bool" where
  "fb_line n s \<longleftrightarrow>
     customer_leaves s = b_leaves (cust_at s) (barber_at s) \<and> barber_at s \<noteq> BCrash \<and>
     distinct (b_line s) \<and> (\<forall>t. t \<in> set (b_line s) \<longleftrightarrow> t < n \<and> c_in_line (cust_at s t)) \<and>
     (\<forall>e. barber_at s = BWaitLeaves e \<longrightarrow> e < n \<and> \<not> c_early (cust_at s e))"

definition fb_local :: "int \<Rightarrow> nat \<Rightarrow> fb_state \<Rightarrow> bool" where
  "fb_local chairs n s \<longleftrightarrow>
     (\<forall>t < n. c_sem_ok (barber_at s) t (cust_at s t) (customer_sem s t) \<and> (cust_at s t = CInc \<longrightarrow> customers s < chairs))"

text \<open>The arrivals are printed behind the insertion, by the customer who holds the mutex.\<close>

definition fb_order :: "nat \<Rightarrow> fb_state \<Rightarrow> bool" where
  "fb_order n s \<longleftrightarrow>
     (\<forall>t < n. cust_at s t = CPrintArrive \<longrightarrow> haircuts s @ b_line s = arrivals s @ [t]) \<and>
     ((\<forall>t < n. cust_at s t \<noteq> CPrintArrive) \<longrightarrow> haircuts s @ b_line s = arrivals s)"

definition fb_cut :: "nat \<Rightarrow> fb_state \<Rightarrow> bool" where
  "fb_cut n s \<longleftrightarrow> (\<forall>t < n. t \<in> set (haircuts s) \<longleftrightarrow> \<not> c_early (cust_at s t) \<and> \<not> c_in_line (cust_at s t))"

definition fb_inv :: "int \<Rightarrow> nat \<Rightarrow> fb_state \<Rightarrow> bool" where
  "fb_inv chairs n s \<longleftrightarrow> fb_counts chairs n s \<and> fb_line n s \<and> fb_local chairs n s \<and> fb_order n s \<and> fb_cut n s"

lemmas c_sets = c_locked_def c_inside_def c_waiting_def c_announcing_def c_in_line_def c_sem_ok_def c_early_def

lemmas b_sets = bb_locked_def b_serving_def bb_coming_def b_leaves_def

lemma fb_inv_init: "0 \<le> chairs \<Longrightarrow> fb_inv chairs n fb_main"
  by (simp add: fb_inv_def fb_counts_def fb_line_def fb_local_def fb_order_def fb_cut_def b_line_def fb_main_def c_sets b_sets)

subsection \<open>The barber\<close>

lemma barber_counts: "barber_step s = Some s' \<Longrightarrow> fb_counts chairs n s \<Longrightarrow> barber_at s' \<noteq> BCrash \<Longrightarrow> fb_counts chairs n s'"
  by (cases "barber_at s") (auto simp: fb_counts_def Let_def fb_defs b_sets split: if_splits list.splits option.splits)

lemma barber_frame: "barber_step s = Some s' \<Longrightarrow> cust_at s' = cust_at s \<and> customers s' = customers s \<and> arrivals s' = arrivals s \<and> haircuts s' = haircuts s"
  by (cases "barber_at s") (auto simp: fb_defs split: if_splits list.splits option.splits)

lemma barber_line:
  assumes st: "barber_step s = Some s'" and inv: "fb_inv chairs n s"
  shows "b_line s' = b_line s \<and> barber_at s' \<noteq> BCrash"
proof -
  have in_line: "t \<in> set (b_line s) \<Longrightarrow> t < n \<and> c_in_line (cust_at s t)" for t using inv by (auto simp: fb_inv_def fb_line_def)
  have sem: "t < n \<Longrightarrow> c_sem_ok (barber_at s) t (cust_at s t) (customer_sem s t)" for t using inv by (auto simp: fb_inv_def fb_local_def)
  show ?thesis
  proof (cases "barber_at s")
    case BTake
    then have "fb_queue s \<noteq> []" using inv by (auto simp: fb_inv_def fb_counts_def Let_def bb_coming_def)
    with BTake st show ?thesis by (auto simp: fb_defs b_line_def b_serving_def split: list.splits)
  next
    case (BPostSem e)
    then have "e \<in> set (b_line s)" by (simp add: b_line_def b_serving_def)
    from in_line [OF this] sem [of e] BPostSem have "c_waiting (cust_at s e)" "customer_sem s e = Some 0" by (auto simp: c_in_line_def c_sem_ok_def)
    with BPostSem st show ?thesis by (auto simp: fb_defs b_line_def b_serving_def)
  next
    case (BWaitLeaves e)
    with st inv have "0 < b_leaves (cust_at s) (BWaitLeaves e)" by (auto simp: fb_defs fb_inv_def fb_line_def split: if_splits)
    with BWaitLeaves st show ?thesis by (auto simp: fb_defs b_line_def b_sets split: if_splits)
  qed (use st in \<open>auto simp: fb_defs b_line_def b_serving_def split: if_splits\<close>)
qed

lemma barber_local:
  assumes st: "barber_step s = Some s'" and inv: "fb_inv chairs n s"
  shows "fb_local chairs n s'"
proof -
  note fr = barber_frame [OF st]
  have sem: "t < n \<Longrightarrow> c_sem_ok (barber_at s) t (cust_at s t) (customer_sem s t)" for t using inv by (auto simp: fb_inv_def fb_local_def)
  have leaves: "customer_leaves s = b_leaves (cust_at s) (barber_at s)" using inv by (simp add: fb_inv_def fb_line_def)
  have "c_sem_ok (barber_at s') t (cust_at s' t) (customer_sem s' t)" if "t < n" for t
    using st sem [OF that] leaves
    by (cases "barber_at s") (auto simp: fb_defs c_sem_ok_def b_leaves_def split: if_splits list.splits option.splits)
  with inv fr show ?thesis by (simp add: fb_inv_def fb_local_def)
qed

lemma barber_signal:
  assumes st: "barber_step s = Some s'" and inv: "fb_inv chairs n s"
  shows "customer_leaves s' = b_leaves (cust_at s') (barber_at s') \<and> (\<forall>e. barber_at s' = BWaitLeaves e \<longrightarrow> e < n \<and> \<not> c_early (cust_at s' e))"
proof -
  have leaves: "customer_leaves s = b_leaves (cust_at s) (barber_at s)"
    and in_line: "\<And>t. t \<in> set (b_line s) \<Longrightarrow> t < n \<and> c_in_line (cust_at s t)"
    and sem: "\<And>t. t < n \<Longrightarrow> c_sem_ok (barber_at s) t (cust_at s t) (customer_sem s t)"
    using inv by (auto simp: fb_inv_def fb_line_def fb_local_def)
  show ?thesis
  proof (cases "barber_at s")
    case (BPostSem e)
    then have "e \<in> set (b_line s)" by (simp add: b_line_def b_serving_def)
    from in_line [OF this] sem [of e] BPostSem have e: "e < n" "c_waiting (cust_at s e)" "customer_sem s e = Some 0"
      by (auto simp: c_in_line_def c_sem_ok_def)
    with BPostSem st leaves have "s' = s\<lparr>customer_sem := (customer_sem s)(e := Some 1), barber_at := BWaitLeaves e\<rparr>" "customer_leaves s = 0"
      by (auto simp: fb_defs b_leaves_def)
    with e show ?thesis by (auto simp: b_leaves_def c_waiting_def c_early_def)
  qed (use st leaves in \<open>auto simp: fb_defs b_leaves_def split: if_splits list.splits\<close>)
qed

lemma barber_inv:
  assumes st: "barber_step s = Some s'" and inv: "fb_inv chairs n s"
  shows "fb_inv chairs n s'"
proof -
  note fr = barber_frame [OF st] and line = barber_line [OF st inv]
  have "fb_line n s'" using inv line fr barber_signal [OF st inv] by (simp add: fb_inv_def fb_line_def)
  moreover have "fb_order n s'" using inv line fr by (simp add: fb_inv_def fb_order_def)
  moreover have "fb_cut n s'" using inv fr by (simp add: fb_inv_def fb_cut_def)
  moreover have "fb_counts chairs n s'" using barber_counts [OF st] inv line by (simp add: fb_inv_def)
  ultimately show ?thesis using barber_local [OF st inv] by (simp add: fb_inv_def)
qed

subsection \<open>The customers\<close>

lemma customer_frame:
  "customer_step chairs t s = Some s' \<Longrightarrow> cust_at s' = (cust_at s)(t := cust_at s' t) \<and> barber_at s' = barber_at s \<and>
     (\<forall>u. u \<noteq> t \<longrightarrow> cust_at s' u = cust_at s u \<and> customer_sem s' u = customer_sem s u)"
  by (cases "cust_at s t") (auto simp: fb_defs split: if_splits option.splits)

text \<open>What a statement adds to a count it adds to the matching semaphore or variable.\<close>

abbreviation ind :: "bool \<Rightarrow> nat" where
  "ind b \<equiv> (if b then 1 else 0)"

lemma customer_balance:
  assumes "customer_step chairs t s = Some s'"
  shows "fb_mutex s' + ind (c_locked (cust_at s' t)) = fb_mutex s + ind (c_locked (cust_at s t))"
    "customers s' + int (ind (c_inside (cust_at s t))) = customers s + int (ind (c_inside (cust_at s' t)))"
    "customer_arrives s' + ind (c_announcing (cust_at s' t)) + length (fb_queue s) = customer_arrives s + ind (c_announcing (cust_at s t)) + length (fb_queue s')"
    "barber_sleeps s' + customer_leaves s' + ind (CWaitSleeps = cust_at s t) = barber_sleeps s + customer_leaves s + ind (CWaitSleeps = cust_at s' t)"
  using assms by (cases "cust_at s t"; auto simp: fb_defs c_sets split: if_splits option.splits; fail)+

lemma customer_counts:
  assumes st: "customer_step chairs t s = Some s'" and t: "t < n" and inv: "fb_counts chairs n s" and inc: "cust_at s t = CInc \<longrightarrow> customers s < chairs"
  shows "fb_counts chairs n s'"
proof -
  note fr = customer_frame [OF st] and bal = customer_balance [OF st]
  have cnt: "cnt n (cust_at s') P + ind (P (cust_at s t)) = cnt n (cust_at s) P + ind (P (cust_at s' t))" for P
    using cnt_upd [OF t, of "cust_at s" "cust_at s' t" P] fr by metis
  have le: "customers s' \<le> chairs"
    using st inc inv by (cases "cust_at s t") (auto simp: fb_defs fb_counts_def Let_def split: if_splits option.splits)
  note cs = cnt [of c_locked] cnt [of c_inside] cnt [of c_announcing] cnt [of "(=) CWaitSleeps"]
  have same: "barber_at s' = barber_at s" using fr by simp
  from inv show ?thesis
    unfolding fb_counts_def Let_def same
    by (elim conjE; intro conjI) (use le bal cs in linarith)+
qed

text \<open>Two customers are not inside the mutex together.\<close>

lemma fb_exclusive: "fb_counts chairs n s \<Longrightarrow> t < n \<Longrightarrow> u < n \<Longrightarrow> c_locked (cust_at s t) \<Longrightarrow> c_locked (cust_at s u) \<Longrightarrow> u = t"
  using cnt_two [of t n u c_locked "cust_at s"] by (auto simp: fb_counts_def Let_def)

lemma customer_local:
  assumes st: "customer_step chairs t s = Some s'" and t: "t < n" and inv: "fb_inv chairs n s"
  shows "fb_local chairs n s'"
proof -
  note fr = customer_frame [OF st]
  have loc: "c_sem_ok (barber_at s) u (cust_at s u) (customer_sem s u) \<and> (cust_at s u = CInc \<longrightarrow> customers s < chairs)" if "u < n" for u
    using inv that by (simp add: fb_inv_def fb_local_def)
  have le: "customers s \<le> chairs" and cnts: "fb_counts chairs n s" using inv by (auto simp: fb_inv_def fb_counts_def Let_def)
  have early: "\<And>e. barber_at s = BWaitLeaves e \<Longrightarrow> \<not> c_early (cust_at s e)" using inv by (auto simp: fb_inv_def fb_line_def)
  have own: "c_sem_ok (barber_at s') t (cust_at s' t) (customer_sem s' t) \<and> (cust_at s' t = CInc \<longrightarrow> customers s' < chairs)"
    using st loc [OF t] le early [of t]
    by (cases "cust_at s t") (auto simp: fb_defs c_sets split: if_splits option.splits)
  have other: "cust_at s u = CInc \<longrightarrow> customers s' < chairs" if u: "u < n" "u \<noteq> t" for u
  proof
    assume inc: "cust_at s u = CInc"
    then have "cust_at s t \<noteq> CInc" using fb_exclusive [OF cnts t u(1)] u(2) by (auto simp: c_locked_def)
    then have "customers s' \<le> customers s" using st by (cases "cust_at s t") (auto simp: fb_defs split: if_splits option.splits)
    with loc [OF u(1)] inc show "customers s' < chairs" by simp
  qed
  have "c_sem_ok (barber_at s') u (cust_at s' u) (customer_sem s' u) \<and> (cust_at s' u = CInc \<longrightarrow> customers s' < chairs)" if "u < n" for u
    using own other [OF that] loc [OF that] fr by (cases "u = t") auto
  then show ?thesis by (simp add: fb_local_def)
qed

lemma customer_signal:
  assumes st: "customer_step chairs t s = Some s'" and sem: "c_sem_ok (barber_at s) t (cust_at s t) (customer_sem s t)"
    and leaves: "customer_leaves s = b_leaves (cust_at s) (barber_at s)" and early: "\<And>e. barber_at s = BWaitLeaves e \<Longrightarrow> \<not> c_early (cust_at s e)"
  shows "customer_leaves s' = b_leaves (cust_at s') (barber_at s')"
proof (cases "barber_at s = BWaitLeaves t")
  case True
  with st leaves early [of t] show ?thesis
    by (cases "cust_at s t") (auto simp: fb_defs c_sets b_leaves_def split: if_splits option.splits)
next
  case False
  then have "b_leaves (cust_at s') (barber_at s') = b_leaves (cust_at s) (barber_at s)"
    using customer_frame [OF st] by (auto simp: b_leaves_def split: barber_pc.splits)
  moreover have "customer_leaves s' = customer_leaves s"
    using st sem False by (cases "cust_at s t") (auto simp: fb_defs c_sem_ok_def split: if_splits option.splits)
  ultimately show ?thesis using leaves by simp
qed

text \<open>The line of customers grows at its end and is served from its front.\<close>

lemma customer_line:
  assumes st: "customer_step chairs t s = Some s'" and sem: "c_sem_ok (barber_at s) t (cust_at s t) (customer_sem s t)"
    and early: "\<And>e. barber_at s = BWaitLeaves e \<Longrightarrow> \<not> c_early (cust_at s e)"
  shows "(if cust_at s t = CPrintHair then [t] else []) @ b_line s' = b_line s @ (if cust_at s t = CInsert then [t] else [])"
proof (cases "barber_at s = BWaitLeaves t")
  case True
  with st early [of t] show ?thesis
    by (cases "cust_at s t") (auto simp: fb_defs c_sets b_line_def b_serving_def split: if_splits option.splits)
next
  case False
  then have "b_serving (cust_at s') (barber_at s') = b_serving (cust_at s) (barber_at s)"
    using customer_frame [OF st] by (auto simp: b_serving_def split: barber_pc.splits)
  moreover have "cust_at s t \<noteq> CPrintHair" using sem False by (auto simp: c_sem_ok_def)
  moreover have "fb_queue s' = fb_queue s @ (if cust_at s t = CInsert then [t] else [])"
    using st by (cases "cust_at s t") (auto simp: fb_defs split: if_splits option.splits)
  ultimately show ?thesis by (simp add: b_line_def)
qed

lemma customer_logs:
  "customer_step chairs t s = Some s' \<Longrightarrow> haircuts s' = haircuts s @ (if cust_at s t = CPrintHair then [t] else []) \<and>
     arrivals s' = arrivals s @ (if cust_at s t = CPrintArrive then [t] else []) \<and> (cust_at s' t = CPrintArrive \<longleftrightarrow> cust_at s t = CInsert)"
  by (cases "cust_at s t") (auto simp: fb_defs split: if_splits option.splits)

lemma customer_order:
  assumes st: "customer_step chairs t s = Some s'" and t: "t < n" and cnts: "fb_counts chairs n s" and ord: "fb_order n s"
    and l: "(if cust_at s t = CPrintHair then [t] else []) @ b_line s' = b_line s @ (if cust_at s t = CInsert then [t] else [])"
  shows "fb_order n s'"
proof -
  note fr = customer_frame [OF st] and logs = customer_logs [OF st]
  have all: "haircuts s' @ b_line s' = haircuts s @ b_line s @ (if cust_at s t = CInsert then [t] else [])"
    using logs l by auto
  have pa: "cust_at s' u = CPrintArrive \<longleftrightarrow> (if u = t then cust_at s t = CInsert else cust_at s u = CPrintArrive)" for u
    using logs fr by auto
  show ?thesis
  proof (cases "cust_at s t = CInsert \<or> cust_at s t = CPrintArrive")
    case True
    then have "\<forall>u < n. u \<noteq> t \<longrightarrow> cust_at s u \<noteq> CPrintArrive" using fb_exclusive [OF cnts t] by (auto simp: c_locked_def)
    with True ord all logs t pa show ?thesis unfolding fb_order_def by (auto split: if_splits)
  next
    case False
    then have "haircuts s' @ b_line s' = haircuts s @ b_line s" "arrivals s' = arrivals s" using all logs by auto
    moreover have "cust_at s' u = CPrintArrive \<longleftrightarrow> cust_at s u = CPrintArrive" for u using pa False by auto
    ultimately show ?thesis using ord by (simp add: fb_order_def)
  qed
qed

lemma customer_cut:
  assumes st: "customer_step chairs t s = Some s'" and t: "t < n" and cut: "fb_cut n s"
  shows "fb_cut n s'"
proof -
  have own: "\<not> c_early (cust_at s' t) \<and> \<not> c_in_line (cust_at s' t) \<longleftrightarrow> \<not> c_early (cust_at s t) \<and> \<not> c_in_line (cust_at s t) \<or> cust_at s t = CPrintHair"
    using st by (cases "cust_at s t") (auto simp: fb_defs c_sets split: if_splits option.splits)
  have "u \<in> set (haircuts s') \<longleftrightarrow> \<not> c_early (cust_at s' u) \<and> \<not> c_in_line (cust_at s' u)" if "u < n" for u
    using cut that own customer_logs [OF st] customer_frame [OF st] by (cases "u = t") (auto simp: fb_cut_def)
  then show ?thesis by (simp add: fb_cut_def)
qed

lemma customer_inv:
  assumes st: "customer_step chairs t s = Some s'" and t: "t < n" and inv: "fb_inv chairs n s"
  shows "fb_inv chairs n s'"
proof -
  note fr = customer_frame [OF st]
  have leaves: "customer_leaves s = b_leaves (cust_at s) (barber_at s)" and nc: "barber_at s \<noteq> BCrash" and dist: "distinct (b_line s)"
    and mem: "\<And>u. u \<in> set (b_line s) \<longleftrightarrow> u < n \<and> c_in_line (cust_at s u)"
    and early: "\<And>e. barber_at s = BWaitLeaves e \<Longrightarrow> e < n \<and> \<not> c_early (cust_at s e)"
    and sem: "c_sem_ok (barber_at s) t (cust_at s t) (customer_sem s t)" and inc: "cust_at s t = CInc \<longrightarrow> customers s < chairs"
    and cnts: "fb_counts chairs n s"
    using inv t by (auto simp: fb_inv_def fb_line_def fb_local_def)
  note line = customer_line [OF st sem]
  have l: "(if cust_at s t = CPrintHair then [t] else []) @ b_line s' = b_line s @ (if cust_at s t = CInsert then [t] else [])"
    using line early by blast
  have tin: "c_in_line (cust_at s' t) = (c_in_line (cust_at s t) \<and> cust_at s t \<noteq> CPrintHair \<or> cust_at s t = CInsert)"
    using st by (cases "cust_at s t") (auto simp: fb_defs c_sets split: if_splits option.splits)
  have "\<not> c_in_line CInsert" by (simp add: c_sets)
  then have "distinct (b_line s @ (if cust_at s t = CInsert then [t] else []))" using dist mem by auto
  then have d: "distinct ((if cust_at s t = CPrintHair then [t] else []) @ b_line s')" unfolding l .
  have m: "u \<in> set (b_line s') \<longleftrightarrow> u < n \<and> c_in_line (cust_at s' u)" for u
  proof -
    have "u \<in> set ((if cust_at s t = CPrintHair then [t] else []) @ b_line s') \<longleftrightarrow> u < n \<and> c_in_line (cust_at s u) \<or> u = t \<and> cust_at s t = CInsert"
      unfolding l by (auto simp: mem)
    then show ?thesis using d fr tin t by (cases "u = t") (auto split: if_splits)
  qed
  have e': "\<not> c_early (cust_at s' e)" if "barber_at s' = BWaitLeaves e" for e
  proof (cases "e = t")
    case True
    with early [of t] that fr have "\<not> c_early (cust_at s t)" by simp
    then show ?thesis using st True by (cases "cust_at s t") (auto simp: fb_defs c_early_def split: if_splits option.splits)
  qed (use early [of e] that fr in simp)
  have "fb_line n s'"
    using customer_signal [OF st sem leaves] early nc d m e' fr unfolding fb_line_def by auto
  moreover have "fb_order n s'" using inv by (intro customer_order [OF st t cnts _ l]) (simp add: fb_inv_def)
  moreover have "fb_cut n s'" using inv by (intro customer_cut [OF st t]) (simp add: fb_inv_def)
  ultimately show ?thesis using customer_counts [OF st t cnts inc] customer_local [OF st t inv] by (simp add: fb_inv_def)
qed

lemma fb_inv_step: "fb_inv chairs n s \<Longrightarrow> t < Suc n \<Longrightarrow> fb_step chairs n t s = Some s' \<Longrightarrow> fb_inv chairs n s'"
  by (auto simp: fb_step_def split: if_splits intro: barber_inv customer_inv)

section \<open>Progress\<close>

definition cust_rank :: "cust_pc \<Rightarrow> nat" where
  "cust_rank p = (case p of CWaitMutex \<Rightarrow> 16 | CTest \<Rightarrow> 15 | CBalkPost \<Rightarrow> 2 | CBalkPrint \<Rightarrow> 1 | CInc \<Rightarrow> 14 | CInsert \<Rightarrow> 13 | CPrintArrive \<Rightarrow> 12
     | CPostMutex \<Rightarrow> 11 | CPostArrives \<Rightarrow> 10 | CWaitSem \<Rightarrow> 9 | CPrintHair \<Rightarrow> 8 | CPostLeaves \<Rightarrow> 7 | CWaitSleeps \<Rightarrow> 6 | CWaitMutex2 \<Rightarrow> 5
     | CDec \<Rightarrow> 4 | CDestroy \<Rightarrow> 3 | CPostMutex2 \<Rightarrow> 2 | CDone \<Rightarrow> 0 | CBalked \<Rightarrow> 0)"

definition barber_rank :: "barber_pc \<Rightarrow> nat" where
  "barber_rank b = (case b of BWaitArrives \<Rightarrow> 3 | BWaitMutex \<Rightarrow> 2 | BTake \<Rightarrow> 1 | BPostMutex _ \<Rightarrow> 7 | BPostSem _ \<Rightarrow> 6 | BWaitLeaves _ \<Rightarrow> 5
     | BPostSleeps \<Rightarrow> 4 | BCrash \<Rightarrow> 0)"

text \<open>Each customer who is not yet taken off the queue is a round of seven statements for the barber.\<close>

definition early_rank :: "cust_pc \<Rightarrow> nat" where
  "early_rank p = cust_rank p + (if c_early p \<and> p \<noteq> CBalked then 7 else 0)"

definition fb_budget :: "nat \<Rightarrow> fb_state \<Rightarrow> nat" where
  "fb_budget n s = (\<Sum>t < n. early_rank (cust_at s t)) + 7 * length (fb_queue s) + barber_rank (barber_at s)"

definition fb_finished :: "nat \<Rightarrow> fb_state \<Rightarrow> bool" where
  "fb_finished n s \<longleftrightarrow> (\<forall>t < n. cust_at s t = CDone \<or> cust_at s t = CBalked)"

lemma sum_step_less:
  fixes f g :: "nat \<Rightarrow> nat"
  assumes "i < n" "g i + d < f i" "\<And>j. j < n \<Longrightarrow> j \<noteq> i \<Longrightarrow> g j = f j"
  shows "(\<Sum>j < n. g j) + d < (\<Sum>j < n. f j)"
proof -
  have "(\<Sum>j < n. (g(i := g i + d)) j) < (\<Sum>j < n. f j)" using assms by (intro sum_one_less) auto
  moreover have "(\<Sum>j < n. (g(i := g i + d)) j) = (\<Sum>j < n. g j) + d"
    using assms(1) by (simp add: sum.remove [of "{..<n}" i] algebra_simps)
  ultimately show ?thesis by simp
qed

lemma fb_budget_step:
  assumes inv: "fb_inv chairs n s" and st: "fb_step chairs n t s = Some s'"
  shows "fb_budget n s' < fb_budget n s"
proof (cases "t < n")
  case True
  with st have c: "customer_step chairs t s = Some s'" by (simp add: fb_step_def)
  note fr = customer_frame [OF c]
  let ?d = "if cust_at s t = CInsert then 7 else 0"
  have "(\<Sum>u < n. early_rank (cust_at s' u)) + ?d < (\<Sum>u < n. early_rank (cust_at s u))"
  proof (rule sum_step_less [OF True])
    show "early_rank (cust_at s' t) + ?d < early_rank (cust_at s t)"
      using c by (cases "cust_at s t") (auto simp: fb_defs early_rank_def cust_rank_def c_early_def split: if_splits option.splits)
    show "early_rank (cust_at s' u) = early_rank (cust_at s u)" if "u \<noteq> t" for u using fr that by simp
  qed
  moreover have "length (fb_queue s') = length (fb_queue s) + (if cust_at s t = CInsert then 1 else 0)"
    using c by (cases "cust_at s t") (auto simp: fb_defs split: if_splits option.splits)
  ultimately show ?thesis using fr by (simp add: fb_budget_def split: if_splits)
next
  case False
  with st have b: "barber_step s = Some s'" by (simp add: fb_step_def)
  have "barber_rank (barber_at s') + 7 * length (fb_queue s') < barber_rank (barber_at s) + 7 * length (fb_queue s)"
    using b barber_line [OF b inv] by (cases "barber_at s") (auto simp: fb_defs barber_rank_def split: if_splits option.splits list.splits)
  with barber_frame [OF b] show ?thesis by (simp add: fb_budget_def)
qed

lemma fb_progress:
  assumes inv: "fb_inv chairs n s" and nf: "\<not> fb_finished n s"
  shows "\<exists>t < Suc n. fb_step chairs n t s \<noteq> None"
proof (rule ccontr)
  assume "\<not> ?thesis"
  then have barber: "barber_step s = None" and cust: "\<And>t. t < n \<Longrightarrow> customer_step chairs t s = None"
    by (auto simp: fb_step_def less_Suc_eq)
  let ?c = "cnt n (cust_at s)"
  have sem: "c_sem_ok (barber_at s) t (cust_at s t) (customer_sem s t)" if "t < n" for t using inv that by (simp add: fb_inv_def fb_local_def)
  have at: "cust_at s t \<in> {CWaitMutex, CWaitMutex2} \<and> fb_mutex s = 0 \<or> cust_at s t = CWaitSem \<and> barber_at s \<noteq> BWaitLeaves t \<or>
      cust_at s t = CWaitSleeps \<and> barber_sleeps s = 0 \<or> cust_at s t = CDone \<or> cust_at s t = CBalked" if "t < n" for t
    using cust [OF that] sem [OF that] by (cases "cust_at s t") (auto simp: fb_defs c_sets split: if_splits option.splits)
  have b: "barber_at s = BWaitArrives \<and> customer_arrives s = 0 \<or> barber_at s = BWaitMutex \<and> fb_mutex s = 0 \<or>
      (\<exists>e. barber_at s = BWaitLeaves e \<and> customer_leaves s = 0)"
    using barber inv by (cases "barber_at s") (auto simp: fb_defs fb_inv_def fb_line_def split: if_splits)
  have "?c c_locked = 0" and ann: "?c c_announcing = 0" unfolding cnt_zero_iff using at by (fastforce simp: c_sets)+
  moreover have "bb_locked (barber_at s) = 0" using b by (auto simp: bb_locked_def)
  ultimately have free: "fb_mutex s = 1" using inv by (simp add: fb_inv_def fb_counts_def Let_def)
  have "barber_at s \<noteq> BWaitLeaves e" for e
  proof
    assume w: "barber_at s = BWaitLeaves e"
    then have "e < n" "customer_leaves s = 0" "b_leaves (cust_at s) (BWaitLeaves e) = customer_leaves s"
      using inv b by (auto simp: fb_inv_def fb_line_def)
    with at [of e] w free show False by (auto simp: b_leaves_def c_waiting_def split: if_splits)
  qed
  with b free have ba: "barber_at s = BWaitArrives" "customer_arrives s = 0" by auto
  with inv ann have q: "fb_queue s = []" by (simp add: fb_inv_def fb_counts_def Let_def bb_coming_def)
  have "b_line s = []" using ba q by (simp add: b_line_def b_serving_def)
  then have no_wait: "cust_at s t \<noteq> CWaitSem" if "t < n" for t
    using inv that by (auto simp: fb_inv_def fb_line_def c_in_line_def c_waiting_def)
  have "customer_leaves s = 0" using inv ba by (simp add: fb_inv_def fb_line_def b_leaves_def)
  then have sl: "?c ((=) CWaitSleeps) = barber_sleeps s" using inv ba by (simp add: fb_inv_def fb_counts_def Let_def)
  have "cust_at s t \<noteq> CWaitSleeps" if "t < n" for t
    using at [OF that] sl cnt_pos [OF that, of "(=) CWaitSleeps" "cust_at s"] by auto
  with at no_wait free nf show False unfolding fb_finished_def by fastforce
qed

interpretation fb: live_system "fb_step (int c) n" "Suc n" fb_main "fb_inv (int c) n" "fb_budget n" "fb_finished n" for c n
  by unfold_locales (auto intro: fb_inv_init fb_inv_step fb_budget_step fb_progress [unfolded not_None_eq])

section \<open>Property\<close>

lemma fb_order_prefix:
  assumes "fb_inv chairs n s"
  shows "\<exists>rest. arrivals s = haircuts s @ rest"
proof (cases "\<exists>t < n. cust_at s t = CPrintArrive")
  case True
  then obtain t where t: "t < n" "cust_at s t = CPrintArrive" by blast
  then have "t \<in> set (b_line s)" "haircuts s @ b_line s = arrivals s @ [t]"
    using assms by (auto simp: fb_inv_def fb_line_def fb_order_def c_sets)
  then have "b_line s \<noteq> []" by auto
  then have "arrivals s = haircuts s @ butlast (b_line s)" using \<open>haircuts s @ b_line s = arrivals s @ [t]\<close> by (metis butlast_append butlast_snoc)
  then show ?thesis by blast
next
  case False
  then have "haircuts s @ b_line s = arrivals s" using assms by (auto simp: fb_inv_def fb_order_def)
  then show ?thesis by metis
qed

text \<open>C14:
  However the barber and \<open>n\<close> customers are interleaved: the customers get their haircuts in the order in
  which they announced their arrival, never more than \<open>chairs\<close> customers are in the shop, the barber
  never takes an entry off an empty queue or posts a semaphore that does not exist, every run ends
  within \<open>23 * n + 3\<close> statements and never in a deadlock, and at its end each customer has either
  balked or had a haircut.
\<close>

theorem fifo_barbershop_serves:
  assumes "run_sched (fb_step (int chairs) n) is fb_main = Some s" "\<forall>i \<in> set is. i < Suc n"
  shows "(\<exists>rest. arrivals s = haircuts s @ rest) \<and> customers s \<le> int chairs \<and> barber_at s \<noteq> BCrash \<and>
    length is \<le> 23 * n + 3 \<and>
    ((\<forall>i < Suc n. fb_step (int chairs) n i s = None) \<longrightarrow> haircuts s = arrivals s \<and>
      (\<forall>t < n. if t \<in> set (haircuts s) then cust_at s t = CDone else cust_at s t = CBalked))"
proof -
  have inv: "fb_inv (int chairs) n s" using assms by (rule fb.run_inv)
  have fin: "haircuts s = arrivals s \<and> (\<forall>t < n. if t \<in> set (haircuts s) then cust_at s t = CDone else cust_at s t = CBalked)" if f: "fb_finished n s"
  proof -
    have "b_line s = []" using inv f by (auto simp: fb_inv_def fb_line_def fb_finished_def c_sets) (metis cust_pc.distinct last_in_set)
    moreover have "\<forall>t < n. cust_at s t \<noteq> CPrintArrive" using f by (auto simp: fb_finished_def)
    ultimately show ?thesis using inv f by (auto simp: fb_inv_def fb_order_def fb_cut_def fb_finished_def c_sets)
  qed
  have "length is \<le> 23 * n + 3 \<and> ((\<forall>i < Suc n. fb_step (int chairs) n i s = None) \<longrightarrow> fb_finished n s)"
    using fb.run_bounded [OF assms] by (simp add: fb_budget_def fb_main_def early_rank_def cust_rank_def barber_rank_def c_early_def)
  with fin fb_order_prefix [OF inv] inv show ?thesis by (auto simp: fb_inv_def fb_counts_def fb_line_def Let_def)
qed

text \<open>Three customers in a shop with two chairs: the third balks.\<close>

definition barbershop_demo :: "tid list" where
  "barbershop_demo = [1, 1, 1, 1, 1, 1, 1, 0, 0, 0, 0, 0, 0, 0, 2, 2, 2, 2, 3, 3, 3, 3, 3, 1, 1, 1, 3, 3, 1, 1, 1, 1, 1, 3, 3, 3, 3, 3, 0, 0, 0, 3, 3, 0, 0, 0, 0, 0]"

theorem fifo_barbershop_serves_witness:
  "\<exists>s. run_sched (fb_step 2 3) barbershop_demo fb_main = Some s \<and> haircuts s = [1, 0] \<and> balks s = [2] \<and> cust_at s 2 = CBalked \<and> cust_at s 0 = CDone"
proof -
  have "case run_sched (fb_step 2 3) barbershop_demo fb_main of None \<Rightarrow> False
    | Some s \<Rightarrow> haircuts s = [1, 0] \<and> balks s = [2] \<and> list_all (\<lambda>i. Option.is_none (fb_step 2 3 i s)) [0, 1, 2, 3]" by code_simp
  then obtain s where s: "run_sched (fb_step 2 3) barbershop_demo fb_main = Some s" "haircuts s = [1, 0]" "balks s = [2]"
    and stuck: "list_all (\<lambda>i. Option.is_none (fb_step 2 3 i s)) [0, 1, 2, 3]"
    by (rule run_sched_test) simp
  from stuck have "\<forall>i < Suc 3. fb_step 2 3 i s = None" by (auto simp: Option.is_none_def less_Suc_eq eval_nat_numeral)
  moreover have "\<forall>i \<in> set barbershop_demo. i < Suc 3" by (simp add: barbershop_demo_def)
  ultimately have fin: "\<forall>t < 3. if t \<in> set (haircuts s) then cust_at s t = CDone else cust_at s t = CBalked"
    using fifo_barbershop_serves [of 2 3 barbershop_demo s] s(1) by simp
  have "cust_at s 2 = CBalked" "cust_at s 0 = CDone" using fin [rule_format, of 2] fin [rule_format, of 0] s(2) by simp_all
  with s show ?thesis by blast
qed

end
