(* ===== verification/Hilzer.thy ===== *)
theory Hilzer
  imports Semaphore
begin

text \<open>
  Hilzer's barber shop, \<^verbatim>\<open>31/Hilzers_barbershop.c\<close>: customers wait in a queue for the sofa and on the sofa for a
  chair; ushers lead them to the sofa, barbers to a chair. Each place in a queue is an allocated entry
  with a semaphore of its own, which the customer frees when it has been called. Threads \<open>0 .. n - 1\<close> are
  the customers, the next \<open>u\<close> threads are the ushers, the others the barbers.
\<close>

section \<open>The threads\<close>

text \<open>The program points of \<open>customer\<close> (H), \<open>usher\<close> (U) and \<open>barber\<close> (X); an entry is named by the customer
  who has allocated it. \<open>UCrash\<close> and \<open>XCrash\<close> are accesses to a null pointer or to a freed entry.\<close>

datatype hz_pc =
  HWaitNum | HTest | HBalkPost | HBalkPrint | HInc | HPrintArrive | HPostNum
| HWaitSofaq | HInitSofa | HInsertSofa | HPostSofaq | HPostArrive | HWaitSofa | HFreeSofa | HPrintSit
| HWaitChairq | HInitChair | HInsertChair | HPostChairq | HPostOnSofa | HWaitChair | HFreeChair | HPostLeave
| HPrintCut | HPostPay | HWaitReceipt | HWaitNum2 | HDec | HPrintLeave | HPostNum2 | HDone | HBalked
| UWaitArrive | UWaitSofaq | UTake | UPostSofaq tid | UPostSem tid | UPrint tid | UWaitLeave | UCrash
| XWaitOnSofa | XWaitChairq | XTake | XPostChairq tid | XPostSem tid | XPrint tid | XWaitPay | XWaitCashier | XAccept
| XPostCashier | XPostReceipt | XCrash

text \<open>The semaphores, the two queues, and the semaphores of the entries that are allocated.\<close>

record hz_state =
  cust_num_mutex :: nat
  sofaq_mutex :: nat
  chairq_mutex :: nat
  cust_arrive :: nat
  cust_on_sofa :: nat
  cust_leave_sofa :: nat
  payment :: nat
  receipt :: nat
  cashier_mutex :: nat
  customer_num :: int
  wait_sofaq :: "tid list"
  wait_chairq :: "tid list"
  sofa_entry :: "tid \<Rightarrow> nat option"
  chair_entry :: "tid \<Rightarrow> nat option"
  hz_at :: "tid \<Rightarrow> hz_pc"

definition hz_goto :: "tid \<Rightarrow> hz_pc \<Rightarrow> hz_state \<Rightarrow> hz_state" where
  "hz_goto t p s = s\<lparr>hz_at := (hz_at s)(t := p)\<rparr>"

text \<open>\<open>customer\<close>.\<close>

definition hz_customer :: "int \<Rightarrow> tid \<Rightarrow> hz_state \<Rightarrow> hz_state option" where
  "hz_customer max_capacity t s =
    (case hz_at s t of
       HWaitNum \<Rightarrow> map_option (\<lambda>v. hz_goto t HTest (s\<lparr>cust_num_mutex := v\<rparr>)) (Sem_wait (cust_num_mutex s))
     | HTest \<Rightarrow> Some (hz_goto t (if customer_num s = max_capacity then HBalkPost else HInc) s)
     | HBalkPost \<Rightarrow> Some (hz_goto t HBalkPrint (s\<lparr>cust_num_mutex := Sem_post (cust_num_mutex s)\<rparr>))
     | HBalkPrint \<Rightarrow> Some (hz_goto t HBalked s)
     | HInc \<Rightarrow> Some (hz_goto t HPrintArrive (s\<lparr>customer_num := customer_num s + 1\<rparr>))
     | HPrintArrive \<Rightarrow> Some (hz_goto t HPostNum s)
     | HPostNum \<Rightarrow> Some (hz_goto t HWaitSofaq (s\<lparr>cust_num_mutex := Sem_post (cust_num_mutex s)\<rparr>))
     | HWaitSofaq \<Rightarrow> map_option (\<lambda>v. hz_goto t HInitSofa (s\<lparr>sofaq_mutex := v\<rparr>)) (Sem_wait (sofaq_mutex s))
     | HInitSofa \<Rightarrow> Some (hz_goto t HInsertSofa (s\<lparr>sofa_entry := (sofa_entry s)(t := Some 0)\<rparr>))
     | HInsertSofa \<Rightarrow> Some (hz_goto t HPostSofaq (s\<lparr>wait_sofaq := wait_sofaq s @ [t]\<rparr>))
     | HPostSofaq \<Rightarrow> Some (hz_goto t HPostArrive (s\<lparr>sofaq_mutex := Sem_post (sofaq_mutex s)\<rparr>))
     | HPostArrive \<Rightarrow> Some (hz_goto t HWaitSofa (s\<lparr>cust_arrive := Sem_post (cust_arrive s)\<rparr>))
     | HWaitSofa \<Rightarrow> (case sofa_entry s t of None \<Rightarrow> None
         | Some v \<Rightarrow> map_option (\<lambda>v'. hz_goto t HFreeSofa (s\<lparr>sofa_entry := (sofa_entry s)(t := Some v')\<rparr>)) (Sem_wait v))
     | HFreeSofa \<Rightarrow> Some (hz_goto t HPrintSit (s\<lparr>sofa_entry := (sofa_entry s)(t := None)\<rparr>))
     | HPrintSit \<Rightarrow> Some (hz_goto t HWaitChairq s)
     | HWaitChairq \<Rightarrow> map_option (\<lambda>v. hz_goto t HInitChair (s\<lparr>chairq_mutex := v\<rparr>)) (Sem_wait (chairq_mutex s))
     | HInitChair \<Rightarrow> Some (hz_goto t HInsertChair (s\<lparr>chair_entry := (chair_entry s)(t := Some 0)\<rparr>))
     | HInsertChair \<Rightarrow> Some (hz_goto t HPostChairq (s\<lparr>wait_chairq := wait_chairq s @ [t]\<rparr>))
     | HPostChairq \<Rightarrow> Some (hz_goto t HPostOnSofa (s\<lparr>chairq_mutex := Sem_post (chairq_mutex s)\<rparr>))
     | HPostOnSofa \<Rightarrow> Some (hz_goto t HWaitChair (s\<lparr>cust_on_sofa := Sem_post (cust_on_sofa s)\<rparr>))
     | HWaitChair \<Rightarrow> (case chair_entry s t of None \<Rightarrow> None
         | Some v \<Rightarrow> map_option (\<lambda>v'. hz_goto t HFreeChair (s\<lparr>chair_entry := (chair_entry s)(t := Some v')\<rparr>)) (Sem_wait v))
     | HFreeChair \<Rightarrow> Some (hz_goto t HPostLeave (s\<lparr>chair_entry := (chair_entry s)(t := None)\<rparr>))
     | HPostLeave \<Rightarrow> Some (hz_goto t HPrintCut (s\<lparr>cust_leave_sofa := Sem_post (cust_leave_sofa s)\<rparr>))
     | HPrintCut \<Rightarrow> Some (hz_goto t HPostPay s)
     | HPostPay \<Rightarrow> Some (hz_goto t HWaitReceipt (s\<lparr>payment := Sem_post (payment s)\<rparr>))
     | HWaitReceipt \<Rightarrow> map_option (\<lambda>v. hz_goto t HWaitNum2 (s\<lparr>receipt := v\<rparr>)) (Sem_wait (receipt s))
     | HWaitNum2 \<Rightarrow> map_option (\<lambda>v. hz_goto t HDec (s\<lparr>cust_num_mutex := v\<rparr>)) (Sem_wait (cust_num_mutex s))
     | HDec \<Rightarrow> Some (hz_goto t HPrintLeave (s\<lparr>customer_num := customer_num s - 1\<rparr>))
     | HPrintLeave \<Rightarrow> Some (hz_goto t HPostNum2 s)
     | HPostNum2 \<Rightarrow> Some (hz_goto t HDone (s\<lparr>cust_num_mutex := Sem_post (cust_num_mutex s)\<rparr>))
     | _ \<Rightarrow> None)"

text \<open>\<open>usher\<close>: the line with the index of the entry is printed after its semaphore has been posted.\<close>

definition hz_usher :: "tid \<Rightarrow> hz_state \<Rightarrow> hz_state option" where
  "hz_usher t s =
    (case hz_at s t of
       UWaitArrive \<Rightarrow> map_option (\<lambda>v. hz_goto t UWaitSofaq (s\<lparr>cust_arrive := v\<rparr>)) (Sem_wait (cust_arrive s))
     | UWaitSofaq \<Rightarrow> map_option (\<lambda>v. hz_goto t UTake (s\<lparr>sofaq_mutex := v\<rparr>)) (Sem_wait (sofaq_mutex s))
     | UTake \<Rightarrow> Some (case wait_sofaq s of [] \<Rightarrow> hz_goto t UCrash s | e # q \<Rightarrow> hz_goto t (UPostSofaq e) (s\<lparr>wait_sofaq := q\<rparr>))
     | UPostSofaq e \<Rightarrow> Some (hz_goto t (UPostSem e) (s\<lparr>sofaq_mutex := Sem_post (sofaq_mutex s)\<rparr>))
     | UPostSem e \<Rightarrow> Some (case sofa_entry s e of None \<Rightarrow> hz_goto t UCrash s
         | Some v \<Rightarrow> hz_goto t (UPrint e) (s\<lparr>sofa_entry := (sofa_entry s)(e := Some (Sem_post v))\<rparr>))
     | UPrint e \<Rightarrow> Some (case sofa_entry s e of None \<Rightarrow> hz_goto t UCrash s | Some _ \<Rightarrow> hz_goto t UWaitLeave s)
     | UWaitLeave \<Rightarrow> map_option (\<lambda>v. hz_goto t UWaitArrive (s\<lparr>cust_leave_sofa := v\<rparr>)) (Sem_wait (cust_leave_sofa s))
     | _ \<Rightarrow> None)"

text \<open>\<open>barber\<close>.\<close>

definition hz_barber :: "tid \<Rightarrow> hz_state \<Rightarrow> hz_state option" where
  "hz_barber t s =
    (case hz_at s t of
       XWaitOnSofa \<Rightarrow> map_option (\<lambda>v. hz_goto t XWaitChairq (s\<lparr>cust_on_sofa := v\<rparr>)) (Sem_wait (cust_on_sofa s))
     | XWaitChairq \<Rightarrow> map_option (\<lambda>v. hz_goto t XTake (s\<lparr>chairq_mutex := v\<rparr>)) (Sem_wait (chairq_mutex s))
     | XTake \<Rightarrow> Some (case wait_chairq s of [] \<Rightarrow> hz_goto t XCrash s | e # q \<Rightarrow> hz_goto t (XPostChairq e) (s\<lparr>wait_chairq := q\<rparr>))
     | XPostChairq e \<Rightarrow> Some (hz_goto t (XPostSem e) (s\<lparr>chairq_mutex := Sem_post (chairq_mutex s)\<rparr>))
     | XPostSem e \<Rightarrow> Some (case chair_entry s e of None \<Rightarrow> hz_goto t XCrash s
         | Some v \<Rightarrow> hz_goto t (XPrint e) (s\<lparr>chair_entry := (chair_entry s)(e := Some (Sem_post v))\<rparr>))
     | XPrint e \<Rightarrow> Some (case chair_entry s e of None \<Rightarrow> hz_goto t XCrash s | Some _ \<Rightarrow> hz_goto t XWaitPay s)
     | XWaitPay \<Rightarrow> map_option (\<lambda>v. hz_goto t XWaitCashier (s\<lparr>payment := v\<rparr>)) (Sem_wait (payment s))
     | XWaitCashier \<Rightarrow> map_option (\<lambda>v. hz_goto t XAccept (s\<lparr>cashier_mutex := v\<rparr>)) (Sem_wait (cashier_mutex s))
     | XAccept \<Rightarrow> Some (hz_goto t XPostCashier s)
     | XPostCashier \<Rightarrow> Some (hz_goto t XPostReceipt (s\<lparr>cashier_mutex := Sem_post (cashier_mutex s)\<rparr>))
     | XPostReceipt \<Rightarrow> Some (hz_goto t XWaitOnSofa (s\<lparr>receipt := Sem_post (receipt s)\<rparr>))
     | _ \<Rightarrow> None)"

definition hz_step :: "int \<Rightarrow> nat \<Rightarrow> nat \<Rightarrow> tid \<Rightarrow> hz_state \<Rightarrow> hz_state option" where
  "hz_step max_capacity n u t s =
    (if t < n then hz_customer max_capacity t s else if t < n + u then hz_usher t s else hz_barber t s)"

definition hz_main :: "nat \<Rightarrow> nat \<Rightarrow> hz_state" where
  "hz_main n u = \<lparr>cust_num_mutex = 1, sofaq_mutex = 1, chairq_mutex = 1, cust_arrive = 0, cust_on_sofa = 0, cust_leave_sofa = 0,
     payment = 0, receipt = 0, cashier_mutex = 1, customer_num = 0, wait_sofaq = [], wait_chairq = [],
     sofa_entry = (\<lambda>_. None), chair_entry = (\<lambda>_. None),
     hz_at = (\<lambda>t. if t < n then HWaitNum else if t < n + u then UWaitArrive else XWaitOnSofa)\<rparr>"

lemmas hz_defs = hz_customer_def hz_usher_def hz_barber_def hz_goto_def sem_defs

section \<open>The capacity of the shop\<close>

definition h_locked :: "hz_pc \<Rightarrow> bool" where
  "h_locked p = (case p of
       HTest \<Rightarrow> True | HBalkPost \<Rightarrow> True | HInc \<Rightarrow> True | HPrintArrive \<Rightarrow> True | HPostNum \<Rightarrow> True | HDec \<Rightarrow> True
     | HPrintLeave \<Rightarrow> True | HPostNum2 \<Rightarrow> True | _ \<Rightarrow> False)"

text \<open>In the shop; on the sofa; in a chair, until the payment.\<close>

definition h_inside :: "hz_pc \<Rightarrow> bool" where
  "h_inside p = (case p of
       HPrintArrive \<Rightarrow> True | HPostNum \<Rightarrow> True | HWaitSofaq \<Rightarrow> True | HInitSofa \<Rightarrow> True | HInsertSofa \<Rightarrow> True | HPostSofaq \<Rightarrow> True
     | HPostArrive \<Rightarrow> True | HWaitSofa \<Rightarrow> True | HFreeSofa \<Rightarrow> True | HPrintSit \<Rightarrow> True | HWaitChairq \<Rightarrow> True | HInitChair \<Rightarrow> True
     | HInsertChair \<Rightarrow> True | HPostChairq \<Rightarrow> True | HPostOnSofa \<Rightarrow> True | HWaitChair \<Rightarrow> True | HFreeChair \<Rightarrow> True | HPostLeave \<Rightarrow> True
     | HPrintCut \<Rightarrow> True | HPostPay \<Rightarrow> True | HWaitReceipt \<Rightarrow> True | HWaitNum2 \<Rightarrow> True | HDec \<Rightarrow> True | _ \<Rightarrow> False)"

definition h_sofa :: "hz_pc \<Rightarrow> bool" where
  "h_sofa p = (case p of
       HFreeSofa \<Rightarrow> True | HPrintSit \<Rightarrow> True | HWaitChairq \<Rightarrow> True | HInitChair \<Rightarrow> True | HInsertChair \<Rightarrow> True | HPostChairq \<Rightarrow> True
     | HPostOnSofa \<Rightarrow> True | HWaitChair \<Rightarrow> True | HFreeChair \<Rightarrow> True | HPostLeave \<Rightarrow> True | _ \<Rightarrow> False)"

definition h_chair :: "hz_pc \<Rightarrow> bool" where
  "h_chair p = (case p of
       HFreeChair \<Rightarrow> True | HPostLeave \<Rightarrow> True | HPrintCut \<Rightarrow> True | HPostPay \<Rightarrow> True | _ \<Rightarrow> False)"

text \<open>Ushers and barbers who have called a customer.\<close>

definition u_called :: "hz_pc \<Rightarrow> bool" where
  "u_called p = (case p of UPrint _ \<Rightarrow> True | UWaitLeave \<Rightarrow> True | UCrash \<Rightarrow> True | _ \<Rightarrow> False)"

definition x_called :: "hz_pc \<Rightarrow> bool" where
  "x_called p = (case p of XPrint _ \<Rightarrow> True | XWaitPay \<Rightarrow> True | XCrash \<Rightarrow> True | _ \<Rightarrow> False)"

definition sem_value :: "nat option \<Rightarrow> nat" where
  "sem_value v = (case v of None \<Rightarrow> 0 | Some k \<Rightarrow> k)"

text \<open>The calls that have been made to customers and that they have not yet answered.\<close>

definition calls :: "nat \<Rightarrow> (tid \<Rightarrow> nat option) \<Rightarrow> nat" where
  "calls N f = (\<Sum>t < N. sem_value (f t))"

definition hz_counts :: "int \<Rightarrow> nat \<Rightarrow> hz_state \<Rightarrow> bool" where
  "hz_counts cap N s \<longleftrightarrow>
    (let c = cnt N (hz_at s) in
     cust_num_mutex s + c h_locked = 1 \<and>
     customer_num s = int (c h_inside) \<and> customer_num s \<le> cap \<and> (\<forall>t < N. hz_at s t = HInc \<longrightarrow> customer_num s < cap) \<and>
     calls N (sofa_entry s) + c h_sofa + cust_leave_sofa s \<le> c u_called \<and>
     calls N (chair_entry s) + c h_chair + payment s \<le> c x_called)"

lemmas h_sets = h_locked_def h_inside_def h_sofa_def h_chair_def u_called_def x_called_def

lemma hz_counts_init: "0 \<le> cap \<Longrightarrow> hz_counts cap N (hz_main n u)"
proof -
  assume "0 \<le> cap"
  moreover have "cnt N (hz_at (hz_main n u)) P = 0" if "\<not> P HWaitNum" "\<not> P UWaitArrive" "\<not> P XWaitOnSofa" for P
    unfolding cnt_zero_iff using that by (simp add: hz_main_def)
  ultimately show ?thesis by (simp add: hz_counts_def Let_def h_sets hz_main_def calls_def sem_value_def)
qed

lemma calls_upd: "e < N \<Longrightarrow> calls N (f(e := x)) + sem_value (f e) = calls N f + sem_value x"
proof -
  assume e: "e < N"
  have "(\<Sum>u \<in> {..<N} - {e}. sem_value ((f(e := x)) u)) = (\<Sum>u \<in> {..<N} - {e}. sem_value (f u))" by (rule sum.cong) auto
  with e show ?thesis unfolding calls_def using sum.remove [of "{..<N}" e "\<lambda>u. sem_value ((f(e := x)) u)"] sum.remove [of "{..<N}" e "\<lambda>u. sem_value (f u)"]
    by simp
qed

lemma calls_lower: "sem_value x = 0 \<Longrightarrow> e < N \<Longrightarrow> calls N (f(e := x)) \<le> calls N f"
  using calls_upd [of e N f x] by simp

lemma calls_answer: "f e = Some (Suc v) \<Longrightarrow> e < N \<Longrightarrow> Suc (calls N (f(e := Some v))) = calls N f"
  using calls_upd [of e N f "Some v"] by (simp add: sem_value_def)

lemma calls_post: "f e = Some v \<Longrightarrow> calls N (f(e := Some (Suc v))) \<le> Suc (calls N f)"
proof (cases "e < N")
  case False
  then have "calls N (f(e := Some (Suc v))) = calls N f" unfolding calls_def by (intro sum.cong) auto
  then show ?thesis by simp
qed (use calls_upd [of e N f "Some (Suc v)"] in \<open>simp add: sem_value_def\<close>)

abbreviation is1 :: "bool \<Rightarrow> nat" where
  "is1 b \<equiv> (if b then 1 else 0)"

text \<open>What a statement of thread \<open>t\<close> moves between the counts.\<close>

definition num_balance :: "tid \<Rightarrow> hz_state \<Rightarrow> hz_state \<Rightarrow> bool" where
  "num_balance t s s' \<longleftrightarrow>
     cust_num_mutex s' + is1 (h_locked (hz_at s' t)) = cust_num_mutex s + is1 (h_locked (hz_at s t)) \<and>
     customer_num s' + int (is1 (h_inside (hz_at s t))) = customer_num s + int (is1 (h_inside (hz_at s' t)))"

definition sofa_balance :: "nat \<Rightarrow> tid \<Rightarrow> hz_state \<Rightarrow> hz_state \<Rightarrow> bool" where
  "sofa_balance N t s s' \<longleftrightarrow>
     calls N (sofa_entry s') + is1 (h_sofa (hz_at s' t)) + cust_leave_sofa s' + is1 (u_called (hz_at s t))
       \<le> calls N (sofa_entry s) + is1 (h_sofa (hz_at s t)) + cust_leave_sofa s + is1 (u_called (hz_at s' t))"

definition chair_balance :: "nat \<Rightarrow> tid \<Rightarrow> hz_state \<Rightarrow> hz_state \<Rightarrow> bool" where
  "chair_balance N t s s' \<longleftrightarrow>
     calls N (chair_entry s') + is1 (h_chair (hz_at s' t)) + payment s' + is1 (x_called (hz_at s t))
       \<le> calls N (chair_entry s) + is1 (h_chair (hz_at s t)) + payment s + is1 (x_called (hz_at s' t))"

lemma customer_num_balance: "hz_customer cap t s = Some s' \<Longrightarrow> num_balance t s s'"
  by (cases "hz_at s t") (auto simp: hz_defs num_balance_def h_locked_def h_inside_def split: if_splits option.splits)

lemma customer_sofa_balance:
  assumes st: "hz_customer cap t s = Some s'" and t: "t < N"
  shows "sofa_balance N t s s'"
proof (cases "hz_at s t")
  case HWaitSofa
  with st obtain v where "sofa_entry s t = Some (Suc v)" "s' = s\<lparr>sofa_entry := (sofa_entry s)(t := Some v), hz_at := (hz_at s)(t := HFreeSofa)\<rparr>"
    by (auto simp: hz_defs gr0_conv_Suc split: if_splits option.splits)
  with HWaitSofa calls_answer [of "sofa_entry s" t v N] t show ?thesis by (simp add: sofa_balance_def h_sofa_def u_called_def)
qed (use st t calls_lower [of None t N "sofa_entry s"] calls_lower [of "Some 0" t N "sofa_entry s"] in
    \<open>auto simp: hz_defs sofa_balance_def h_sofa_def u_called_def sem_value_def split: if_splits option.splits\<close>)

lemma customer_chair_balance:
  assumes st: "hz_customer cap t s = Some s'" and t: "t < N"
  shows "chair_balance N t s s'"
proof (cases "hz_at s t")
  case HWaitChair
  with st obtain v where "chair_entry s t = Some (Suc v)" "s' = s\<lparr>chair_entry := (chair_entry s)(t := Some v), hz_at := (hz_at s)(t := HFreeChair)\<rparr>"
    by (auto simp: hz_defs gr0_conv_Suc split: if_splits option.splits)
  with HWaitChair calls_answer [of "chair_entry s" t v N] t show ?thesis by (simp add: chair_balance_def h_chair_def x_called_def)
qed (use st t calls_lower [of None t N "chair_entry s"] calls_lower [of "Some 0" t N "chair_entry s"] in
    \<open>auto simp: hz_defs chair_balance_def h_chair_def x_called_def sem_value_def split: if_splits option.splits\<close>)

lemma usher_balance:
  assumes st: "hz_usher t s = Some s'"
  shows "num_balance t s s' \<and> sofa_balance N t s s' \<and> chair_balance N t s s'"
proof -
  have "num_balance t s s'" using st
    by (cases "hz_at s t") (auto simp: hz_defs num_balance_def h_locked_def h_inside_def split: if_splits option.splits list.splits)
  moreover have "chair_balance N t s s'" using st
    by (cases "hz_at s t") (auto simp: hz_defs chair_balance_def h_chair_def x_called_def split: if_splits option.splits list.splits)
  moreover have "sofa_balance N t s s'"
  proof (cases "\<exists>e v. hz_at s t = UPostSem e \<and> sofa_entry s e = Some v")
    case True
    then obtain e v where e: "hz_at s t = UPostSem e" "sofa_entry s e = Some v" by blast
    with st have "s' = s\<lparr>sofa_entry := (sofa_entry s)(e := Some (Suc v)), hz_at := (hz_at s)(t := UPrint e)\<rparr>" by (simp add: hz_defs)
    with e calls_post [of "sofa_entry s" e v N] show ?thesis by (simp add: sofa_balance_def h_sofa_def u_called_def)
  next
    case False
    then show ?thesis using st
      by (cases "hz_at s t") (auto simp: hz_defs sofa_balance_def h_sofa_def u_called_def split: if_splits option.splits list.splits)
  qed
  ultimately show ?thesis by blast
qed

lemma barber_balance:
  assumes st: "hz_barber t s = Some s'"
  shows "num_balance t s s' \<and> sofa_balance N t s s' \<and> chair_balance N t s s'"
proof -
  have "num_balance t s s'" using st
    by (cases "hz_at s t") (auto simp: hz_defs num_balance_def h_locked_def h_inside_def split: if_splits option.splits list.splits)
  moreover have "sofa_balance N t s s'" using st
    by (cases "hz_at s t") (auto simp: hz_defs sofa_balance_def h_sofa_def u_called_def split: if_splits option.splits list.splits)
  moreover have "chair_balance N t s s'"
  proof (cases "\<exists>e v. hz_at s t = XPostSem e \<and> chair_entry s e = Some v")
    case True
    then obtain e v where e: "hz_at s t = XPostSem e" "chair_entry s e = Some v" by blast
    with st have "s' = s\<lparr>chair_entry := (chair_entry s)(e := Some (Suc v)), hz_at := (hz_at s)(t := XPrint e)\<rparr>" by (simp add: hz_defs)
    with e calls_post [of "chair_entry s" e v N] show ?thesis by (simp add: chair_balance_def h_chair_def x_called_def)
  next
    case False
    then show ?thesis using st
      by (cases "hz_at s t") (auto simp: hz_defs chair_balance_def h_chair_def x_called_def split: if_splits option.splits list.splits)
  qed
  ultimately show ?thesis by blast
qed

lemma hz_balance:
  "hz_step cap n u t s = Some s' \<Longrightarrow> t < N \<Longrightarrow> num_balance t s s' \<and> sofa_balance N t s s' \<and> chair_balance N t s s'"
  using customer_num_balance customer_sofa_balance customer_chair_balance usher_balance barber_balance
  unfolding hz_step_def by (auto split: if_splits)

lemma hz_frame: "hz_step cap n u t s = Some s' \<Longrightarrow> hz_at s' = (hz_at s)(t := hz_at s' t)"
proof -
  assume st: "hz_step cap n u t s = Some s'"
  have "hz_customer cap t s = Some s' \<Longrightarrow> hz_at s' = (hz_at s)(t := hz_at s' t)"
    by (cases "hz_at s t") (auto simp: hz_defs split: if_splits option.splits)
  moreover have "hz_usher t s = Some s' \<Longrightarrow> hz_at s' = (hz_at s)(t := hz_at s' t)"
    by (cases "hz_at s t") (auto simp: hz_defs split: if_splits option.splits list.splits)
  moreover have "hz_barber t s = Some s' \<Longrightarrow> hz_at s' = (hz_at s)(t := hz_at s' t)"
    by (cases "hz_at s t") (auto simp: hz_defs split: if_splits option.splits list.splits)
  ultimately show ?thesis using st unfolding hz_step_def by argo
qed

lemma hz_num_le:
  "hz_step cap n u t s = Some s' \<Longrightarrow> customer_num s' \<le> customer_num s + int (is1 (hz_at s t = HInc)) \<and> (hz_at s' t = HInc \<longrightarrow> hz_at s t = HTest \<and> customer_num s \<noteq> cap \<and> customer_num s' = customer_num s)"
proof -
  assume st: "hz_step cap n u t s = Some s'"
  have "hz_customer cap t s = Some s' \<Longrightarrow> ?thesis"
    by (cases "hz_at s t") (auto simp: hz_defs split: if_splits option.splits)
  moreover have "hz_usher t s = Some s' \<Longrightarrow> ?thesis"
    by (cases "hz_at s t") (auto simp: hz_defs split: if_splits option.splits list.splits)
  moreover have "hz_barber t s = Some s' \<Longrightarrow> ?thesis"
    by (cases "hz_at s t") (auto simp: hz_defs split: if_splits option.splits list.splits)
  ultimately show ?thesis using st unfolding hz_step_def by argo
qed

lemma hz_counts_step:
  assumes inv: "hz_counts cap N s" and t: "t < N" and st: "hz_step cap n u t s = Some s'"
  shows "hz_counts cap N s'"
proof -
  note fr = hz_frame [OF st] and num = hz_num_le [OF st]
  have inc: "\<And>v. v < N \<Longrightarrow> hz_at s v = HInc \<Longrightarrow> customer_num s < cap" and le: "customer_num s \<le> cap" and one: "cnt N (hz_at s) h_locked \<le> 1"
    using inv by (auto simp: hz_counts_def Let_def)
  have cnt: "cnt N (hz_at s') P + is1 (P (hz_at s t)) = cnt N (hz_at s) P + is1 (P (hz_at s' t))" for P
    using cnt_upd [OF t, of "hz_at s" "hz_at s' t" P] fr by metis
  have le': "customer_num s' \<le> cap" using num inc [OF t] le by (cases "hz_at s t = HInc") auto
  have inc': "customer_num s' < cap" if v: "v < N" "hz_at s' v = HInc" for v
  proof (cases "v = t")
    case True
    with num v le show ?thesis by auto
  next
    case False
    then have vi: "hz_at s v = HInc" using fr v(2) by (metis fun_upd_other)
    then have "hz_at s t \<noteq> HInc" using cnt_two [of v N t h_locked "hz_at s"] False v(1) t one by (auto simp: h_locked_def)
    with num inc [OF v(1) vi] show ?thesis by auto
  qed
  note bal = hz_balance [OF st t, unfolded num_balance_def sofa_balance_def chair_balance_def]
  note cs = cnt [of h_locked] cnt [of h_inside] cnt [of h_sofa] cnt [of h_chair] cnt [of u_called] cnt [of x_called]
  show ?thesis
    using inv bal unfolding hz_counts_def Let_def
    by (elim conjE; intro conjI allI impI) (use le' inc' cs in \<open>linarith | blast\<close>)+
qed

text \<open>A thread stays in its function, so at most \<open>u\<close> ushers have called somebody.\<close>

definition hz_roles :: "nat \<Rightarrow> nat \<Rightarrow> hz_state \<Rightarrow> bool" where
  "hz_roles n u s \<longleftrightarrow> (\<forall>t. (u_called (hz_at s t) \<longrightarrow> n \<le> t \<and> t < n + u) \<and> (x_called (hz_at s t) \<longrightarrow> n + u \<le> t))"

lemma hz_roles_step:
  assumes "hz_roles n u s" "hz_step cap n u t s = Some s'"
  shows "hz_roles n u s'"
proof -
  have "hz_customer cap t s = Some s' \<Longrightarrow> \<not> u_called (hz_at s' t) \<and> \<not> x_called (hz_at s' t)"
    by (cases "hz_at s t") (auto simp: hz_defs u_called_def x_called_def split: if_splits option.splits)
  moreover have "hz_usher t s = Some s' \<Longrightarrow> \<not> x_called (hz_at s' t)"
    by (cases "hz_at s t") (auto simp: hz_defs x_called_def split: if_splits option.splits list.splits)
  moreover have "hz_barber t s = Some s' \<Longrightarrow> \<not> u_called (hz_at s' t)"
    by (cases "hz_at s t") (auto simp: hz_defs u_called_def split: if_splits option.splits list.splits)
  ultimately have own: "(u_called (hz_at s' t) \<longrightarrow> n \<le> t \<and> t < n + u) \<and> (x_called (hz_at s' t) \<longrightarrow> n + u \<le> t)"
    using assms(2) unfolding hz_step_def by (auto split: if_splits)
  have "hz_at s' v = hz_at s v" if "v \<noteq> t" for v using hz_frame [OF assms(2)] that by (metis fun_upd_other)
  with own assms(1) show ?thesis unfolding hz_roles_def by metis
qed

lemma cnt_range: "(\<And>t. t < N \<Longrightarrow> P (pc t) \<Longrightarrow> a \<le> t \<and> t < a + k) \<Longrightarrow> cnt N pc P \<le> (min N (a + k)) - a"
proof (induction N)
  case (Suc N)
  then have "cnt N pc P \<le> min N (a + k) - a" by simp
  moreover have "P (pc N) \<Longrightarrow> a \<le> N \<and> N < a + k" using Suc.prems [of N] by simp
  ultimately show ?case by (auto split: if_splits)
qed simp

definition hz_inv :: "int \<Rightarrow> nat \<Rightarrow> nat \<Rightarrow> nat \<Rightarrow> hz_state \<Rightarrow> bool" where
  "hz_inv cap n u b s \<longleftrightarrow> hz_counts cap (n + u + b) s \<and> hz_roles n u s"

interpretation hz: thread_system "hz_step (int cap) n u" "n + u + b" "hz_main n u" "hz_inv (int cap) n u b" for cap n u b
proof
  show "hz_inv (int cap) n u b (hz_main n u)"
    by (simp add: hz_inv_def hz_counts_init hz_roles_def) (simp add: hz_main_def u_called_def x_called_def)
  show "hz_inv (int cap) n u b s'" if "hz_inv (int cap) n u b s" "i < n + u + b" "hz_step (int cap) n u i s = Some s'" for s i s'
    using that by (auto simp: hz_inv_def intro: hz_counts_step hz_roles_step)
qed

section \<open>Properties\<close>

text \<open>C16:
  The capacities are kept: in every state that any number of customers, \<open>u\<close> ushers (one for each place on
  the sofa) and \<open>b\<close> barbers reach, at most \<open>max_capacity\<close> customers are in the shop, at most \<open>u\<close> on the sofa
  and at most \<open>b\<close> between being called to a chair and paying.
\<close>

theorem hilzer_capacities:
  assumes "reach (hz_step (int max_capacity) n u) (n + u + b) (hz_main n u) s"
  shows "cnt (n + u + b) (hz_at s) h_inside \<le> max_capacity \<and>
    cnt (n + u + b) (hz_at s) h_sofa \<le> u \<and> cnt (n + u + b) (hz_at s) h_chair \<le> b"
proof -
  have inv: "hz_counts (int max_capacity) (n + u + b) s" "hz_roles n u s" using hz.reach_inv [OF assms] by (auto simp: hz_inv_def)
  have "cnt (n + u + b) (hz_at s) u_called \<le> min (n + u + b) (n + u) - n" by (rule cnt_range) (use inv(2) in \<open>auto simp: hz_roles_def\<close>)
  moreover have "cnt (n + u + b) (hz_at s) x_called \<le> min (n + u + b) (n + u + b) - (n + u)" by (rule cnt_range) (use inv(2) in \<open>auto simp: hz_roles_def\<close>)
  ultimately show ?thesis using inv(1) by (auto simp: hz_counts_def Let_def)
qed

text \<open>Two customers, one place on the sofa, one barber: the second customer is in the queue for the sofa while
  the first one sits on it.\<close>

definition sofa_demo :: "tid list" where
  "sofa_demo = replicate 10 0 @ replicate 10 1 @ replicate 6 2 @ replicate 3 0"

theorem hilzer_capacities_witness:
  "\<exists>s. reach (hz_step 2 2 1) (2 + 1 + 1) (hz_main 2 1) s \<and> hz_at s 0 = HWaitChairq \<and> hz_at s 1 = HWaitSofa \<and> cnt 4 (hz_at s) h_sofa \<le> 1"
proof -
  have "case run_sched (hz_step 2 2 1) sofa_demo (hz_main 2 1) of None \<Rightarrow> False
    | Some s \<Rightarrow> hz_at s 0 = HWaitChairq \<and> hz_at s 1 = HWaitSofa" by code_simp
  then obtain s where s: "run_sched (hz_step 2 2 1) sofa_demo (hz_main 2 1) = Some s" "hz_at s 0 = HWaitChairq" "hz_at s 1 = HWaitSofa"
    by (rule run_sched_test) simp
  have r: "reach (hz_step 2 2 1) (2 + 1 + 1) (hz_main 2 1) s" by (rule run_sched_reach [OF s(1)]) (simp add: sofa_demo_def)
  with hilzer_capacities [of 2 2 1 1 s] s show ?thesis by auto
qed

text \<open>C17:
  The usher reads a freed entry: with one customer, one usher and one barber, after the usher has posted
  the customer's semaphore the customer can take its place and free the entry before the usher prints
  its index. The barber and the entry for the chair have the same race.
\<close>

theorem hilzer_use_after_free:
  "\<exists>is s. set is \<subseteq> {..<3} \<and> run_sched (hz_step 8 1 1) is (hz_main 1 1) = Some s \<and> hz_at s 1 = UCrash \<and> wait_sofaq s = []
     \<and> sofa_entry s 0 = None \<and> hz_at s 0 = HPrintSit"
proof -
  let ?is = "replicate 10 (0 :: nat) @ replicate 5 1 @ [0, 0, 1]"
  have "case run_sched (hz_step 8 1 1) ?is (hz_main 1 1) of None \<Rightarrow> False
    | Some s \<Rightarrow> hz_at s 1 = UCrash \<and> wait_sofaq s = [] \<and> sofa_entry s 0 = None \<and> hz_at s 0 = HPrintSit" by code_simp
  then obtain s where "run_sched (hz_step 8 1 1) ?is (hz_main 1 1) = Some s" "hz_at s 1 = UCrash" "wait_sofaq s = []" "sofa_entry s 0 = None" "hz_at s 0 = HPrintSit"
    by (rule run_sched_test) simp
  moreover have "set ?is \<subseteq> {..<3}" by simp
  ultimately show ?thesis by blast
qed

end
