(* ===== verification/Cigarette_Smokers.thy ===== *)
theory Cigarette_Smokers
  imports Semaphore
begin

text \<open>
  The cigarette smokers of \<^verbatim>\<open>31/cigarette_smokers.c\<close>: three agents, each of which puts two ingredients on the
  table, and three smokers, each of whom has the third one. Threads 0 to 2 are the agents, threads 3 to
  5 the smokers, by their type. The pushers run under \<open>lock\<close> and post at most one semaphore, as their
  last statement; each is one step.
\<close>

section \<open>The threads\<close>

datatype agent_pc = AWaitAgent | AWaitLock | APush1 | APush2 | APostLock | ADone

datatype smoker_pc = MWait | MPrint | MPostAgent | MDone

text \<open>\<open>served\<close> lists the agents in the order in which they got \<open>agent_sem\<close>, \<open>smoked\<close> the smokers in the order of
  their lines.\<close>

record cs_state =
  tobacco_sem :: nat
  paper_sem :: nat
  match_sem :: nat
  agent_sem :: nat
  cs_lock :: nat
  has_tobacco :: bool
  has_paper :: bool
  has_match :: bool
  agent_at :: "nat \<Rightarrow> agent_pc"
  smoker_at :: "nat \<Rightarrow> smoker_pc"
  served :: "nat list"
  smoked :: "nat list"

definition tobacco_pusher :: "cs_state \<Rightarrow> cs_state" where
  "tobacco_pusher s =
    (if has_paper s then s\<lparr>has_paper := False, match_sem := Sem_post (match_sem s)\<rparr>
     else if has_match s then s\<lparr>has_match := False, paper_sem := Sem_post (paper_sem s)\<rparr>
     else s\<lparr>has_tobacco := True\<rparr>)"

definition paper_pusher :: "cs_state \<Rightarrow> cs_state" where
  "paper_pusher s =
    (if has_match s then s\<lparr>has_match := False, tobacco_sem := Sem_post (tobacco_sem s)\<rparr>
     else if has_tobacco s then s\<lparr>has_tobacco := False, match_sem := Sem_post (match_sem s)\<rparr>
     else s\<lparr>has_paper := True\<rparr>)"

definition match_pusher :: "cs_state \<Rightarrow> cs_state" where
  "match_pusher s =
    (if has_paper s then s\<lparr>has_paper := False, tobacco_sem := Sem_post (tobacco_sem s)\<rparr>
     else if has_tobacco s then s\<lparr>has_tobacco := False, paper_sem := Sem_post (paper_sem s)\<rparr>
     else s\<lparr>has_match := True\<rparr>)"

definition agent_goto :: "nat \<Rightarrow> agent_pc \<Rightarrow> cs_state \<Rightarrow> cs_state" where
  "agent_goto t p s = s\<lparr>agent_at := (agent_at s)(t := p)\<rparr>"

definition smoker_goto :: "nat \<Rightarrow> smoker_pc \<Rightarrow> cs_state \<Rightarrow> cs_state" where
  "smoker_goto t p s = s\<lparr>smoker_at := (smoker_at s)(t := p)\<rparr>"

text \<open>The two calls in the \<open>switch\<close> of \<open>agent\<close>.\<close>

definition push1 :: "nat \<Rightarrow> cs_state \<Rightarrow> cs_state" where
  "push1 t s = (if t = 1 then paper_pusher s else tobacco_pusher s)"

definition push2 :: "nat \<Rightarrow> cs_state \<Rightarrow> cs_state" where
  "push2 t s = (if t = 0 then paper_pusher s else match_pusher s)"

definition agent :: "nat \<Rightarrow> cs_state \<Rightarrow> cs_state option" where
  "agent t s =
    (case agent_at s t of
       AWaitAgent \<Rightarrow> map_option (\<lambda>v. agent_goto t AWaitLock (s\<lparr>agent_sem := v, served := served s @ [t]\<rparr>)) (Sem_wait (agent_sem s))
     | AWaitLock \<Rightarrow> map_option (\<lambda>v. agent_goto t APush1 (s\<lparr>cs_lock := v\<rparr>)) (Sem_wait (cs_lock s))
     | APush1 \<Rightarrow> Some (agent_goto t APush2 (push1 t s))
     | APush2 \<Rightarrow> Some (agent_goto t APostLock (push2 t s))
     | APostLock \<Rightarrow> Some (agent_goto t ADone (s\<lparr>cs_lock := Sem_post (cs_lock s)\<rparr>))
     | ADone \<Rightarrow> None)"

text \<open>The semaphore of the smoker with ingredient \<open>j\<close>.\<close>

definition ingredient_sem :: "nat \<Rightarrow> cs_state \<Rightarrow> nat" where
  "ingredient_sem j s = (if j = 0 then tobacco_sem s else if j = 1 then paper_sem s else match_sem s)"

definition set_sem :: "nat \<Rightarrow> nat \<Rightarrow> cs_state \<Rightarrow> cs_state" where
  "set_sem j v s = (if j = 0 then s\<lparr>tobacco_sem := v\<rparr> else if j = 1 then s\<lparr>paper_sem := v\<rparr> else s\<lparr>match_sem := v\<rparr>)"

definition smoker :: "nat \<Rightarrow> cs_state \<Rightarrow> cs_state option" where
  "smoker j s =
    (case smoker_at s j of
       MWait \<Rightarrow> map_option (\<lambda>v. smoker_goto j MPrint (set_sem j v s)) (Sem_wait (ingredient_sem j s))
     | MPrint \<Rightarrow> Some (smoker_goto j MPostAgent (s\<lparr>smoked := smoked s @ [j]\<rparr>))
     | MPostAgent \<Rightarrow> Some (smoker_goto j MDone (s\<lparr>agent_sem := Sem_post (agent_sem s)\<rparr>))
     | MDone \<Rightarrow> None)"

definition cs_step :: "tid \<Rightarrow> cs_state \<Rightarrow> cs_state option" where
  "cs_step t s = (if t < 3 then agent t s else smoker (t - 3) s)"

definition cs_main :: cs_state where
  "cs_main = \<lparr>tobacco_sem = 0, paper_sem = 0, match_sem = 0, agent_sem = 1, cs_lock = 1, has_tobacco = False, has_paper = False,
     has_match = False, agent_at = (\<lambda>_. AWaitAgent), smoker_at = (\<lambda>_. MWait), served = [], smoked = []\<rparr>"

section \<open>The invariant\<close>

text \<open>The smoker whom agent \<open>t\<close> serves.\<close>

definition third :: "nat \<Rightarrow> nat" where
  "third t = (if t = 0 then 2 else if t = 1 then 0 else 1)"

definition ag_locked :: "agent_pc \<Rightarrow> bool" where
  "ag_locked p \<longleftrightarrow> p \<in> {APush1, APush2, APostLock}"

text \<open>Where the single token of \<open>agent_sem\<close> is: with an agent before its second push, or with a smoker.\<close>

definition a_token :: "agent_pc \<Rightarrow> bool" where
  "a_token p \<longleftrightarrow> p \<in> {AWaitLock, APush1, APush2}"

definition m_token :: "smoker_pc \<Rightarrow> bool" where
  "m_token p \<longleftrightarrow> p \<in> {MPrint, MPostAgent}"

definition a_pushed :: "agent_pc \<Rightarrow> bool" where
  "a_pushed p \<longleftrightarrow> p \<in> {APostLock, ADone}"

definition sems :: "cs_state \<Rightarrow> nat" where
  "sems s = tobacco_sem s + paper_sem s + match_sem s"

definition cs_token :: "cs_state \<Rightarrow> bool" where
  "cs_token s \<longleftrightarrow>
     agent_sem s + cnt 3 (agent_at s) a_token + cnt 3 (smoker_at s) m_token + sems s = 1 \<and>
     cs_lock s + cnt 3 (agent_at s) ag_locked = 1"

text \<open>The table is empty but between the two pushes of an agent.\<close>

definition cs_table :: "cs_state \<Rightarrow> bool" where
  "cs_table s \<longleftrightarrow>
     has_tobacco s = (agent_at s 0 = APush2 \<or> agent_at s 2 = APush2) \<and> has_paper s = (agent_at s 1 = APush2) \<and> \<not> has_match s"

definition cs_given :: "cs_state \<Rightarrow> bool" where
  "cs_given s \<longleftrightarrow> (\<forall>t < 3. ingredient_sem (third t) s + (if smoker_at s (third t) = MWait then 0 else 1) = (if a_pushed (agent_at s t) then 1 else 0))"

definition cs_order :: "cs_state \<Rightarrow> bool" where
  "cs_order s \<longleftrightarrow>
     (\<forall>t < 3. a_token (agent_at s t) \<longrightarrow> map third (served s) = smoked s @ [third t]) \<and>
     (\<forall>j < 3. 0 < ingredient_sem j s \<or> smoker_at s j = MPrint \<longrightarrow> map third (served s) = smoked s @ [j]) \<and>
     (0 < agent_sem s \<or> (\<exists>j < 3. smoker_at s j = MPostAgent) \<longrightarrow> map third (served s) = smoked s) \<and>
     distinct (served s) \<and> set (served s) = {t. t < 3 \<and> agent_at s t \<noteq> AWaitAgent}"

definition cs_inv :: "cs_state \<Rightarrow> bool" where
  "cs_inv s \<longleftrightarrow> cs_token s \<and> cs_table s \<and> cs_given s \<and> cs_order s"

lemmas a_sets = ag_locked_def a_token_def a_pushed_def m_token_def

lemma less_3: "(t :: nat) < 3 \<longleftrightarrow> t = 0 \<or> t = 1 \<or> t = 2"
  by auto

lemma all_less_3: "(\<And>j. j < 3 \<Longrightarrow> P j) \<Longrightarrow> P (0 :: nat) \<and> P 1 \<and> P 2"
  by simp

lemma third_simps [simp]: "t < 3 \<Longrightarrow> third t < 3" "t < 3 \<Longrightarrow> u < 3 \<Longrightarrow> third t = third u \<longleftrightarrow> t = u"
  by (auto simp: third_def less_3)

lemma third_onto: "j < 3 \<Longrightarrow> \<exists>t < 3. third t = j"
  by (rule exI [of _ "if j = 0 then 1 else if j = 1 then 2 else 0"]) (auto simp: third_def less_3)

lemma set_sem_same [simp]: "i < 3 \<Longrightarrow> j < 3 \<Longrightarrow> ingredient_sem i (set_sem j v s) = (if i = j then v else ingredient_sem i s)"
  unfolding less_3 by (elim disjE; simp add: set_sem_def ingredient_sem_def)

lemma set_sem_simps [simp]:
  "agent_sem (set_sem j v s) = agent_sem s" "cs_lock (set_sem j v s) = cs_lock s" "agent_at (set_sem j v s) = agent_at s"
  "smoker_at (set_sem j v s) = smoker_at s" "served (set_sem j v s) = served s" "smoked (set_sem j v s) = smoked s"
  "has_tobacco (set_sem j v s) = has_tobacco s" "has_paper (set_sem j v s) = has_paper s" "has_match (set_sem j v s) = has_match s"
  by (simp_all add: set_sem_def)

lemma sems_set: "j < 3 \<Longrightarrow> sems (set_sem j v s) + ingredient_sem j s = sems s + v"
  by (auto simp: set_sem_def ingredient_sem_def sems_def less_3)

lemma sem_le_sems: "ingredient_sem j s \<le> sems s"
  by (simp add: ingredient_sem_def sems_def)

lemma other_fields [simp]:
  "ingredient_sem j (s\<lparr>has_tobacco := a, has_paper := b\<rparr>) = ingredient_sem j s" "sems (s\<lparr>has_tobacco := a, has_paper := b\<rparr>) = sems s"
  "ingredient_sem j (s\<lparr>agent_sem := v\<rparr>) = ingredient_sem j s" "sems (s\<lparr>agent_sem := v\<rparr>) = sems s"
  "ingredient_sem j (s\<lparr>agent_sem := v, served := l\<rparr>) = ingredient_sem j s" "sems (s\<lparr>agent_sem := v, served := l\<rparr>) = sems s"
  "ingredient_sem j (s\<lparr>cs_lock := v\<rparr>) = ingredient_sem j s" "sems (s\<lparr>cs_lock := v\<rparr>) = sems s"
  "ingredient_sem j (s\<lparr>smoked := l\<rparr>) = ingredient_sem j s" "sems (s\<lparr>smoked := l\<rparr>) = sems s"
  "ingredient_sem j (s\<lparr>agent_at := f\<rparr>) = ingredient_sem j s" "sems (s\<lparr>agent_at := f\<rparr>) = sems s"
  "ingredient_sem j (s\<lparr>smoker_at := g\<rparr>) = ingredient_sem j s" "sems (s\<lparr>smoker_at := g\<rparr>) = sems s"
  by (simp_all add: ingredient_sem_def sems_def)

lemma cs_inv_init: "cs_inv cs_main"
  by (simp add: cs_inv_def cs_token_def cs_table_def cs_given_def cs_order_def cs_main_def a_sets sems_def ingredient_sem_def)

text \<open>At most one agent has \<open>lock\<close>, so the pushers of an agent find the table as it has left it.\<close>

lemma cs_exclusive: "cs_token s \<Longrightarrow> t < 3 \<Longrightarrow> u < 3 \<Longrightarrow> ag_locked (agent_at s t) \<Longrightarrow> ag_locked (agent_at s u) \<Longrightarrow> t = u"
  using cnt_two [of t 3 u ag_locked "agent_at s"] by (auto simp: cs_token_def)

lemma push1_eq:
  assumes "cs_token s" "cs_table s" "t < 3" "agent_at s t = APush1"
  shows "push1 t s = s\<lparr>has_tobacco := (t \<noteq> 1), has_paper := (t = 1)\<rparr> \<and> \<not> has_tobacco s \<and> \<not> has_paper s"
proof -
  have "agent_at s u \<noteq> APush2" if "u < 3" for u using cs_exclusive [OF assms(1,3) that] assms(4) by (auto simp: ag_locked_def)
  from this [of 0] this [of 1] this [of 2] assms(2) have "\<not> has_tobacco s" "\<not> has_paper s" "\<not> has_match s" by (auto simp: cs_table_def)
  with assms(3) show ?thesis by (auto simp: push1_def tobacco_pusher_def paper_pusher_def less_3)
qed

lemma push2_eq:
  assumes "cs_token s" "cs_table s" "t < 3" "agent_at s t = APush2"
  shows "push2 t s = set_sem (third t) (Suc (ingredient_sem (third t) s)) (s\<lparr>has_tobacco := False, has_paper := False\<rparr>)"
proof -
  have "agent_at s u \<noteq> APush2" if "u < 3" "u \<noteq> t" for u using cs_exclusive [OF assms(1,3) that(1)] that(2) assms(4) by (auto simp: ag_locked_def)
  from this [of 0] this [of 1] this [of 2] assms(2-4) show ?thesis
    by (auto simp: cs_table_def push2_def paper_pusher_def match_pusher_def set_sem_def ingredient_sem_def third_def sem_defs less_3)
qed

lemmas cs_defs = agent_def smoker_def agent_goto_def smoker_goto_def sem_defs

subsection \<open>The token\<close>

lemma agent_frame: "agent t s = Some s' \<Longrightarrow> smoker_at s' = smoker_at s \<and> smoked s' = smoked s \<and> agent_at s' = (agent_at s)(t := agent_at s' t)"
  by (cases "agent_at s t") (auto simp: cs_defs push1_def push2_def tobacco_pusher_def paper_pusher_def match_pusher_def split: if_splits)

lemma smoker_frame:
  "smoker j s = Some s' \<Longrightarrow> agent_at s' = agent_at s \<and> served s' = served s \<and> cs_lock s' = cs_lock s \<and> has_tobacco s' = has_tobacco s \<and>
     has_paper s' = has_paper s \<and> has_match s' = has_match s \<and> smoker_at s' = (smoker_at s)(j := smoker_at s' j)"
  by (cases "smoker_at s j") (auto simp: cs_defs split: if_splits)

lemma agent_token:
  assumes st: "agent t s = Some s'" and t: "t < 3" and tok: "cs_token s" and tab: "cs_table s"
  shows "cs_token s'"
proof -
  note fr = agent_frame [OF st]
  have one: "agent_sem s' + (if a_token (agent_at s' t) then 1 else 0) + sems s' = agent_sem s + (if a_token (agent_at s t) then 1 else 0) + sems s"
    using st t push1_eq [OF tok tab t] push2_eq [OF tok tab t] sems_set [of "third t" "Suc (ingredient_sem (third t) s)" s]
      sems_set [of "third t" "Suc (ingredient_sem (third t) s)" "s\<lparr>has_tobacco := False, has_paper := False\<rparr>"]
    by (cases "agent_at s t") (auto simp: cs_defs a_sets split: if_splits)
  have lock: "cs_lock s' + (if ag_locked (agent_at s' t) then 1 else 0) = cs_lock s + (if ag_locked (agent_at s t) then 1 else 0)"
    using st t push1_eq [OF tok tab t] push2_eq [OF tok tab t] by (cases "agent_at s t") (auto simp: cs_defs a_sets split: if_splits)
  have cnt: "cnt 3 (agent_at s') P + (if P (agent_at s t) then 1 else 0) = cnt 3 (agent_at s) P + (if P (agent_at s' t) then 1 else 0)" for P
    using cnt_upd [OF t, of "agent_at s" "agent_at s' t" P] fr by metis
  show ?thesis using tok one lock cnt [of a_token] cnt [of ag_locked] fr unfolding cs_token_def by simp
qed

lemma smoker_token:
  assumes st: "smoker j s = Some s'" and j: "j < 3" and tok: "cs_token s"
  shows "cs_token s'"
proof -
  note fr = smoker_frame [OF st]
  have one: "agent_sem s' + (if m_token (smoker_at s' j) then 1 else 0) + sems s' = agent_sem s + (if m_token (smoker_at s j) then 1 else 0) + sems s"
    using st j sems_set [OF j, of "ingredient_sem j s - 1" s] by (cases "smoker_at s j") (auto simp: cs_defs a_sets split: if_splits)
  have "cnt 3 (smoker_at s') m_token + (if m_token (smoker_at s j) then 1 else 0) = cnt 3 (smoker_at s) m_token + (if m_token (smoker_at s' j) then 1 else 0)"
    using cnt_upd [OF j, of "smoker_at s" "smoker_at s' j" m_token] fr by metis
  with tok one fr show ?thesis unfolding cs_token_def by simp
qed

subsection \<open>The table and the smokers\<close>

lemma agent_table:
  assumes st: "agent t s = Some s'" and t: "t < 3" and tok: "cs_token s" and tab: "cs_table s"
  shows "cs_table s'"
proof -
  note p1 = push1_eq [OF tok tab t] and p2 = push2_eq [OF tok tab t]
  have only: "agent_at s u \<noteq> APush2" if "u < 3" "u \<noteq> t" "agent_at s t = APush1 \<or> agent_at s t = APush2" for u
    using cs_exclusive [OF tok t that(1)] that by (auto simp: ag_locked_def)
  show ?thesis
  proof (cases "agent_at s t = APush1 \<or> agent_at s t = APush2")
    case True
    with only [of 0] only [of 1] only [of 2] st tab p1 p2 t show ?thesis
      by (elim disjE) (auto simp: cs_defs cs_table_def less_3)
  next
    case False
    with st tab t show ?thesis by (cases "agent_at s t") (auto simp: cs_defs cs_table_def less_3 split: if_splits)
  qed
qed

lemma smoker_table: "smoker j s = Some s' \<Longrightarrow> cs_table s \<Longrightarrow> cs_table s'"
  using smoker_frame [of j s s'] by (simp add: cs_table_def)

lemma agent_given:
  assumes st: "agent t s = Some s'" and t: "t < 3" and tok: "cs_token s" and tab: "cs_table s" and giv: "cs_given s"
  shows "cs_given s'"
  using st t giv push1_eq [OF tok tab t] push2_eq [OF tok tab t]
  by (cases "agent_at s t") (auto simp: cs_defs cs_given_def a_sets split: if_splits)

lemma smoker_given:
  assumes st: "smoker j s = Some s'" and j: "j < 3" and giv: "cs_given s"
  shows "cs_given s'"
  unfolding cs_given_def
proof (intro allI impI)
  fix t :: nat assume t: "t < 3"
  then have g: "ingredient_sem (third t) s + (if smoker_at s (third t) = MWait then 0 else 1) = (if a_pushed (agent_at s t) then 1 else 0)"
    using giv by (simp add: cs_given_def)
  have "ingredient_sem (third t) s' + (if smoker_at s' (third t) = MWait then 0 else 1) = ingredient_sem (third t) s + (if smoker_at s (third t) = MWait then 0 else 1)"
    using st j t by (cases "third t = j"; cases "smoker_at s j") (auto simp: cs_defs split: if_splits)
  with g smoker_frame [OF st]
  show "ingredient_sem (third t) s' + (if smoker_at s' (third t) = MWait then 0 else 1) = (if a_pushed (agent_at s' t) then 1 else 0)" by simp
qed

subsection \<open>The order\<close>

text \<open>The token is in one place only.\<close>

lemma cs_one:
  assumes "cs_token s"
  shows "t < 3 \<Longrightarrow> a_token (agent_at s t) \<Longrightarrow> agent_sem s = 0 \<and> sems s = 0 \<and> (\<forall>j < 3. \<not> m_token (smoker_at s j)) \<and> (\<forall>u < 3. u \<noteq> t \<longrightarrow> \<not> a_token (agent_at s u))"
    "j < 3 \<Longrightarrow> m_token (smoker_at s j) \<Longrightarrow> agent_sem s = 0 \<and> sems s = 0 \<and> (\<forall>i < 3. i \<noteq> j \<longrightarrow> \<not> m_token (smoker_at s i)) \<and> (\<forall>u < 3. \<not> a_token (agent_at s u))"
    "0 < agent_sem s \<Longrightarrow> agent_sem s = 1 \<and> sems s = 0 \<and> (\<forall>j < 3. \<not> m_token (smoker_at s j)) \<and> (\<forall>u < 3. \<not> a_token (agent_at s u))"
    "0 < sems s \<Longrightarrow> agent_sem s = 0 \<and> sems s = 1 \<and> (\<forall>j < 3. \<not> m_token (smoker_at s j)) \<and> (\<forall>u < 3. \<not> a_token (agent_at s u))"
proof -
  have sum: "agent_sem s + cnt 3 (agent_at s) a_token + cnt 3 (smoker_at s) m_token + sems s = 1" using assms by (simp add: cs_token_def)
  { assume t: "t < 3" "a_token (agent_at s t)"
    then have "0 < cnt 3 (agent_at s) a_token" by (rule cnt_pos)
    with sum have "agent_sem s = 0" "sems s = 0" "cnt 3 (smoker_at s) m_token = 0" "cnt 3 (agent_at s) a_token = 1" by auto
    then show "agent_sem s = 0 \<and> sems s = 0 \<and> (\<forall>j < 3. \<not> m_token (smoker_at s j)) \<and> (\<forall>u < 3. u \<noteq> t \<longrightarrow> \<not> a_token (agent_at s u))"
      using cnt_two [of _ 3 t a_token "agent_at s"] t by (fastforce simp: cnt_zero_iff) }
  { assume j: "j < 3" "m_token (smoker_at s j)"
    then have "0 < cnt 3 (smoker_at s) m_token" by (rule cnt_pos)
    with sum have "agent_sem s = 0" "sems s = 0" "cnt 3 (smoker_at s) m_token = 1" "cnt 3 (agent_at s) a_token = 0" by auto
    then show "agent_sem s = 0 \<and> sems s = 0 \<and> (\<forall>i < 3. i \<noteq> j \<longrightarrow> \<not> m_token (smoker_at s i)) \<and> (\<forall>u < 3. \<not> a_token (agent_at s u))"
      using cnt_two [of _ 3 j m_token "smoker_at s"] j by (fastforce simp: cnt_zero_iff) }
  { assume "0 < agent_sem s"
    with sum have "agent_sem s = 1" "sems s = 0" "cnt 3 (smoker_at s) m_token = 0" "cnt 3 (agent_at s) a_token = 0" by auto
    then show "agent_sem s = 1 \<and> sems s = 0 \<and> (\<forall>j < 3. \<not> m_token (smoker_at s j)) \<and> (\<forall>u < 3. \<not> a_token (agent_at s u))"
      by (auto simp: cnt_zero_iff) }
  { assume "0 < sems s"
    with sum have "agent_sem s = 0" "sems s = 1" "cnt 3 (smoker_at s) m_token = 0" "cnt 3 (agent_at s) a_token = 0" by auto
    then show "agent_sem s = 0 \<and> sems s = 1 \<and> (\<forall>j < 3. \<not> m_token (smoker_at s j)) \<and> (\<forall>u < 3. \<not> a_token (agent_at s u))"
      by (auto simp: cnt_zero_iff) }
qed

lemma cs_order_same:
  assumes "cs_order s" "agent_sem s' = agent_sem s" "smoker_at s' = smoker_at s" "served s' = served s" "smoked s' = smoked s"
    and "\<And>j. ingredient_sem j s' = ingredient_sem j s"
    and "\<And>u. u < 3 \<Longrightarrow> a_token (agent_at s' u) = a_token (agent_at s u) \<and> (agent_at s' u = AWaitAgent) = (agent_at s u = AWaitAgent)"
  shows "cs_order s'"
proof -
  have "{u. u < 3 \<and> agent_at s' u \<noteq> AWaitAgent} = {u. u < 3 \<and> agent_at s u \<noteq> AWaitAgent}" using assms(7) by auto
  with assms show ?thesis unfolding cs_order_def by simp
qed

lemma agent_order:
  assumes st: "agent t s = Some s'" and t: "t < 3" and inv: "cs_inv s"
  shows "cs_order s'"
proof -
  have tok: "cs_token s" and tab: "cs_table s" and ord: "cs_order s" using inv by (auto simp: cs_inv_def)
  note one = cs_one [OF tok] and p1 = push1_eq [OF tok tab t] and p2 = push2_eq [OF tok tab t]
  note sle = sem_le_sems [of _ s]
  show ?thesis
  proof (cases "agent_at s t")
    case AWaitAgent
    with st have s': "s' = s\<lparr>agent_sem := agent_sem s - 1, served := served s @ [t], agent_at := (agent_at s)(t := AWaitLock)\<rparr>" and pos: "0 < agent_sem s"
      by (auto simp: cs_defs split: if_splits)
    have z: "agent_sem s = 1" "\<forall>j. ingredient_sem j s = 0" "\<forall>j < 3. \<not> m_token (smoker_at s j)" "\<forall>u < 3. \<not> a_token (agent_at s u)"
      using one(3) [OF pos] sle by auto
    have m: "map third (served s) = smoked s" and d: "distinct (served s)" "set (served s) = {t. t < 3 \<and> agent_at s t \<noteq> AWaitAgent}"
      using ord pos by (auto simp: cs_order_def)
    have no: "smoker_at s j \<noteq> MPrint \<and> smoker_at s j \<noteq> MPostAgent" if "j < 3" for j using z(3) that by (auto simp: m_token_def)
    have ins: "insert t {u. u < 3 \<and> agent_at s u \<noteq> AWaitAgent} = {u. u < 3 \<and> ((agent_at s)(t := AWaitLock)) u \<noteq> AWaitAgent}" using t by auto
    have new: "t \<notin> set (served s)" using d(2) AWaitAgent by simp
    have "\<forall>u < 3. a_token (agent_at s' u) \<longrightarrow> map third (served s') = smoked s' @ [third u]" using z(4) m by (simp add: s')
    moreover have "\<forall>j < 3. 0 < ingredient_sem j s' \<or> smoker_at s' j = MPrint \<longrightarrow> map third (served s') = smoked s' @ [j]" using z(2) no by (simp add: s')
    moreover have "\<not> (0 < agent_sem s' \<or> (\<exists>j < 3. smoker_at s' j = MPostAgent))" using z(1) no by (simp add: s')
    moreover have "distinct (served s')" using d(1) new by (simp add: s')
    moreover have "set (served s') = {u. u < 3 \<and> agent_at s' u \<noteq> AWaitAgent}" using ins d(2) by (simp add: s')
    ultimately show ?thesis unfolding cs_order_def by blast
  next
    case APush2
    then have at: "a_token (agent_at s t)" by (simp add: a_token_def)
    have s': "s' = (set_sem (third t) (Suc (ingredient_sem (third t) s)) (s\<lparr>has_tobacco := False, has_paper := False\<rparr>))\<lparr>agent_at := (agent_at s)(t := APostLock)\<rparr>"
      using st APush2 p2 by (simp add: cs_defs)
    have z: "agent_sem s = 0" "\<forall>j. ingredient_sem j s = 0" "\<forall>j < 3. \<not> m_token (smoker_at s j)" "\<forall>u < 3. u \<noteq> t \<longrightarrow> \<not> a_token (agent_at s u)"
      using one(1) [OF t at] sle by auto
    have m: "map third (served s) = smoked s @ [third t]" using ord t at by (simp add: cs_order_def)
    have no: "smoker_at s j \<noteq> MPrint \<and> smoker_at s j \<noteq> MPostAgent" if "j < 3" for j using z(3) that by (auto simp: m_token_def)
    have "\<not> a_token APostLock" by (simp add: a_token_def)
    moreover have "{u. u < 3 \<and> ((agent_at s)(t := APostLock)) u \<noteq> AWaitAgent} = {u. u < 3 \<and> agent_at s u \<noteq> AWaitAgent}" using APush2 by auto
    moreover have "\<forall>j < 3. 0 < ingredient_sem j s' \<or> smoker_at s' j = MPrint \<longrightarrow> map third (served s') = smoked s' @ [j]" using z(2) no m t by (simp add: s')
    moreover have "\<not> (0 < agent_sem s' \<or> (\<exists>j < 3. smoker_at s' j = MPostAgent))" using z(1) no by (simp add: s')
    moreover have "distinct (served s') \<and> set (served s') = {u. u < 3 \<and> agent_at s u \<noteq> AWaitAgent}" using ord by (simp add: s' cs_order_def)
    moreover have "\<forall>u < 3. \<not> a_token (agent_at s' u)" using z(4) by (simp add: s' a_token_def)
    moreover have "agent_at s' = (agent_at s)(t := APostLock)" by (simp add: s')
    ultimately show ?thesis unfolding cs_order_def by metis
  next
    case APush1
    then have s': "s' = s\<lparr>has_tobacco := (t \<noteq> 1), has_paper := (t = 1), agent_at := (agent_at s)(t := APush2)\<rparr>" using st p1 by (simp add: cs_defs)
    show ?thesis by (rule cs_order_same [OF ord]) (auto simp: s' ingredient_sem_def APush1 a_token_def)
  next
    case AWaitLock
    then have s': "s' = s\<lparr>cs_lock := cs_lock s - 1, agent_at := (agent_at s)(t := APush1)\<rparr>" using st by (auto simp: cs_defs split: if_splits)
    show ?thesis by (rule cs_order_same [OF ord]) (auto simp: s' AWaitLock a_token_def)
  next
    case APostLock
    then have s': "s' = s\<lparr>cs_lock := Suc (cs_lock s), agent_at := (agent_at s)(t := ADone)\<rparr>" using st by (auto simp: cs_defs)
    show ?thesis by (rule cs_order_same [OF ord]) (auto simp: s' APostLock a_token_def)
  qed (use st in \<open>simp add: cs_defs\<close>)
qed

lemma smoker_order:
  assumes st: "smoker j s = Some s'" and j: "j < 3" and inv: "cs_inv s"
  shows "cs_order s'"
proof -
  have tok: "cs_token s" and ord: "cs_order s" using inv by (auto simp: cs_inv_def)
  note one = cs_one [OF tok]
  show ?thesis
  proof (cases "smoker_at s j")
    case MWait
    with st have s': "s' = (set_sem j (ingredient_sem j s - 1) s)\<lparr>smoker_at := (smoker_at s)(j := MPrint)\<rparr>" and pos: "0 < ingredient_sem j s"
      by (auto simp: cs_defs split: if_splits)
    have m: "map third (served s) = smoked s @ [j]" using ord pos j by (simp add: cs_order_def)
    have "0 < sems s" using pos sem_le_sems [of j s] by simp
    note z = one(4) [OF this]
    have sems: "tobacco_sem s + paper_sem s + match_sem s = 1" using z by (simp add: sems_def)
    have "ingredient_sem i s = (if i = j then 1 else 0)" if "i < 3" for i
      using sems pos that j by (auto simp: ingredient_sem_def less_3 split: if_splits)
    with s' z m ord j show ?thesis unfolding cs_order_def by (auto simp: m_token_def)
  next
    case MPrint
    then have mt: "m_token (smoker_at s j)" by (simp add: m_token_def)
    have s': "s' = s\<lparr>smoked := smoked s @ [j], smoker_at := (smoker_at s)(j := MPostAgent)\<rparr>" using st MPrint by (simp add: cs_defs)
    have "map third (served s) = smoked s @ [j]" using ord MPrint j by (simp add: cs_order_def)
    moreover have "ingredient_sem i s = 0" for i using one(2) [OF j mt] sem_le_sems [of i s] by simp
    ultimately show ?thesis using s' one(2) [OF j mt] ord unfolding cs_order_def by (auto simp: m_token_def)
  next
    case MPostAgent
    then have mt: "m_token (smoker_at s j)" by (simp add: m_token_def)
    have s': "s' = s\<lparr>agent_sem := Suc (agent_sem s), smoker_at := (smoker_at s)(j := MDone)\<rparr>" using st MPostAgent by (simp add: cs_defs)
    have "map third (served s) = smoked s" using ord MPostAgent j unfolding cs_order_def by blast
    moreover have "ingredient_sem i s = 0" for i using one(2) [OF j mt] sem_le_sems [of i s] by simp
    ultimately show ?thesis using s' one(2) [OF j mt] ord unfolding cs_order_def by (auto simp: m_token_def)
  qed (use st in \<open>simp add: cs_defs\<close>)
qed

lemma cs_inv_step:
  assumes inv: "cs_inv s" and t: "t < 6" and st: "cs_step t s = Some s'"
  shows "cs_inv s'"
proof -
  have tok: "cs_token s" and tab: "cs_table s" and giv: "cs_given s" using inv by (auto simp: cs_inv_def)
  show ?thesis
  proof (cases "t < 3")
    case True
    with st have a: "agent t s = Some s'" by (simp add: cs_step_def)
    show ?thesis
      using agent_token [OF a True tok tab] agent_table [OF a True tok tab] agent_given [OF a True tok tab giv] agent_order [OF a True inv]
      by (simp add: cs_inv_def)
  next
    case False
    with st t have m: "smoker (t - 3) s = Some s'" and j: "t - 3 < 3" by (auto simp: cs_step_def)
    show ?thesis
      using smoker_token [OF m j tok] smoker_table [OF m tab] smoker_given [OF m j giv] smoker_order [OF m j inv] by (simp add: cs_inv_def)
  qed
qed

section \<open>Progress\<close>

lemma cs_given_at:
  assumes "cs_given s" "j < 3"
  obtains t where "t < 3" "ingredient_sem j s + (if smoker_at s j = MWait then 0 else 1) = (if a_pushed (agent_at s t) then 1 else 0)"
proof -
  from third_onto [OF assms(2)] obtain t where "t < 3" "third t = j" by blast
  with assms(1) that show thesis unfolding cs_given_def by metis
qed

definition agent_rank :: "agent_pc \<Rightarrow> nat" where
  "agent_rank p = (case p of AWaitAgent \<Rightarrow> 5 | AWaitLock \<Rightarrow> 4 | APush1 \<Rightarrow> 3 | APush2 \<Rightarrow> 2 | APostLock \<Rightarrow> 1 | ADone \<Rightarrow> 0)"

definition smoker_rank :: "smoker_pc \<Rightarrow> nat" where
  "smoker_rank p = (case p of MWait \<Rightarrow> 3 | MPrint \<Rightarrow> 2 | MPostAgent \<Rightarrow> 1 | MDone \<Rightarrow> 0)"

definition cs_budget :: "cs_state \<Rightarrow> nat" where
  "cs_budget s = (\<Sum>t < 3. agent_rank (agent_at s t)) + (\<Sum>j < 3. smoker_rank (smoker_at s j))"

definition cs_finished :: "cs_state \<Rightarrow> bool" where
  "cs_finished s \<longleftrightarrow> (\<forall>t < 3. agent_at s t = ADone \<and> smoker_at s t = MDone)"

lemma cs_budget_step:
  assumes t: "t < 6" and st: "cs_step t s = Some s'"
  shows "cs_budget s' < cs_budget s"
proof (cases "t < 3")
  case True
  with st have a: "agent t s = Some s'" by (simp add: cs_step_def)
  have "(\<Sum>u < 3. agent_rank (agent_at s' u)) < (\<Sum>u < 3. agent_rank (agent_at s u))"
  proof (rule sum_one_less [OF True])
    show "agent_rank (agent_at s' t) < agent_rank (agent_at s t)"
      using a by (cases "agent_at s t") (auto simp: cs_defs agent_rank_def split: if_splits)
    show "agent_rank (agent_at s' u) = agent_rank (agent_at s u)" if "u \<noteq> t" for u
      using agent_frame [OF a] that by (metis fun_upd_other)
  qed
  with agent_frame [OF a] show ?thesis by (simp add: cs_budget_def)
next
  case False
  with st t have m: "smoker (t - 3) s = Some s'" and j: "t - 3 < 3" by (auto simp: cs_step_def)
  have "(\<Sum>u < 3. smoker_rank (smoker_at s' u)) < (\<Sum>u < 3. smoker_rank (smoker_at s u))"
  proof (rule sum_one_less [OF j])
    show "smoker_rank (smoker_at s' (t - 3)) < smoker_rank (smoker_at s (t - 3))"
      using m by (cases "smoker_at s (t - 3)") (auto simp: cs_defs smoker_rank_def split: if_splits)
    show "smoker_rank (smoker_at s' u) = smoker_rank (smoker_at s u)" if "u \<noteq> t - 3" for u
      using smoker_frame [OF m] that by (metis fun_upd_other)
  qed
  with smoker_frame [OF m] show ?thesis by (simp add: cs_budget_def)
qed

lemma cs_progress:
  assumes inv: "cs_inv s" and nf: "\<not> cs_finished s"
  shows "\<exists>t < 6. cs_step t s \<noteq> None"
proof (rule ccontr)
  assume "\<not> ?thesis"
  then have none: "cs_step t s = None" if "t < 6" for t using that by blast
  have ag: "agent t s = None" and sm: "smoker t s = None" if "t < 3" for t
    using none [of t] none [of "t + 3"] that by (simp_all add: cs_step_def)
  have tok: "cs_token s" and giv: "cs_given s" using inv by (auto simp: cs_inv_def)
  have a: "agent_at s t = AWaitAgent \<and> agent_sem s = 0 \<or> agent_at s t = AWaitLock \<and> cs_lock s = 0 \<or> agent_at s t = ADone" if "t < 3" for t
    using ag [OF that] by (cases "agent_at s t") (auto simp: cs_defs split: if_splits)
  have m: "smoker_at s j = MWait \<and> ingredient_sem j s = 0 \<or> smoker_at s j = MDone" if "j < 3" for j
    using sm [OF that] by (cases "smoker_at s j") (auto simp: cs_defs split: if_splits)
  have "cnt 3 (agent_at s) ag_locked = 0" unfolding cnt_zero_iff using a by (fastforce simp: ag_locked_def)
  then have "cs_lock s = 1" using tok by (simp add: cs_token_def)
  with a have a': "agent_at s t = AWaitAgent \<and> agent_sem s = 0 \<or> agent_at s t = ADone" if "t < 3" for t using that by fastforce
  have sem0: "ingredient_sem j s = 0" if j: "j < 3" for j
  proof -
    obtain t where "ingredient_sem j s + (if smoker_at s j = MWait then 0 else 1) = (if a_pushed (agent_at s t) then 1 else 0)"
      using cs_given_at [OF giv j] by blast
    with m [OF j] show ?thesis by (auto split: if_splits)
  qed
  have "sems s = 0" using sem0 [of 0] sem0 [of 1] sem0 [of 2] by (simp add: ingredient_sem_def sems_def)
  moreover have "cnt 3 (agent_at s) a_token = 0" "cnt 3 (smoker_at s) m_token = 0"
    unfolding cnt_zero_iff using a' m by (fastforce simp: a_token_def m_token_def)+
  ultimately have "agent_sem s = 1" using tok by (simp add: cs_token_def)
  with a' have ad: "agent_at s t = ADone" if "t < 3" for t using that by fastforce
  have "smoker_at s j = MDone" if j: "j < 3" for j
  proof -
    obtain t where "t < 3" "ingredient_sem j s + (if smoker_at s j = MWait then 0 else 1) = (if a_pushed (agent_at s t) then 1 else 0)"
      using cs_given_at [OF giv j] by blast
    with m [OF j] sem0 [OF j] ad [of t] show ?thesis by (auto simp: a_pushed_def)
  qed
  with ad nf show False by (simp add: cs_finished_def)
qed

interpretation cs: live_system cs_step 6 cs_main cs_inv cs_budget cs_finished
  by unfold_locales (auto intro: cs_inv_init cs_inv_step cs_budget_step cs_progress [unfolded not_None_eq])

section \<open>Property\<close>

text \<open>C15:
  However the agents and the smokers are interleaved: the smokers smoke in the order in which the agents
  were served, each agent's two ingredients going to the smoker who has the third; no run is longer than
  24 statements or ends in a deadlock; and at the end all three smokers have smoked once and the table is
  empty.
\<close>

theorem smokers_served_in_order:
  assumes "run_sched cs_step is cs_main = Some s" "\<forall>i \<in> set is. i < 6"
  shows "(map third (served s) = smoked s \<or> (\<exists>j. map third (served s) = smoked s @ [j])) \<and> length is \<le> 24 \<and>
    ((\<forall>i < 6. cs_step i s = None) \<longrightarrow> smoked s = map third (served s) \<and> distinct (smoked s) \<and> set (smoked s) = {0, 1, 2} \<and>
      \<not> has_tobacco s \<and> \<not> has_paper s \<and> \<not> has_match s)"
proof -
  have inv: "cs_inv s" using assms by (rule cs.run_inv)
  then have tok: "cs_token s" and ord: "cs_order s" and tab: "cs_table s" by (auto simp: cs_inv_def)
  have "0 < agent_sem s \<or> (\<exists>t < 3. a_token (agent_at s t)) \<or> (\<exists>j < 3. m_token (smoker_at s j)) \<or> (\<exists>j < 3. 0 < ingredient_sem j s)"
  proof (rule ccontr)
    assume "\<not> ?thesis"
    then have z: "agent_sem s = 0" "cnt 3 (agent_at s) a_token = 0" "cnt 3 (smoker_at s) m_token = 0" "\<forall>j < 3. ingredient_sem j s = 0"
      by (auto simp: cnt_zero_iff)
    have "sems s = 0" using z(4) [rule_format, of 0] z(4) [rule_format, of 1] z(4) [rule_format, of 2] by (simp add: ingredient_sem_def sems_def)
    with z tok show False by (simp add: cs_token_def)
  qed
  then have pre: "map third (served s) = smoked s \<or> (\<exists>j. map third (served s) = smoked s @ [j])"
    using ord unfolding cs_order_def m_token_def by blast
  have fin: "smoked s = map third (served s) \<and> distinct (smoked s) \<and> set (smoked s) = {0, 1, 2} \<and> \<not> has_tobacco s \<and> \<not> has_paper s \<and> \<not> has_match s"
    if f: "cs_finished s"
  proof -
    have ad: "agent_at s t = ADone" "smoker_at s t = MDone" if "t < 3" for t using f that by (auto simp: cs_finished_def)
    have no: "\<not> a_token (agent_at s t)" "\<not> m_token (smoker_at s t)" if "t < 3" for t using ad [OF that] by (auto simp: a_token_def m_token_def)
    have "ingredient_sem j s = 0" if j: "j < 3" for j
    proof -
      have giv: "cs_given s" using inv by (simp add: cs_inv_def)
      obtain t where "ingredient_sem j s + (if smoker_at s j = MWait then 0 else 1) = (if a_pushed (agent_at s t) then 1 else 0)"
        using cs_given_at [OF giv j] by blast
      then show ?thesis using ad(2) [OF j] by (simp split: if_splits)
    qed
    from all_less_3 [of "\<lambda>j. ingredient_sem j s = 0", OF this] have "sems s = 0" by (simp add: sems_def ingredient_sem_def)
    moreover have "cnt 3 (agent_at s) a_token = 0" "cnt 3 (smoker_at s) m_token = 0" using no by (auto simp: cnt_zero_iff)
    ultimately have "0 < agent_sem s" using tok by (simp add: cs_token_def)
    then have m: "map third (served s) = smoked s" using ord by (simp add: cs_order_def)
    have "{t. t < 3 \<and> agent_at s t \<noteq> AWaitAgent} = {t. t < 3}" using ad(1) by auto
    also have "\<dots> = {0, 1, 2}" unfolding less_3 by auto
    finally have sv: "distinct (served s)" "set (served s) = {0, 1, 2}" using ord unfolding cs_order_def by simp_all
    have inj: "inj_on third {0, 1, 2}" by (simp add: inj_on_def third_def)
    have "distinct (map third (served s))" "set (map third (served s)) = third ` {0, 1, 2}" using sv inj by (simp_all only: distinct_map set_map)
    then have "distinct (smoked s)" "set (smoked s) = third ` {0, 1, 2}" unfolding m .
    moreover have "third ` {0, 1, 2} = {0, 1, 2}" by (auto simp: third_def)
    ultimately show ?thesis using m tab ad [of 0] ad [of 1] ad [of 2] by (simp add: cs_table_def)
  qed
  have "length is \<le> 24 \<and> ((\<forall>i < 6. cs_step i s = None) \<longrightarrow> cs_finished s)"
    using cs.run_bounded [OF assms] by (simp add: cs_budget_def cs_main_def agent_rank_def smoker_rank_def)
  with pre fin show ?thesis by (intro conjI impI; blast)
qed

text \<open>The agents are served in the order 1, 0, 2.\<close>

definition smokers_demo :: "tid list" where
  "smokers_demo = [1, 1, 1, 1, 3, 1, 3, 3, 0, 0, 0, 0, 0, 5, 5, 5, 2, 2, 2, 2, 4, 2, 4, 4]"

theorem smokers_served_in_order_witness:
  "\<exists>s. run_sched cs_step smokers_demo cs_main = Some s \<and> served s = [1, 0, 2] \<and> smoked s = [0, 2, 1] \<and> smoked s = map third (served s)"
proof -
  have "case run_sched cs_step smokers_demo cs_main of None \<Rightarrow> False
    | Some s \<Rightarrow> served s = [1, 0, 2] \<and> smoked s = [0, 2, 1] \<and> list_all (\<lambda>i. Option.is_none (cs_step i s)) [0, 1, 2, 3, 4, 5]" by code_simp
  then obtain s where s: "run_sched cs_step smokers_demo cs_main = Some s" "served s = [1, 0, 2]" "smoked s = [0, 2, 1]"
    and stuck: "list_all (\<lambda>i. Option.is_none (cs_step i s)) [0, 1, 2, 3, 4, 5]"
    by (rule run_sched_test) simp
  from stuck have "\<forall>i < 6. cs_step i s = None" by (simp add: eval_nat_numeral All_less_Suc Option.is_none_def)
  with smokers_served_in_order [OF s(1)] have "smoked s = map third (served s)" by (simp add: smokers_demo_def)
  with s show ?thesis by blast
qed

end
