(* ===== verification/Select_Server.thy ===== *)
theory Select_Server
  imports Prelude
begin

text \<open>
  The file server of \<^verbatim>\<open>33/server_select.c\<close>, as it is compiled (with \<open>SIGNAL_CLEAR_FILE_CACHE\<close>, without
  \<open>USE_AIO\<close>): it reads a file name from a connection, looks into a cache of ten files, and sends the
  contents. A char array is a string with its zero bytes, a C string the part before the first of them.
  The signal that clears the cache may arrive between requests and between the statements of the handler, since it
  is never blocked; \<open>send\<close> and \<open>close\<close> succeed (their results are
  asserted), and the files do not change while the server runs.
\<close>

section \<open>The cache\<close>

definition NUL :: char where
  "NUL = CHR 0x00"

definition CACHE_NUM :: nat where "CACHE_NUM = 10"

definition NAME_SIZE :: nat where "NAME_SIZE = 20"

definition MAXMSG :: nat where "MAXMSG = 512"

record file_map =
  cache_content :: string
  file_name :: string

record cache =
  file_cache :: "file_map list"
  file_cache_tail :: nat

definition reset_cache :: cache where
  "reset_cache = \<lparr>file_cache = replicate CACHE_NUM \<lparr>cache_content = [], file_name = []\<rparr>, file_cache_tail = 0\<rparr>"

text \<open>The file names that are refused; the array has ten places. The loop over it begins at 1.\<close>

definition forbidden_files :: "string option list" where
  "forbidden_files = [Some ''test1.txt'', Some ''not_me.txt''] @ replicate 8 None"

definition is_forbidden :: "string \<Rightarrow> bool" where
  "is_forbidden buffer = list_ex (\<lambda>i. forbidden_files ! i = Some buffer) [1..<10]"

text \<open>Where \<open>SIGUSR1\<close> can arrive in \<open>read_from_client\<close>: before entry \<open>i\<close> of the cache is looked at, between the comparison
  that hits and the \<open>send\<close>, before the name is copied, before the contents are, and before the test of the tail.
  The handler runs as a whole.\<close>

datatype sig_point = SigSearch nat | SigHit | SigName | SigContent | SigTail

definition sig_at :: "sig_point list \<Rightarrow> sig_point \<Rightarrow> cache \<Rightarrow> cache" where
  "sig_at sigs p c = (if p \<in> set sigs then reset_cache else c)"

text \<open>The loop over the cache stops at the first entry without a name.\<close>

function cache_find :: "sig_point list \<Rightarrow> string \<Rightarrow> nat \<Rightarrow> cache \<Rightarrow> nat option \<times> cache" where
  "cache_find sigs buffer i c =
    (if i < CACHE_NUM then
       let c1 = sig_at sigs (SigSearch i) c; e = file_cache c1 ! i in
       if file_name e = [] then (None, c1)
       else if file_name e = buffer then (Some i, c1)
       else cache_find sigs buffer (i + 1) c1
     else (None, c))"
  by pat_completeness auto
termination
  by (relation "measure (\<lambda>(sigs, buffer, i, c). CACHE_NUM - i)") auto

declare cache_find.simps [simp del]

text \<open>The name is copied before the file is read, the contents afterwards.\<close>

definition put_name :: "string \<Rightarrow> cache \<Rightarrow> cache" where
  "put_name buffer c = c\<lparr>file_cache := (file_cache c)[file_cache_tail c := (file_cache c ! file_cache_tail c)\<lparr>file_name := buffer\<rparr>]\<rparr>"

definition put_content :: "string \<Rightarrow> cache \<Rightarrow> cache" where
  "put_content str c =
     c\<lparr>file_cache := (file_cache c)[file_cache_tail c := (file_cache c ! file_cache_tail c)\<lparr>cache_content := str\<rparr>],
       file_cache_tail := file_cache_tail c + 1\<rparr>"

definition wrap_tail :: "cache \<Rightarrow> cache" where
  "wrap_tail c = (if file_cache_tail c = CACHE_NUM then c\<lparr>file_cache_tail := 0\<rparr> else c)"

section \<open>A request\<close>

text \<open>How the server ends: \<open>exit\<close>, or an access behind an array.\<close>

datatype server_end = ServerExit | ServerOverrun

text \<open>What a name stands for: nothing, something that can be opened and not be read (a directory), a file.\<close>

datatype dir_entry = Missing | Unreadable | Regular string

text \<open>An array of \<open>MAXMSG\<close> zero bytes that has been read into, as a string; without a zero byte the string
  functions read on behind the array.\<close>

definition array_string :: "string \<Rightarrow> server_end + string" where
  "array_string bs =
    (let arr = take MAXMSG bs @ replicate (MAXMSG - length bs) NUL in
     if NUL \<in> set arr then Inr (takeWhile (\<lambda>c. c \<noteq> NUL) arr) else Inl ServerOverrun)"

text \<open>\<open>read_from_client\<close>: \<open>input\<close> is what \<open>read\<close> returns (\<open>None\<close>: an error), \<open>sigs\<close> the signals during the call; the result is
  the value returned, what is sent, and the cache.\<close>

definition read_from_client ::
  "(string \<Rightarrow> dir_entry) \<Rightarrow> sig_point list \<Rightarrow> string option \<Rightarrow> cache \<Rightarrow> server_end + (int \<times> string option \<times> cache)" where
  "read_from_client files sigs input c =
    (case input of
       None \<Rightarrow> Inl ServerExit
     | Some data \<Rightarrow>
        if data = [] then Inr (-1, None, c)
        else case array_string data of
          Inl err \<Rightarrow> Inl err
        | Inr buffer \<Rightarrow>
           if is_forbidden buffer then Inr (-1, None, c)
           else case cache_find sigs buffer 0 c of
             (Some i, c1) \<Rightarrow> let c2 = sig_at sigs SigHit c1 in Inr (0, Some (cache_content (file_cache c2 ! i)), c2)
           | (None, c1) \<Rightarrow>
              (case files buffer of
                 Missing \<Rightarrow> Inr (-1, None, c1)
               | Unreadable \<Rightarrow>
                   if length buffer < NAME_SIZE then
                     Inr (-1, None, sig_at sigs SigContent (put_name buffer (sig_at sigs SigName c1)))
                   else Inl ServerOverrun
               | Regular bs \<Rightarrow>
                   if length buffer < NAME_SIZE then
                     case array_string bs of
                       Inl err \<Rightarrow> Inl err
                     | Inr str \<Rightarrow>
                        let c2 = sig_at sigs SigContent (put_name buffer (sig_at sigs SigName c1)) in
                        Inr (0, Some str, wrap_tail (sig_at sigs SigTail (put_content str c2)))
                   else Inl ServerOverrun))"

section \<open>The server\<close>

text \<open>The sockets that are watched, and the cache.\<close>

record server =
  active_fds :: "nat list"
  the_cache :: cache

text \<open>What happens on a ready descriptor: on the listening socket \<open>accept\<close> returns (\<open>None\<close>: an error), on a
  connection data arrives, and signals during its handling.\<close>

datatype event = Accepted "nat option" | Arrived "string option" "sig_point list"

text \<open>The body of the loop over the descriptors; the reply of a connection is listed with its descriptor.\<close>

definition serve_fd :: "(string \<Rightarrow> dir_entry) \<Rightarrow> nat \<times> event \<Rightarrow> server \<Rightarrow> server_end + ((nat \<times> string) list \<times> server)" where
  "serve_fd files r srv =
    (case r of
       (fd, Accepted None) \<Rightarrow> Inl ServerExit
     | (fd, Accepted (Some new)) \<Rightarrow> Inr ([], srv\<lparr>active_fds := new # active_fds srv\<rparr>)
     | (fd, Arrived input sigs) \<Rightarrow>
        (case read_from_client files sigs input (the_cache srv) of
           Inl err \<Rightarrow> Inl err
         | Inr (rc, sent, c) \<Rightarrow>
            Inr (case sent of None \<Rightarrow> [] | Some str \<Rightarrow> [(fd, str)],
                 srv\<lparr>the_cache := c, active_fds := (if rc < 0 then filter (\<lambda>x. x \<noteq> fd) (active_fds srv) else active_fds srv)\<rparr>)))"

text \<open>The endless loop, over the ready descriptors that successive calls of \<open>pselect\<close> report; \<open>None\<close> is the signal
  while the server waits.\<close>

fun server_run :: "(string \<Rightarrow> dir_entry) \<Rightarrow> (nat \<times> event) option list \<Rightarrow> server \<Rightarrow> server_end + ((nat \<times> string) list \<times> server)" where
  "server_run files [] srv = Inr ([], srv)"
| "server_run files (None # rs) srv = server_run files rs (srv\<lparr>the_cache := reset_cache\<rparr>)"
| "server_run files (Some r # rs) srv =
    (case serve_fd files r srv of
       Inl err \<Rightarrow> Inl err
     | Inr (out, srv1) \<Rightarrow>
        (case server_run files rs srv1 of Inl err \<Rightarrow> Inl err | Inr (outs, srv2) \<Rightarrow> Inr (out @ outs, srv2)))"

definition server_main :: "nat \<Rightarrow> server" where
  "server_main sock = \<lparr>active_fds = [sock], the_cache = reset_cache\<rparr>"

section \<open>The cache is transparent\<close>

text \<open>The server without a cache.\<close>

definition plain_reply :: "(string \<Rightarrow> dir_entry) \<Rightarrow> nat \<times> event \<Rightarrow> (nat \<times> string) list" where
  "plain_reply files r =
    (case r of
       (fd, Arrived (Some name) sigs) \<Rightarrow>
         (if is_forbidden name then [] else case files name of Regular bs \<Rightarrow> [(fd, bs)] | _ \<Rightarrow> [])
     | _ \<Rightarrow> [])"

text \<open>Names that fit into an entry, files that fit into the buffer, no signal between a hit and its \<open>send\<close>.\<close>

definition name_fits :: "string \<Rightarrow> bool" where
  "name_fits name \<longleftrightarrow> NUL \<notin> set name \<and> length name < NAME_SIZE"

definition file_fits :: "dir_entry \<Rightarrow> bool" where
  "file_fits f = (case f of Missing \<Rightarrow> True | Unreadable \<Rightarrow> False | Regular bs \<Rightarrow> NUL \<notin> set bs \<and> length bs < MAXMSG)"

definition request_fits :: "(string \<Rightarrow> dir_entry) \<Rightarrow> (nat \<times> event) option \<Rightarrow> bool" where
  "request_fits files r =
    (case r of
       Some (fd, Arrived (Some name) sigs) \<Rightarrow>
         name_fits name \<and> (name = [] \<longrightarrow> files name = Missing) \<and> file_fits (files name) \<and> SigHit \<notin> set sigs
     | Some (fd, Arrived None sigs) \<Rightarrow> False
     | Some (fd, Accepted new) \<Rightarrow> new \<noteq> None
     | None \<Rightarrow> True)"

definition cache_ok :: "(string \<Rightarrow> dir_entry) \<Rightarrow> cache \<Rightarrow> bool" where
  "cache_ok files c \<longleftrightarrow> length (file_cache c) = CACHE_NUM \<and> file_cache_tail c < CACHE_NUM \<and>
     (\<forall>e \<in> set (file_cache c). file_name e \<noteq> [] \<longrightarrow> files (file_name e) = Regular (cache_content e))"

lemma cache_ok_reset: "cache_ok files reset_cache"
  by (simp add: cache_ok_def reset_cache_def CACHE_NUM_def)

lemma cache_ok_sig: "cache_ok files c \<Longrightarrow> cache_ok files (sig_at sigs p c)"
  by (simp add: sig_at_def cache_ok_reset)

lemma cache_find_ok:
  "cache_find sigs b i c = (r, c') \<Longrightarrow> cache_ok files c \<Longrightarrow>
   cache_ok files c' \<and> (\<forall>j. r = Some j \<longrightarrow> j < CACHE_NUM \<and> file_name (file_cache c' ! j) = b \<and> b \<noteq> [])"
proof (induction sigs b i c rule: cache_find.induct)
  case (1 sigs b i c)
  let ?c = "sig_at sigs (SigSearch i) c"
  have ok: "cache_ok files ?c" using 1(3) by (rule cache_ok_sig)
  show ?case
  proof (cases "i < CACHE_NUM \<and> file_name (file_cache ?c ! i) \<noteq> [] \<and> file_name (file_cache ?c ! i) \<noteq> b")
    case True
    then have "cache_find sigs b (i + 1) ?c = (r, c')" using 1(2) by (simp add: cache_find.simps [of sigs b i] Let_def)
    with 1(1) [OF _ refl refl] True ok show ?thesis by blast
  next
    case False
    with 1(2,3) ok show ?thesis by (auto simp: cache_find.simps [of sigs b i] Let_def split: if_splits)
  qed
qed

lemma array_string_fits: "NUL \<notin> set bs \<Longrightarrow> length bs < MAXMSG \<Longrightarrow> array_string bs = Inr bs"
proof -
  assume b: "NUL \<notin> set bs" "length bs < MAXMSG"
  then have "takeWhile (\<lambda>c. c \<noteq> NUL) (bs @ replicate (MAXMSG - length bs) NUL) = bs"
    by (subst takeWhile_append2) auto
  with b show ?thesis by (simp add: array_string_def)
qed

lemma array_string_name: "name_fits name \<Longrightarrow> array_string name = Inr name"
  by (intro array_string_fits) (auto simp: name_fits_def NAME_SIZE_def MAXMSG_def)

text \<open>A file is entered; when a signal comes between its name and its contents, the contents stay without a name.\<close>

lemma cache_ok_put:
  assumes "cache_ok files c" "files b = Regular str"
  shows "cache_ok files (wrap_tail (sig_at sigs SigTail (put_content str (sig_at sigs SigContent (put_name b c)))))"
proof -
  have wrap: "cache_ok files (wrap_tail d)"
    if "length (file_cache d) = CACHE_NUM" "file_cache_tail d \<le> CACHE_NUM"
      "\<forall>e \<in> set (file_cache d). file_name e \<noteq> [] \<longrightarrow> files (file_name e) = Regular (cache_content e)" for d
    using that by (auto simp: cache_ok_def wrap_tail_def CACHE_NUM_def)
  have sig: "cache_ok files (wrap_tail (sig_at sigs SigTail d))"
    if "length (file_cache d) = CACHE_NUM" "file_cache_tail d \<le> CACHE_NUM"
      "\<forall>e \<in> set (file_cache d). file_name e \<noteq> [] \<longrightarrow> files (file_name e) = Regular (cache_content e)" for d
    using wrap [OF that] wrap [of reset_cache] by (auto simp: sig_at_def reset_cache_def CACHE_NUM_def)
  show ?thesis
  proof (cases "SigContent \<in> set sigs")
    case True
    have "file_cache (put_content str reset_cache) = \<lparr>cache_content = str, file_name = []\<rparr> # replicate 9 \<lparr>cache_content = [], file_name = []\<rparr>"
      by (simp add: put_content_def reset_cache_def CACHE_NUM_def numeral_eq_Suc)
    then show ?thesis using True
      by (intro sig) (auto simp: sig_at_def put_content_def reset_cache_def CACHE_NUM_def)
  next
    case False
    let ?i = "file_cache_tail c"
    have i: "?i < length (file_cache c)" using assms(1) by (simp add: cache_ok_def)
    then have eq: "file_cache (put_content str (put_name b c)) = (file_cache c)[?i := (file_cache c ! ?i)\<lparr>file_name := b, cache_content := str\<rparr>]"
      by (simp add: put_content_def put_name_def)
    have "set ((file_cache c)[?i := (file_cache c ! ?i)\<lparr>file_name := b, cache_content := str\<rparr>]) \<subseteq>
        insert ((file_cache c ! ?i)\<lparr>file_name := b, cache_content := str\<rparr>) (set (file_cache c))"
      by (rule set_update_subset_insert)
    then have "\<forall>e \<in> set (file_cache (put_content str (put_name b c))). file_name e \<noteq> [] \<longrightarrow> files (file_name e) = Regular (cache_content e)"
      using assms unfolding eq by (auto simp: cache_ok_def dest!: subsetD)
    with False i assms(1) show ?thesis
      by (intro sig) (auto simp: sig_at_def cache_ok_def put_content_def put_name_def)
  qed
qed

lemma read_from_client_fits:
  assumes "cache_ok files c" "name_fits name" "name = [] \<longrightarrow> files name = Missing" "file_fits (files name)" "SigHit \<notin> set sigs"
  shows "\<exists>rc c'. read_from_client files sigs (Some name) c =
      Inr (rc, if is_forbidden name then None else case files name of Regular bs \<Rightarrow> Some bs | _ \<Rightarrow> None, c') \<and> cache_ok files c'"
proof (cases "name = []")
  case True
  with assms show ?thesis by (simp add: read_from_client_def)
next
  case False
  note arr = array_string_name [OF assms(2)]
  obtain r c1 where find: "cache_find sigs name 0 c = (r, c1)" by fastforce
  note ok = cache_find_ok [OF find assms(1)]
  show ?thesis
  proof (cases r)
    case (Some i)
    with ok have "file_cache c1 ! i \<in> set (file_cache c1)" "file_name (file_cache c1 ! i) = name" "cache_ok files c1"
      by (auto simp: cache_ok_def)
    then have "files name = Regular (cache_content (file_cache c1 ! i))" using False by (auto simp: cache_ok_def)
    with Some False arr find ok assms(1,5) show ?thesis by (auto simp: read_from_client_def sig_at_def)
  next
    case None
    show ?thesis
    proof (cases "files name")
      case (Regular bs)
      then have "array_string bs = Inr bs" using assms(4) by (simp add: file_fits_def array_string_fits)
      moreover have "cache_ok files (sig_at sigs SigName c1)" using ok by (simp add: cache_ok_sig)
      note cache_ok_put [OF this Regular, of sigs]
      ultimately show ?thesis using None False arr Regular find assms(1,2)
        by (auto simp: read_from_client_def name_fits_def Let_def)
    next
      case Missing
      with None False arr find ok assms(1) show ?thesis by (auto simp: read_from_client_def)
    next
      case Unreadable
      with assms(4) show ?thesis by (simp add: file_fits_def)
    qed
  qed
qed

lemma serve_fd_fits:
  assumes "cache_ok files (the_cache srv)" "request_fits files (Some r)"
  obtains srv' where "serve_fd files r srv = Inr (plain_reply files r, srv')" "cache_ok files (the_cache srv')"
proof (cases r)
  case (Pair fd ev)
  show thesis
  proof (cases ev)
    case (Accepted new)
    with Pair assms that show thesis
      by (auto simp: serve_fd_def request_fits_def plain_reply_def split: option.splits)
  next
    case (Arrived input sigs)
    with Pair assms(2) obtain name where n: "input = Some name"
        "name_fits name" "name = [] \<longrightarrow> files name = Missing" "file_fits (files name)" "SigHit \<notin> set sigs"
      by (auto simp: request_fits_def split: option.splits)
    from read_from_client_fits [OF assms(1) n(2-5)] obtain rc c' where rc: "read_from_client files sigs (Some name) (the_cache srv) =
        Inr (rc, if is_forbidden name then None else case files name of Regular bs \<Rightarrow> Some bs | _ \<Rightarrow> None, c')"
      and ok: "cache_ok files c'" by blast
    let ?srv = "srv\<lparr>the_cache := c', active_fds := (if rc < 0 then filter (\<lambda>x. x \<noteq> fd) (active_fds srv) else active_fds srv)\<rparr>"
    have "serve_fd files r srv = Inr (plain_reply files r, ?srv)"
      using Pair Arrived n(1) rc by (simp add: serve_fd_def plain_reply_def split: dir_entry.split)
    with ok show thesis by (intro that [of ?srv]) simp_all
  qed
qed

lemma server_run_fits:
  "cache_ok files (the_cache srv) \<Longrightarrow> list_all (request_fits files) rs \<Longrightarrow>
     \<exists>srv'. server_run files rs srv = Inr (concat (map (plain_reply files) (List.map_filter (\<lambda>r. r) rs)), srv')"
proof (induction rs arbitrary: srv)
  case Nil
  then show ?case by (simp add: List.map_filter_def)
next
  case (Cons r rs)
  show ?case
  proof (cases r)
    case None
    with Cons show ?thesis by (simp add: cache_ok_reset map_filter_simps)
  next
    case (Some e)
    obtain srv' where "serve_fd files e srv = Inr (plain_reply files e, srv')" "cache_ok files (the_cache srv')"
      using serve_fd_fits [of files srv e] Cons.prems Some by auto
    moreover from this(2) obtain srv2 where
        "server_run files rs srv' = Inr (concat (map (plain_reply files) (List.map_filter (\<lambda>r. r) rs)), srv2)"
      using Cons.IH [of srv'] Cons.prems by auto
    ultimately show ?thesis using Some by (simp add: map_filter_simps)
  qed
qed


definition two_files :: "string \<Rightarrow> dir_entry" where
  "two_files name = (if name = ''test1.txt'' then Regular ''one'' else if name = ''test2.txt'' then Regular ''two''
     else if name = ''.'' then Unreadable else Missing)"

definition demo_requests :: "(nat \<times> event) option list" where
  "demo_requests =
     [Some (3, Accepted (Some 4)), Some (4, Arrived (Some ''test2.txt'') []), Some (4, Arrived (Some ''test2.txt'') [SigSearch 0]), None,
      Some (4, Arrived (Some ''test1.txt'') [SigContent]), Some (4, Arrived (Some ''not_me.txt'') [])]"


section \<open>Wrong replies\<close>

text \<open>A signal between a hit and its \<open>send\<close>: the client is sent the cleared entry.\<close>

lemma select_signal_empty_reply:
  assumes "cache_find sigs b 0 c = (Some i, c1)" "name_fits b" "b \<noteq> []" "\<not> is_forbidden b" "SigHit \<in> set sigs" "i < CACHE_NUM"
  shows "read_from_client files sigs (Some b) c = Inr (0, Some [], reset_cache)"
  using assms array_string_name [OF assms(2)]
  by (simp add: read_from_client_def sig_at_def reset_cache_def)

text \<open>The entries before the tail are named when the cache fills up and after it has been filled.\<close>

definition filled_to_tail :: "cache \<Rightarrow> bool" where
  "filled_to_tail c \<longleftrightarrow> length (file_cache c) = CACHE_NUM \<and> file_cache_tail c < CACHE_NUM \<and>
     (\<forall>e \<in> set (take (file_cache_tail c) (file_cache c)). file_name e \<noteq> [])"

lemma cache_find_at:
  assumes "t < CACHE_NUM" "file_name (file_cache c ! t) = b" "b \<noteq> []"
  shows "i \<le> t \<Longrightarrow> (\<And>j. i \<le> j \<Longrightarrow> j < t \<Longrightarrow> file_name (file_cache c ! j) \<noteq> [] \<and> file_name (file_cache c ! j) \<noteq> b) \<Longrightarrow>
    cache_find [] b i c = (Some t, c)"
proof (induction "t - i" arbitrary: i)
  case 0
  then have "i = t" by simp
  with assms show ?case by (subst cache_find.simps) (simp add: sig_at_def)
next
  case (Suc d)
  then have "i < t" by simp
  with Suc.hyps(1) [of "Suc i"] Suc.hyps(2) Suc.prems(2) [of i] Suc.prems(2) assms(1) show ?case
    by (subst cache_find.simps) (simp add: sig_at_def)
qed

lemma cache_find_absent: "\<forall>j < CACHE_NUM. file_name (file_cache c ! j) \<noteq> b \<Longrightarrow> cache_find [] b i c = (None, c)"
proof (induction "CACHE_NUM - i" arbitrary: i)
  case 0
  then show ?case by (subst cache_find.simps) simp
next
  case (Suc d)
  then show ?case by (subst cache_find.simps) (simp add: sig_at_def Let_def)
qed

lemma cache_find_put_name:
  assumes "filled_to_tail c" "b \<noteq> []" "\<forall>e \<in> set (file_cache c). file_name e \<noteq> b"
  shows "cache_find [] b 0 (put_name b c) = (Some (file_cache_tail c), put_name b c)"
proof (rule cache_find_at)
  have len: "length (file_cache c) = CACHE_NUM" "file_cache_tail c < CACHE_NUM" using assms(1) by (auto simp: filled_to_tail_def)
  then show "file_cache_tail c < CACHE_NUM" "file_name (file_cache (put_name b c) ! file_cache_tail c) = b"
    by (simp_all add: put_name_def)
  show "file_name (file_cache (put_name b c) ! j) \<noteq> [] \<and> file_name (file_cache (put_name b c) ! j) \<noteq> b" if "j < file_cache_tail c" for j
  proof -
    have "file_cache c ! j \<in> set (take (file_cache_tail c) (file_cache c))" using that len by (auto simp: in_set_conv_nth)
    with assms len that show ?thesis by (auto simp: filled_to_tail_def put_name_def dest: in_set_takeD)
  qed
qed (use assms in auto)

text \<open>
  A request for a name that can be opened and not be read, a directory, is answered by closing the
  connection, but the name has been copied into the cache already: when the request is repeated, the server sends
  the contents that the entry at the tail held before, those of another file or none.
\<close>

theorem select_stale_reply:
  assumes "filled_to_tail c" "name_fits b" "b \<noteq> []" "\<not> is_forbidden b" "files b = Unreadable"
    and "\<forall>e \<in> set (file_cache c). file_name e \<noteq> b"
  shows "\<exists>c'. read_from_client files [] (Some b) c = Inr (-1, None, c') \<and>
     read_from_client files [] (Some b) c' = Inr (0, Some (cache_content (file_cache c ! file_cache_tail c)), c')"
proof (intro exI conjI)
  note arr = array_string_name [OF assms(2)]
  have "cache_find [] b 0 c = (None, c)" using assms(1,6) by (intro cache_find_absent) (auto simp: filled_to_tail_def)
  then show "read_from_client files [] (Some b) c = Inr (-1, None, put_name b c)"
    using assms arr by (simp add: read_from_client_def name_fits_def sig_at_def)
  have "cache_content (file_cache (put_name b c) ! file_cache_tail c) = cache_content (file_cache c ! file_cache_tail c)"
    using assms(1) by (simp add: put_name_def filled_to_tail_def)
  then show "read_from_client files [] (Some b) (put_name b c) = Inr (0, Some (cache_content (file_cache c ! file_cache_tail c)), put_name b c)"
    using assms(3,4) arr cache_find_put_name [OF assms(1,3,6)] by (simp add: read_from_client_def sig_at_def)
qed

end
