(* ===== verification/Mytail.thy ===== *)
theory Mytail
  imports C_Strings
begin

text \<open>
  The program \<^verbatim>\<open>39/mytail.c\<close>, which prints the last lines of a file. It walks backwards through the file, one byte
  at a time, until it has seen one newline more than the lines it is asked for, and prints what follows.
\<close>

section \<open>The program\<close>

text \<open>How the program ends early: the usage message, an error of a system call, an overflow of an \<open>int\<close>, an
  array that does not fit on the stack, a string that is read behind the array that holds it.\<close>

datatype tail_fault = TailUsage | TailError | TailOverflow | TailStack | TailOverrun

text \<open>What it prints: its two kinds of messages, and the text.\<close>

datatype tail_print = LineEnd | TailOffset int | TailOutside int | TailText "uchar list"

definition INT_LIMIT :: nat where "INT_LIMIT = 2147483647"

text \<open>\<open>lseek(fd, d, SEEK_CUR)\<close>; a position before the file is an error and leaves the position as it is.\<close>

definition lseek_cur :: "nat \<Rightarrow> int \<Rightarrow> nat option" where
  "lseek_cur pos d = (if int pos + d < 0 then None else Some (nat (int pos + d)))"

text \<open>The loop that looks for newlines: \<open>c\<close> is the byte \<open>buff[0]\<close>, which keeps its value when \<open>read\<close> returns 0. The
  result is what is printed, the position, \<open>offset\<close> and \<open>lines\<close>. The result of \<open>lseek\<close> is cut to the 32 bits of \<open>offset\<close>.\<close>

function tail_loop :: "uchar list \<Rightarrow> uchar \<Rightarrow> nat \<Rightarrow> int \<Rightarrow> int \<Rightarrow> tail_print list \<times> nat \<times> int \<times> int" where
  "tail_loop bs c pos offset lines =
    (if lines > 0 then
       let c1 = (if pos < length bs then bs ! pos else c);
           pos1 = (if pos < length bs then pos + 1 else pos);
           prints = (if c1 = 10 then [LineEnd] else []);
           lines1 = (if c1 = 10 then lines - 1 else lines) in
       case lseek_cur pos1 (- 2) of
         None \<Rightarrow> (prints, pos1, - 1, lines1)
       | Some pos2 \<Rightarrow>
           if int32 (int pos2) = - 1 then (prints, pos2, - 1, lines1)
           else (case tail_loop bs c1 pos2 (int32 (int pos2)) lines1 of (ps, r) \<Rightarrow> (prints @ ps, r))
     else ([], pos, offset, lines))"
  by pat_completeness auto
termination
  by (relation "measure (\<lambda>(bs, c, pos, offset, lines). pos)") (auto simp: lseek_cur_def split: if_splits)

text \<open>\<open>printf("%s")\<close> of the array, which has the size of the file and zeros behind what has been read.\<close>

definition tail_text :: "uchar list \<Rightarrow> nat \<Rightarrow> tail_fault + uchar list" where
  "tail_text bs pos =
    (let buff = drop pos bs @ replicate (length bs - length (drop pos bs)) 0 in
     if 0 \<in> set buff then Inr (takeWhile (\<lambda>b. b \<noteq> 0) buff) else Inl TailOverrun)"

text \<open>\<open>main\<close> with the room on the stack and the arguments behind the name of the program; \<open>atoi\<close> of a number that is no \<open>int\<close>, and the two
  operations on its result, are undefined.\<close>

definition mytail :: "nat \<Rightarrow> (string \<Rightarrow> uchar list option) \<Rightarrow> (uchar list \<times> string) option \<Rightarrow> tail_fault + tail_print list" where
  "mytail stack fs argv =
    (case argv of
       None \<Rightarrow> Inl TailUsage
     | Some (opt, pathname) \<Rightarrow>
        if length opt \<le> 1 \<or> hd opt \<noteq> 45 then Inl TailUsage
        else if atoi (tl opt) \<ge> INT_LIMIT then Inl TailOverflow
        else case fs pathname of
          None \<Rightarrow> Inl TailError
        | Some bs \<Rightarrow>
           if bs = [] then Inl TailError
           else if length bs > stack then Inl TailStack
           else (case tail_loop bs 0 (length bs - 1) 0 (int (atoi (tl opt)) + 1) of
              (ps, pos, offset, lines) \<Rightarrow>
                if lines = 0 then
                  (case lseek_cur pos 2 of
                     None \<Rightarrow> Inl TailError
                   | Some pos' \<Rightarrow> map_sum id (\<lambda>s. ps @ [TailOffset offset, TailText s]) (tail_text bs pos'))
                else map_sum id (\<lambda>s. ps @ [TailOutside offset, TailText s]) (tail_text bs 0)))"

section \<open>The loop\<close>

declare tail_loop.simps [simp del]

text \<open>Inside a file of less than \<open>2 ^ 31\<close> bytes a round reads the byte at the position and ends at the first byte.\<close>

lemma tail_loop_byte:
  assumes "pos < length bs" "lines > 0" "length bs < 2 ^ 31"
  shows "tail_loop bs c pos offset lines =
    (let nl = (bs ! pos = 10); prints = (if nl then [LineEnd] else []); lines1 = (if nl then lines - 1 else lines) in
     case pos of 0 \<Rightarrow> (prints, 1, - 1, lines1)
     | Suc p \<Rightarrow> (case tail_loop bs (bs ! pos) p (int p) lines1 of (ps, r) \<Rightarrow> (prints @ ps, r)))"
proof (cases pos)
  case 0
  with assms show ?thesis by (subst tail_loop.simps) (simp add: Let_def lseek_cur_def)
next
  case (Suc p)
  then have "int32 (int p) = int p" using assms by (intro int32_id) auto
  with assms Suc show ?thesis by (subst tail_loop.simps) (simp add: Let_def lseek_cur_def)
qed

lemma tail_loop_0: "tail_loop bs c pos offset 0 = ([], pos, offset, 0)"
  by (subst tail_loop.simps) simp

text \<open>The bytes \<open>mid\<close> behind the newline that ends the search are passed over.\<close>

lemma tail_loop_found:
  "take (Suc pos) bs = pre @ 10 # mid \<Longrightarrow> pos < length bs \<Longrightarrow> length bs < 2 ^ 31 \<Longrightarrow> lines = int (count_list mid 10) + 1 \<Longrightarrow>
   tail_loop bs c pos offset lines =
     (replicate (count_list mid 10 + 1) LineEnd,
      if pre = [] then 1 else length pre - 1, if pre = [] then - 1 else int (length pre) - 1, 0)"
proof (induction mid arbitrary: pos lines c offset rule: rev_induct)
  case Nil
  then have len: "Suc pos = length (pre @ [10::uchar])" by (metis length_take min.absorb2 Suc_leI)
  with Nil have "bs ! pos = 10" by (metis append_Nil2 nth_append_length nth_take lessI length_append_singleton nat.inject)
  with Nil len show ?case
    by (cases pre) (auto simp: tail_loop_byte tail_loop_0 Let_def)
next
  case (snoc x mid)
  then have len: "Suc pos = length (pre @ 10 # mid @ [x])" by (metis length_take min.absorb2 Suc_leI)
  then obtain p where p: "pos = Suc p" by (cases pos) auto
  have x: "bs ! pos = x" and take: "take (Suc p) bs = pre @ 10 # mid"
    using snoc.prems(1,2) len p take_Suc_conv_app_nth [of pos bs] by auto
  have "p < length bs" using snoc.prems(2) p by simp
  note IH = snoc.IH [OF take this snoc.prems(3) refl]
  have lines: "lines > 0" "(if x = 10 then lines - 1 else lines) = int (count_list mid 10) + 1"
    using snoc.prems(4) by auto
  show ?case
    unfolding tail_loop_byte [OF snoc.prems(2) lines(1) snoc.prems(3)] x Let_def lines(2) by (simp add: p IH)
qed

text \<open>Without enough newlines the walk ends at the beginning of the file, with lines left.\<close>

lemma tail_loop_short:
  "pos < length bs \<Longrightarrow> length bs < 2 ^ 31 \<Longrightarrow> lines > int (count_list (take (Suc pos) bs) 10) \<Longrightarrow>
   \<exists>ps. tail_loop bs c pos offset lines = (ps, 1, - 1, lines - int (count_list (take (Suc pos) bs) 10))"
proof (induction pos arbitrary: lines c offset)
  case 0
  then show ?case by (cases bs) (auto simp: tail_loop_byte Let_def)
next
  case (Suc p)
  have t: "take (Suc (Suc p)) bs = take (Suc p) bs @ [bs ! Suc p]"
    using Suc.prems(1) by (simp add: take_Suc_conv_app_nth)
  have "lines > 0" using Suc.prems(3) by linarith
  with Suc.prems Suc.IH [of "if bs ! Suc p = 10 then lines - 1 else lines" "bs ! Suc p" "int p"] show ?case
    unfolding t by (auto simp: tail_loop_byte Let_def split: if_splits)
qed

section \<open>What is printed\<close>

lemma tail_text_suffix:
  assumes "pre \<noteq> []" "0 \<notin> set suf"
  shows "tail_text (pre @ suf) (length pre) = Inr suf"
proof -
  have "takeWhile (\<lambda>b. b \<noteq> 0) (suf @ replicate (length pre) 0) = suf"
    using assms(2) by (subst takeWhile_append2) auto
  with assms show ?thesis by (simp add: tail_text_def Let_def)
qed

lemma atoi_option: "atoi (tl (45 # decimal n)) = n"
  by (simp add: atoi_decimal)

lemma mytail_found:
  assumes "length (pre @ 10 # suf) \<le> stack" "length (pre @ 10 # suf) < 2 ^ 31" "fs name = Some (pre @ 10 # suf)" "n < INT_LIMIT" "count_list suf 10 = n" "length opt > 1" "hd opt = 45" "atoi (tl opt) = n"
  shows "mytail stack fs (Some (opt, name)) = map_sum id
     (\<lambda>s. replicate (n + 1) LineEnd @ [TailOffset (int (length pre) - 1), TailText s])
     (tail_text (pre @ 10 # suf) (if pre = [] then 3 else length pre + 1))"
proof -
  have "tail_loop (pre @ 10 # suf) 0 (length (pre @ 10 # suf) - 1) 0 (int n + 1) =
     (replicate (n + 1) LineEnd, if pre = [] then 1 else length pre - 1, if pre = [] then - 1 else int (length pre) - 1, 0)"
    using tail_loop_found [of "length (pre @ 10 # suf) - 1" "pre @ 10 # suf" pre suf "int n + 1"] assms(2,5) by simp
  moreover have "pre \<noteq> [] \<Longrightarrow> lseek_cur (length pre - 1) 2 = Some (length pre + 1)" "lseek_cur 1 2 = Some 3"
    by (cases pre) (auto simp: lseek_cur_def)
  ultimately show ?thesis using assms by (auto simp: mytail_def INT_LIMIT_def)
qed

text \<open>
  C20: for a file of less than 2 GiB that fits on the stack, the program prints exactly what follows the newline
  before the last \<open>n\<close> lines, if that newline is not the first byte of the file and no zero byte follows it. When the file ends
  with a newline, these are the last \<open>n\<close> lines.
\<close>

theorem mytail_prints_last_lines:
  assumes "length (pre @ 10 # suf) \<le> stack" "length (pre @ 10 # suf) < 2 ^ 31"
    and "fs name = Some (pre @ 10 # suf)" "pre \<noteq> []" "0 \<notin> set suf" "count_list suf 10 = n" "n < INT_LIMIT"
  shows "mytail stack fs (Some (45 # decimal n, name)) =
     Inr (replicate (n + 1) LineEnd @ [TailOffset (int (length pre) - 1), TailText suf])"
proof -
  have "tail_text (pre @ 10 # suf) (length pre + 1) = Inr suf"
    using tail_text_suffix [of "pre @ [10]" suf] assms(5) by simp
  moreover have "length (45 # decimal n) > 1" by (subst decimal.simps) simp
  ultimately show ?thesis using assms mytail_found [of pre suf stack fs name n "45 # decimal n"] atoi_option [of n] by simp
qed

theorem mytail_prints_last_lines_witness:
  "mytail 8388608 [''f'' \<mapsto> [97, 10, 98, 99, 10, 100, 10]] (Some (45 # decimal 2, ''f'')) =
     Inr (replicate 3 LineEnd @ [TailOffset 0, TailText [98, 99, 10, 100, 10]])"
proof -
  have "[''f'' \<mapsto> [97, 10, 98, 99, 10, 100, 10 :: uchar]] ''f'' = Some ([97] @ 10 # [98, 99, 10, 100, 10])" by simp
  moreover have "0 \<notin> set [98, 99, 10, 100, 10 :: uchar]" "count_list [98, 99, 10, 100, 10 :: uchar] 10 = 2" "2 < INT_LIMIT"
    by (simp_all add: INT_LIMIT_def)
  ultimately show ?thesis
    using mytail_prints_last_lines [of "[97]" "[98, 99, 10, 100, 10]" 8388608 "[''f'' \<mapsto> [97, 10, 98, 99, 10, 100, 10]]" "''f''" 2] by simp
qed

text \<open>When the newline that ends the search is the first byte of the file, \<open>lseek\<close> fails and leaves the position
  where it is, and the correction by 2 skips two bytes of the text.\<close>

lemma mytail_skips_two_bytes:
  assumes "length (10 # suf) \<le> stack" "length (10 # suf) < 2 ^ 31" "fs name = Some (10 # suf)" "0 \<notin> set suf" "count_list suf 10 = n" "n < INT_LIMIT"
  shows "mytail stack fs (Some (45 # decimal n, name)) = Inr (replicate (n + 1) LineEnd @ [TailOffset (- 1), TailText (drop 2 suf)])"
proof -
  let ?buff = "drop 3 (10 # suf) @ replicate (length (10 # suf) - length (drop 3 (10 # suf))) 0"
  have "takeWhile (\<lambda>b. b \<noteq> 0) ?buff = drop 2 suf"
    using assms(4) by (subst takeWhile_append2) (auto simp: numeral_3_eq_3 numeral_2_eq_2 dest: in_set_dropD)
  moreover have "0 \<in> set ?buff" by simp
  ultimately have "tail_text (10 # suf) 3 = Inr (drop 2 suf)" by (simp add: tail_text_def Let_def)
  moreover have "length (45 # decimal n) > 1" by (subst decimal.simps) simp
  ultimately show ?thesis using assms mytail_found [of "[]" suf stack fs name n "45 # decimal n"] atoi_option [of n] by simp
qed

text \<open>A file that is printed as a whole fills the array, which then has no zero byte: the output runs on.\<close>

lemma mytail_short_file_overruns:
  assumes "length bs \<le> stack" "length bs < 2 ^ 31" "fs name = Some bs" "bs \<noteq> []" "0 \<notin> set bs" "count_list bs 10 \<le> n" "n < INT_LIMIT"
  shows "mytail stack fs (Some (45 # decimal n, name)) = Inl TailOverrun"
proof -
  obtain ps where "tail_loop bs 0 (length bs - 1) 0 (int n + 1) = (ps, 1, - 1, int n + 1 - int (count_list bs 10))"
    using tail_loop_short [of "length bs - 1" bs "int n + 1" 0 0] assms(2,4,6) by auto
  moreover have "tail_text bs 0 = Inl TailOverrun" using assms(5) by (simp add: tail_text_def)
  moreover have "length (45 # decimal n) > 1" by (subst decimal.simps) simp
  ultimately show ?thesis using assms atoi_option [of n] by (simp add: mytail_def)
qed

end
