(* ===== verification/Vector.thy ===== *)
theory Vector
  imports Prelude
begin

text \<open>
  The growing array of \<^verbatim>\<open>14/vector.h\<close> and the program \<^verbatim>\<open>14/vector.c\<close> that uses it. A heap block is the list of its
  values, \<open>None\<close> where it has not been written. \<open>alloc n\<close> tells whether \<open>realloc\<close> finds room for \<open>n\<close> values.
\<close>

section \<open>The operations\<close>

record vector =
  vec_data :: "int option list"
  vec_size :: int
  vec_capacity :: int

text \<open>An access outside of the block, a null pointer, an overflow of \<open>capacity * 2\<close>.\<close>

datatype vec_fault = VecOverrun | VecNull | VecOverflow

definition realloc_block :: "int \<Rightarrow> int option list \<Rightarrow> int option list" where
  "realloc_block n d = take (nat n) d @ replicate (nat n - length d) None"

definition vec_store :: "int \<Rightarrow> int \<Rightarrow> vector \<Rightarrow> vec_fault + vector" where
  "vec_store i value v =
    (if 0 \<le> i \<and> i < int (length (vec_data v)) then Inr (v\<lparr>vec_data := (vec_data v)[nat i := Some value]\<rparr>) else Inl VecOverrun)"

definition vector_insertAtEnd :: "(int \<Rightarrow> bool) \<Rightarrow> int \<Rightarrow> vector \<Rightarrow> vec_fault + vector" where
  "vector_insertAtEnd alloc value v =
    (case (if vec_size v = vec_capacity v then
             let n = vec_capacity v * 2 in
             if n > 2147483647 then Inl VecOverflow
             else if alloc n then Inr (v\<lparr>vec_capacity := n, vec_data := realloc_block n (vec_data v)\<rparr>)
             else Inl VecNull
           else Inr v) of
       Inl err \<Rightarrow> Inl err
     | Inr v1 \<Rightarrow> vec_store (vec_size v1) value (v1\<lparr>vec_size := vec_size v1 + 1\<rparr>))"

definition vector_deleteAtEnd :: "(int \<Rightarrow> bool) \<Rightarrow> vector \<Rightarrow> vec_fault + vector" where
  "vector_deleteAtEnd alloc v =
    (case vec_store (vec_size v - 1) 0 (v\<lparr>vec_size := vec_size v - 1\<rparr>) of
       Inl err \<Rightarrow> Inl err
     | Inr v1 \<Rightarrow>
        if vec_size v1 = vec_capacity v1 div 4 then
          let n = vec_capacity v1 div 2 in
          Inr (v1\<lparr>vec_capacity := n, vec_data := (if alloc n then realloc_block n (vec_data v1) else [])\<rparr>)
        else Inr v1)"

definition vector_free :: "vector \<Rightarrow> vector" where
  "vector_free v = v\<lparr>vec_data := [], vec_size := 0, vec_capacity := 0\<rparr>"

text \<open>The vector \<open>main\<close> begins with, and calls of the two operations.\<close>

definition vector_start :: vector where
  "vector_start = \<lparr>vec_data = [Some 4], vec_size = 1, vec_capacity = 1\<rparr>"

datatype vec_op = VInsert int | VDelete

fun vec_do :: "(int \<Rightarrow> bool) \<Rightarrow> vec_op \<Rightarrow> vector \<Rightarrow> vec_fault + vector" where
  "vec_do alloc (VInsert x) v = vector_insertAtEnd alloc x v"
| "vec_do alloc VDelete v = vector_deleteAtEnd alloc v"

fun vec_run :: "(int \<Rightarrow> bool) \<Rightarrow> vec_op list \<Rightarrow> vector \<Rightarrow> vec_fault + vector" where
  "vec_run alloc [] v = Inr v"
| "vec_run alloc (op # os) v = (case vec_do alloc op v of Inl err \<Rightarrow> Inl err | Inr v1 \<Rightarrow> vec_run alloc os v1)"

text \<open>\<open>main\<close>: the values printed are the first three, the size and the capacity.\<close>

definition vector_main :: "(int \<Rightarrow> bool) \<Rightarrow> vec_fault + (int option list \<times> int \<times> int)" where
  "vector_main alloc =
    (case vec_run alloc [VInsert 5, VInsert 6, VInsert 7, VDelete] vector_start of
       Inl err \<Rightarrow> Inl err
     | Inr v \<Rightarrow> if length (vec_data v) < 3 then Inl VecOverrun
         else Inr (take 3 (vec_data v), vec_size v, vec_capacity v))"

section \<open>The list a vector stands for\<close>

fun list_op :: "vec_op \<Rightarrow> int list \<Rightarrow> int list" where
  "list_op (VInsert x) xs = xs @ [x]"
| "list_op VDelete xs = butlast xs"

text \<open>The vector is not emptied, and stays below 2^30 values.\<close>

fun legal_op :: "vec_op \<Rightarrow> nat \<Rightarrow> bool" where
  "legal_op (VInsert x) n = (n < 2 ^ 30)"
| "legal_op VDelete n = (2 \<le> n)"

fun legal_ops :: "vec_op list \<Rightarrow> int list \<Rightarrow> bool" where
  "legal_ops [] xs = True"
| "legal_ops (op # os) xs = (legal_op op (length xs) \<and> legal_ops os (list_op op xs))"

definition vec_rep :: "int list \<Rightarrow> vector \<Rightarrow> bool" where
  "vec_rep xs v \<longleftrightarrow> vec_size v = int (length xs) \<and> vec_capacity v = int (length (vec_data v)) \<and>
     take (length xs) (vec_data v) = map Some xs \<and> length xs \<le> length (vec_data v) \<and> length (vec_data v) < 4 * length xs"

lemma length_realloc_block [simp]: "length (realloc_block n d) = nat n"
  by (simp add: realloc_block_def)

lemma take_realloc_block: "k \<le> nat n \<Longrightarrow> k \<le> length d \<Longrightarrow> take k (realloc_block n d) = take k d"
  by (simp add: realloc_block_def min_def)

lemma vec_rep_store:
  assumes "length xs < length d" "take (length xs) d = map Some xs" "length d < 4 * (length xs + 1)"
  shows "\<exists>v'. vec_store (int (length xs)) x \<lparr>vec_data = d, vec_size = int (length xs) + 1, vec_capacity = int (length d)\<rparr> = Inr v'
    \<and> vec_rep (xs @ [x]) v'"
  using assms by (auto simp: vec_store_def vec_rep_def take_Suc_update)

lemma insert_rep:
  assumes "vec_rep xs v" "length xs < 2 ^ 30" "\<forall>n. alloc n"
  shows "\<exists>v'. vector_insertAtEnd alloc x v = Inr v' \<and> vec_rep (xs @ [x]) v'"
proof -
  obtain d where v: "v = \<lparr>vec_data = d, vec_size = int (length xs), vec_capacity = int (length d)\<rparr>"
    using assms(1) by (cases v) (auto simp: vec_rep_def)
  have d: "take (length xs) d = map Some xs" "length xs \<le> length d" "length d < 4 * length xs"
    using assms(1) v by (auto simp: vec_rep_def)
  show ?thesis
  proof (cases "length xs = length d")
    case True
    let ?d = "realloc_block (int (length d) * 2) d"
    have len: "length ?d = 2 * length xs" using True by simp
    have "length xs \<le> nat (int (length d) * 2)" using True by simp
    from take_realloc_block [OF this d(2)] have t: "take (length xs) ?d = map Some xs" unfolding d(1) .
    have "length xs < length ?d" "length ?d < 4 * (length xs + 1)" unfolding len using d(3) by auto
    from vec_rep_store [OF this(1) t this(2)]
    have "\<exists>v'. vec_store (int (length xs)) x \<lparr>vec_data = ?d, vec_size = int (length xs) + 1, vec_capacity = int (length ?d)\<rparr> = Inr v'
        \<and> vec_rep (xs @ [x]) v'" .
    moreover have "\<not> int (length d) * 2 > 2147483647" "alloc (int (length d) * 2)" using True assms(2,3) by auto
    ultimately show ?thesis using True unfolding v by (simp add: vector_insertAtEnd_def Let_def)
  next
    case False
    then have "length xs < length d" using d(2) by simp
    from vec_rep_store [OF this d(1)] d(3) False v show ?thesis by (simp add: vector_insertAtEnd_def)
  qed
qed

lemma delete_rep:
  assumes "vec_rep xs v" "2 \<le> length xs" "\<forall>n. alloc n"
  shows "\<exists>v'. vector_deleteAtEnd alloc v = Inr v' \<and> vec_rep (butlast xs) v'"
proof -
  obtain d where v: "v = \<lparr>vec_data = d, vec_size = int (length xs), vec_capacity = int (length d)\<rparr>"
    using assms(1) by (cases v) (auto simp: vec_rep_def)
  have d: "take (length xs) d = map Some xs" "length xs \<le> length d" "length d < 4 * length xs"
    using assms(1) v by (auto simp: vec_rep_def)
  let ?d = "d[length xs - 1 := Some 0]" and ?n = "length xs - 1"
  have "take ?n d = map Some (butlast xs)"
    using d(1) by (metis butlast_conv_take butlast_take diff_le_self length_map map_butlast take_all_iff d(2))
  then have t: "take ?n ?d = map Some (butlast xs)" by simp
  have st: "vec_store (int (length xs) - 1) 0 (v\<lparr>vec_size := int (length xs) - 1\<rparr>) =
      Inr \<lparr>vec_data = ?d, vec_size = int (length xs) - 1, vec_capacity = int (length d)\<rparr>"
    using assms(2) d(2) v by (auto simp: vec_store_def nat_diff_distrib)
  show ?thesis
  proof (cases "?n = length d div 4")
    case True
    then have n: "int (length xs) - 1 = int (length d) div 4" using assms(2) by linarith
    have "take ?n (realloc_block (int (length d) div 2) ?d) = map Some (butlast xs)"
      using t True by (subst take_realloc_block) auto
    with n True st assms(2,3) v show ?thesis
      by (auto simp: vector_deleteAtEnd_def Let_def vec_rep_def nat_div_distrib)
  next
    case False
    then have n: "int (length xs) - 1 \<noteq> int (length d) div 4" using assms(2) by linarith
    have "length d < 4 * ?n" using False d(3) by linarith
    with n st t d(2) v assms(2) show ?thesis by (auto simp: vector_deleteAtEnd_def vec_rep_def)
  qed
qed

lemma vec_run_rep:
  "vec_rep xs v \<Longrightarrow> legal_ops os xs \<Longrightarrow> \<forall>n. alloc n \<Longrightarrow>
     \<exists>v'. vec_run alloc os v = Inr v' \<and> vec_rep (fold list_op os xs) v'"
proof (induction os arbitrary: xs v)
  case (Cons op os)
  obtain v1 where v1: "vec_do alloc op v = Inr v1" "vec_rep (list_op op xs) v1"
    using Cons.prems(1,2) insert_rep [OF Cons.prems(1) _ Cons.prems(3)] delete_rep [OF Cons.prems(1) _ Cons.prems(3)]
    by (cases op) auto
  have "legal_ops os (list_op op xs)" using Cons.prems(2) by simp
  from Cons.IH [OF v1(2) this Cons.prems(3)] v1(1) show ?case by simp
qed simp

text \<open>
  C19: the vector is the list that insertions at the end and deletions of the last value make, and its block
  has room for all values and for less than four times as many, through every sequence of operations that
  does not empty it and inserts only while there are fewer than \<open>2 ^ 30\<close> values, when \<open>realloc\<close> succeeds.
\<close>

theorem vector_refines_list:
  assumes "legal_ops os [4]" "\<forall>n. alloc n"
  shows "\<exists>v. vec_run alloc os vector_start = Inr v \<and>
     take (nat (vec_size v)) (vec_data v) = map Some (fold list_op os [4]) \<and>
     vec_size v \<le> int (length (vec_data v)) \<and> int (length (vec_data v)) < 4 * vec_size v"
proof -
  have "vec_rep [4] vector_start" by (simp add: vec_rep_def vector_start_def)
  from vec_run_rep [OF this assms] show ?thesis by (auto simp: vec_rep_def)
qed

theorem vector_refines_list_witness:
  "\<exists>v. vec_run (\<lambda>n. True) [VInsert 5, VInsert 6, VInsert 7, VDelete] vector_start = Inr v \<and>
     take (nat (vec_size v)) (vec_data v) = [Some 4, Some 5, Some 6] \<and>
     vec_size v \<le> int (length (vec_data v)) \<and> int (length (vec_data v)) < 4 * vec_size v"
  using vector_refines_list [of "[VInsert 5, VInsert 6, VInsert 7, VDelete]" "\<lambda>n. True"] by simp

text \<open>The program of the repository prints the three values that are left, the size and the capacity.\<close>

lemma vector_main_prints: "vector_main (\<lambda>n. True) = Inr ([Some 4, Some 5, Some 6], 3, 4)"
  by code_simp

text \<open>A vector that is emptied at capacity 1 loses its block: the next insertion doubles 0 and writes behind it.\<close>

lemma vector_empty_overruns: "\<forall>n. alloc n \<Longrightarrow> vec_run alloc [VDelete, VInsert x] vector_start = Inl VecOverrun"
  by (simp add: vector_start_def vector_deleteAtEnd_def vector_insertAtEnd_def vec_store_def realloc_block_def)

end
