(* ===== verification/Spec2Isabelle.thy ===== *)
theory Spec2Isabelle
  imports Rwlock_Nostarve Mutex_Nostarve Barrier Xcheck_Contest3_Correct Lottery_Syscall Crc Pzip_Threads Btree
    Web_Server Wish Approximate_Counter Hand_Over_Hand Linked_Structures Udp Dining_Savages Fifo_Barbershop Hilzer Cigarette_Smokers Select_Server Mytail Vector
begin

text \<open>
  \<^bold>\<open>What this is.\<close> A verification library for the programs of this repository: solutions to the homework and
  the projects of a textbook on operating systems. The repository is not one program but a collection;
  the library models the ones with an algorithm of their own, translated from the C source statement by
  statement where threads interleave and function by function where they do not.

  \<^bold>\<open>How the parts hang together.\<close> The programs of chapter 31 share the semaphore wrappers of
  \<^verbatim>\<open>31/common_threads.h\<close>; the variants of the file system checker share the layout of the image
  (\<^verbatim>\<open>fs.h\<close>) and most of \<^verbatim>\<open>xcheck.c\<close>; the files of the lottery xv6 are one kernel, in which \<^verbatim>\<open>syscall.c\<close> calls
  \<^verbatim>\<open>sysproc.c\<close>, which calls \<^verbatim>\<open>proc.c\<close>; the web server consists of \<^verbatim>\<open>wserver.c\<close>, \<^verbatim>\<open>request.c\<close> and
  \<^verbatim>\<open>io_helper.c\<close>. The theories import each other along these calls.

  \<^bold>\<open>Foundations.\<close>
  \<^item> \<open>Prelude\<close>: the integer types of C as words, the wrap-around of \<open>int\<close> (\<open>int32\<close>), the error monad, counting of threads by program point, the
    interleaving of threads (\<open>reach\<close>, \<open>run_sched\<close>), and the two contracts as locales: \<open>thread_system\<close> (an
    invariant that every statement keeps) and \<open>live_system\<close> (a budget that every statement uses up and
    progress while the program has not finished). Every threaded program below is an interpretation of one
    of them, and its properties are read off the locale's lemmas.
  \<^item> \<open>Semaphore\<close>: \<open>Sem_wait\<close>, \<open>Sem_post\<close>, and \<open>Sem_open\<close> with its unlink-and-retry (\<^verbatim>\<open>31/common_threads.h\<close>).
  \<^item> \<open>C_Strings\<close>: \<open>strsep\<close>, \<open>strstr\<close>, \<open>atoi\<close> and scanning of words.

  \<^bold>\<open>Synchronisation (chapter 31).\<close> One statement is one step; a blocked \<open>sem_wait\<close> has no step.
  \<^item> \<open>Rwlock\<close> (\<^verbatim>\<open>reader-writer.c\<close>): readers and writers exclude each other, all runs end, and no increment of
    \<open>value\<close>, which is a load and a store, is lost.
  \<^item> \<open>Rwlock_Nostarve\<close> (\<^verbatim>\<open>reader-writer-nostarve.c\<close>): refines \<open>Rwlock\<close>, and a waiting writer is not overtaken.
  \<^item> \<open>Mutex_Nostarve\<close> (\<^verbatim>\<open>mutex-nostarve.c\<close>): mutual exclusion and bounded bypass, and how a semaphore name left
    behind by an earlier run breaks both.
  \<^item> \<open>Barrier\<close> (\<^verbatim>\<open>barrier.c\<close>): nobody passes before all have arrived; it terminates and resets itself,
    provided that no semaphore name is left over from an earlier run.
  \<^item> \<open>Dining_Savages\<close> (\<^verbatim>\<open>dining_savages.c\<close>): everybody eats once, the cook fills the pot as often as needed.
  \<^item> \<open>Fifo_Barbershop\<close> (\<^verbatim>\<open>FIFO_barbershop.c\<close>): haircuts in the order of arrival, within the capacity, and
    without deadlock.
  \<^item> \<open>Hilzer\<close> (\<^verbatim>\<open>Hilzers_barbershop.c\<close>): the three capacities are kept, but ushers and barbers read entries that
    their customers may have freed.
  \<^item> \<open>Cigarette_Smokers\<close> (\<^verbatim>\<open>cigarette_smokers.c\<close>): the smokers smoke in the order of the agents.

  \<^bold>\<open>Concurrent data structures (chapter 29).\<close>
  \<^item> \<open>Approximate_Counter\<close> (\<^verbatim>\<open>approximate_counter.c\<close>): how far the counter is behind the true count, as long as its 32-bit
    integers do not overflow.
  \<^item> \<open>Linked_Structures\<close> (\<^verbatim>\<open>concurrent_queue.c\<close>, \<^verbatim>\<open>concurrent-linked-list.c\<close>) on an explicit heap with the
    result of \<open>malloc\<close> as an argument: what the list does, and that \<open>Queue_Dequeue\<close> takes two nodes.
  \<^item> \<open>Hand_Over_Hand\<close> (\<^verbatim>\<open>hand-over-hand-locking-list.c\<close>): concurrent lookups end with the right answer.
  \<^item> \<open>Btree\<close> (\<^verbatim>\<open>btree.c\<close>): insertion with splits keeps the tree balanced, and distinct keys in order
    with their values; a key that is inserted again is stored twice.

  \<^bold>\<open>File system checker.\<close>
  \<^item> \<open>Xv6_Image\<close> decodes the structures of \<^verbatim>\<open>fs.h\<close> from the bytes of an image; reads behind the mapping are
    faults.
  \<^item> \<open>Xcheck\<close> is \<^verbatim>\<open>xcheck.c\<close>; \<open>Xcheck_Correct\<close> shows that it accepts exactly the images that satisfy a
    declarative predicate.
  \<^item> \<open>Xcheck_Contest1\<close>, \<open>Xcheck_Contest2\<close>, \<open>Xcheck_Contest3\<close> are the three contest variants: parents list their
    children; parent entries lead to the root (bounded by the depth of the call stack); lost inodes are
    repaired. \<open>Xcheck_Contest3_Correct\<close> shows what the repair does to the image.

  \<^bold>\<open>Lottery xv6.\<close>
  \<^item> \<open>Lottery_Random\<close>: the generator and the rejection loop \<open>getwinner\<close>. The loop has fuel; \<open>2 ^ 31\<close> rounds are
    enough because the generator has full period, and it never ends after the ticket total has overflowed.
  \<^item> \<open>Lottery_Proc\<close> is the process table and the scheduler of \<^verbatim>\<open>proc.c\<close>, each operation being the section it runs
    under \<open>ptable.lock\<close>, and \<open>fork\<close> two of them (\<open>allocproc\<close>, \<open>fork_copy\<close>); \<open>Lottery_Correct\<close> has the invariant of
    the table from boot on until \<open>nextpid\<close> overflows, the handshake of \<open>exit\<close> and \<open>wait\<close>, and which processes a
    round of the scheduler runs, or that it follows a null pointer.
  \<^item> \<open>Lottery_Syscall\<close> puts \<^verbatim>\<open>syscall.c\<close> and \<^verbatim>\<open>sysproc.c\<close> on top of it: user programs with arbitrary memory and
    registers (\<open>wstep\<close>, \<open>wreach\<close>). A system call keeps the invariant and touches no other process;
    pointer and string arguments stay inside the caller; \<open>getpinfo\<close> hands out the table. The virtual memory
    functions (\<open>vm\<close>) and the handlers of the file system (\<open>fs_handlers\<close>) are not in the repository and are
    parameters, with the named hypotheses \<open>vm_ok\<close> and \<open>fs_ok\<close> on the sizes they return.

  \<^bold>\<open>Web server.\<close> \<open>Web_Request\<close> is \<^verbatim>\<open>request.c\<close> and \<open>readline\<close> of \<^verbatim>\<open>io_helper.c\<close> over a connection that is the list of
  the results of its reads; \<open>Web_Server\<close> is \<^verbatim>\<open>wserver.c\<close>, the master and its workers. A static file is sent
  as it is; first in, first out with one worker or one slot serves the requests in order; with more of both,
  and with shortest file first, requests are mixed up or lost; a client that hangs up stops the server, and so
  does a failed \<open>fork\<close> or \<open>wait\<close>.

  \<^bold>\<open>Select server.\<close> \<open>Select_Server\<close> is \<^verbatim>\<open>33/server_select.c\<close>: the handler \<open>read_from_client\<close> with its cache of ten
  files, the signal that clears it, which can come between any two statements of the handler (\<open>sig_point\<close>), and the loop
  over the ready descriptors. The cache is transparent for names and files that fit, unless the signal comes
  between a hit and the answer to it; a name that cannot be read leaves an entry with the contents of another
  file.

  \<^bold>\<open>Tail and vector.\<close> \<open>Mytail\<close> (\<^verbatim>\<open>39/mytail.c\<close>) prints what follows the newline before the last lines, and skips two
  bytes or overruns its array at the beginning of the file; \<open>Vector\<close> (\<^verbatim>\<open>14/vector.h\<close>, \<^verbatim>\<open>vector.c\<close>) is a list as
  long as it is not emptied.

  \<^bold>\<open>Shell.\<close> \<open>Wish\<close> is \<^verbatim>\<open>wish.c\<close>: trimming, splitting, redirection, built-in commands and the main loop,
  with the threads of a line interleaved access by access to the shared array \<open>paths\<close>. The shell keeps to its arrays
  when no line has both a \<open>path\<close> command and a program; otherwise the two race for \<open>paths[0]\<close>. A thread that
  cannot be created is joined nevertheless.

  \<^bold>\<open>Compression, checksums, utilities and datagrams.\<close> \<open>Pzip\<close> and \<open>Pzip_Threads\<close> (\<^verbatim>\<open>pzip.c\<close>), \<open>Checksum\<close>
  (\<^verbatim>\<open>45/check-*.c\<close>, \<^verbatim>\<open>create-csum.c\<close>), \<open>Crc\<close> (\<^verbatim>\<open>45/crc*.c\<close>), \<open>Utilities\<close> (\<^verbatim>\<open>wcat\<close>, \<^verbatim>\<open>wgrep\<close>, \<^verbatim>\<open>wzip\<close>, \<^verbatim>\<open>wunzip\<close>,
  \<^verbatim>\<open>reverse\<close>) and \<open>Udp\<close> (\<^verbatim>\<open>48/UDP-lib.h\<close>): the parallel compressor agrees with run-length encoding of the
  concatenated files, when it is not stopped by the cancellation of its workers; compression and
  decompression are inverse on files without zero bytes, given zeroed local arrays; a CRC detects bursts; a
  long message overruns the receiver's buffer.

  \<^bold>\<open>Bounds and fuel.\<close> Loops that always end are recursive functions with a measure. Loops that may not end
  are \<open>partial_function (option)\<close> (the loop over the header lines in \<open>Web_Request\<close>, the walks along the chains of \<open>Linked_Structures\<close>) or carry fuel: \<open>getwinner\<close> (see above),
  \<open>trace_parent\<close> of the second contest (the depth of the call stack, where running out is the stack
  overflow) and \<open>UDP_Write\<close> (the list of answers to come). Schedules are finite lists of thread numbers of
  any length. Machine integers are words, or integers cut by \<open>int32\<close> after every operation, wherever
  they can wrap around; the theorems that need it assume that the count in question stays below \<open>2 ^ 31\<close>. Loop
  counters over lists and arrays of the model are natural numbers.

  \<^bold>\<open>Not modelled.\<close> Programs that only demonstrate calls of the operating system or measure time (chapters 5, 6,
  13, 14, 19 and 21, the asynchronous I/O examples of chapter 33, the directory tools of chapter 39); the servers
  of chapter 33 around epoll, io_uring and libevent and the signal-driven variants of the datagram library,
  whose behaviour is that of the system calls they string together; \<^verbatim>\<open>rendezvous.c\<close>, \<^verbatim>\<open>fork-join.c\<close> and the barber
  shop without a queue, smaller relatives of the barrier and of \<^verbatim>\<open>FIFO_barbershop.c\<close>; copies of the third contest with debugging output; wrappers
  that assert the result of a library call; headers with declarations only; tests and the kernel patches
  without their kernel.
\<close>

end
